(* ===== verification/Prelude.thy ===== *)
theory Prelude
  imports
    Main
    "HOL-Library.Word"
    "HOL-Library.Sublist"
    "HOL-Library.List_Lexorder"
    "HOL-Library.Char_ord"
    "HOL-Library.AList"
    "HOL-Library.Multiset"
begin

text \<open>
  Shared vocabulary of the development: Go's machine integers, byte slices and strings,
  and the functions of the packages \<open>bytes\<close>, \<open>strings\<close> and \<open>sort\<close> that the sources
  call, each with the lemma that characterises it.

  A Go \<open>string\<close> and a Go \<open>[]byte\<close> are both sequences of bytes, so both are \<open>byte list\<close>
  here; comparison of strings is the lexicographic order of \<open>List_Lexorder\<close> on unsigned
  bytes. An index result of \<open>-1\<close> is \<open>None\<close>.
\<close>

type_synonym byte = "8 word"
type_synonym bytes = "byte list"
type_synonym gostring = "byte list"
type_synonym u16 = "16 word"
type_synonym u32 = "32 word"
type_synonym u64 = "64 word"

definition str :: "string \<Rightarrow> gostring" where
  "str s = map of_char s"

abbreviation newline :: byte where "newline \<equiv> 10"
abbreviation slash :: byte where "slash \<equiv> 47"

named_theorems index_simps
  \<open>characterisations of the index functions of bytes and strings\<close>
named_theorems trigram_simps
  \<open>facts about trigram keys and posting lists\<close>
named_theorems codec_simps
  \<open>round trips of the shard file encodings\<close>

lemma unat_ucast_up [simp]:
  fixes x :: "'a::len word"
  assumes "LENGTH('a) \<le> LENGTH('b::len)"
  shows "unat (ucast x :: 'b word) = unat x"
proof -
  have "unat x < 2 ^ LENGTH('b)"
    by (rule less_le_trans [OF unsigned_less]) (simp add: assms)
  then show ?thesis by (simp add: unsigned_ucast_eq take_bit_nat_eq_self)
qed

lemma byte_less_256 [simp]: "unat (b :: byte) < 256"
  using unsigned_less [of b] by simp

subsection \<open>bytes and strings\<close>

fun IndexByte :: "bytes \<Rightarrow> byte \<Rightarrow> nat option" where
  "IndexByte [] c = None"
| "IndexByte (x # xs) c = (if x = c then Some 0 else map_option Suc (IndexByte xs c))"

fun LastIndexByte :: "bytes \<Rightarrow> byte \<Rightarrow> nat option" where
  "LastIndexByte [] c = None"
| "LastIndexByte (x # xs) c =
     (case LastIndexByte xs c of
        Some i \<Rightarrow> Some (Suc i)
      | None \<Rightarrow> if x = c then Some 0 else None)"

fun bytes_Index :: "bytes \<Rightarrow> bytes \<Rightarrow> nat option" where
  "bytes_Index [] sep = (if sep = [] then Some 0 else None)"
| "bytes_Index (x # xs) sep =
     (if prefix sep (x # xs) then Some 0 else map_option Suc (bytes_Index xs sep))"

definition Contains :: "bytes \<Rightarrow> bytes \<Rightarrow> bool" where
  "Contains s sep \<longleftrightarrow> bytes_Index s sep \<noteq> None"

definition HasPrefix :: "bytes \<Rightarrow> bytes \<Rightarrow> bool" where
  "HasPrefix s p \<longleftrightarrow> prefix p s"

definition HasSuffix :: "bytes \<Rightarrow> bytes \<Rightarrow> bool" where
  "HasSuffix s p \<longleftrightarrow> suffix p s"

definition TrimPrefix :: "bytes \<Rightarrow> bytes \<Rightarrow> bytes" where
  "TrimPrefix s p = (if HasPrefix s p then drop (length p) s else s)"

definition TrimSuffix :: "bytes \<Rightarrow> bytes \<Rightarrow> bytes" where
  "TrimSuffix s p = (if HasSuffix s p then take (length s - length p) s else s)"

text \<open>\<open>s[i:j]\<close> of a slice whose bounds are in range.\<close>

definition slice :: "'a list \<Rightarrow> nat \<Rightarrow> nat \<Rightarrow> 'a list" where
  "slice s i j = take (j - i) (drop i s)"

lemma length_slice [simp]: "j \<le> length s \<Longrightarrow> length (slice s i j) = j - i"
  by (auto simp: slice_def)

lemma slice_0 [simp]: "slice s 0 j = take j s"
  by (simp add: slice_def)

lemma slice_to_end: "length s \<le> j \<Longrightarrow> slice s i j = drop i s"
  by (simp add: slice_def)

lemma slice_join: "i \<le> j \<Longrightarrow> j \<le> k \<Longrightarrow> slice s i j @ slice s j k = slice s i k"
  using take_add [of "j - i" "k - j" "drop i s"] by (simp add: slice_def)

lemma take_slice: "i \<le> j \<Longrightarrow> take i s @ slice s i j = take j s"
  using slice_join [of 0 i j s] by simp

lemma slice_append_mid:
  "i = length a \<Longrightarrow> j = i + length b \<Longrightarrow> slice (a @ b @ c) i j = b"
  by (simp add: slice_def)

lemma slice_prefix_eq: "i + length p \<le> length s \<Longrightarrow> slice s i (i + length p) = p \<longleftrightarrow> prefix p (drop i s)"
  by (auto simp: slice_def prefix_def) (metis append_take_drop_id)

lemma prefix_drop_nth:
  "prefix p (drop i s) \<longleftrightarrow> i + length p \<le> length s \<and> (\<forall>k < length p. s ! (i + k) = p ! k) \<or> p = []"
proof (cases "p = []")
  case False
  have "prefix p (drop i s) \<longleftrightarrow> length p \<le> length (drop i s) \<and> take (length p) (drop i s) = p"
    by (metis append_eq_conv_conj prefix_def prefix_length_le take_is_prefix)
  also have "\<dots> \<longleftrightarrow> length p \<le> length (drop i s) \<and> (\<forall>k < length p. drop i s ! k = p ! k)"
    by (auto simp: list_eq_iff_nth_eq)
  finally show ?thesis
    using False by (cases "i \<le> length s") auto
qed simp

text \<open>Each index function returns the first (last) position that qualifies.\<close>

lemma IndexByte_Some_iff [index_simps]:
  "IndexByte s c = Some i \<longleftrightarrow> i < length s \<and> s ! i = c \<and> (\<forall>j < i. s ! j \<noteq> c)"
proof (induction s arbitrary: i)
  case (Cons x xs)
  show ?case
  proof (cases i)
    case 0
    then show ?thesis by auto
  next
    case (Suc k)
    then show ?thesis
      by (auto simp: Cons.IH less_Suc_eq_0_disj)
  qed
qed simp

lemma IndexByte_None_iff [index_simps]: "IndexByte s c = None \<longleftrightarrow> c \<notin> set s"
  by (induction s) auto

lemma IndexByte_SomeD:
  "IndexByte s c = Some i \<Longrightarrow> i < length s \<and> s ! i = c \<and> c \<notin> set (take i s)"
  by (auto simp: IndexByte_Some_iff in_set_conv_nth)

lemma IndexByte_append:
  "IndexByte (a @ b) c =
     (if c \<in> set a then IndexByte a c else map_option (\<lambda>i. i + length a) (IndexByte b c))"
  by (induction a) (auto simp: option.map_comp comp_def option.map_ident)

lemma LastIndexByte_None_iff [index_simps]: "LastIndexByte s c = None \<longleftrightarrow> c \<notin> set s"
  by (induction s) (auto split: option.splits)

lemma LastIndexByte_Some_iff [index_simps]:
  "LastIndexByte s c = Some i \<longleftrightarrow> i < length s \<and> s ! i = c \<and> c \<notin> set (drop (Suc i) s)"
proof (induction s arbitrary: i)
  case (Cons x xs)
  show ?case
  proof (cases i)
    case 0
    then show ?thesis
      using LastIndexByte_None_iff [of xs c] by (auto split: option.splits)
  next
    case (Suc k)
    have "xs ! k \<in> set xs" if "k < length xs"
      using that by simp
    then show ?thesis
      using Suc by (auto simp: Cons.IH LastIndexByte_None_iff split: option.splits)
        (metis LastIndexByte_None_iff option.distinct(1) option.inject Cons.IH)+
  qed
qed simp

lemma bytes_Index_Some_iff [index_simps]:
  "bytes_Index s sep = Some i \<longleftrightarrow>
     i \<le> length s \<and> prefix sep (drop i s) \<and> (\<forall>j < i. \<not> prefix sep (drop j s))"
proof (induction s arbitrary: i)
  case (Cons x xs)
  show ?case
  proof (cases i)
    case 0
    then show ?thesis by auto
  next
    case (Suc k)
    then show ?thesis
      by (auto simp: Cons.IH less_Suc_eq_0_disj)
  qed
qed auto

lemma bytes_Index_None_iff [index_simps]:
  "bytes_Index s sep = None \<longleftrightarrow> (\<forall>j \<le> length s. \<not> prefix sep (drop j s))"
proof (induction s)
  case (Cons x xs)
  then show ?case
    by (auto simp: less_Suc_eq_0_disj) (metis drop_Suc_Cons Suc_le_mono old.nat.exhaust drop0)
qed auto

lemma bytes_Index_bound: "bytes_Index s sep = Some i \<Longrightarrow> i + length sep \<le> length s"
  by (auto simp: bytes_Index_Some_iff dest!: prefix_length_le)

lemma Contains_iff: "Contains s sep \<longleftrightarrow> sublist sep s"
proof
  assume "Contains s sep"
  then obtain j where "prefix sep (drop j s)"
    by (auto simp: Contains_def bytes_Index_None_iff)
  then show "sublist sep s"
    by (metis sublist_def prefix_def append_take_drop_id)
next
  assume "sublist sep s"
  then obtain a b where "s = a @ sep @ b"
    by (auto simp: sublist_def)
  then have "length a \<le> length s" and "prefix sep (drop (length a) s)"
    by auto
  then show "Contains s sep"
    by (auto simp: Contains_def bytes_Index_None_iff)
qed

lemma TrimPrefix_append [simp]: "TrimPrefix (p @ s) p = s"
  by (simp add: TrimPrefix_def HasPrefix_def)

subsection \<open>sort.Search\<close>

text \<open>
  \<open>sort.Search(n, f)\<close>: binary search for the smallest index in \<open>[0, n)\<close> at which \<open>f\<close> is
  true, \<open>n\<close> if there is none; \<open>f\<close> has to be monotone.
\<close>

function search_loop :: "(nat \<Rightarrow> bool) \<Rightarrow> nat \<Rightarrow> nat \<Rightarrow> nat" where
  "search_loop f i j =
     (if i < j then
        let h = (i + j) div 2 in
        if \<not> f h then search_loop f (h + 1) j else search_loop f i h
      else i)"
  by pat_completeness auto
termination
  by (relation "measure (\<lambda>(f, i, j). j - i)") auto

declare search_loop.simps [simp del]

definition sort_Search :: "nat \<Rightarrow> (nat \<Rightarrow> bool) \<Rightarrow> nat" where
  "sort_Search n f = search_loop f 0 n"

lemma search_loop_correct:
  assumes "i \<le> j"
    and "\<And>a b. a \<le> b \<Longrightarrow> b < n \<Longrightarrow> f a \<Longrightarrow> f b"
    and "j \<le> n" and "\<And>k. k < i \<Longrightarrow> \<not> f k" and "\<And>k. j \<le> k \<Longrightarrow> k < n \<Longrightarrow> f k"
  shows "search_loop f i j \<le> n \<and> (\<forall>k < search_loop f i j. \<not> f k) \<and>
         (\<forall>k. search_loop f i j \<le> k \<and> k < n \<longrightarrow> f k)"
  using assms
proof (induction f i j rule: search_loop.induct)
  case (1 f i j)
  show ?case
  proof (cases "i < j")
    case False
    then have "search_loop f i j = i" by (simp add: search_loop.simps [of f i j])
    with False "1.prems" show ?thesis by simp
  next
    case True
    define h where "h = (i + j) div 2"
    have h: "i \<le> h" "h < j" using True by (auto simp: h_def)
    show ?thesis
    proof (cases "f h")
      case False
      have eq: "search_loop f i j = search_loop f (h + 1) j"
        using True False by (simp add: search_loop.simps [of f i j] Let_def flip: h_def)
      have below: "\<not> f k" if "k < h + 1" for k
        using that False "1.prems"(2) [of k h] "1.prems"(3) h by auto
      have "h + 1 \<le> j" using h by simp
      from "1.IH"(1) [OF True h_def False this "1.prems"(2,3) below "1.prems"(5)]
      show ?thesis unfolding eq .
    next
      case fh: True
      have eq: "search_loop f i j = search_loop f i h"
        using True fh by (simp add: search_loop.simps [of f i j] Let_def flip: h_def)
      have above: "f k" if "h \<le> k" "k < n" for k
        using that fh "1.prems"(2) [of h k] by blast
      have hn: "h \<le> n" "\<not> \<not> f h" using h "1.prems"(3) fh by simp_all
      from "1.IH"(2) [OF True h_def hn(2) h(1) "1.prems"(2) hn(1) "1.prems"(4) above]
      show ?thesis unfolding eq .
    qed
  qed
qed

lemma sort_Search_correct:
  assumes "\<And>a b. a \<le> b \<Longrightarrow> b < n \<Longrightarrow> f a \<Longrightarrow> f b"
  shows "sort_Search n f \<le> n"
    and "k < sort_Search n f \<Longrightarrow> \<not> f k"
    and "sort_Search n f \<le> k \<Longrightarrow> k < n \<Longrightarrow> f k"
  using search_loop_correct [of 0 n n f] assms by (auto simp: sort_Search_def)

end
