(* ===== verification/Codec.thy ===== *)
theory Codec
  imports Prelude
begin

text \<open>
  The byte encodings of the shard format: the little-endian integers of \<open>encoding/binary\<close> and
  the variable-length integers behind \<open>internal/shard/varint.go\<close>. An access out of range is a
  Go panic and is the value \<open>None\<close>. The interface \<open>byte_codec\<close> is what the section readers rely on.
\<close>

unbundle bit_operations_syntax

subsection \<open>Slicing that panics\<close>

definition sliceFrom :: "bytes \<Rightarrow> int \<Rightarrow> bytes option" where
  "sliceFrom d i = (if 0 \<le> i \<and> i \<le> int (length d) then Some (drop (nat i) d) else None)"

definition sliceRange :: "bytes \<Rightarrow> int \<Rightarrow> int \<Rightarrow> bytes option" where
  "sliceRange d i j =
     (if 0 \<le> i \<and> i \<le> j \<and> j \<le> int (length d) then Some (slice d (nat i) (nat j)) else None)"

lemma sliceFrom_append [codec_simps]: "i = int (length a) \<Longrightarrow> sliceFrom (a @ b) i = Some b"
  by (simp add: sliceFrom_def)

lemma sliceFrom_into [codec_simps]:
  "0 \<le> k \<Longrightarrow> k \<le> int (length x) \<Longrightarrow> sliceFrom (a @ x) (int (length a) + k) = Some (drop (nat k) x)"
  by (simp add: sliceFrom_def nat_add_distrib)

lemma sliceRange_append [codec_simps]:
  "i = int (length a) \<Longrightarrow> j = i + int (length b) \<Longrightarrow> sliceRange (a @ b @ c) i j = Some b"
  by (simp add: sliceRange_def slice_append_mid nat_add_distrib)

subsection \<open>Little-endian integers\<close>

definition PutUint16 :: "u16 \<Rightarrow> bytes" where
  "PutUint16 v = [ucast v, ucast (drop_bit 8 v)]"

definition PutUint32 :: "u32 \<Rightarrow> bytes" where
  "PutUint32 v = [ucast v, ucast (drop_bit 8 v), ucast (drop_bit 16 v), ucast (drop_bit 24 v)]"

definition PutUint64 :: "u64 \<Rightarrow> bytes" where
  "PutUint64 v = [ucast v, ucast (drop_bit 8 v), ucast (drop_bit 16 v), ucast (drop_bit 24 v),
     ucast (drop_bit 32 v), ucast (drop_bit 40 v), ucast (drop_bit 48 v), ucast (drop_bit 56 v)]"

fun Uint16 :: "bytes \<Rightarrow> u16 option" where
  "Uint16 (a # b # _) = Some (ucast a OR push_bit 8 (ucast b))"
| "Uint16 _ = None"

fun Uint32 :: "bytes \<Rightarrow> u32 option" where
  "Uint32 (a # b # c # d # _) =
     Some (ucast a OR push_bit 8 (ucast b) OR push_bit 16 (ucast c) OR push_bit 24 (ucast d))"
| "Uint32 _ = None"

fun Uint64 :: "bytes \<Rightarrow> u64 option" where
  "Uint64 (a # b # c # d # e # f # g # h # _) =
     Some (ucast a OR push_bit 8 (ucast b) OR push_bit 16 (ucast c) OR push_bit 24 (ucast d) OR
           push_bit 32 (ucast e) OR push_bit 40 (ucast f) OR push_bit 48 (ucast g) OR push_bit 56 (ucast h))"
| "Uint64 _ = None"

text \<open>Adding the next byte of a word extends the part that has been read by eight bits.\<close>

lemma ucast_byte_ucast: "ucast (ucast v :: byte) = take_bit 8 v" for v :: "'a::len word"
  by (rule bit_word_eqI) (auto simp: bit_simps)

lemma byte_step:
  fixes v :: "'a::len word"
  shows "take_bit k v OR push_bit k (take_bit 8 (drop_bit k v)) = take_bit (k + 8) v"
proof (rule bit_word_eqI)
  fix n assume "n < LENGTH('a)"
  then show "bit (take_bit k v OR push_bit k (take_bit 8 (drop_bit k v))) n = bit (take_bit (k + 8) v) n"
    by (cases "k \<le> n") (auto simp: bit_simps)
qed

lemma byte_steps:
  fixes v :: "'a::len word"
  shows "take_bit 8 v OR push_bit 8 (take_bit 8 (drop_bit 8 v)) OR x = take_bit 16 v OR x"
    and "take_bit 16 v OR push_bit 16 (take_bit 8 (drop_bit 16 v)) OR x = take_bit 24 v OR x"
    and "take_bit 24 v OR push_bit 24 (take_bit 8 (drop_bit 24 v)) OR x = take_bit 32 v OR x"
    and "take_bit 32 v OR push_bit 32 (take_bit 8 (drop_bit 32 v)) OR x = take_bit 40 v OR x"
    and "take_bit 40 v OR push_bit 40 (take_bit 8 (drop_bit 40 v)) OR x = take_bit 48 v OR x"
    and "take_bit 48 v OR push_bit 48 (take_bit 8 (drop_bit 48 v)) OR x = take_bit 56 v OR x"
  using byte_step [of 8 v] byte_step [of 16 v] byte_step [of 24 v] byte_step [of 32 v]
    byte_step [of 40 v] byte_step [of 48 v]
  by (simp_all flip: or.assoc)

lemma take_bit_word_self: "LENGTH('a) \<le> k \<Longrightarrow> take_bit k v = v" for v :: "'a::len word"
  by (rule bit_word_eqI) (auto simp: bit_simps)

lemma Uint16_Put [simp]: "Uint16 (PutUint16 v @ r) = Some v"
  using byte_step [of 8 v] by (simp add: PutUint16_def ucast_byte_ucast take_bit_word_self)

lemma Uint32_Put [simp]: "Uint32 (PutUint32 v @ r) = Some v"
  using byte_step [of 24 v] by (simp add: PutUint32_def ucast_byte_ucast byte_steps take_bit_word_self)

lemma Uint64_Put [simp]: "Uint64 (PutUint64 v @ r) = Some v"
  using byte_step [of 56 v] by (simp add: PutUint64_def ucast_byte_ucast byte_steps take_bit_word_self)

lemma length_Put [simp]:
  "length (PutUint16 v) = 2" "length (PutUint32 w) = 4" "length (PutUint64 x) = 8"
  by (simp_all add: PutUint16_def PutUint32_def PutUint64_def)

subsection \<open>Variable-length integers\<close>

text \<open>\<open>binary.PutUvarint\<close> and \<open>binary.Uvarint\<close>: seven bits a byte, the high bit says that more
  follow; the count is 0 when the buffer ends early and negative on overflow.\<close>

function PutUvarint :: "u64 \<Rightarrow> bytes" where
  "PutUvarint x =
     (if x \<ge> 0x80 then (ucast x OR 0x80) # PutUvarint (drop_bit 7 x) else [ucast x])"
  by pat_completeness auto
termination
proof (relation "measure unat")
  fix x :: u64 assume "0x80 \<le> x"
  then have "unat x div 2 ^ 7 < unat x" by (simp add: word_le_nat_alt)
  then show "(drop_bit 7 x, x) \<in> measure unat" by (simp add: drop_bit_eq_div unat_div_distrib)
qed simp

declare PutUvarint.simps [simp del]

definition MaxVarintLen64 :: nat where "MaxVarintLen64 = 10"

fun Uvarint_loop :: "nat \<Rightarrow> u64 \<Rightarrow> nat \<Rightarrow> bytes \<Rightarrow> u64 \<times> int" where
  "Uvarint_loop i x s [] = (0, 0)"
| "Uvarint_loop i x s (b # buf) =
     (if i = MaxVarintLen64 then (0, - (int i + 1))
      else if b < 0x80 then
        if i = MaxVarintLen64 - 1 \<and> b > 1 then (0, - (int i + 1))
        else (x OR push_bit s (ucast b), int i + 1)
      else Uvarint_loop (i + 1) (x OR push_bit s (ucast (b AND 0x7f))) (s + 7) buf)"

definition Uvarint :: "bytes \<Rightarrow> u64 \<times> int" where
  "Uvarint buf = Uvarint_loop 0 0 0 buf"

definition appendUvarint :: "bytes \<Rightarrow> u64 \<Rightarrow> bytes" where
  "appendUvarint b x = b @ PutUvarint x"

definition readUvarint :: "bytes \<Rightarrow> int \<Rightarrow> (u64 \<times> int) option" where
  "readUvarint data pos = map_option (\<lambda>d. case Uvarint d of (v, n) \<Rightarrow> (v, pos + n)) (sliceFrom data pos)"

lemma bit_0x7f: "bit (0x7f :: byte) n \<longleftrightarrow> n < 7"
  using bit_mask_iff [where 'a = byte, of 7 n] by (auto simp: mask_eq_exp_minus_1)

lemma bit_0x80: "bit (0x80 :: byte) n \<longleftrightarrow> n = 7"
  using bit_exp_iff [where 'a = byte, of 7 n] by auto

lemma low_seven_bits: "(b OR 0x80) AND 0x7f = take_bit 7 b" for b :: byte
  by (rule bit_word_eqI) (simp only: bit_and_iff bit_or_iff bit_0x7f bit_0x80 bit_take_bit_iff, auto)

lemma low_bits_or:
  "push_bit s (ucast ((ucast v OR 0x80 :: byte) AND 0x7f) :: u64) OR push_bit (s + 7) (drop_bit 7 v) = push_bit s v"
proof -
  have "push_bit s (ucast ((ucast v OR 0x80 :: byte) AND 0x7f) :: u64) = push_bit s (take_bit 7 v)"
    unfolding low_seven_bits
    by (intro arg_cong [where f = "push_bit s"] bit_word_eqI) (auto simp: bit_simps)
  moreover have "take_bit 7 v OR push_bit 7 (drop_bit 7 v) = v"
  proof (rule bit_word_eqI)
    fix n assume "n < LENGTH(64)"
    then show "bit (take_bit 7 v OR push_bit 7 (drop_bit 7 v)) n = bit v n"
      by (cases "7 \<le> n") (auto simp: bit_simps)
  qed
  ultimately show ?thesis
    by (metis push_bit_or push_bit_push_bit add.commute)
qed

lemma Uvarint_loop_Put:
  assumes "s = 7 * i" and "i \<le> 9" and "unat v < 2 ^ (64 - s)"
  shows "Uvarint_loop i x s (PutUvarint v @ r) = (x OR push_bit s v, int i + int (length (PutUvarint v)))"
  using assms
proof (induction v arbitrary: i x s rule: PutUvarint.induct)
  case (1 v)
  show ?case
  proof (cases "v \<ge> 0x80")
    case False
    then have v: "unat v < 128" by (simp add: word_le_nat_alt)
    then have b: "unat (ucast v :: byte) = unat v" by (simp add: unsigned_ucast_eq take_bit_nat_eq_self)
    have "ucast (ucast v :: byte) = v" using b by (simp add: word_unat_eq_iff)
    moreover have "(ucast v :: byte) < 0x80" using v b by (simp add: word_less_nat_alt)
    moreover have "\<not> (1 :: byte) < ucast v" if "i = 9"
      using "1.prems" that b by (simp add: word_less_nat_alt)
    ultimately show ?thesis
      using False "1.prems" by (simp add: PutUvarint.simps [of v] MaxVarintLen64_def)
  next
    case True
    let ?b = "ucast v OR 0x80 :: byte"
    have "128 \<le> unat v" using True by (simp add: word_le_nat_alt)
    then have "i \<noteq> 9" using "1.prems" by auto
    have "\<not> ?b < 0x80"
    proof
      assume "?b < 0x80"
      then have "take_bit 7 ?b = ?b"
        by (simp only: word_unat_eq_iff unsigned_take_bit_eq)
          (simp add: word_less_nat_alt take_bit_nat_eq_self)
      moreover have "bit ?b 7" by (simp add: bit_simps bit_0x80)
      ultimately show False using bit_take_bit_iff [of 7 ?b 7] by simp
    qed
    moreover have "unat (drop_bit 7 v) < 2 ^ (64 - (s + 7))"
    proof -
      have "64 - s = (64 - (s + 7)) + 7" using "1.prems"(1,2) \<open>i \<noteq> 9\<close> by simp
      then have "unat v < 2 ^ (64 - (s + 7)) * 2 ^ 7" using "1.prems"(3) by (simp only: power_add)
      then show ?thesis by (simp add: drop_bit_eq_div unat_div_distrib less_mult_imp_div_less)
    qed
    ultimately show ?thesis
      using "1.IH" [OF True, of "s + 7" "i + 1" "x OR push_bit s (ucast (?b AND 0x7f))"] True "1.prems" \<open>i \<noteq> 9\<close>
      by (simp add: PutUvarint.simps [of v] MaxVarintLen64_def low_bits_or or.assoc)
  qed
qed

lemma Uvarint_Put [simp]: "Uvarint (PutUvarint v @ r) = (v, int (length (PutUvarint v)))"
  using Uvarint_loop_Put [of 0 0 v 0 r] unsigned_less [of v] by (simp add: Uvarint_def)

lemma readUvarint_append [codec_simps]:
  "pos = int (length a) \<Longrightarrow> readUvarint (a @ PutUvarint v @ r) pos = Some (v, pos + int (length (PutUvarint v)))"
  by (simp add: readUvarint_def sliceFrom_append)

lemma length_PutUvarint_pos [simp]: "0 < length (PutUvarint v)"
  by (subst PutUvarint.simps) simp

subsection \<open>Sequences of encoded values\<close>

text \<open>A Go loop that reads \<open>n\<close> values from a position on.\<close>

fun readN :: "(bytes \<Rightarrow> int \<Rightarrow> ('a \<times> int) option) \<Rightarrow> nat \<Rightarrow> bytes \<Rightarrow> int \<Rightarrow> ('a list \<times> int) option" where
  "readN rd 0 data pos = Some ([], pos)"
| "readN rd (Suc n) data pos =
     (case rd data pos of
        None \<Rightarrow> None
      | Some (v, pos) \<Rightarrow> map_option (\<lambda>(vs, pos). (v # vs, pos)) (readN rd n data pos))"

text \<open>
  \<open>rd\<close> reads what \<open>enc\<close> wrote, wherever it stands, and moves past it; \<open>view\<close> is the part of the
  value that the reader keeps (a skipping reader keeps nothing).
\<close>

locale byte_codec =
  fixes enc :: "'a \<Rightarrow> bytes" and rd :: "bytes \<Rightarrow> int \<Rightarrow> ('b \<times> int) option" and view :: "'a \<Rightarrow> 'b"
    and ok :: "'a \<Rightarrow> bool"
  assumes rd_enc: "ok v \<Longrightarrow> pos = int (length a) \<Longrightarrow>
    rd (a @ enc v @ r) pos = Some (view v, pos + int (length (enc v)))"
begin

lemma readN_enc:
  "\<forall>v \<in> set vs. ok v \<Longrightarrow> pos = int (length a) \<Longrightarrow>
     readN rd (length vs) (a @ concat (map enc vs) @ r) pos =
       Some (map view vs, pos + int (length (concat (map enc vs))))"
proof (induction vs arbitrary: a pos)
  case (Cons v vs)
  have "rd (a @ enc v @ concat (map enc vs) @ r) pos = Some (view v, pos + int (length (enc v)))"
    using Cons.prems by (intro rd_enc) simp_all
  moreover have "readN rd (length vs) ((a @ enc v) @ concat (map enc vs) @ r) (pos + int (length (enc v))) =
      Some (map view vs, pos + int (length (enc v)) + int (length (concat (map enc vs))))"
    using Cons.prems by (intro Cons.IH) simp_all
  ultimately show ?case by simp
qed simp

lemma rd_nth:
  assumes "\<forall>v \<in> set vs. ok v" and "i < length vs" and "pos = int (length a) + int (length (concat (map enc (take i vs))))"
  shows "rd (a @ concat (map enc vs) @ r) pos = Some (view (vs ! i), pos + int (length (enc (vs ! i))))"
proof -
  have "concat (map enc vs) = concat (map enc (take i vs)) @ enc (vs ! i) @ concat (map enc (drop (Suc i) vs))"
    using assms(2) by (subst id_take_nth_drop [OF assms(2)]) simp
  then have "a @ concat (map enc vs) @ r =
      (a @ concat (map enc (take i vs))) @ enc (vs ! i) @ concat (map enc (drop (Suc i) vs)) @ r" by simp
  moreover have "rd ((a @ concat (map enc (take i vs))) @ enc (vs ! i) @ concat (map enc (drop (Suc i) vs)) @ r) pos =
      Some (view (vs ! i), pos + int (length (enc (vs ! i))))"
    using assms by (intro rd_enc) simp_all
  ultimately show ?thesis by simp
qed

end

interpretation uvarint: byte_codec PutUvarint readUvarint "\<lambda>v. v" "\<lambda>_. True"
  by unfold_locales (simp add: readUvarint_append)

text \<open>A fixed-width integer at a position.\<close>

definition readUint16 :: "bytes \<Rightarrow> int \<Rightarrow> u16 option" where
  "readUint16 d off = Option.bind (sliceFrom d off) Uint16"

definition readUint32 :: "bytes \<Rightarrow> int \<Rightarrow> u32 option" where
  "readUint32 d off = Option.bind (sliceFrom d off) Uint32"

definition readUint64 :: "bytes \<Rightarrow> int \<Rightarrow> u64 option" where
  "readUint64 d off = Option.bind (sliceFrom d off) Uint64"

lemma readUint_append [codec_simps]:
  "off = int (length a) \<Longrightarrow> readUint16 (a @ PutUint16 v @ r) off = Some v"
  "off = int (length a) \<Longrightarrow> readUint32 (a @ PutUint32 w @ r) off = Some w"
  "off = int (length a) \<Longrightarrow> readUint64 (a @ PutUint64 x @ r) off = Some x"
  by (simp_all add: readUint16_def readUint32_def readUint64_def sliceFrom_append)

interpretation uint32: byte_codec PutUint32 "\<lambda>d off. map_option (\<lambda>v. (v, off + 4)) (readUint32 d off)" "\<lambda>v. v" "\<lambda>_. True"
  by unfold_locales (simp add: readUint_append)

end
