(* ===== verification/Strip.thy ===== *)
theory Strip
  imports Prelude
begin

text \<open>
  \<open>internal/symbol/strip.go\<close> and the line tables of \<open>internal/symbol/symbol.go\<close>.
  The sources overwrite a copy of the text from left to right and never read a byte they
  have overwritten, so each loop is a function from the rest of the input to the rest of
  the output. The facts: stripping keeps the length and every newline and otherwise only
  blanks bytes, so offsets and line numbers computed on the stripped text are those of
  the source; and the binary search in a line table agrees with counting newlines.
\<close>

subsection \<open>C-like languages\<close>

datatype cstate = code | lineComment | blockComment | dquote | squote | backtick

definition next_is :: "bytes \<Rightarrow> byte \<Rightarrow> bool" where
  "next_is r c \<longleftrightarrow> r \<noteq> [] \<and> hd r = c"

text \<open>\<open>'/'\<close> is 47, \<open>'*'\<close> 42, \<open>'"'\<close> 34, a single quote 39, a backtick 96, a backslash 92, a space 32.\<close>

fun stripC :: "cstate \<Rightarrow> bytes \<Rightarrow> bytes" where
  "stripC st [] = []"
| "stripC code (c # r) =
     (if c = 47 \<and> next_is r 47 then 32 # stripC lineComment r
      else if c = 47 \<and> next_is r 42 then 32 # stripC blockComment r
      else if c = 34 then c # stripC dquote r
      else if c = 39 then c # stripC squote r
      else if c = 96 then c # stripC backtick r
      else c # stripC code r)"
| "stripC lineComment (c # r) =
     (if c = newline then c # stripC code r else 32 # stripC lineComment r)"
| "stripC blockComment (c # r) =
     (if c = 42 \<and> next_is r 47 then 32 # 32 # stripC code (tl r)
      else if c \<noteq> newline then 32 # stripC blockComment r
      else c # stripC blockComment r)"
| "stripC backtick (c # r) =
     (if c = 96 then c # stripC code r
      else if c \<noteq> newline then 32 # stripC backtick r
      else c # stripC backtick r)"
| "stripC st (c # r) =
     (if c = 92 \<and> r \<noteq> [] then
        32 # (if hd r \<noteq> newline then 32 else hd r) # stripC st (tl r)
      else if st = dquote \<and> c = 34 \<or> st = squote \<and> c = 39 then c # stripC code r
      else if c = newline then c # stripC code r
      else 32 # stripC st r)"

definition stripCLike :: "bytes \<Rightarrow> bytes" where
  "stripCLike src = stripC code src"

subsection \<open>Python\<close>

text \<open>The inner loops of \<open>stripPython\<close> are states; the outer loop resumes in \<open>pcode\<close>.\<close>

datatype pstate = pcode | pcomment | ptriple byte | psingle byte

definition two_are :: "bytes \<Rightarrow> byte \<Rightarrow> bool" where
  "two_are r q \<longleftrightarrow> 2 \<le> length r \<and> r ! 0 = q \<and> r ! 1 = q"

function stripP :: "pstate \<Rightarrow> bytes \<Rightarrow> bytes" where
  "stripP st [] = []"
| "stripP pcode (c # r) =
     (if c = 35 then 32 # stripP pcomment r
      else if c = 34 \<or> c = 39 then
        (if two_are r c then c # c # c # stripP (ptriple c) (drop 2 r)
         else c # stripP (psingle c) r)
      else c # stripP pcode r)"
| "stripP pcomment (c # r) =
     (if c \<noteq> newline then 32 # stripP pcomment r else c # stripP pcode r)"
| "stripP (ptriple q) (c # r) =
     (if c = q \<and> two_are r q then c # q # q # stripP pcode (drop 2 r)
      else if c \<noteq> newline then 32 # stripP (ptriple q) r
      else c # stripP (ptriple q) r)"
| "stripP (psingle q) (c # r) =
     (if c = newline then c # stripP pcode r
      else if c = 92 then
        32 # (case r of [] \<Rightarrow> []
              | d # r' \<Rightarrow> (if d \<noteq> newline then 32 else d) # stripP (psingle q) r')
      else if c = q then c # stripP pcode r
      else 32 # stripP (psingle q) r)"
  by pat_completeness auto
termination
  by (relation "measure (\<lambda>(st, s). length s)") auto

definition stripPython :: "bytes \<Rightarrow> bytes" where
  "stripPython src = stripP pcode src"

definition StripLang :: "gostring \<Rightarrow> bytes \<Rightarrow> bytes" where
  "StripLang lang src =
     (if lang = str ''python'' then stripPython src
      else if lang \<in> {str ''go'', str ''java'', str ''typescript''} then stripCLike src
      else src)"

subsection \<open>Stripping only blanks\<close>

text \<open>\<open>blanked src out\<close>: same length, and each byte is kept or, unless it is a newline, blanked.\<close>

definition blanked :: "bytes \<Rightarrow> bytes \<Rightarrow> bool" where
  "blanked src out \<longleftrightarrow> list_all2 (\<lambda>a b. b = a \<or> (b = 32 \<and> a \<noteq> newline)) src out"

lemma blanked_Nil [simp]: "blanked [] []"
  by (simp add: blanked_def)

lemma blanked_Cons [simp]:
  "blanked (a # src) (b # out) \<longleftrightarrow> (b = a \<or> (b = 32 \<and> a \<noteq> newline)) \<and> blanked src out"
  by (simp add: blanked_def)

lemma blanked_refl [simp]: "blanked s s"
  by (simp add: blanked_def list_all2_same)

lemma blanked_length: "blanked src out \<Longrightarrow> length out = length src"
  by (auto simp: blanked_def dest: list_all2_lengthD)

lemma blanked_newlines:
  "blanked src out \<Longrightarrow> map (\<lambda>b. b = newline) out = map (\<lambda>b. b = newline) src"
  by (simp add: blanked_def, induction src out rule: list_all2_induct) auto

lemma stripC_blanked: "blanked src (stripC st src)"
proof (induction st src rule: stripC.induct)
  case (4 c r)
  then show ?case by (cases r) (auto simp: next_is_def)
next
  case "6_1"
  then show ?case by (auto simp: neq_Nil_conv)
next
  case "6_2"
  then show ?case by (auto simp: neq_Nil_conv)
qed (auto simp: next_is_def)

lemma blanked_two: "two_are r q \<Longrightarrow> blanked r (q # q # out) \<longleftrightarrow> blanked (drop 2 r) out"
  by (cases r; cases "tl r") (auto simp: two_are_def)

lemma stripP_blanked: "blanked src (stripP st src)"
proof (induction st src rule: stripP.induct)
  case (5 q c r)
  then show ?case by (cases r) auto
qed (auto simp: blanked_two)

lemma StripLang_blanked: "blanked src (StripLang lang src)"
  by (simp add: StripLang_def stripPython_def stripCLike_def stripC_blanked stripP_blanked)

lemma length_StripLang [simp]: "length (StripLang lang src) = length src"
  using blanked_length [OF StripLang_blanked] .

subsection \<open>Line tables\<close>

definition lineOf :: "bytes \<Rightarrow> nat \<Rightarrow> nat" where
  "lineOf src pos = 1 + length (filter (\<lambda>b. b = newline) (take pos src))"

text \<open>\<open>starts\<close>: 0 and the offset after every newline.\<close>

fun lineStarts :: "nat \<Rightarrow> bytes \<Rightarrow> nat list" where
  "lineStarts i [] = []"
| "lineStarts i (c # src) = (if c = newline then (i + 1) # lineStarts (i + 1) src else lineStarts (i + 1) src)"

definition newLineIndex :: "bytes \<Rightarrow> nat list" where
  "newLineIndex src = 0 # lineStarts 0 src"

function line_loop :: "nat list \<Rightarrow> nat \<Rightarrow> nat \<Rightarrow> nat \<Rightarrow> nat" where
  "line_loop li pos lo hi =
     (if lo < hi then
        (let mid = (lo + hi + 1) div 2 in
         if li ! mid \<le> pos then line_loop li pos mid hi
         else line_loop li pos lo (mid - 1))
      else lo)"
  by pat_completeness auto
termination
  by (relation "measure (\<lambda>(li, pos, lo, hi). hi - lo)") auto

declare line_loop.simps [simp del]

definition line :: "nat list \<Rightarrow> nat \<Rightarrow> nat" where
  "line li pos = line_loop li pos 0 (length li - 1) + 1"

text \<open>On a sorted table the binary search finds the last entry not beyond \<open>pos\<close>.\<close>

lemma line_loop_correct:
  assumes "sorted li" and "lo \<le> hi" and "hi < length li" and "li ! lo \<le> pos"
    and "\<forall>k. hi < k \<and> k < length li \<longrightarrow> pos < li ! k"
  shows "line_loop li pos lo hi < length li \<and> li ! line_loop li pos lo hi \<le> pos \<and>
         (\<forall>k. line_loop li pos lo hi < k \<and> k < length li \<longrightarrow> pos < li ! k)"
  using assms
proof (induction li pos lo hi rule: line_loop.induct)
  case (1 li pos lo hi)
  show ?case
  proof (cases "lo < hi")
    case False
    then have "line_loop li pos lo hi = lo" by (simp add: line_loop.simps [of li pos lo hi])
    with False "1.prems" show ?thesis by simp
  next
    case True
    define mid where "mid = (lo + hi + 1) div 2"
    have mid: "lo < mid" "mid \<le> hi" using True by (auto simp: mid_def)
    show ?thesis
    proof (cases "li ! mid \<le> pos")
      case le: True
      have "line_loop li pos lo hi = line_loop li pos mid hi"
        using True le by (simp add: line_loop.simps [of li pos lo hi] Let_def mid_def)
      with "1.IH"(1) [OF True mid_def le "1.prems"(1) mid(2) "1.prems"(3) le "1.prems"(5)]
      show ?thesis by simp
    next
      case gt: False
      have "\<forall>k. mid - 1 < k \<and> k < length li \<longrightarrow> pos < li ! k"
      proof (intro allI impI)
        fix k assume k: "mid - 1 < k \<and> k < length li"
        then have "li ! mid \<le> li ! k" using "1.prems"(1) mid by (intro sorted_nth_mono) auto
        with gt show "pos < li ! k" by simp
      qed
      moreover have "lo \<le> mid - 1" "mid - 1 < length li" using mid "1.prems"(3) by auto
      moreover have "line_loop li pos lo hi = line_loop li pos lo (mid - 1)"
        using True gt by (simp add: line_loop.simps [of li pos lo hi] Let_def mid_def)
      ultimately show ?thesis
        using "1.IH"(2) [OF True mid_def gt "1.prems"(1)] "1.prems"(4) by simp
    qed
  qed
qed

lemma lineStarts_props:
  "sorted (lineStarts i src) \<and> (\<forall>x \<in> set (lineStarts i src). i < x)"
  by (induction src arbitrary: i) (auto, (meson Suc_lessD less_imp_le_nat)+)

lemma lineStarts_count:
  "length (filter (\<lambda>x. x \<le> i + pos) (lineStarts i src)) =
     length (filter (\<lambda>b. b = newline) (take pos src))"
proof (induction src arbitrary: i pos)
  case (Cons c src)
  show ?case
  proof (cases pos)
    case 0
    then have "\<forall>x \<in> set (lineStarts i (c # src)). \<not> x \<le> i + pos"
      using lineStarts_props [of i "c # src"] by (auto simp del: lineStarts.simps)
    with 0 show ?thesis by (simp add: filter_empty_conv)
  next
    case (Suc p)
    with Cons [of "i + 1" p] show ?thesis by (auto simp: add.commute add.left_commute)
  qed
qed simp

lemma sorted_filter_le_split:
  assumes "sorted li" and "k < length li" and "li ! k \<le> pos"
    and "\<forall>j. k < j \<and> j < length li \<longrightarrow> pos < li ! j"
  shows "length (filter (\<lambda>x. x \<le> pos) li) = Suc k"
proof -
  have "\<forall>x \<in> set (take (Suc k) li). x \<le> pos"
    using assms(1-3) by (auto simp: in_set_conv_nth) (meson less_Suc_eq_le order_trans sorted_nth_mono)
  moreover have "\<forall>x \<in> set (drop (Suc k) li). \<not> x \<le> pos"
    using assms(4) by (auto simp: in_set_conv_nth not_le)
  moreover have "filter (\<lambda>x. x \<le> pos) li =
      filter (\<lambda>x. x \<le> pos) (take (Suc k) li) @ filter (\<lambda>x. x \<le> pos) (drop (Suc k) li)"
    by (metis append_take_drop_id filter_append)
  ultimately show ?thesis
    using assms(2) by simp
qed

text \<open>The table lookup is the newline count.\<close>

theorem line_eq_lineOf: "line (newLineIndex src) pos = lineOf src pos"
proof -
  let ?li = "newLineIndex src"
  have sorted: "sorted ?li"
    using lineStarts_props [of 0 src] by (auto simp: newLineIndex_def)
  have "line_loop ?li pos 0 (length ?li - 1) < length ?li \<and>
        ?li ! line_loop ?li pos 0 (length ?li - 1) \<le> pos \<and>
        (\<forall>k. line_loop ?li pos 0 (length ?li - 1) < k \<and> k < length ?li \<longrightarrow> pos < ?li ! k)"
    using sorted by (intro line_loop_correct) (auto simp: newLineIndex_def)
  then have "length (filter (\<lambda>x. x \<le> pos) ?li) = line ?li pos"
    using sorted by (simp add: line_def sorted_filter_le_split)
  moreover have "length (filter (\<lambda>x. x \<le> pos) ?li) = lineOf src pos"
    using lineStarts_count [of 0 pos src] by (simp add: newLineIndex_def lineOf_def)
  ultimately show ?thesis by simp
qed

lemma lineOf_blanked: "blanked src out \<Longrightarrow> lineOf out pos = lineOf src pos"
proof -
  assume b: "blanked src out"
  have "length (filter (\<lambda>b. b = newline) (take pos t)) = length (filter id (take pos (map (\<lambda>b. b = newline) t)))" for t
    by (simp add: take_map filter_map comp_def)
  then show ?thesis using blanked_newlines [OF b] by (simp add: lineOf_def)
qed

end
