(* ===== verification/Literal.thy ===== *)
theory Literal
  imports Prelude
begin

text \<open>
  \<open>internal/index/literal.go\<close>: the byte-level literal search that replaces the regular
  expression engine for plain patterns, together with \<open>lower\<close> of \<open>index.go\<close>.
  The main facts: the two-variant skip loop of \<open>foldIndex\<close> finds exactly the first
  case-folded occurrence, and \<open>literalFindAll\<close> lists the leftmost non-overlapping ones.
\<close>

subsection \<open>Model\<close>

definition lower :: "byte \<Rightarrow> byte" where
  "lower b = (if b \<ge> 65 \<and> b \<le> 90 then b + 32 else b)"

definition HasNonASCII :: "gostring \<Rightarrow> bool" where
  "HasNonASCII s \<longleftrightarrow> list_ex (\<lambda>b. b \<ge> 0x80) s"

text \<open>\<open>for i := range b\<close>: \<open>a\<close> has to be at least as long as \<open>b\<close>, as every caller ensures.\<close>

definition foldEqual :: "bytes \<Rightarrow> bytes \<Rightarrow> bool" where
  "foldEqual a b \<longleftrightarrow> list_all (\<lambda>i. lower (a ! i) = lower (b ! i)) [0..<length b]"

text \<open>The nearer of the next occurrences of the two case variants (\<open>i1\<close> of the loop body).\<close>

definition variantIndex :: "bytes \<Rightarrow> byte \<Rightarrow> byte \<Rightarrow> nat option" where
  "variantIndex t c1 c2 =
     (let i1 = IndexByte t c1 in
      if c2 \<noteq> c1 then
        (case IndexByte t c2 of
           Some i2 \<Rightarrow> (if i1 = None \<or> i2 < the i1 then Some i2 else i1)
         | None \<Rightarrow> i1)
      else i1)"

function foldIndex_loop :: "bytes \<Rightarrow> bytes \<Rightarrow> byte \<Rightarrow> byte \<Rightarrow> nat \<Rightarrow> nat option" where
  "foldIndex_loop s lit c1 c2 off =
     (if off + length lit \<le> length s then
        (case variantIndex (drop off s) c1 c2 of
           None \<Rightarrow> None
         | Some i1 \<Rightarrow>
             (if off + i1 + length lit > length s then None
              else if foldEqual (slice s (off + i1) (off + i1 + length lit)) lit then Some (off + i1)
              else foldIndex_loop s lit c1 c2 (off + i1 + 1)))
      else None)"
  by pat_completeness auto
termination
  by (relation "measure (\<lambda>(s, lit, c1, c2, off). length s + 1 - off)") auto

declare foldIndex_loop.simps [simp del]

text \<open>The source reads \<open>lit[0]\<close>; both callers exclude the empty literal.\<close>

definition foldIndex :: "bytes \<Rightarrow> bytes \<Rightarrow> nat option" where
  "foldIndex s lit =
     (let c1 = lower (lit ! 0);
          c2 = (if c1 \<ge> 97 \<and> c1 \<le> 122 then c1 - 32 else c1)
      in foldIndex_loop s lit c1 c2 0)"

subsection \<open>ASCII case folding\<close>

lemma unat_lower:
  "unat (lower b) = (if 65 \<le> unat b \<and> unat b \<le> 90 then unat b + 32 else unat b)"
  by (simp add: lower_def word_le_nat_alt unat_word_ariths)

lemma lower_idem [simp]: "lower (lower b) = lower b"
  by (simp add: word_unat_eq_iff unat_lower)

text \<open>The bytes that fold to the same letter as \<open>c\<close>: the lower-case one and its upper-case twin.\<close>

lemma lower_eq_variants:
  "lower b = lower c \<longleftrightarrow>
     b = lower c \<or> b = (if lower c \<ge> 97 \<and> lower c \<le> 122 then lower c - 32 else lower c)"
proof (cases "lower c \<ge> 97 \<and> lower c \<le> 122")
  case True
  then have "unat (lower c - 32) = unat (lower c) - 32"
    by (subst unat_sub) (auto simp: word_le_nat_alt)
  with True show ?thesis
    by (auto simp: word_unat_eq_iff unat_lower word_le_nat_alt split: if_splits)
next
  case False
  have "lower b = b" if "lower b = lower c"
  proof -
    have "\<not> (65 \<le> unat b \<and> unat b \<le> 90)"
      using False that unat_lower [of b] by (auto simp: word_le_nat_alt)
    then show ?thesis by (simp add: lower_def word_le_nat_alt)
  qed
  then have "lower b = lower c \<longleftrightarrow> b = lower c" by fastforce
  with False show ?thesis by (simp only: if_False disj_absorb)
qed

lemma foldEqual_iff:
  "length a = length b \<Longrightarrow> foldEqual a b \<longleftrightarrow> map lower a = map lower b"
  by (auto simp: foldEqual_def list_all_iff list_eq_iff_nth_eq [of "map lower a" "map lower b"])

lemma foldEqual_slice_iff:
  assumes "pos + length lit \<le> length s"
  shows "foldEqual (slice s pos (pos + length lit)) lit \<longleftrightarrow>
         prefix (map lower lit) (drop pos (map lower s))"
proof -
  have "foldEqual (slice s pos (pos + length lit)) lit \<longleftrightarrow>
        map lower (slice s pos (pos + length lit)) = map lower lit"
    using assms by (intro foldEqual_iff) simp
  also have "map lower (slice s pos (pos + length lit)) =
             slice (map lower s) pos (pos + length (map lower lit))"
    by (simp add: slice_def take_map drop_map)
  also have "\<dots> = map lower lit \<longleftrightarrow> prefix (map lower lit) (drop pos (map lower s))"
    using assms by (intro slice_prefix_eq) simp
  finally show ?thesis .
qed

subsection \<open>foldIndex finds the first folded occurrence\<close>

text \<open>The skip stops at the first byte equal to either case variant, or proves there is none.\<close>

lemma variantIndex_None: "variantIndex t c1 c2 = None \<Longrightarrow> c1 \<notin> set t \<and> c2 \<notin> set t"
  by (auto simp: variantIndex_def Let_def IndexByte_None_iff split: option.splits if_splits)

lemma variantIndex_Some:
  assumes "variantIndex t c1 c2 = Some i"
  shows "i < length t \<and> (\<forall>k < i. t ! k \<noteq> c1 \<and> t ! k \<noteq> c2)"
proof (cases "IndexByte t c1"; cases "IndexByte t c2")
  fix i1 i2
  assume c1: "IndexByte t c1 = Some i1" and c2: "IndexByte t c2 = Some i2"
  with assms have "i = min i1 i2"
    by (auto simp: variantIndex_def Let_def min_def split: if_splits)
  with c1 [unfolded IndexByte_Some_iff] c2 [unfolded IndexByte_Some_iff] show ?thesis by auto
next
  fix i1
  assume c1: "IndexByte t c1 = Some i1" and c2: "IndexByte t c2 = None"
  with assms have "i = i1"
    by (auto simp: variantIndex_def Let_def split: if_splits)
  with c1 [unfolded IndexByte_Some_iff] c2 [unfolded IndexByte_None_iff] show ?thesis
    by (auto dest: nth_mem)
next
  fix i2
  assume c1: "IndexByte t c1 = None" and c2: "IndexByte t c2 = Some i2"
  with assms have "i = i2"
    by (auto simp: variantIndex_def Let_def split: if_splits)
  with c1 [unfolded IndexByte_None_iff] c2 [unfolded IndexByte_Some_iff] show ?thesis
    by (auto dest: nth_mem)
next
  assume "IndexByte t c1 = None" and "IndexByte t c2 = None"
  with assms show ?thesis by (auto simp: variantIndex_def split: if_splits)
qed

abbreviation fold_occ :: "bytes \<Rightarrow> bytes \<Rightarrow> nat \<Rightarrow> bool" where
  "fold_occ s lit j \<equiv> prefix (map lower lit) (drop j (map lower s))"

lemma fold_occ_bound: "lit \<noteq> [] \<Longrightarrow> fold_occ s lit j \<Longrightarrow> j + length lit \<le> length s \<and> j < length s"
  by (drule prefix_length_le) (cases lit; auto)

text \<open>The skip is sound because an occurrence starts with one of the two variants.\<close>

lemma fold_occ_first:
  assumes "lit \<noteq> []" and "fold_occ s lit j"
    and "c1 = lower (lit ! 0)" and "c2 = (if c1 \<ge> 97 \<and> c1 \<le> 122 then c1 - 32 else c1)"
  shows "s ! j = c1 \<or> s ! j = c2"
proof -
  have "lower (s ! j) = lower (lit ! 0)"
    using assms(1,2) fold_occ_bound [OF assms(1,2)]
    by (auto simp: prefix_drop_nth dest!: spec [of _ 0])
  then show ?thesis
    using lower_eq_variants [of "s ! j" "lit ! 0"] assms(3,4) by (simp split: if_splits)
qed

lemma fold_occ_not_skipped:
  assumes "lit \<noteq> []" and "c1 = lower (lit ! 0)" and "c2 = (if c1 \<ge> 97 \<and> c1 \<le> 122 then c1 - 32 else c1)"
    and "\<forall>j < off. \<not> fold_occ s lit j"
  shows "variantIndex (drop off s) c1 c2 = None \<Longrightarrow> \<not> fold_occ s lit k"
    and "variantIndex (drop off s) c1 c2 = Some i \<Longrightarrow> k < off + i \<Longrightarrow> \<not> fold_occ s lit k"
proof -
  have at: "off \<le> k \<and> k < length s \<and> (drop off s ! (k - off) = c1 \<or> drop off s ! (k - off) = c2)"
    if "fold_occ s lit k"
  proof -
    have "off \<le> k" using that assms(4) by (meson not_less)
    then show ?thesis
      using fold_occ_bound [OF assms(1) that] fold_occ_first [OF assms(1) that assms(2,3)] by auto
  qed
  show "\<not> fold_occ s lit k" if "variantIndex (drop off s) c1 c2 = None"
    using variantIndex_None [OF that] at nth_mem [of "k - off" "drop off s"] by auto
  show "\<not> fold_occ s lit k" if "variantIndex (drop off s) c1 c2 = Some i" and "k < off + i"
    using variantIndex_Some [OF that(1)] that(2) at
    by (metis add.commute less_diff_conv2)
qed

text \<open>From any offset, the loop returns the first folded occurrence at or after it.\<close>

lemma foldIndex_loop_spec:
  assumes "lit \<noteq> []"
    and "c1 = lower (lit ! 0)" and "c2 = (if c1 \<ge> 97 \<and> c1 \<le> 122 then c1 - 32 else c1)"
    and "\<forall>j < off. \<not> fold_occ s lit j"
  shows "foldIndex_loop s lit c1 c2 off = bytes_Index (map lower s) (map lower lit)"
  using assms
proof (induction s lit c1 c2 off rule: foldIndex_loop.induct)
  case (1 s lit c1 c2 off)
  note unfold = foldIndex_loop.simps [of s lit c1 c2 off]
  note skip = fold_occ_not_skipped [where off = off and s = s, OF "1.prems"]
  have none: "bytes_Index (map lower s) (map lower lit) = None" if "\<And>j. \<not> fold_occ s lit j"
    using that by (simp add: bytes_Index_None_iff)
  consider (short) "\<not> off + length lit \<le> length s"
    | (no_byte) "off + length lit \<le> length s" "variantIndex (drop off s) c1 c2 = None"
    | (tail) i where "off + length lit \<le> length s" "variantIndex (drop off s) c1 c2 = Some i"
        "off + i + length lit > length s"
    | (probe) i where "off + length lit \<le> length s" "variantIndex (drop off s) c1 c2 = Some i"
        "\<not> off + i + length lit > length s"
    by (cases "variantIndex (drop off s) c1 c2") fastforce+
  then show ?case
  proof cases
    case short
    then have "\<not> fold_occ s lit k" for k
      using "1.prems"(4) fold_occ_bound [OF "1.prems"(1), where s = s and j = k] by (cases "k < off") auto
    with short show ?thesis by (simp add: unfold none)
  next
    case no_byte
    then show ?thesis by (simp add: unfold none [OF skip(1)])
  next
    case (tail i)
    then have "\<not> fold_occ s lit k" for k
      using skip(2) [OF tail(2), of k] fold_occ_bound [OF "1.prems"(1), where s = s and j = k] by (cases "k < off + i") auto
    with tail show ?thesis by (simp add: unfold none)
  next
    case (probe i)
    have eq: "foldEqual (slice s (off + i) (off + i + length lit)) lit \<longleftrightarrow> fold_occ s lit (off + i)"
      using probe by (intro foldEqual_slice_iff) simp
    show ?thesis
    proof (cases "fold_occ s lit (off + i)")
      case True
      then have "bytes_Index (map lower s) (map lower lit) = Some (off + i)"
        using skip(2) probe by (simp add: bytes_Index_Some_iff)
      with True probe eq show ?thesis by (simp add: unfold)
    next
      case False
      have "\<forall>k < off + i + 1. \<not> fold_occ s lit k"
        using False skip(2) [OF probe(2)] less_Suc_eq by auto
      from "1.IH" [OF probe _ "1.prems"(1-3) this] False eq probe show ?thesis
        by (simp add: unfold)
    qed
  qed
qed

theorem foldIndex_spec:
  "lit \<noteq> [] \<Longrightarrow> foldIndex s lit = bytes_Index (map lower s) (map lower lit)"
  unfolding foldIndex_def Let_def by (rule foldIndex_loop_spec) auto

lemma foldIndex_bound: "lit \<noteq> [] \<Longrightarrow> foldIndex s lit = Some i \<Longrightarrow> i + length lit \<le> length s"
  using bytes_Index_bound [of "map lower s" "map lower lit" i] by (simp add: foldIndex_spec)

subsection \<open>literalFindAll\<close>

text \<open>
  The two \<open>for off := 0; ; {...}\<close> loops. Each stops because a match moves the offset past
  its own end and the literal is not empty.
\<close>

function findAll_exact :: "bytes \<Rightarrow> bytes \<Rightarrow> nat \<Rightarrow> (nat \<times> nat) list" where
  "findAll_exact content lit off =
     (if length lit = 0 then []
      else case bytes_Index (drop off content) lit of
        None \<Rightarrow> []
      | Some i \<Rightarrow> (off + i, off + i + length lit) #
                  findAll_exact content lit (off + i + length lit))"
  by pat_completeness auto
termination
  by (relation "measure (\<lambda>(content, lit, off). length content - off)")
    (auto dest: bytes_Index_bound simp flip: length_greater_0_conv)

function findAll_fold :: "bytes \<Rightarrow> bytes \<Rightarrow> nat \<Rightarrow> (nat \<times> nat) list" where
  "findAll_fold content lit off =
     (if length lit = 0 then []
      else case foldIndex (drop off content) lit of
        None \<Rightarrow> []
      | Some i \<Rightarrow> (off + i, off + i + length lit) #
                  findAll_fold content lit (off + i + length lit))"
  by pat_completeness auto
termination
  by (relation "measure (\<lambda>(content, lit, off). length content - off)")
    (auto dest!: foldIndex_bound [rotated] simp flip: length_greater_0_conv)

declare findAll_exact.simps [simp del] findAll_fold.simps [simp del]

definition literalFindAll :: "bytes \<Rightarrow> bytes \<Rightarrow> bool \<Rightarrow> (nat \<times> nat) list" where
  "literalFindAll content lit nocase =
     (if length lit = 0 then []
      else if \<not> nocase then findAll_exact content lit 0
      else findAll_fold content lit 0)"

lemma findAll_fold_eq:
  "findAll_fold content lit off = findAll_exact (map lower content) (map lower lit) off"
proof (induction content lit off rule: findAll_fold.induct)
  case (1 content lit off)
  show ?case
  proof (cases "lit = []")
    case False
    with 1 show ?thesis
      by (auto simp: findAll_fold.simps [of content lit off]
          findAll_exact.simps [of "map lower content" "map lower lit" off] foldIndex_spec drop_map
          split: option.split)
  qed (simp add: findAll_fold.simps findAll_exact.simps)
qed

definition case_norm :: "bool \<Rightarrow> bytes \<Rightarrow> bytes" where
  "case_norm nocase s = (if nocase then map lower s else s)"

lemma length_case_norm [simp]: "length (case_norm nocase s) = length s"
  by (simp add: case_norm_def)

lemma case_norm_Nil [simp]: "case_norm nocase s = [] \<longleftrightarrow> s = []"
  by (simp add: case_norm_def)

lemma literalFindAll_norm:
  "literalFindAll content lit nocase =
     findAll_exact (case_norm nocase content) (case_norm nocase lit) 0"
  by (simp add: literalFindAll_def case_norm_def findAll_fold_eq findAll_exact.simps)

lemma findAll_exact_sound:
  "(a, b) \<in> set (findAll_exact s lit off) \<Longrightarrow>
     lit \<noteq> [] \<and> off \<le> a \<and> b = a + length lit \<and> prefix lit (drop a s) \<and> b \<le> length s"
proof (induction s lit off rule: findAll_exact.induct)
  case (1 s lit off)
  from "1.prems" obtain i where i: "lit \<noteq> []" "bytes_Index (drop off s) lit = Some i"
    by (cases "bytes_Index (drop off s) lit")
      (auto simp: findAll_exact.simps [of s lit off] split: if_splits)
  with "1.prems" have mem: "(a, b) = (off + i, off + i + length lit) \<or>
              (a, b) \<in> set (findAll_exact s lit (off + i + length lit))"
    by (simp add: findAll_exact.simps [of s lit off])
  have "prefix lit (drop (off + i) s)" "off + i + length lit \<le> length s"
    using i(2) bytes_Index_bound [OF i(2)] i(1)
    by (auto simp: bytes_Index_Some_iff add.commute) (cases lit; auto)
  with mem i "1.IH" [OF _ i(2)] show ?case by auto
qed

lemma findAll_exact_complete:
  "lit \<noteq> [] \<Longrightarrow> off \<le> p \<Longrightarrow> prefix lit (drop p s) \<Longrightarrow>
     \<exists>a b. (a, b) \<in> set (findAll_exact s lit off) \<and> a \<le> p \<and> p < b"
proof (induction s lit off rule: findAll_exact.induct)
  case (1 s lit off)
  have p: "p \<le> length s" using "1.prems"(1,3) by (cases "p \<le> length s") auto
  then have occ: "p - off \<le> length (drop off s)" "prefix lit (drop (p - off) (drop off s))"
    using "1.prems" by auto
  then obtain i where i: "bytes_Index (drop off s) lit = Some i"
    by (metis bytes_Index_None_iff not_Some_eq)
  then have "i \<le> p - off"
    using occ(2) by (auto simp: bytes_Index_Some_iff not_less [symmetric])
  show ?case
  proof (cases "p < off + i + length lit")
    case True
    with i "1.prems" have "(off + i, off + i + length lit) \<in> set (findAll_exact s lit off)"
      by (simp add: findAll_exact.simps [of s lit off])
    with True "1.prems"(2) \<open>i \<le> p - off\<close> show ?thesis by fastforce
  next
    case False
    with "1.IH" [OF _ i] "1.prems" i show ?thesis
      by (auto simp: findAll_exact.simps [of s lit off])
  qed
qed

lemma findAll_exact_sorted:
  "sorted_wrt (\<lambda>(a, b) (a', b'). b \<le> a') (findAll_exact s lit off)"
proof (induction s lit off rule: findAll_exact.induct)
  case (1 s lit off)
  then show ?case
    by (auto simp: findAll_exact.simps [of s lit off] split: option.split dest: findAll_exact_sound)
qed

subsection \<open>Properties\<close>

text \<open>C21. For a non-empty literal, the match list holds exactly occurrences (up to ASCII case
  when folding), is ordered and free of overlaps, and misses none: every occurrence
  overlaps a reported one from the left.\<close>

theorem literalFindAll_correct:
  assumes "lit \<noteq> []"
  shows "(\<forall>(a, b) \<in> set (literalFindAll s lit nocase).
            b = a + length lit \<and> b \<le> length s \<and>
            prefix (case_norm nocase lit) (drop a (case_norm nocase s))) \<and>
         sorted_wrt (\<lambda>(a, b) (a', b'). b \<le> a') (literalFindAll s lit nocase) \<and>
         (\<forall>p. prefix (case_norm nocase lit) (drop p (case_norm nocase s)) \<longrightarrow>
            (\<exists>(a, b) \<in> set (literalFindAll s lit nocase). a \<le> p \<and> p < b))"
  using findAll_exact_sorted findAll_exact_complete [of "case_norm nocase lit" 0] assms
  by (fastforce simp: literalFindAll_norm dest: findAll_exact_sound)

theorem literalFindAll_correct_witness:
  "literalFindAll (str ''aBabab'') (str ''ab'') True = [(0, 2), (2, 4), (4, 6)] \<and>
   sorted_wrt (\<lambda>(a, b) (a', b'). b \<le> a') (literalFindAll (str ''aBabab'') (str ''ab'') True)"
proof -
  have "str ''ab'' \<noteq> []" by (simp add: str_def)
  have "literalFindAll (str ''aBabab'') (str ''ab'') True = [(0, 2), (2, 4), (4, 6)]" by code_simp
  with literalFindAll_correct [OF \<open>str ''ab'' \<noteq> []\<close>, of "str ''aBabab''" True]
  show ?thesis by (intro conjI) (assumption, elim conjE)
qed

end
