(* ===== verification/Utf.thy ===== *)
theory Utf
  imports Literal
begin

text \<open>
  UTF-8 and UTF-16 as the sources use them: Go's rune encoding and decoding, Unicode
  lower-casing of strings, and the two \<open>decodeUTF16\<close> functions, one in
  \<open>internal/daemon/utf16.go\<close> (memory engine) and one at the end of
  \<open>internal/shard/engine.go\<close> (disk engine). A rune is a \<open>nat\<close>: no negative rune occurs.
\<close>

unbundle bit_operations_syntax

type_synonym rune = nat

abbreviation RuneError :: rune where "RuneError \<equiv> 0xFFFD"

subsection \<open>Runes and UTF-8\<close>

definition EncodeRune :: "rune \<Rightarrow> bytes" where
  "EncodeRune r =
     (if r < 0x80 then [of_nat r]
      else if r < 0x800 then [of_nat (0xC0 + r div 64), of_nat (0x80 + r mod 64)]
      else if r > 0x10FFFF \<or> (0xD800 \<le> r \<and> r \<le> 0xDFFF) then [0xEF, 0xBF, 0xBD]
      else if r < 0x10000 then
        [of_nat (0xE0 + r div 4096), of_nat (0x80 + r div 64 mod 64), of_nat (0x80 + r mod 64)]
      else
        [of_nat (0xF0 + r div 262144), of_nat (0x80 + r div 4096 mod 64),
         of_nat (0x80 + r div 64 mod 64), of_nat (0x80 + r mod 64)])"

text \<open>\<open>string(rs)\<close> for a slice of runes.\<close>

definition string_of_runes :: "rune list \<Rightarrow> gostring" where
  "string_of_runes rs = concat (map EncodeRune rs)"

definition cont :: "byte \<Rightarrow> bool" where
  "cont b \<longleftrightarrow> 0x80 \<le> b \<and> b \<le> 0xBF"

text \<open>\<open>utf8.DecodeRune\<close> on a non-empty slice: the rune and its width; \<open>(RuneError, 1)\<close> for
  an invalid or truncated encoding.\<close>

definition DecodeRune :: "bytes \<Rightarrow> rune \<times> nat" where
  "DecodeRune p =
     (case p of
        [] \<Rightarrow> (RuneError, 0)
      | b0 # q0 \<Rightarrow>
          if b0 < 0x80 then (unat b0, 1)
          else case q0 of
            [] \<Rightarrow> (RuneError, 1)
          | b1 # q1 \<Rightarrow>
              if 0xC2 \<le> b0 \<and> b0 \<le> 0xDF \<and> cont b1
              then ((unat b0 - 0xC0) * 64 + (unat b1 - 0x80), 2)
              else case q1 of
                [] \<Rightarrow> (RuneError, 1)
              | b2 # q2 \<Rightarrow>
                  if 0xE0 \<le> b0 \<and> b0 \<le> 0xEF \<and> cont b1 \<and> cont b2
                     \<and> (b0 = 0xE0 \<longrightarrow> 0xA0 \<le> b1) \<and> (b0 = 0xED \<longrightarrow> b1 \<le> 0x9F)
                  then ((unat b0 - 0xE0) * 4096 + (unat b1 - 0x80) * 64 + (unat b2 - 0x80), 3)
                  else case q2 of
                    [] \<Rightarrow> (RuneError, 1)
                  | b3 # _ \<Rightarrow>
                      if 0xF0 \<le> b0 \<and> b0 \<le> 0xF4 \<and> cont b1 \<and> cont b2 \<and> cont b3
                         \<and> (b0 = 0xF0 \<longrightarrow> 0x90 \<le> b1) \<and> (b0 = 0xF4 \<longrightarrow> b1 \<le> 0x8F)
                      then ((unat b0 - 0xF0) * 262144 + (unat b1 - 0x80) * 4096
                            + (unat b2 - 0x80) * 64 + (unat b3 - 0x80), 4)
                      else (RuneError, 1))"

lemma DecodeRune_width: "p \<noteq> [] \<Longrightarrow> 0 < snd (DecodeRune p)"
  by (auto simp: DecodeRune_def split: list.split)

text \<open>\<open>for _, r := range s\<close>\<close>

function runes :: "gostring \<Rightarrow> rune list" where
  "runes s = (if s = [] then [] else fst (DecodeRune s) # runes (drop (snd (DecodeRune s)) s))"
  by pat_completeness auto
termination
  by (relation "measure length") (use DecodeRune_width in auto)

declare runes.simps [simp del]

text \<open>
  \<open>strings.ToLower\<close>: bytewise on ASCII strings, otherwise \<open>strings.Map(unicode.ToLower, s)\<close>.
  The Unicode table is the argument \<open>uni\<close>.
\<close>

definition ToLower :: "(rune \<Rightarrow> rune) \<Rightarrow> gostring \<Rightarrow> gostring" where
  "ToLower uni s =
     (if \<not> HasNonASCII s then map lower s else string_of_runes (map uni (runes s)))"

lemma ToLower_ascii: "\<not> HasNonASCII s \<Longrightarrow> ToLower uni s = map lower s"
  by (simp add: ToLower_def)

subsection \<open>UTF-16\<close>

text \<open>\<open>unicode/utf16.Decode\<close>: surrogate pairs combine, lone surrogates become U+FFFD.\<close>

fun utf16_Decode :: "u16 list \<Rightarrow> rune list" where
  "utf16_Decode [] = []"
| "utf16_Decode [r] = [if unat r < 0xD800 \<or> 0xE000 \<le> unat r then unat r else RuneError]"
| "utf16_Decode (r # r2 # s) =
     (if unat r < 0xD800 \<or> 0xE000 \<le> unat r then unat r # utf16_Decode (r2 # s)
      else if unat r < 0xDC00 \<and> 0xDC00 \<le> unat r2 \<and> unat r2 < 0xE000
      then ((unat r - 0xD800) * 1024 + (unat r2 - 0xDC00) + 0x10000) # utf16_Decode s
      else RuneError # utf16_Decode (r2 # s))"

text \<open>\<open>uint16(hi)<<8 | uint16(lo)\<close>\<close>

definition u16_of :: "byte \<Rightarrow> byte \<Rightarrow> u16" where
  "u16_of hi lo = push_bit 8 (ucast hi) OR ucast lo"

text \<open>The pairing loop; a trailing odd byte is dropped.\<close>

fun u16_units :: "bool \<Rightarrow> bytes \<Rightarrow> u16 list" where
  "u16_units be (x # y # b) = (if be then u16_of x y else u16_of y x) # u16_units be b"
| "u16_units be b = []"

definition utf16_bom :: "bytes \<Rightarrow> bool option" where
  "utf16_bom b =
     (if length b \<ge> 2 \<and> b ! 0 = 0xFF \<and> b ! 1 = 0xFE then Some False
      else if length b \<ge> 2 \<and> b ! 0 = 0xFE \<and> b ! 1 = 0xFF then Some True
      else None)"

definition decodeUTF16_daemon :: "bytes \<Rightarrow> bytes option" where
  "decodeUTF16_daemon b =
     (case utf16_bom b of
        None \<Rightarrow> None
      | Some be \<Rightarrow> Some (concat (map EncodeRune (utf16_Decode (u16_units be (drop 2 b))))))"

text \<open>The disk engine turns each 16-bit unit into a rune of its own.\<close>

definition decodeUTF16_shard :: "bytes \<Rightarrow> bytes option" where
  "decodeUTF16_shard b =
     (case utf16_bom b of
        None \<Rightarrow> None
      | Some be \<Rightarrow> Some (string_of_runes (map unat (u16_units be (drop 2 b)))))"

text \<open>\<open>isBinary\<close> of \<open>store.go\<close> and of \<open>engine.go\<close>: a NUL byte in the first 8192 bytes.\<close>

definition isBinary :: "bytes \<Rightarrow> bool" where
  "isBinary content \<longleftrightarrow>
     (let n = length content; n = (if n > 8192 then 8192 else n)
      in IndexByte (take n content) 0 \<noteq> None)"

lemma isBinary_iff: "isBinary content \<longleftrightarrow> 0 \<in> set (take 8192 content)"
  by (auto simp: isBinary_def Let_def IndexByte_None_iff)

subsection \<open>The memory engine's transcoding is exact\<close>

lemma unat_u16_of: "unat (u16_of hi lo) = unat hi * 256 + unat lo"
proof -
  have "u16_of hi lo = push_bit 8 (ucast hi) + ucast lo"
    unfolding u16_of_def
    by (rule disjunctive_add_eq_or [symmetric]) (auto simp: bit_eq_iff bit_simps dest: bit_imp_le_length)
  moreover have "unat hi * 256 + unat lo < 65536"
    using byte_less_256 [of hi] byte_less_256 [of lo] by linarith
  ultimately show ?thesis
    by (simp add: push_bit_eq_mult unat_word_ariths)
qed

text \<open>UTF-16 as the standard defines it, for comparison: the code units of a scalar value,
  serialised in either byte order after a byte order mark.\<close>

definition scalar_value :: "rune \<Rightarrow> bool" where
  "scalar_value r \<longleftrightarrow> r < 0xD800 \<or> (0xE000 \<le> r \<and> r \<le> 0x10FFFF)"

definition utf16_units_of :: "rune \<Rightarrow> nat list" where
  "utf16_units_of r =
     (if r < 0x10000 then [r]
      else [0xD800 + (r - 0x10000) div 1024, 0xDC00 + (r - 0x10000) mod 1024])"

definition utf16_file :: "bool \<Rightarrow> rune list \<Rightarrow> bytes" where
  "utf16_file be rs =
     (if be then [0xFE, 0xFF] else [0xFF, 0xFE]) @
     concat (map (\<lambda>u. if be then [of_nat (u div 256), of_nat (u mod 256)]
                      else [of_nat (u mod 256), of_nat (u div 256)])
       (concat (map utf16_units_of rs)))"

lemma u16_units_file:
  "(\<forall>u \<in> set us. u < 65536) \<Longrightarrow>
     u16_units be (concat (map (\<lambda>u. if be then [of_nat (u div 256), of_nat (u mod 256)]
                      else [of_nat (u mod 256), of_nat (u div 256)]) us)) = map of_nat us"
proof (induction us)
  case (Cons u us)
  then have u: "u div 256 < 256" "u < 65536" by (simp_all add: less_mult_imp_div_less)
  have "u16_of (of_nat (u div 256)) (of_nat (u mod 256)) = of_nat u"
    using u by (simp add: word_unat_eq_iff unat_u16_of unat_of_nat)
  with Cons show ?case by (cases be) simp_all
qed simp

lemma utf16_units_of_bound: "scalar_value r \<Longrightarrow> u \<in> set (utf16_units_of r) \<Longrightarrow> u < 65536"
  by (auto simp: utf16_units_of_def scalar_value_def split: if_splits)

lemma utf16_Decode_encode:
  assumes "\<forall>r \<in> set rs. scalar_value r"
  shows "utf16_Decode (map of_nat (concat (map utf16_units_of rs))) = rs"
  using assms
proof (induction rs)
  case (Cons r rs)
  define tl where "tl = (map of_nat (concat (map utf16_units_of rs)) :: u16 list)"
  show ?case
  proof (cases "r < 0x10000")
    case True
    with Cons.prems have "unat (of_nat r :: u16) = r" and "r < 0xD800 \<or> 0xE000 \<le> r"
      by (auto simp: unat_of_nat scalar_value_def)
    moreover have "utf16_Decode tl = rs" using Cons by (simp add: tl_def)
    ultimately have "utf16_Decode (of_nat r # tl) = r # rs" by (cases tl) auto
    moreover have "utf16_units_of r = [r]" using True by (simp add: utf16_units_of_def)
    ultimately show ?thesis by (simp add: tl_def)
  next
    case False
    define d where "d = r - 0x10000"
    have d: "d div 1024 < 1024" "r = d + 0x10000"
      using False Cons.prems by (auto simp: d_def scalar_value_def)
    have "unat (of_nat (0xD800 + d div 1024) :: u16) = 0xD800 + d div 1024"
      and "unat (of_nat (0xDC00 + d mod 1024) :: u16) = 0xDC00 + d mod 1024"
      using d by (simp_all add: unat_of_nat del: of_nat_add)
    moreover have "d div 1024 * 1024 + d mod 1024 = d" by simp
    moreover have "utf16_Decode tl = rs" using Cons by (simp add: tl_def)
    ultimately have "utf16_Decode (of_nat (0xD800 + d div 1024) # of_nat (0xDC00 + d mod 1024) # tl) = r # rs"
      using d by (simp del: of_nat_add)
    moreover have "utf16_units_of r = [0xD800 + d div 1024, 0xDC00 + d mod 1024]"
      using False by (simp add: utf16_units_of_def d_def)
    ultimately show ?thesis by (simp add: tl_def del: of_nat_add)
  qed
qed simp

text \<open>C25. Every UTF-16 file of scalar values, in either byte order, is indexed as the UTF-8 text it encodes.\<close>

theorem decodeUTF16_daemon_exact:
  assumes "\<forall>r \<in> set rs. scalar_value r"
  shows "decodeUTF16_daemon (utf16_file be rs) = Some (string_of_runes rs)"
proof -
  have "\<forall>u \<in> set (concat (map utf16_units_of rs)). u < 65536"
    using assms utf16_units_of_bound by auto
  moreover have "utf16_bom (utf16_file be rs) = Some be"
    by (simp add: utf16_bom_def utf16_file_def)
  ultimately show ?thesis
    using assms
    by (simp add: decodeUTF16_daemon_def utf16_file_def u16_units_file utf16_Decode_encode
        string_of_runes_def drop_append)
qed

theorem decodeUTF16_daemon_exact_witness:
  "decodeUTF16_daemon (utf16_file True [0x41, 0x1F600]) = Some [0x41, 0xF0, 0x9F, 0x98, 0x80]"
proof -
  have "string_of_runes [0x41, 0x1F600] = [0x41, 0xF0, 0x9F, 0x98, 0x80]"
    by (simp add: string_of_runes_def EncodeRune_def)
  then show ?thesis
    using decodeUTF16_daemon_exact [of "[0x41, 0x1F600]" True] by (simp add: scalar_value_def)
qed

end
