(* ===== verification/Symbol.thy ===== *)
theory Symbol
  imports Strip Utf
begin

text \<open>
  \<open>internal/symbol\<close>: definition extraction for Go, Java, Python and TypeScript, and
  candidate references. Three things come from outside the package and are fields of the
  record \<open>symlib\<close>: the declarations the Go parser recovers, the matches of the package's
  compiled regular expressions, and the Unicode lower-case table.
\<close>

record Def =
  d_Name :: gostring
  d_Kind :: gostring
  d_Container :: gostring
  d_Line :: nat

definition KindClass :: gostring where "KindClass = str ''class''"
definition KindInterface :: gostring where "KindInterface = str ''interface''"
definition KindEnum :: gostring where "KindEnum = str ''enum''"
definition KindStruct :: gostring where "KindStruct = str ''struct''"
definition KindType :: gostring where "KindType = str ''type''"
definition KindFunc :: gostring where "KindFunc = str ''func''"
definition KindMethod :: gostring where "KindMethod = str ''method''"

subsection \<open>What the package calls\<close>

datatype goexpr = Ident gostring | StarExpr goexpr | IndexExpr goexpr | IndexListExpr goexpr | OtherExpr

datatype gotype = StructType | InterfaceType | OtherType

datatype gospec = TypeSpec gostring gotype nat | OtherSpec

text \<open>
  \<open>FuncDecl name recv line\<close> with the receiver's field types (\<open>None\<close> for \<open>nil\<close>);
  \<open>GenDecl is_type specs\<close> with whether the token is \<open>TYPE\<close>; the number is the line of
  the node's position.
\<close>

datatype godecl = FuncDecl gostring "goexpr list option" nat | GenDecl bool "gospec list" | BadDecl

datatype symre = javaTypeRe | pyDefRe | tsFuncRe | tsTypeRe | tsAliasRe | tsArrowRe | tsMethodRe

text \<open>
  \<open>ParseFile src\<close> is the list of declarations, \<open>None\<close> for a nil file.
  \<open>FindAllSubmatchIndex\<close> gives the index pairs of every match, \<open>FindSubmatch\<close> the texts of
  the first one.
\<close>

record symlib =
  ParseFile :: "bytes \<Rightarrow> godecl list option"
  FindAllSubmatchIndex :: "symre \<Rightarrow> bytes \<Rightarrow> nat list list"
  FindSubmatch :: "symre \<Rightarrow> bytes \<Rightarrow> bytes list option"
  unicode_ToLower :: "rune \<Rightarrow> rune"

subsection \<open>symbol.go\<close>

text \<open>\<open>filepath.Ext\<close>: from the last dot of the last path element.\<close>

definition pathBase :: "gostring \<Rightarrow> gostring" where
  "pathBase p = (case LastIndexByte p slash of None \<Rightarrow> p | Some i \<Rightarrow> drop (i + 1) p)"

definition Ext :: "gostring \<Rightarrow> gostring" where
  "Ext path = (case LastIndexByte (pathBase path) 46 of None \<Rightarrow> [] | Some i \<Rightarrow> drop i (pathBase path))"

definition Language :: "(rune \<Rightarrow> rune) \<Rightarrow> gostring \<Rightarrow> gostring" where
  "Language uni path =
     (let e = ToLower uni (Ext path) in
      if e = str ''.go'' then str ''go''
      else if e = str ''.java'' then str ''java''
      else if e = str ''.py'' then str ''python''
      else if e \<in> {str ''.ts'', str ''.tsx'', str ''.js'', str ''.jsx'', str ''.mjs''} then str ''typescript''
      else [])"

definition isIdentByte :: "byte \<Rightarrow> bool" where
  "isIdentByte c \<longleftrightarrow>
     c = 95 \<or> (c \<ge> 97 \<and> c \<le> 122) \<or> (c \<ge> 65 \<and> c \<le> 90) \<or> (c \<ge> 48 \<and> c \<le> 57)"

subsection \<open>golang.go\<close>

fun recvTypeName :: "goexpr \<Rightarrow> gostring" where
  "recvTypeName (Ident n) = n"
| "recvTypeName (StarExpr x) = recvTypeName x"
| "recvTypeName (IndexExpr x) = recvTypeName x"
| "recvTypeName (IndexListExpr x) = recvTypeName x"
| "recvTypeName OtherExpr = []"

fun specDefs :: "gospec \<Rightarrow> Def list" where
  "specDefs (TypeSpec n t l) =
     [\<lparr>d_Name = n,
       d_Kind = (case t of StructType \<Rightarrow> KindStruct | InterfaceType \<Rightarrow> KindInterface | OtherType \<Rightarrow> KindType),
       d_Container = [], d_Line = l\<rparr>]"
| "specDefs OtherSpec = []"

fun declDefs :: "godecl \<Rightarrow> Def list" where
  "declDefs (FuncDecl n recv l) =
     (case recv of
        Some (t # _) \<Rightarrow> [\<lparr>d_Name = n, d_Kind = KindMethod, d_Container = recvTypeName t, d_Line = l\<rparr>]
      | _ \<Rightarrow> [\<lparr>d_Name = n, d_Kind = KindFunc, d_Container = [], d_Line = l\<rparr>])"
| "declDefs (GenDecl is_type specs) = (if is_type then concat (map specDefs specs) else [])"
| "declDefs BadDecl = []"

definition extractGo :: "symlib \<Rightarrow> bytes \<Rightarrow> Def list" where
  "extractGo S src =
     (case ParseFile S src of None \<Rightarrow> [] | Some decls \<Rightarrow> concat (map declDefs decls))"

subsection \<open>java.go\<close>

definition is_space :: "byte \<Rightarrow> bool" where
  "is_space c \<longleftrightarrow> c = 32 \<or> c = 9 \<or> c = 10 \<or> c = 13"

definition skipSpace :: "bytes \<Rightarrow> nat \<Rightarrow> nat" where
  "skipSpace s i = i + length (takeWhile is_space (drop i s))"

text \<open>The backward scans \<open>for p >= 0 && P(s[p]) { p-- }\<close>: the result is \<open>p + 1\<close>, so \<open>0\<close> is the
  source's \<open>p < 0\<close>.\<close>

definition backSkip :: "(byte \<Rightarrow> bool) \<Rightarrow> bytes \<Rightarrow> nat \<Rightarrow> nat" where
  "backSkip P s e = e - length (takeWhile P (rev (take e s)))"

definition notDefPreceders :: "gostring set" where
  "notDefPreceders = set (map str
     [''if'', ''for'', ''while'', ''switch'', ''catch'', ''return'', ''new'', ''else'', ''do'', ''throw'',
      ''case'', ''assert'', ''yield'', ''await'', ''typeof'', ''in'', ''of'', ''delete'', ''synchronized'',
      ''try'', ''finally'', ''record''])"

record typeRange =
  tr_name :: gostring
  tr_kind :: gostring
  tr_range :: "(nat \<times> nat) option" \<comment> \<open>\<open>open\<close> and \<open>close\<close>; \<open>None\<close> is \<open>(-1, -1)\<close>\<close>

fun findOpen :: "bytes \<Rightarrow> nat \<Rightarrow> nat option" where
  "findOpen [] i = None"
| "findOpen (c # s) i = (if c = 123 then Some i else if c = 59 then None else findOpen s (i + 1))"

fun findClose :: "bytes \<Rightarrow> nat \<Rightarrow> int \<Rightarrow> nat" where
  "findClose [] i depth = i"
| "findClose (c # s) i depth =
     (if c = 123 then findClose s (i + 1) (depth + 1)
      else if c = 125 then (if depth - 1 = 0 then i + 1 else findClose s (i + 1) (depth - 1))
      else findClose s (i + 1) depth)"

definition braceRange :: "bytes \<Rightarrow> nat \<Rightarrow> (nat \<times> nat) option" where
  "braceRange s pos =
     (case findOpen (drop pos s) pos of
        None \<Rightarrow> None
      | Some op \<Rightarrow> Some (op, findClose (drop op s) op 0))"

fun innermost_loop :: "typeRange option \<Rightarrow> typeRange list \<Rightarrow> nat \<Rightarrow> typeRange option" where
  "innermost_loop best [] pos = best"
| "innermost_loop best (t # types) pos =
     innermost_loop
       (case tr_range t of
          None \<Rightarrow> best
        | Some (op, cl) \<Rightarrow>
            if op < pos \<and> pos < cl then
              (case best of
                 None \<Rightarrow> Some t
               | Some b \<Rightarrow> if op > fst (the (tr_range b)) then Some t else best)
            else best)
       types pos"

definition innermost :: "typeRange list \<Rightarrow> nat \<Rightarrow> typeRange option" where
  "innermost types pos = innermost_loop None types pos"

definition containerAt :: "typeRange list \<Rightarrow> nat \<Rightarrow> gostring" where
  "containerAt types pos = (case innermost types pos of None \<Rightarrow> [] | Some t \<Rightarrow> tr_name t)"

record methodCandidate =
  mc_name :: gostring
  mc_namePos :: nat
  mc_hasBody :: bool

fun skipParens :: "bytes \<Rightarrow> nat \<Rightarrow> int \<Rightarrow> nat" where
  "skipParens [] k depth = k"
| "skipParens (c # s) k depth =
     (if c = 40 then skipParens s (k + 1) (depth + 1)
      else if c = 41 then (if depth - 1 = 0 then k + 1 else skipParens s (k + 1) (depth - 1))
      else skipParens s (k + 1) depth)"

text \<open>The body of the loop for the identifier \<open>s[start:i]\<close>; every \<open>continue\<close> is \<open>None\<close>.\<close>

definition candidateAt :: "bytes \<Rightarrow> nat \<Rightarrow> nat \<Rightarrow> methodCandidate option" where
  "candidateAt s start i =
     (let name = slice s start i; j = skipSpace s i in
      if j \<ge> length s \<or> s ! j \<noteq> 40 then None
      else if name \<in> notDefPreceders then None
      else
        let p = backSkip is_space s start in
        if p = 0 then None
        else if s ! (p - 1) \<in> set (str ''.(,=+-!&|:?{;<*/'') then None
        else if \<not> isIdentByte (s ! (p - 1)) \<and> s ! (p - 1) \<notin> set (str ''>]};@'') then None
        else
          let prevWord = (if isIdentByte (s ! (p - 1)) then slice s (backSkip isIdentByte s p) p else []) in
          if prevWord \<in> notDefPreceders then None
          else
            let k = skipSpace s (skipParens (drop j s) j 0);
                k = (if k + 6 \<le> length s \<and> slice s k (k + 6) = str ''throws''
                     then k + length (takeWhile (\<lambda>c. c \<noteq> 123 \<and> c \<noteq> 59) (drop k s)) else k)
            in if k < length s \<and> s ! k = 123
               then Some \<lparr>mc_name = name, mc_namePos = start, mc_hasBody = True\<rparr>
               else if k < length s \<and> s ! k = 59 \<and> prevWord \<noteq> []
               then Some \<lparr>mc_name = name, mc_namePos = start, mc_hasBody = False\<rparr>
               else None)"

function methodCandidates_loop :: "bytes \<Rightarrow> nat \<Rightarrow> methodCandidate list" where
  "methodCandidates_loop s i =
     (if i < length s then
        if \<not> isIdentByte (s ! i) \<or> i > 0 \<and> isIdentByte (s ! (i - 1))
        then methodCandidates_loop s (i + 1)
        else
          let e = i + length (takeWhile isIdentByte (drop i s)) in
          (case candidateAt s i e of None \<Rightarrow> [] | Some c \<Rightarrow> [c]) @ methodCandidates_loop s (e + 1)
      else [])"
  by pat_completeness auto
termination
  by (relation "measure (\<lambda>(s, i). length s - i)") auto

declare methodCandidates_loop.simps [simp del]

definition methodCandidates :: "bytes \<Rightarrow> methodCandidate list" where
  "methodCandidates s = methodCandidates_loop s 0"

text \<open>The first loop of \<open>extractJava\<close>: one definition and one range per type declaration.\<close>

fun javaTypes :: "bytes \<Rightarrow> nat list \<Rightarrow> nat list list \<Rightarrow> typeRange list \<Rightarrow> typeRange list \<times> Def list" where
  "javaTypes s li [] types = (types, [])"
| "javaTypes s li (m # ms) types =
     (let kind = slice s (m ! 2) (m ! 3); name = slice s (m ! 4) (m ! 5);
          t = \<lparr>tr_name = name, tr_kind = kind, tr_range = braceRange s (m ! 1)\<rparr>;
          d = \<lparr>d_Name = name, d_Kind = kind, d_Container = containerAt types (m ! 0), d_Line = line li (m ! 0)\<rparr>;
          (types', defs) = javaTypes s li ms (types @ [t])
      in (types', d # defs))"

fun javaMethods :: "nat list \<Rightarrow> typeRange list \<Rightarrow> methodCandidate list \<Rightarrow> Def list" where
  "javaMethods li types [] = []"
| "javaMethods li types (c # cs) =
     (case innermost types (mc_namePos c) of
        None \<Rightarrow> javaMethods li types cs
      | Some tr \<Rightarrow>
          if \<not> mc_hasBody c \<and> tr_kind tr \<noteq> KindInterface then javaMethods li types cs
          else \<lparr>d_Name = mc_name c, d_Kind = KindMethod, d_Container = tr_name tr,
                d_Line = line li (mc_namePos c)\<rparr> # javaMethods li types cs)"

definition extractJava :: "symlib \<Rightarrow> bytes \<Rightarrow> Def list" where
  "extractJava S src =
     (let s = stripCLike src; li = newLineIndex s;
          (types, defs) = javaTypes s li (FindAllSubmatchIndex S javaTypeRe s) []
      in defs @ javaMethods li types (methodCandidates s))"

subsection \<open>python.go\<close>

text \<open>\<open>bytes.Split(s, "\<newline>")\<close>: always at least one piece.\<close>

fun splitLines :: "bytes \<Rightarrow> bytes list" where
  "splitLines [] = [[]]"
| "splitLines (c # s) =
     (if c = newline then [] # splitLines s
      else case splitLines s of [] \<Rightarrow> [[c]] | l # ls \<Rightarrow> (c # l) # ls)"

record frame =
  fr_name :: gostring
  fr_indent :: nat
  fr_class :: bool

text \<open>The stack grows to the left: its head is \<open>stack[len(stack)-1]\<close>.\<close>

fun pyLines :: "symlib \<Rightarrow> nat \<Rightarrow> bytes list \<Rightarrow> frame list \<Rightarrow> Def list" where
  "pyLines S lineNo [] stack = []"
| "pyLines S lineNo (l # ls) stack =
     (case FindSubmatch S pyDefRe l of
        None \<Rightarrow> pyLines S (lineNo + 1) ls stack
      | Some m \<Rightarrow>
          let indent = length (m ! 1); kw = m ! 2; name = m ! 3;
              stack' = dropWhile (\<lambda>f. fr_indent f \<ge> indent) stack;
              kind = (if kw = str ''class'' then KindClass
                      else if stack' \<noteq> [] \<and> fr_class (hd stack') then KindMethod
                      else KindFunc);
              d = \<lparr>d_Name = name, d_Kind = kind,
                   d_Container = (if stack' \<noteq> [] then fr_name (hd stack') else []),
                   d_Line = lineNo + 1\<rparr>
          in d # pyLines S (lineNo + 1) ls
                   (\<lparr>fr_name = name, fr_indent = indent, fr_class = (kw = str ''class'')\<rparr> # stack'))"

definition extractPython :: "symlib \<Rightarrow> bytes \<Rightarrow> Def list" where
  "extractPython S src = pyLines S 0 (splitLines (stripPython src)) []"

subsection \<open>typescript.go\<close>

definition tsNotMethods :: "gostring set" where
  "tsNotMethods = set (map str
     [''if'', ''for'', ''while'', ''switch'', ''catch'', ''function'', ''return'', ''with'', ''do'', ''else'',
      ''new'', ''typeof'', ''await'', ''yield'', ''case''])"

definition tsClass :: "bytes \<Rightarrow> nat list \<Rightarrow> typeRange" where
  "tsClass s m = \<lparr>tr_name = slice s (m ! 4) (m ! 5), tr_kind = slice s (m ! 2) (m ! 3),
                  tr_range = braceRange s (m ! 1)\<rparr>"

definition tsDef :: "bytes \<Rightarrow> nat list \<Rightarrow> gostring \<Rightarrow> nat list \<Rightarrow> Def" where
  "tsDef s li kind m =
     \<lparr>d_Name = slice s (m ! 2) (m ! 3), d_Kind = kind, d_Container = [], d_Line = line li (m ! 0)\<rparr>"

fun tsMethods :: "bytes \<Rightarrow> nat list \<Rightarrow> typeRange list \<Rightarrow> nat list list \<Rightarrow> Def list" where
  "tsMethods s li classes [] = []"
| "tsMethods s li classes (m # ms) =
     (let name = slice s (m ! 2) (m ! 3) in
      if name \<in> tsNotMethods then tsMethods s li classes ms
      else case innermost classes (m ! 2) of
        None \<Rightarrow> tsMethods s li classes ms
      | Some tr \<Rightarrow>
          if tr_kind tr \<noteq> KindClass then tsMethods s li classes ms
          else \<lparr>d_Name = name, d_Kind = KindMethod, d_Container = tr_name tr, d_Line = line li (m ! 2)\<rparr>
                 # tsMethods s li classes ms)"

definition extractTS :: "symlib \<Rightarrow> bytes \<Rightarrow> Def list" where
  "extractTS S src =
     (let s = stripCLike src; li = newLineIndex s;
          tms = FindAllSubmatchIndex S tsTypeRe s;
          classes = map (tsClass s) tms
      in map (\<lambda>m. \<lparr>d_Name = slice s (m ! 4) (m ! 5), d_Kind = slice s (m ! 2) (m ! 3),
                    d_Container = [], d_Line = line li (m ! 0)\<rparr>) tms
         @ map (tsDef s li KindFunc) (FindAllSubmatchIndex S tsFuncRe s)
         @ map (tsDef s li KindType) (FindAllSubmatchIndex S tsAliasRe s)
         @ map (tsDef s li KindFunc) (FindAllSubmatchIndex S tsArrowRe s)
         @ tsMethods s li classes (FindAllSubmatchIndex S tsMethodRe s))"

definition Extract :: "symlib \<Rightarrow> gostring \<Rightarrow> bytes \<Rightarrow> Def list" where
  "Extract S path src =
     (let lang = Language (unicode_ToLower S) path in
      if lang = str ''go'' then extractGo S src
      else if lang = str ''java'' then extractJava S src
      else if lang = str ''python'' then extractPython S src
      else if lang = str ''typescript'' then extractTS S src
      else [])"

subsection \<open>refs.go\<close>

record Ref =
  r_Line :: nat
  r_IsCall :: bool

definition atBoundary :: "bytes \<Rightarrow> nat \<Rightarrow> nat \<Rightarrow> bool" where
  "atBoundary s pos off \<longleftrightarrow>
     \<not> (pos > 0 \<and> isIdentByte (s ! (pos - 1)) \<or> off < length s \<and> isIdentByte (s ! off))"

definition isCallAt :: "bytes \<Rightarrow> nat \<Rightarrow> nat \<Rightarrow> bool" where
  "isCallAt s pos off \<longleftrightarrow>
     (let j = skipSpace s off in j < length s \<and> s ! j = 40) \<or>
     (let p = backSkip (\<lambda>c. c = 32 \<or> c = 9) s pos in
      p \<ge> 3 \<and> slice s (p - 3) p = str ''new'')"

text \<open>
  The scan \<open>for off := 0; ; {...}\<close>. It is a partial function because the source does not
  exclude the empty name, for which the offset never moves. \<open>seenLine\<close> is \<open>None\<close> for \<open>-1\<close>;
  the result so far is in reverse.
\<close>

partial_function (option) refs_loop ::
    "bytes \<Rightarrow> bytes \<Rightarrow> nat list \<Rightarrow> (nat \<Rightarrow> bool) \<Rightarrow> nat \<Rightarrow> nat option \<Rightarrow> Ref list \<Rightarrow> Ref list option" where
  "refs_loop s needle li defLines off seenLine refs =
     (case bytes_Index (drop off s) needle of
        None \<Rightarrow> Some (rev refs)
      | Some i \<Rightarrow>
          let pos = off + i; off' = pos + length needle in
          if \<not> atBoundary s pos off' then refs_loop s needle li defLines off' seenLine refs
          else
            let l = line li pos in
            if defLines l \<or> Some l = seenLine then refs_loop s needle li defLines off' seenLine refs
            else refs_loop s needle li defLines off' (Some l)
                   (\<lparr>r_Line = l, r_IsCall = isCallAt s pos off'\<rparr> # refs))"

definition Refs :: "symlib \<Rightarrow> gostring \<Rightarrow> bytes \<Rightarrow> gostring \<Rightarrow> Ref list option" where
  "Refs S path src name =
     (let s = StripLang (Language (unicode_ToLower S) path) src;
          defLines = (\<lambda>l. list_ex (\<lambda>d. d_Name d = name \<and> d_Line d = l) (Extract S path src))
      in refs_loop s name (newLineIndex s) defLines 0 None [])"

subsection \<open>Candidate references are exactly the identifier occurrences\<close>

text \<open>What the scan collects, given the positions of the bounded occurrences.\<close>

fun collectRefs :: "bytes \<Rightarrow> nat \<Rightarrow> (nat \<Rightarrow> bool) \<Rightarrow> nat option \<Rightarrow> nat list \<Rightarrow> Ref list" where
  "collectRefs s n D seen [] = []"
| "collectRefs s n D seen (p # ps) =
     (if D (lineOf s p) \<or> Some (lineOf s p) = seen then collectRefs s n D seen ps
      else \<lparr>r_Line = lineOf s p, r_IsCall = isCallAt s p (p + n)\<rparr> #
           collectRefs s n D (Some (lineOf s p)) ps)"

definition boundedPositions :: "bytes \<Rightarrow> bytes \<Rightarrow> nat \<Rightarrow> nat list" where
  "boundedPositions s name off =
     filter (\<lambda>p. atBoundary s p (p + length name)) (map fst (findAll_exact s name off))"

lemma refs_loop_spec:
  assumes "needle \<noteq> []"
  shows "refs_loop s needle (newLineIndex s) D off seen acc =
           Some (rev acc @ collectRefs s (length needle) D seen (boundedPositions s needle off))"
  using assms
proof (induction s needle off arbitrary: seen acc rule: findAll_exact.induct)
  case (1 s needle off)
  show ?case
  proof (cases "bytes_Index (drop off s) needle")
    case None
    with "1.prems" show ?thesis
      by (subst refs_loop.simps) (simp add: boundedPositions_def findAll_exact.simps [of s needle off])
  next
    case (Some i)
    then have "boundedPositions s needle off =
        (if atBoundary s (off + i) (off + i + length needle) then [off + i] else [])
        @ boundedPositions s needle (off + i + length needle)"
      using "1.prems" by (simp add: boundedPositions_def findAll_exact.simps [of s needle off])
    with Some "1.IH" [OF _ Some "1.prems"] "1.prems" show ?thesis
      by (subst refs_loop.simps) (auto simp: Let_def line_eq_lineOf)
  qed
qed

lemma lineOf_mono: "p \<le> q \<Longrightarrow> lineOf s p \<le> lineOf s q"
proof -
  assume "p \<le> q"
  then have "take q s = take p s @ take (q - p) (drop p s)"
    by (metis le_add_diff_inverse take_add)
  then show ?thesis by (auto simp: lineOf_def filter_empty_conv)
qed

lemma collectRefs_lines:
  assumes "sorted ps" and "\<forall>l. seen = Some l \<longrightarrow> (\<forall>p \<in> set ps. l \<le> lineOf s p)"
  shows "set (map r_Line (collectRefs s n D seen ps)) =
           {lineOf s p | p. p \<in> set ps \<and> \<not> D (lineOf s p) \<and> Some (lineOf s p) \<noteq> seen} \<and>
         sorted_wrt (<) (map r_Line (collectRefs s n D seen ps))"
  using assms
proof (induction ps arbitrary: seen)
  case (Cons p ps)
  let ?l = "lineOf s p"
  have mono: "\<forall>q \<in> set ps. ?l \<le> lineOf s q" using Cons.prems(1) by (auto intro: lineOf_mono)
  show ?case
  proof (cases "D ?l \<or> Some ?l = seen")
    case True
    with Cons.prems Cons.IH [of seen] show ?thesis by auto
  next
    case False
    have IH: "set (map r_Line (collectRefs s n D (Some ?l) ps)) =
        {lineOf s p | p. p \<in> set ps \<and> \<not> D (lineOf s p) \<and> Some (lineOf s p) \<noteq> Some ?l} \<and>
        sorted_wrt (<) (map r_Line (collectRefs s n D (Some ?l) ps))"
      using Cons.IH [of "Some ?l"] Cons.prems(1) mono by simp
    have "Some (lineOf s q) \<noteq> seen" if "q \<in> set ps" for q
      using that mono Cons.prems(2) False by (metis le_antisym list.set_intros(1))
    with False mono IH show ?thesis
      by (auto simp: le_less)
  qed
qed simp

definition identOcc :: "bytes \<Rightarrow> gostring \<Rightarrow> nat \<Rightarrow> bool" where
  "identOcc s name p \<longleftrightarrow> prefix name (drop p s) \<and> atBoundary s p (p + length name)"

lemma boundedPositions_sorted: "name \<noteq> [] \<Longrightarrow> sorted (boundedPositions s name off)"
proof -
  assume "name \<noteq> []"
  have "sorted_wrt (\<lambda>m m'. fst m \<le> fst m') (findAll_exact s name off)"
  proof (rule sorted_wrt_mono_rel [OF _ findAll_exact_sorted])
    fix m m' assume "m \<in> set (findAll_exact s name off)" and "m' \<in> set (findAll_exact s name off)"
      and "(case m of (a, b) \<Rightarrow> \<lambda>(a', b'). b \<le> a') m'"
    then show "fst m \<le> fst m'"
      by (auto split: prod.splits dest: findAll_exact_sound)
  qed
  then show ?thesis
    by (simp add: boundedPositions_def sorted_map sorted_wrt_filter)
qed

text \<open>Overlapping occurrences cannot both be bounded, so skipping past a match loses none.\<close>

lemma boundedPositions_set:
  assumes "name \<noteq> []" and "\<forall>c \<in> set name. isIdentByte c"
  shows "set (boundedPositions s name 0) = {p. identOcc s name p}"
proof
  show "set (boundedPositions s name 0) \<subseteq> {p. identOcc s name p}"
    by (auto simp: boundedPositions_def identOcc_def dest: findAll_exact_sound)
  show "{p. identOcc s name p} \<subseteq> set (boundedPositions s name 0)"
  proof
    fix p assume "p \<in> {p. identOcc s name p}"
    then have occ: "prefix name (drop p s)" and bd: "atBoundary s p (p + length name)"
      by (auto simp: identOcc_def)
    obtain a b where ab: "(a, b) \<in> set (findAll_exact s name 0)" "a \<le> p" "p < b"
      using findAll_exact_complete [OF assms(1) _ occ, of 0] by auto
    have a: "prefix name (drop a s)" "b = a + length name"
      using findAll_exact_sound [OF ab(1)] by auto
    have "a = p"
    proof (rule ccontr)
      assume "a \<noteq> p"
      then have k: "p - 1 - a < length name" "a + (p - 1 - a) = p - 1" "p > 0" using ab a(2) by auto
      have "\<forall>k < length name. s ! (a + k) = name ! k"
        using a(1) assms(1) by (simp add: prefix_drop_nth)
      with k(1) have "s ! (a + (p - 1 - a)) = name ! (p - 1 - a)" by blast
      then have "s ! (p - 1) = name ! (p - 1 - a)" unfolding k(2) .
      then have "isIdentByte (s ! (p - 1))" using assms(2) k by simp
      with bd k(3) show False by (simp add: atBoundary_def)
    qed
    with ab(1) a(2) bd show "p \<in> set (boundedPositions s name 0)"
      by (force simp: boundedPositions_def)
  qed
qed

lemma bytes_Index_Nil: "bytes_Index s [] = Some 0"
  by (cases s) auto

lemma refs_loop_returns_nonempty:
  assumes "refs_loop s needle li D off seen acc = Some r"
  shows "needle \<noteq> []"
proof (rule refs_loop.raw_induct [where P = "\<lambda>s needle li D off seen acc r. needle \<noteq> []", OF _ assms])
  fix f s needle li D off seen acc r
  assume IH: "\<And>s needle li D off seen acc r. f s needle li D off seen acc = Some r \<Longrightarrow> needle \<noteq> []"
    and eq: "(case bytes_Index (drop off s) needle of
        None \<Rightarrow> Some (rev acc)
      | Some i \<Rightarrow>
          let pos = off + i; off' = pos + length needle in
          if \<not> atBoundary s pos off' then f s needle li D off' seen acc
          else
            let l = line li pos in
            if D l \<or> Some l = seen then f s needle li D off' seen acc
            else f s needle li D off' (Some l)
                   (\<lparr>r_Line = l, r_IsCall = isCallAt s pos off'\<rparr> # acc)) = Some r"
  show "needle \<noteq> []"
  proof
    assume "needle = []"
    with eq obtain off' seen' acc' where "f s needle li D off' seen' acc' = Some r"
      by (auto simp: bytes_Index_Nil Let_def split: if_splits)
    with IH \<open>needle = []\<close> show False by blast
  qed
qed

lemma sorted_ref_lines:
  assumes "name \<noteq> []"
  shows "\<exists>refs. refs_loop s name (newLineIndex s) D 0 None [] = Some refs \<and>
           sorted_wrt (<) (map r_Line refs) \<and>
           set (map r_Line refs) =
             {lineOf s p | p. p \<in> set (boundedPositions s name 0) \<and> \<not> D (lineOf s p)}"
proof -
  note lines = collectRefs_lines [OF boundedPositions_sorted [OF assms, of s 0], of None s "length name" D]
  show ?thesis
    using lines by (simp add: refs_loop_spec [OF assms])
qed

subsection \<open>Properties\<close>

text \<open>Stripping comments and strings, for every language key, keeps the length of the text
  and every newline, changes bytes to blanks only, and therefore leaves the line number of
  every offset as it is in the source.\<close>

theorem strip_keeps_positions:
  "length (StripLang lang src) = length src \<and>
   (\<forall>i < length src. StripLang lang src ! i = src ! i \<or>
      (StripLang lang src ! i = 32 \<and> src ! i \<noteq> newline)) \<and>
   line (newLineIndex (StripLang lang src)) pos = lineOf src pos"
proof (intro conjI allI impI)
  fix i assume "i < length src"
  then show "StripLang lang src ! i = src ! i \<or> (StripLang lang src ! i = 32 \<and> src ! i \<noteq> newline)"
    using StripLang_blanked [of src lang] by (auto simp: blanked_def list_all2_conv_all_nth)
qed (simp_all add: line_eq_lineOf lineOf_blanked [OF StripLang_blanked])

theorem strip_keeps_positions_witness:
  "StripLang (str ''java'') (str ''a//b'') = str ''a   '' \<and>
   line (newLineIndex (StripLang (str ''java'') (str ''a//b''))) 2 = lineOf (str ''a//b'') 2"
proof -
  have "StripLang (str ''java'') (str ''a//b'') = str ''a   ''"
    by (simp add: StripLang_def stripCLike_def str_def next_is_def)
  then show ?thesis
    using strip_keeps_positions [of "str ''java''" "str ''a//b''" 2] by simp
qed

text \<open>C24. For a non-empty identifier, the reference scan returns, its lines are strictly
  increasing, and a line is reported exactly when the stripped text has an occurrence of the
  name on it that is not part of a longer identifier and the line does not define the name.\<close>

theorem Refs_exact:
  assumes "name \<noteq> []" and "\<forall>c \<in> set name. isIdentByte c"
  shows "\<exists>refs. Refs S path src name = Some refs \<and> sorted_wrt (<) (map r_Line refs) \<and>
    set (map r_Line refs) =
      {lineOf src p | p. identOcc (StripLang (Language (unicode_ToLower S) path) src) name p \<and>
         \<not> (\<exists>d \<in> set (Extract S path src). d_Name d = name \<and> d_Line d = lineOf src p)}"
proof -
  let ?s = "StripLang (Language (unicode_ToLower S) path) src"
  let ?D = "\<lambda>l. list_ex (\<lambda>d. d_Name d = name \<and> d_Line d = l) (Extract S path src)"
  from sorted_ref_lines [OF assms(1), of ?s ?D]
  obtain refs where refs: "Refs S path src name = Some refs" "sorted_wrt (<) (map r_Line refs)"
    "set (map r_Line refs) = {lineOf ?s p | p. p \<in> set (boundedPositions ?s name 0) \<and> \<not> ?D (lineOf ?s p)}"
    by (auto simp: Refs_def Let_def)
  show ?thesis
    using refs by (auto simp: boundedPositions_set [OF assms] lineOf_blanked [OF StripLang_blanked] list_ex_iff)
qed

theorem Refs_exact_witness:
  "\<exists>refs. Refs \<lparr>ParseFile = (\<lambda>_. None), FindAllSubmatchIndex = (\<lambda>_ _. []),
                FindSubmatch = (\<lambda>_ _. None), unicode_ToLower = (\<lambda>r. r)\<rparr>
             (str ''Makefile'') (str ''f ff'') (str ''f'') = Some refs \<and> map r_Line refs = [1]"
proof -
  let ?S = "\<lparr>ParseFile = (\<lambda>_. None), FindAllSubmatchIndex = (\<lambda>_ _. []),
             FindSubmatch = (\<lambda>_ _. None), unicode_ToLower = (\<lambda>r. r)\<rparr>"
  have lang: "Language (\<lambda>r. r) (str ''Makefile'') = []"
    by code_simp
  have name: "str ''f'' \<noteq> []" "\<forall>c \<in> set (str ''f''). isIdentByte c"
    by code_simp+
  have one: "lineOf (str ''f ff'') p = 1" for p
  proof -
    have "newline \<notin> set (take p (str ''f ff''))"
      by (rule notI, drule in_set_takeD) (simp add: str_def)
    then show ?thesis by (auto simp: lineOf_def filter_empty_conv)
  qed
  have occ: "identOcc (str ''f ff'') (str ''f'') 0" by code_simp
  have strip: "StripLang [] src = src" for src
    by (simp add: StripLang_def str_def)
  have noDefs: "Extract ?S (str ''Makefile'') src = []" for src
    by (simp add: Extract_def lang) (simp add: str_def)
  from Refs_exact [OF name, of ?S "str ''Makefile''" "str ''f ff''"]
  obtain refs where refs: "Refs ?S (str ''Makefile'') (str ''f ff'') (str ''f'') = Some refs"
    "sorted_wrt (<) (map r_Line refs)" "set (map r_Line refs) = {1}"
    using occ by (auto simp: lang one strip noDefs)
  have "xs = [1]" if "sorted_wrt (<) xs" "set xs = {1}" for xs :: "nat list"
    using strict_sorted_equal [of xs "[1]"] that by simp
  then have "map r_Line refs = [1]" using refs(2,3) by blast
  with refs(1) show ?thesis by (intro exI conjI)
qed

text \<open>The reference scan does not return on the empty name: the offset never moves.\<close>

theorem Refs_empty_name_diverges: "Refs S path src [] = None"
proof (cases "Refs S path src []")
  case (Some r)
  then have "[] \<noteq> ([] :: gostring)"
    unfolding Refs_def Let_def by (rule refs_loop_returns_nonempty)
  then show ?thesis by simp
qed

end
