(* ===== verification/Trigram.thy ===== *)
theory Trigram
  imports Literal
begin

text \<open>
  Trigram keys and posting-list intersection, shared by \<open>internal/index/index.go\<close> and
  \<open>internal/shard/shard.go\<close>, and the interface \<open>trigram_index\<close> that both engines
  implement: candidates are never missing a file that can match. A Go map used as a set
  (\<open>seen\<close>) is a duplicate-free list; every result below depends on its elements only.
\<close>

unbundle bit_operations_syntax

subsection \<open>Keys\<close>

definition triKey :: "byte \<Rightarrow> byte \<Rightarrow> byte \<Rightarrow> u32" where
  "triKey a b c =
     push_bit 16 (ucast (lower a)) OR push_bit 8 (ucast (lower b)) OR ucast (lower c)"

fun trigramsOf :: "bytes \<Rightarrow> u32 list \<Rightarrow> u32 list" where
  "trigramsOf (a # b # c # content) seen =
     trigramsOf (b # c # content) (List.insert (triKey a b c) seen)"
| "trigramsOf content seen = seen"

definition TrigramKeys :: "bytes \<Rightarrow> u32 list" where
  "TrigramKeys content = trigramsOf content []"

text \<open>The shard package sorts the keys of a literal.\<close>

definition trigramsOfLit :: "gostring \<Rightarrow> u32 list" where
  "trigramsOfLit s = sort (trigramsOf s [])"

subsection \<open>Intersection of sorted posting lists\<close>

fun intersectSorted :: "u32 list \<Rightarrow> u32 list \<Rightarrow> u32 list" where
  "intersectSorted (x # a) (y # b) =
     (if x < y then intersectSorted a (y # b)
      else if x > y then intersectSorted (x # a) b
      else x # intersectSorted a b)"
| "intersectSorted a b = []"

lemma set_intersectSorted:
  "sorted a \<Longrightarrow> sorted b \<Longrightarrow> set (intersectSorted a b) = set a \<inter> set b"
  by (induction a b rule: intersectSorted.induct) (auto simp: not_less order.antisym)

lemma intersectSorted_subset: "set (intersectSorted a b) \<subseteq> set a"
  by (induction a b rule: intersectSorted.induct) auto

lemma strict_sorted_intersectSorted:
  "sorted_wrt (<) a \<Longrightarrow> sorted_wrt (<) (intersectSorted a b)"
proof (induction a b rule: intersectSorted.induct)
  case (1 x a y b)
  then show ?case using intersectSorted_subset [of a b] by auto
qed auto

lemma sorted_intersectSorted: "sorted a \<Longrightarrow> sorted (intersectSorted a b)"
proof (induction a b rule: intersectSorted.induct)
  case (1 x a y b)
  then show ?case using intersectSorted_subset [of a b] by auto
qed auto

subsection \<open>The key set of a text\<close>

definition keys_of :: "bytes \<Rightarrow> u32 set" where
  "keys_of s = (\<lambda>i. triKey (s ! i) (s ! (i + 1)) (s ! (i + 2))) ` {i. i + 3 \<le> length s}"

lemma keys_of_short [simp]: "length s < 3 \<Longrightarrow> keys_of s = {}"
  by (auto simp: keys_of_def)

lemma keys_of_Cons3: "keys_of (a # b # c # s) = insert (triKey a b c) (keys_of (b # c # s))"
proof -
  have "{i. i + 3 \<le> length (a # b # c # s)} = insert 0 (Suc ` {i. i + 3 \<le> length (b # c # s)})"
  proof (intro set_eqI)
    fix i show "i \<in> {i. i + 3 \<le> length (a # b # c # s)} \<longleftrightarrow>
                i \<in> insert 0 (Suc ` {i. i + 3 \<le> length (b # c # s)})"
      by (cases i) auto
  qed
  then show ?thesis
    unfolding keys_of_def by (simp add: image_image)
qed

lemma trigramsOf_set [trigram_simps]: "set (trigramsOf s seen) = set seen \<union> keys_of s"
  by (induction s seen rule: trigramsOf.induct) (auto simp: keys_of_Cons3)

lemma trigramsOf_distinct [trigram_simps]: "distinct seen \<Longrightarrow> distinct (trigramsOf s seen)"
  by (induction s seen rule: trigramsOf.induct) auto

lemma TrigramKeys_set [trigram_simps]: "set (TrigramKeys s) = keys_of s"
  by (simp add: TrigramKeys_def trigramsOf_set)

lemma TrigramKeys_distinct [trigram_simps]: "distinct (TrigramKeys s)"
  by (simp add: TrigramKeys_def trigramsOf_distinct)

lemma trigramsOfLit_set [trigram_simps]: "set (trigramsOfLit s) = keys_of s"
  by (simp add: trigramsOfLit_def trigramsOf_set)

lemma trigramsOfLit_nonempty: "3 \<le> length s \<Longrightarrow> keys_of s \<noteq> {}"
  by (auto simp: keys_of_def intro: exI [of _ 0])

lemma triKey_lower [simp]: "triKey (lower a) (lower b) (lower c) = triKey a b c"
  by (simp add: triKey_def)

lemma keys_of_lower [simp]: "keys_of (map lower s) = keys_of s"
  unfolding keys_of_def by (rule image_cong) auto

lemma keys_of_sublist:
  assumes "sublist s t"
  shows "keys_of s \<subseteq> keys_of t"
proof -
  from assms obtain a b where t: "t = a @ s @ b" by (auto simp: sublist_def)
  show ?thesis
  proof
    fix k assume "k \<in> keys_of s"
    then obtain i where i: "i + 3 \<le> length s" "k = triKey (s ! i) (s ! (i + 1)) (s ! (i + 2))"
      by (auto simp: keys_of_def)
    then have "k = triKey (t ! (length a + i)) (t ! (length a + i + 1)) (t ! (length a + i + 2))"
      by (simp add: t nth_append)
    moreover have "length a + i + 3 \<le> length t" using i by (simp add: t)
    ultimately show "k \<in> keys_of t" unfolding keys_of_def by blast
  qed
qed

text \<open>A text that contains the literal, up to ASCII case, has every trigram of the literal.\<close>

lemma occurrence_has_keys:
  "Contains (map lower content) (map lower lit) \<Longrightarrow> keys_of lit \<subseteq> keys_of content"
  using keys_of_sublist [of "map lower lit" "map lower content"] by (simp add: Contains_iff)

subsection \<open>Posting lists over a sequence of texts\<close>

text \<open>The IDs of the texts with a key, in increasing order; a key that no text has is not in the map.\<close>

definition postings :: "bytes list \<Rightarrow> u32 \<Rightarrow> u32 list" where
  "postings cs k = map of_nat (filter (\<lambda>n. k \<in> keys_of (cs ! n)) [0..<length cs])"

definition tri_of :: "bytes list \<Rightarrow> u32 \<rightharpoonup> u32 list" where
  "tri_of cs k = (if postings cs k = [] then None else Some (postings cs k))"

lemma postings_snoc:
  "postings (cs @ [c]) k = postings cs k @ (if k \<in> keys_of c then [of_nat (length cs)] else [])"
proof -
  have "filter (\<lambda>n. k \<in> keys_of ((cs @ [c]) ! n)) [0..<length cs] = filter (\<lambda>n. k \<in> keys_of (cs ! n)) [0..<length cs]"
    by (rule filter_cong) (auto simp: nth_append)
  then show ?thesis by (simp add: postings_def)
qed

lemma tri_of_Nil [simp]: "tri_of [] = Map.empty"
  by (rule ext) (simp add: tri_of_def postings_def)

lemma set_postings:
  assumes "length cs \<le> 2 ^ 32"
  shows "set (postings cs k) = {fid. unat fid < length cs \<and> k \<in> keys_of (cs ! unat fid)}"
proof -
  have "unat (of_nat n :: u32) = n" if "n < length cs" for n
    using that assms by (simp add: unat_of_nat)
  then show ?thesis
    by (force simp: postings_def image_iff intro: exI [of _ "unat _"])
qed

lemma strict_sorted_postings:
  assumes "length cs \<le> 2 ^ 32"
  shows "sorted_wrt (<) (postings cs k)"
proof -
  have lt: "(of_nat i :: u32) < of_nat j" if "i < j" "j < length cs" for i j
    using that assms by (simp add: word_less_nat_alt unat_of_nat)
  have "sorted_wrt (<) (filter (\<lambda>n. k \<in> keys_of (cs ! n)) [0..<length cs])"
    by (intro sorted_wrt_filter sorted_wrt_upt)
  then show ?thesis
    unfolding postings_def sorted_wrt_map
    by (rule sorted_wrt_mono_rel [rotated]) (use lt in auto)
qed

subsection \<open>The interface of the two engines\<close>

text \<open>
  \<open>cands ix lit\<close> are the file IDs the engine will verify for a lower-cased literal,
  \<open>doc ix id\<close> the searchable content of a live file. The law says that pruning by
  trigrams may only drop files that lack one of the literal's trigrams.
\<close>

locale trigram_index =
  fixes cands :: "'ix \<Rightarrow> gostring \<Rightarrow> u32 list"
    and doc :: "'ix \<Rightarrow> u32 \<Rightarrow> bytes option"
    and inv :: "'ix \<Rightarrow> bool"
  assumes cands_complete:
    "inv ix \<Longrightarrow> doc ix fid = Some content \<Longrightarrow> keys_of lit \<subseteq> keys_of content \<Longrightarrow>
       fid \<in> set (cands ix lit)"
    and cands_sound:
    "inv ix \<Longrightarrow> doc ix fid = Some content \<Longrightarrow> 3 \<le> length lit \<Longrightarrow> fid \<in> set (cands ix lit) \<Longrightarrow>
       keys_of lit \<subseteq> keys_of content"
begin

lemma no_false_negative:
  assumes "inv ix" and "doc ix fid = Some content"
    and "Contains (map lower content) (map lower lit)"
  shows "fid \<in> set (cands ix lit)"
  using cands_complete [OF assms(1,2) occurrence_has_keys [OF assms(3)]] .

lemma exact_literal_found:
  assumes "inv ix" and "doc ix fid = Some content" and "Contains content lit"
  shows "fid \<in> set (cands ix (map lower lit))"
proof -
  have "keys_of (map lower lit) \<subseteq> keys_of content"
    using assms(3) by (simp add: Contains_iff keys_of_sublist)
  then show ?thesis by (rule cands_complete [OF assms(1,2)])
qed

lemma pruned_means_absent:
  assumes "inv ix" and "doc ix fid = Some content" and "fid \<notin> set (cands ix lit)"
  shows "\<not> Contains (map lower content) (map lower lit)"
  using assms no_false_negative by blast

end

end
