(* ===== verification/Query.thy ===== *)
theory Query
  imports Utf Trigram
begin

text \<open>
  \<open>internal/index/query.go\<close> and \<open>PlainLiteral\<close> of \<open>literal.go\<close>: the literal that every
  match of a pattern must contain, which drives the trigram lookup.

  The parser \<open>regexp/syntax\<close> is an argument: \<open>parse pattern\<close> is \<open>syntax.Parse\<close> with the Perl
  flags followed by \<open>Simplify\<close>, \<open>None\<close> when the pattern does not parse. Its result type and
  the documented meaning of its operators are modelled here, so that the extraction can
  be proved to be implied by a match.
\<close>

subsection \<open>regexp/syntax\<close>

datatype op =
    OpNoMatch | OpEmptyMatch | OpLiteral | OpCharClass | OpAnyCharNotNL | OpAnyChar
  | OpBeginLine | OpEndLine | OpBeginText | OpEndText | OpWordBoundary | OpNoWordBoundary
  | OpCapture | OpStar | OpPlus | OpQuest | OpRepeat | OpConcat | OpAlternate

datatype regexp = Regexp (Op: op) (FoldCase: bool) (Rune: "rune list") (Sub: "regexp list")

fun in_ranges :: "rune list \<Rightarrow> rune \<Rightarrow> bool" where
  "in_ranges (lo # hi # rs) r \<longleftrightarrow> lo \<le> r \<and> r \<le> hi \<or> in_ranges rs r"
| "in_ranges rs r \<longleftrightarrow> False"

text \<open>
  \<open>matches feq re w\<close>: the operator \<open>re\<close> can match the runes \<open>w\<close>. Zero-width assertions
  match the empty text, whatever surrounds it, so the relation holds of every text the
  engine matches. \<open>feq\<close> says which runes a case-folding literal identifies.
\<close>

inductive matches :: "(rune \<Rightarrow> rune \<Rightarrow> bool) \<Rightarrow> regexp \<Rightarrow> rune list \<Rightarrow> bool"
  for feq :: "rune \<Rightarrow> rune \<Rightarrow> bool" where
  m_empty: "op \<in> {OpEmptyMatch, OpBeginLine, OpEndLine, OpBeginText, OpEndText,
      OpWordBoundary, OpNoWordBoundary} \<Longrightarrow> matches feq (Regexp op f rs subs) []"
| m_literal: "matches feq (Regexp OpLiteral False rs subs) rs"
| m_fold: "list_all2 feq rs w \<Longrightarrow> matches feq (Regexp OpLiteral True rs subs) w"
| m_class: "in_ranges rs r \<Longrightarrow> matches feq (Regexp OpCharClass f rs subs) [r]"
| m_anynl: "r \<noteq> 10 \<Longrightarrow> matches feq (Regexp OpAnyCharNotNL f rs subs) [r]"
| m_any: "matches feq (Regexp OpAnyChar f rs subs) [r]"
| m_capture: "matches feq sub w \<Longrightarrow> matches feq (Regexp OpCapture f rs (sub # subs)) w"
| m_star0: "op \<in> {OpStar, OpQuest, OpRepeat} \<Longrightarrow> matches feq (Regexp op f rs subs) []"
| m_star: "op \<in> {OpStar, OpPlus, OpRepeat} \<Longrightarrow> matches feq sub v \<Longrightarrow>
     matches feq (Regexp op f rs (sub # subs)) w \<Longrightarrow> matches feq (Regexp op f rs (sub # subs)) (v @ w)"
| m_once: "op \<in> {OpStar, OpPlus, OpQuest, OpRepeat} \<Longrightarrow> matches feq sub w \<Longrightarrow>
     matches feq (Regexp op f rs (sub # subs)) w"
| m_concat: "list_all2 (matches feq) subs ws \<Longrightarrow> matches feq (Regexp OpConcat f rs subs) (concat ws)"
| m_alt: "sub \<in> set subs \<Longrightarrow> matches feq sub w \<Longrightarrow> matches feq (Regexp OpAlternate f rs subs) w"
  monos list.rel_mono_strong

subsection \<open>Model\<close>

definition PlainLiteral :: "(gostring \<Rightarrow> regexp option) \<Rightarrow> gostring \<Rightarrow> bool \<Rightarrow> gostring option" where
  "PlainLiteral parse pattern fixed =
     (if fixed then Some pattern
      else case parse pattern of
        None \<Rightarrow> None
      | Some re \<Rightarrow> if Op re = OpLiteral \<and> \<not> FoldCase re then Some (string_of_runes (Rune re)) else None)"

definition longer :: "gostring \<Rightarrow> gostring \<Rightarrow> gostring" where
  "longer best s = (if length s > length best then s else best)"

text \<open>
  The \<open>OpConcat\<close> case walks the children with the state \<open>(best, run)\<close>; \<open>flush\<close> compares the
  finished run of adjacent literals with the best one so far.
\<close>

fun requiredLiteral :: "(rune \<Rightarrow> rune) \<Rightarrow> regexp \<Rightarrow> gostring"
  and requiredConcat :: "(rune \<Rightarrow> rune) \<Rightarrow> regexp list \<Rightarrow> gostring \<Rightarrow> gostring \<Rightarrow> gostring" where
  "requiredLiteral uni (Regexp OpLiteral fc rs subs) =
     (if fc then ToLower uni (string_of_runes rs) else string_of_runes rs)"
| "requiredLiteral uni (Regexp OpCapture fc rs (sub # subs)) = requiredLiteral uni sub"
| "requiredLiteral uni (Regexp OpPlus fc rs (sub # subs)) = requiredLiteral uni sub"
| "requiredLiteral uni (Regexp OpConcat fc rs subs) = requiredConcat uni subs [] []"
| "requiredLiteral uni re = []"
| "requiredConcat uni [] best run = longer best run"
| "requiredConcat uni (sub # subs) best run =
     (if Op sub = OpLiteral \<and> \<not> FoldCase sub
      then requiredConcat uni subs best (run @ string_of_runes (Rune sub))
      else requiredConcat uni subs (longer (longer best run) (requiredLiteral uni sub)) [])"

definition ExtractLiteral ::
    "(gostring \<Rightarrow> regexp option) \<Rightarrow> (rune \<Rightarrow> rune) \<Rightarrow> gostring \<Rightarrow> bool \<Rightarrow> gostring" where
  "ExtractLiteral parse uni pattern fixed =
     (let lit = (if fixed then pattern
                 else case parse pattern of None \<Rightarrow> [] | Some re \<Rightarrow> requiredLiteral uni re)
      in if length lit < 3 then [] else ToLower uni lit)"

subsection \<open>Every match contains the required literal\<close>

lemma string_of_runes_append [simp]:
  "string_of_runes (v @ w) = string_of_runes v @ string_of_runes w"
  by (simp add: string_of_runes_def)

lemma string_of_runes_Nil [simp]: "string_of_runes [] = []"
  by (simp add: string_of_runes_def)

text \<open>
  The folding classes of \<open>k\<close> and \<open>s\<close> contain non-ASCII runes (the Kelvin sign, the long
  s); those of the other ASCII runes do not. \<open>ascii_folding\<close> is that documented fact, and
  \<open>fold_safe\<close> says that a pattern's case-folding literals keep to such runes.
\<close>

definition ascii_folding :: "(rune \<Rightarrow> rune \<Rightarrow> bool) \<Rightarrow> bool" where
  "ascii_folding feq \<longleftrightarrow>
     (\<forall>r r'. r < 128 \<and> r \<notin> {75, 83, 107, 115} \<and> feq r r' \<longrightarrow>
        r' < 128 \<and> lower (of_nat r') = lower (of_nat r))"

fun fold_safe :: "regexp \<Rightarrow> bool" where
  "fold_safe (Regexp op fc rs subs) \<longleftrightarrow>
     (op = OpLiteral \<and> fc \<longrightarrow> (\<forall>r \<in> set rs. r < 128 \<and> r \<notin> {75, 83, 107, 115})) \<and>
     (\<forall>sub \<in> set subs. fold_safe sub)"

abbreviation lc :: "bytes \<Rightarrow> bytes" where "lc \<equiv> map lower"

lemma of_nat_byte_less: "r < 128 \<Longrightarrow> \<not> (0x80 :: byte) \<le> of_nat r"
  by (simp add: word_le_nat_alt unat_of_nat)

lemma string_of_runes_ascii:
  "\<forall>r \<in> set rs. r < 128 \<Longrightarrow> string_of_runes rs = map of_nat rs \<and> \<not> HasNonASCII (string_of_runes rs)"
  by (induction rs) (auto simp: string_of_runes_def EncodeRune_def HasNonASCII_def of_nat_byte_less)

lemma fold_literal_lc:
  assumes "ascii_folding feq" and "\<forall>r \<in> set rs. r < 128 \<and> r \<notin> {75, 83, 107, 115}"
    and "list_all2 feq rs w"
  shows "lc (ToLower uni (string_of_runes rs)) = lc (string_of_runes w)"
proof -
  have w: "(\<forall>r \<in> set w. r < 128) \<and> lc (map of_nat w) = lc (map of_nat rs)"
    using assms(3,2) assms(1) [unfolded ascii_folding_def]
    by (induction rs w rule: list_all2_induct) auto
  moreover have "\<forall>r \<in> set rs. r < 128" using assms(2) by blast
  ultimately have rs: "string_of_runes rs = map of_nat rs" "\<not> HasNonASCII (string_of_runes rs)"
    and "string_of_runes w = map of_nat w"
    using string_of_runes_ascii by blast+
  with w ToLower_ascii [OF rs(2), of uni] show ?thesis
    by (simp add: comp_def)
qed

lemma sublist_longer:
  "sublist (lc a) t \<Longrightarrow> sublist (lc b) t \<Longrightarrow> sublist (lc (longer a b)) t"
  by (simp add: longer_def)

lemma requiredConcat_sound:
  assumes "list_all2 (\<lambda>sub w. sublist (lc (requiredLiteral uni sub)) (lc (string_of_runes w)) \<and>
             (Op sub = OpLiteral \<and> \<not> FoldCase sub \<longrightarrow> w = Rune sub)) subs ws"
    and "sublist (lc best) (lc done)" and "suffix (lc run) (lc done)"
  shows "sublist (lc (requiredConcat uni subs best run)) (lc (done @ string_of_runes (concat ws)))"
  using assms
proof (induction subs ws arbitrary: best run "done" rule: list_all2_induct)
  case Nil
  then show ?case by (auto intro: sublist_longer suffix_imp_sublist)
next
  case (Cons sub subs w ws)
  let ?d = "done @ string_of_runes w"
  have into: "sublist a (lc done) \<Longrightarrow> sublist a (lc ?d)" for a
    by (auto simp: sublist_append)
  show ?case
  proof (cases "Op sub = OpLiteral \<and> \<not> FoldCase sub")
    case True
    with Cons.hyps have "w = Rune sub" by blast
    then have "suffix (lc (run @ string_of_runes (Rune sub))) (lc ?d)"
      using Cons.prems(2) by (auto simp: suffix_def)
    from Cons.IH [OF into [OF Cons.prems(1)] this] True show ?thesis by simp
  next
    case False
    have "sublist (lc (requiredLiteral uni sub)) (lc ?d)"
      using Cons.hyps by (auto simp: sublist_append)
    moreover have "sublist (lc (longer best run)) (lc ?d)"
      using Cons.prems by (intro into sublist_longer) (auto intro: suffix_imp_sublist)
    ultimately have "sublist (lc (longer (longer best run) (requiredLiteral uni sub))) (lc ?d)"
      by (rule sublist_longer [rotated])
    from Cons.IH [OF this, of "[]"] False show ?thesis by auto
  qed
qed

lemma requiredLiteral_sound:
  assumes "matches feq re w" and "ascii_folding feq" and "fold_safe re"
  shows "sublist (lc (requiredLiteral uni re)) (lc (string_of_runes w)) \<and>
         (Op re = OpLiteral \<and> \<not> FoldCase re \<longrightarrow> w = Rune re)"
  using assms(1,3)
proof (induction rule: matches.induct)
  case (m_fold rs w subs)
  with assms(2) have "lc (ToLower uni (string_of_runes rs)) = lc (string_of_runes w)"
    by (intro fold_literal_lc) auto
  then show ?case by simp
next
  case (m_star op sub v f rs subs w)
  then show ?case by (auto simp: sublist_append)
next
  case (m_concat subs ws f rs)
  have "list_all2 (\<lambda>sub w. sublist (lc (requiredLiteral uni sub)) (lc (string_of_runes w)) \<and>
             (Op sub = OpLiteral \<and> \<not> FoldCase sub \<longrightarrow> w = Rune sub)) subs ws"
    using m_concat.IH m_concat.prems by (auto simp: list_all2_conv_all_nth)
  from requiredConcat_sound [OF this, of "[]" "[]" "[]"] show ?case by simp
qed auto

text \<open>
  Whatever text a match occurs in, it has all trigrams of the extracted literal, so the
  lookup keeps it. The literal has to be ASCII because Unicode lower-casing and the
  index's ASCII folding disagree beyond it.
\<close>

lemma ExtractLiteral_keys:
  assumes "parse pattern = Some re" and "matches feq re w" and "ascii_folding feq" and "fold_safe re"
    and "\<not> HasNonASCII (requiredLiteral uni re)"
  shows "keys_of (ExtractLiteral parse uni pattern False) \<subseteq> keys_of (a @ string_of_runes w @ b)"
proof -
  let ?l = "requiredLiteral uni re"
  have "sublist (lc ?l) (lc (a @ string_of_runes w @ b))"
    using requiredLiteral_sound [OF assms(2-4), of uni] by (auto simp: sublist_append)
  from keys_of_sublist [OF this] have "keys_of ?l \<subseteq> keys_of (a @ string_of_runes w @ b)"
    by (simp del: map_append)
  with assms(1,5) show ?thesis
    by (auto simp: ExtractLiteral_def ToLower_ascii Let_def)
qed

lemma ExtractLiteral_fixed_keys:
  assumes "\<not> HasNonASCII lit"
  shows "keys_of (ExtractLiteral parse uni lit True) \<subseteq> keys_of lit"
  using assms by (simp add: ExtractLiteral_def ToLower_ascii)

subsection \<open>Properties\<close>

text \<open>C23. Trigram pruning loses no match: when a pattern's case-folding literals stay in the
  runes whose folding is ASCII and its required literal is ASCII, then every text with a
  match of the pattern in it has all the trigrams of the extracted literal.\<close>

theorem ExtractLiteral_prunes_soundly:
  assumes "parse pattern = Some re" and "matches feq re w" and "ascii_folding feq" and "fold_safe re"
    and "\<not> HasNonASCII (requiredLiteral uni re)"
  shows "keys_of (ExtractLiteral parse uni pattern False) \<subseteq> keys_of (a @ string_of_runes w @ b)"
  using assms by (rule ExtractLiteral_keys)

theorem ExtractLiteral_prunes_soundly_witness:
  "keys_of (ExtractLiteral (\<lambda>_. Some (Regexp OpConcat False []
        [Regexp OpLiteral False [102, 111, 111] [], Regexp OpStar False [] [Regexp OpAnyChar False [] []]]))
      (\<lambda>r. r) (str ''foo(?s:.)*'') False)
   \<subseteq> keys_of (str ''x='' @ string_of_runes [102, 111, 111] @ str '';'')"
proof -
  let ?re = "Regexp OpConcat False []
        [Regexp OpLiteral False [102, 111, 111] [], Regexp OpStar False [] [Regexp OpAnyChar False [] []]]"
  have "list_all2 (matches (=)) [Regexp OpLiteral False [102, 111, 111] [],
          Regexp OpStar False [] [Regexp OpAnyChar False [] []]] [[102, 111, 111], []]"
    by (simp add: m_literal m_star0)
  from m_concat [OF this] have m: "matches (=) ?re [102, 111, 111]" by simp
  have safe: "ascii_folding (=)" "fold_safe ?re"
    by (auto simp: ascii_folding_def)
  have ascii: "\<not> HasNonASCII (requiredLiteral (\<lambda>r. r) ?re)"
    by (simp add: HasNonASCII_def longer_def string_of_runes_def EncodeRune_def)
  show ?thesis
    by (rule ExtractLiteral_prunes_soundly [OF _ m safe ascii]) simp
qed

text \<open>Lower-casing a literal with Unicode rules loses files when it is not ASCII: for the
  fixed pattern of two capital E with acute accent, the file that is exactly that text lacks
  the trigrams of the extracted literal, since the index folds ASCII letters only.\<close>

theorem ExtractLiteral_nonascii_pruned:
  assumes "uni 0xC9 = 0xE9"
  shows "\<not> keys_of (ExtractLiteral parse uni [0xC3, 0x89, 0xC3, 0x89] True)
           \<subseteq> keys_of [0xC3, 0x89, 0xC3, 0x89]"
proof -
  have "runes [0xC3, 0x89, 0xC3, 0x89] = [0xC9, 0xC9]" by code_simp
  with assms have "ExtractLiteral parse uni [0xC3, 0x89, 0xC3, 0x89] True = string_of_runes [0xE9, 0xE9]"
    by (simp add: ExtractLiteral_def ToLower_def HasNonASCII_def)
  moreover have "string_of_runes [0xE9, 0xE9] = [0xC3, 0xA9, 0xC3, 0xA9]"
    by (simp add: string_of_runes_def EncodeRune_def)
  moreover have "triKey 0xC3 0xA9 0xC3 \<notin> {triKey 0xC3 0x89 0xC3, triKey 0x89 0xC3 0x89}"
    by code_simp
  ultimately show ?thesis by (simp add: keys_of_Cons3)
qed

theorem ExtractLiteral_nonascii_pruned_witness:
  "\<not> keys_of (ExtractLiteral (\<lambda>_. None) (\<lambda>r. if r = 0xC9 then 0xE9 else r) [0xC3, 0x89, 0xC3, 0x89] True)
     \<subseteq> keys_of [0xC3, 0x89, 0xC3, 0x89]"
  by (rule ExtractLiteral_nonascii_pruned) simp

end
