(* ===== verification/Matcher.thy ===== *)
theory Matcher
  imports Query
begin

text \<open>
  \<open>internal/index/matcher.go\<close>: the compiled pattern with the literal fast path and its
  rare-byte pre-filter. The package \<open>regexp\<close> is the record \<open>regexlib\<close>: compiled
  expressions are values of a type \<open>'re\<close>, and only the four operations the sources call
  are used. The main fact is that the pre-filter never changes a result.
\<close>

record 're regexlib =
  re_Parse :: "gostring \<Rightarrow> regexp option"
  re_Compile :: "gostring \<Rightarrow> gostring + 're"
  re_String :: "'re \<Rightarrow> gostring"
  re_FindIndex :: "'re \<Rightarrow> bytes \<Rightarrow> (nat \<times> nat) option"
  re_FindAllIndex :: "'re \<Rightarrow> bytes \<Rightarrow> (nat \<times> nat) list"

text \<open>\<open>regexp.QuoteMeta\<close>\<close>

definition QuoteMeta :: "gostring \<Rightarrow> gostring" where
  "QuoteMeta s = concat (map (\<lambda>b. if b \<in> set (str [CHR 0x5C] @ str ''.+*?()|[]{}^$'') then [0x5C, b] else [b]) s)"

subsection \<open>Model\<close>

record 're Matcher =
  m_Re :: "'re option"
  m_PlainLit :: gostring
  m_Fold :: bool
  m_rareByte :: byte
  m_hasRare :: bool

definition byteFreqRank :: "byte \<Rightarrow> byte" where
  "byteFreqRank b =
     (if b \<in> set (str ''(){}[];,._=-+*/<>&|!:'' @ [0x22, 0x27, 0x5C, 0x23]) then 140
      else if 48 \<le> b \<and> b \<le> 57 then 160
      else if 65 \<le> b \<and> b \<le> 90 then 180
      else if 97 \<le> b \<and> b \<le> 122 then 200
      else if b \<in> {32, 9, 10, 13} then 255
      else 50)"

fun pickRare_loop :: "byte \<Rightarrow> gostring \<Rightarrow> byte" where
  "pickRare_loop best [] = best"
| "pickRare_loop best (b # lit) =
     pickRare_loop (if byteFreqRank b < byteFreqRank best then b else best) lit"

fun pickRareByte :: "gostring \<Rightarrow> byte \<times> bool" where
  "pickRareByte [] = (0, False)"
| "pickRareByte (b # lit) = (pickRare_loop b lit, True)"

definition MatcherFor ::
    "'re regexlib \<Rightarrow> gostring \<Rightarrow> bool \<Rightarrow> bool \<Rightarrow> gostring + 're Matcher" where
  "MatcherFor L pattern fixed nocase =
     (let pat = (if fixed then QuoteMeta pattern else pattern);
          pat = (if nocase then str ''(?i)'' @ pat else pat)
      in case re_Compile L pat of
           Inl err \<Rightarrow> Inl err
         | Inr re \<Rightarrow>
             let m = \<lparr>m_Re = Some re, m_PlainLit = [], m_Fold = False, m_rareByte = 0, m_hasRare = False\<rparr>;
                 m = (case PlainLiteral (re_Parse L) pattern fixed of
                        None \<Rightarrow> m
                      | Some lit \<Rightarrow>
                          if \<not> nocase then m\<lparr>m_PlainLit := lit\<rparr>
                          else if \<not> HasNonASCII lit then m\<lparr>m_PlainLit := lit, m_Fold := True\<rparr>
                          else m);
                 m = (if m_PlainLit m \<noteq> []
                      then m\<lparr>m_rareByte := fst (pickRareByte (m_PlainLit m)),
                             m_hasRare := snd (pickRareByte (m_PlainLit m))\<rparr>
                      else m)
             in Inr m)"

definition is_letter :: "byte \<Rightarrow> bool" where
  "is_letter b \<longleftrightarrow> (97 \<le> b \<and> b \<le> 122) \<or> (65 \<le> b \<and> b \<le> 90)"

text \<open>The early \<open>return nil\<close> of the pre-filter: the rarest byte of the literal is absent.\<close>

definition rare_absent :: "'re Matcher \<Rightarrow> bytes \<Rightarrow> bool" where
  "rare_absent m line \<longleftrightarrow>
     m_hasRare m \<and> IndexByte line (m_rareByte m) = None \<and>
     (\<not> m_Fold m \<or>
      (let alt = xor (m_rareByte m) 0x20 in is_letter alt \<and> IndexByte line alt = None))"

definition FindFirst :: "'re regexlib \<Rightarrow> 're Matcher \<Rightarrow> bytes \<Rightarrow> (nat \<times> nat) option" where
  "FindFirst L m line =
     (if m_PlainLit m \<noteq> [] then
        if rare_absent m line then None
        else
          let lit = m_PlainLit m;
              i = (if m_Fold m then foldIndex line lit else bytes_Index line lit)
          in map_option (\<lambda>i. (i, i + length lit)) i
      else case m_Re m of None \<Rightarrow> None | Some re \<Rightarrow> re_FindIndex L re line)"

subsection \<open>The rare byte belongs to the literal\<close>

definition matcher_ok :: "'re Matcher \<Rightarrow> bool" where
  "matcher_ok m \<longleftrightarrow> (m_hasRare m \<longrightarrow> m_rareByte m \<in> set (m_PlainLit m))"

lemma pickRare_loop_in: "pickRare_loop b lit \<in> insert b (set lit)"
proof (induction lit arbitrary: b)
  case (Cons x lit)
  show ?case using Cons [of "if byteFreqRank x < byteFreqRank b then x else b"] by auto
qed simp

lemma pickRareByte_in: "lit \<noteq> [] \<Longrightarrow> fst (pickRareByte lit) \<in> set lit"
  by (cases lit) (use pickRare_loop_in in auto)

lemma pickRare_loop_min:
  "\<forall>x \<in> insert b (set lit). byteFreqRank (pickRare_loop b lit) \<le> byteFreqRank x"
proof (induction lit arbitrary: b)
  case (Cons x lit)
  show ?case
    using Cons [of "if byteFreqRank x < byteFreqRank b then x else b"]
    by (auto simp: not_less split: if_splits)
qed simp

lemma pickRareByte_min:
  "x \<in> set lit \<Longrightarrow> byteFreqRank (fst (pickRareByte lit)) \<le> byteFreqRank x"
  by (cases lit) (use pickRare_loop_min in auto)

lemma MatcherFor_ok: "MatcherFor L pattern fixed nocase = Inr m \<Longrightarrow> matcher_ok m"
  by (auto simp: MatcherFor_def matcher_ok_def Let_def pickRareByte_in
      split: sum.splits option.splits if_splits)

lemma MatcherFor_fixed:
  assumes "MatcherFor L lit True nocase = Inr m" and "nocase \<longrightarrow> \<not> HasNonASCII lit"
  shows "m_PlainLit m = lit \<and> m_Fold m = nocase"
  using assms by (auto simp: MatcherFor_def PlainLiteral_def Let_def split: sum.splits if_splits)

subsection \<open>The pre-filter is invisible\<close>

lemma xor_32_case_pair:
  fixes r :: byte
  shows "65 \<le> r \<and> r \<le> 90 \<Longrightarrow> xor r 32 = r + 32" and "97 \<le> r \<and> r \<le> 122 \<Longrightarrow> xor r 32 = r - 32"
proof -
  have enum: "P r" if "n \<le> unat r" "unat r < m" "list_all (\<lambda>i. P (of_nat i)) [n..<m]" for P n m
  proof -
    from that(3) have "\<forall>i \<in> {n..<m}. P (of_nat i)" by (simp add: list_all_iff)
    then have "P (of_nat (unat r))" by (rule bspec) (use that in simp)
    then show ?thesis by simp
  qed
  show "xor r 32 = r + 32" if "65 \<le> r \<and> r \<le> 90"
    by (rule enum [of 65 91]) (use that in \<open>simp_all add: word_le_nat_alt upt_rec_numeral\<close>)
  show "xor r 32 = r - 32" if "97 \<le> r \<and> r \<le> 122"
    by (rule enum [of 97 123]) (use that in \<open>simp_all add: word_le_nat_alt upt_rec_numeral\<close>)
qed

lemma lower_eq_twin:
  assumes "lower x = lower r" and "x \<noteq> r"
  shows "x = xor r 32 \<and> is_letter (xor r 32)"
proof -
  consider (up) "65 \<le> r \<and> r \<le> 90" | (low) "97 \<le> r \<and> r \<le> 122"
    using assms unat_lower [of x] unat_lower [of r]
    by (auto simp: word_le_nat_alt word_unat_eq_iff split: if_splits)
  then show ?thesis
  proof cases
    case up
    then have "unat (xor r 32) = unat r + 32" "x = xor r 32"
      using assms xor_32_case_pair(1) [OF up]
      by (auto simp: lower_def word_le_nat_alt unat_word_ariths split: if_splits)
    with up show ?thesis by (simp add: is_letter_def word_le_nat_alt)
  next
    case low
    then have eq: "unat (r - 32) = unat r - 32"
      by (subst unat_sub) (auto simp: word_le_nat_alt)
    have "unat x = unat r - 32"
      using assms low unat_lower [of x] unat_lower [of r]
      by (auto simp: word_le_nat_alt word_unat_eq_iff split: if_splits)
    with low eq show ?thesis
      by (auto simp: xor_32_case_pair is_letter_def word_le_nat_alt word_unat_eq_iff)
  qed
qed

lemma occ_has_byte:
  assumes "prefix (case_norm nc lit) (drop j (case_norm nc line))" and "r \<in> set lit"
  shows "\<exists>x \<in> set line. (if nc then lower x = lower r else x = r)"
proof -
  from assms(1) have "set (case_norm nc lit) \<subseteq> set (case_norm nc line)"
    by (metis set_drop_subset set_mono_prefix subset_trans)
  with assms(2) show ?thesis
    by (cases nc) (auto simp: case_norm_def subset_iff, metis imageE image_eqI)
qed

lemma rare_absent_no_occ:
  assumes "matcher_ok m" and "rare_absent m line"
  shows "bytes_Index (case_norm (m_Fold m) line) (case_norm (m_Fold m) (m_PlainLit m)) = None"
proof -
  let ?r = "m_rareByte m"
  have "\<not> (if m_Fold m then lower x = lower ?r else x = ?r)" if "x \<in> set line" for x
    using assms(2) that lower_eq_twin [of x ?r]
    by (auto simp: rare_absent_def Let_def IndexByte_None_iff)
  moreover have "?r \<in> set (m_PlainLit m)"
    using assms by (simp add: matcher_ok_def rare_absent_def)
  ultimately show ?thesis
    using occ_has_byte by (fastforce simp: bytes_Index_None_iff)
qed

text \<open>What \<open>FindFirst\<close> computes, with neither the pre-filter nor the skip loop.\<close>

definition find_spec :: "'re regexlib \<Rightarrow> 're Matcher \<Rightarrow> bytes \<Rightarrow> (nat \<times> nat) option" where
  "find_spec L m line =
     (if m_PlainLit m \<noteq> []
      then map_option (\<lambda>i. (i, i + length (m_PlainLit m)))
             (bytes_Index (case_norm (m_Fold m) line) (case_norm (m_Fold m) (m_PlainLit m)))
      else case m_Re m of None \<Rightarrow> None | Some re \<Rightarrow> re_FindIndex L re line)"

lemma FindFirst_spec: "matcher_ok m \<Longrightarrow> FindFirst L m line = find_spec L m line"
  using rare_absent_no_occ [of m line]
  by (auto simp: FindFirst_def find_spec_def foldIndex_spec case_norm_def Let_def split: if_splits)

subsection \<open>Properties\<close>

text \<open>C22. On every matcher that \<open>MatcherFor\<close> builds, \<open>FindFirst\<close> returns the leftmost
  occurrence of the plain literal, up to ASCII case when folding, or the regexp engine's
  answer when there is no plain literal: the rare-byte pre-filter and the skip loop never
  change the result.\<close>

theorem FindFirst_correct:
  assumes "MatcherFor L pattern fixed nocase = Inr m"
  shows "FindFirst L m line =
    (if m_PlainLit m \<noteq> []
     then map_option (\<lambda>i. (i, i + length (m_PlainLit m)))
            (bytes_Index (case_norm (m_Fold m) line) (case_norm (m_Fold m) (m_PlainLit m)))
     else case m_Re m of None \<Rightarrow> None | Some re \<Rightarrow> re_FindIndex L re line)"
  using FindFirst_spec [OF MatcherFor_ok [OF assms], of L line] by (simp add: find_spec_def)

theorem FindFirst_correct_witness:
  "\<exists>m. MatcherFor \<lparr>re_Parse = (\<lambda>_. None), re_Compile = Inr, re_String = (\<lambda>re. re),
             re_FindIndex = (\<lambda>_ _. None), re_FindAllIndex = (\<lambda>_ _. [])\<rparr> (str ''a(b'') True True = Inr m \<and>
       FindFirst \<lparr>re_Parse = (\<lambda>_. None), re_Compile = Inr, re_String = (\<lambda>re. re),
             re_FindIndex = (\<lambda>_ _. None), re_FindAllIndex = (\<lambda>_ _. [])\<rparr> m (str ''xxA(B'') = Some (2, 5)"
proof -
  let ?L = "\<lparr>re_Parse = (\<lambda>_. None), re_Compile = Inr, re_String = (\<lambda>re. re),
             re_FindIndex = (\<lambda>_ _. None), re_FindAllIndex = (\<lambda>_ _. [])\<rparr>"
  obtain m where m: "MatcherFor ?L (str ''a(b'') True True = Inr m"
    by (simp add: MatcherFor_def PlainLiteral_def Let_def)
  moreover have "\<not> HasNonASCII (str ''a(b'')" by code_simp
  ultimately have lit: "m_PlainLit m = str ''a(b'' \<and> m_Fold m"
    using MatcherFor_fixed [OF m] by simp
  have idx: "bytes_Index (case_norm True (str ''xxA(B'')) (case_norm True (str ''a(b'')) = Some 2"
    by code_simp
  have len: "str ''a(b'' \<noteq> []" "length (str ''a(b'') = 3" by (simp_all add: str_def)
  have "FindFirst ?L m (str ''xxA(B'') = Some (2, 5)"
    unfolding FindFirst_correct [OF m] using lit idx len by simp
  with m show ?thesis by (intro exI conjI)
qed

end
