(* ===== verification/FileStore.thy ===== *)
theory FileStore
  imports Prelude
begin

text \<open>
  The contract between the daemon and an index that holds files by path: what a lookup sees
  after files are put, deleted, or deleted by directory, and that a whole history of such
  changes has the effect of the same history on a plain map. \<open>used\<close> counts the IDs an
  index has handed out and \<open>cap\<close> bounds them.
\<close>

definition under_dir :: "gostring \<Rightarrow> gostring \<Rightarrow> bool" where
  "under_dir dir p \<longleftrightarrow>
     (let prefix = dir @ [slash] in
      p = dir \<or> length p > length prefix \<and> take (length prefix) p = prefix)"

lemma under_dir_iff: "under_dir dir p \<longleftrightarrow> p = dir \<or> (\<exists>q. q \<noteq> [] \<and> p = dir @ slash # q)"
proof
  assume "under_dir dir p"
  then consider "p = dir" | "length p > length dir + 1" "take (length dir + 1) p = dir @ [slash]"
    by (auto simp: under_dir_def Let_def)
  then show "p = dir \<or> (\<exists>q. q \<noteq> [] \<and> p = dir @ slash # q)"
  proof cases
    case 2
    then have "p = dir @ slash # drop (length dir + 1) p" "drop (length dir + 1) p \<noteq> []"
      using append_take_drop_id [of "length dir + 1" p] by simp_all
    then show ?thesis by blast
  qed simp
qed (auto simp: under_dir_def Let_def neq_Nil_conv)

datatype 'doc change = Put 'doc | Del gostring | DelPrefix gostring

fun change_spec :: "('doc \<Rightarrow> gostring) \<Rightarrow> (gostring \<rightharpoonup> 'doc) \<Rightarrow> 'doc change \<Rightarrow> (gostring \<rightharpoonup> 'doc)" where
  "change_spec path_of m (Put d) = m(path_of d \<mapsto> d)"
| "change_spec path_of m (Del p) = m(p := None)"
| "change_spec path_of m (DelPrefix dir) = (\<lambda>p. if under_dir dir p then None else m p)"

locale file_store =
  fixes abs :: "'st \<Rightarrow> gostring \<rightharpoonup> 'doc"
    and path_of :: "'doc \<Rightarrow> gostring"
    and put :: "'st \<Rightarrow> 'doc \<Rightarrow> 'st"
    and del :: "'st \<Rightarrow> gostring \<Rightarrow> 'st"
    and del_prefix :: "'st \<Rightarrow> gostring \<Rightarrow> 'st"
    and inv :: "'st \<Rightarrow> bool"
    and used :: "'st \<Rightarrow> nat"
    and cap :: nat
  assumes put_inv: "inv s \<Longrightarrow> used s < cap \<Longrightarrow> inv (put s d)"
    and put_abs: "inv s \<Longrightarrow> used s < cap \<Longrightarrow> abs (put s d) = (abs s)(path_of d \<mapsto> d)"
    and put_used: "used (put s d) \<le> used s + 1"
    and del_inv: "inv s \<Longrightarrow> inv (del s p)"
    and del_abs: "inv s \<Longrightarrow> abs (del s p) = (abs s)(p := None)"
    and del_used: "used (del s p) \<le> used s"
    and del_prefix_inv: "inv s \<Longrightarrow> inv (del_prefix s p)"
    and del_prefix_abs: "inv s \<Longrightarrow> abs (del_prefix s dir) = (\<lambda>p. if under_dir dir p then None else abs s p)"
    and del_prefix_used: "used (del_prefix s p) \<le> used s"
begin

fun step :: "'st \<Rightarrow> 'doc change \<Rightarrow> 'st" where
  "step s (Put d) = put s d"
| "step s (Del p) = del s p"
| "step s (DelPrefix p) = del_prefix s p"

lemma step_refines:
  assumes "inv s" and "used s < cap"
  shows "inv (step s c) \<and> abs (step s c) = change_spec path_of (abs s) c \<and> used (step s c) \<le> used s + 1"
  using assms put_used [of s] del_used [of s] del_prefix_used [of s]
  by (cases c) (auto simp: put_inv put_abs del_inv del_abs del_prefix_inv del_prefix_abs le_SucI)

lemma history_refines:
  "inv s \<Longrightarrow> used s + length cs \<le> cap \<Longrightarrow>
     inv (foldl step s cs) \<and> abs (foldl step s cs) = foldl (change_spec path_of) (abs s) cs"
proof (induction cs arbitrary: s)
  case (Cons c cs)
  then have "used s < cap" by simp
  note step = step_refines [OF Cons.prems(1) this, of c]
  then have "used (step s c) + length cs \<le> cap" using Cons.prems(2) by simp
  with Cons.IH [of "step s c"] step show ?case by simp
qed simp

end

end
