(* ===== verification/MemIndex.thy ===== *)
theory MemIndex
  imports Matcher Symbol FileStore
begin

text \<open>
  \<open>internal/index/index.go\<close>: the in-memory trigram index. Every exported method takes the
  index's lock for its whole body, so each is one function on the index state.

  The Go map \<open>byPath\<close> is an association list with distinct keys, since it is iterated;
  \<open>rng\<close> is the order in which Go happens to iterate it, any permutation. The map \<open>tri\<close> is
  only looked up and is a partial function. Integers of type \<open>int64\<close> and \<open>int\<close> that are only compared are
  mathematical; file IDs are 32-bit words, as they wrap in \<open>uint32(len(ix.files))\<close>.
\<close>

subsection \<open>State\<close>

definition compactMinDead :: nat where "compactMinDead = 64"
definition compactDeadRatio :: nat where "compactDeadRatio = 4"

record FileMeta =
  fm_Path :: gostring
  fm_Size :: int
  fm_MtimeNS :: int

record fileEntry =
  fe_meta :: FileMeta
  fe_content :: bytes
  fe_defs :: "Def list"
  fe_dead :: bool

record Index =
  ix_root :: gostring
  ix_files :: "fileEntry list"
  ix_byPath :: "(gostring \<times> u32) list"
  ix_tri :: "u32 \<rightharpoonup> u32 list"
  ix_dead :: nat

definition New :: "gostring \<Rightarrow> Index" where
  "New root = \<lparr>ix_root = root, ix_files = [], ix_byPath = [], ix_tri = Map.empty, ix_dead = 0\<rparr>"

abbreviation entry :: "Index \<Rightarrow> u32 \<Rightarrow> fileEntry" where
  "entry ix fid \<equiv> ix_files ix ! unat fid"

subsection \<open>Updates\<close>

text \<open>\<open>for _, k := range keys { tri[k] = append(tri[k], id) }\<close>; a missing key reads as the nil slice.\<close>

definition append_posting :: "u32 \<Rightarrow> u32 \<Rightarrow> (u32 \<rightharpoonup> u32 list) \<Rightarrow> (u32 \<rightharpoonup> u32 list)" where
  "append_posting fid k tri = tri(k \<mapsto> (case tri k of None \<Rightarrow> [] | Some l \<Rightarrow> l) @ [fid])"

definition addPostings :: "u32 \<Rightarrow> u32 list \<Rightarrow> (u32 \<rightharpoonup> u32 list) \<Rightarrow> (u32 \<rightharpoonup> u32 list)" where
  "addPostings fid keys tri = foldl (\<lambda>t k. append_posting fid k t) tri keys"

definition removeLocked :: "Index \<Rightarrow> gostring \<Rightarrow> Index" where
  "removeLocked ix path =
     (case map_of (ix_byPath ix) path of
        None \<Rightarrow> ix
      | Some fid \<Rightarrow> ix\<lparr>ix_files := (ix_files ix)[unat fid := (entry ix fid)\<lparr>fe_dead := True\<rparr>],
                      ix_dead := ix_dead ix + 1,
                      ix_byPath := AList.delete path (ix_byPath ix)\<rparr>)"

text \<open>The loop of a compaction: \<open>n\<close> is the ID of the next live file.\<close>

fun compact_loop :: "nat \<Rightarrow> fileEntry list \<Rightarrow> (gostring \<times> u32) list \<Rightarrow> (u32 \<rightharpoonup> u32 list) \<Rightarrow>
    (gostring \<times> u32) list \<times> (u32 \<rightharpoonup> u32 list)" where
  "compact_loop n [] byPath tri = (byPath, tri)"
| "compact_loop n (f # files) byPath tri =
     compact_loop (n + 1) files (AList.update (fm_Path (fe_meta f)) (of_nat n) byPath)
       (addPostings (of_nat n) (trigramsOf (fe_content f) []) tri)"

definition compact :: "Index \<Rightarrow> Index" where
  "compact ix =
     (let files = filter (\<lambda>f. \<not> fe_dead f) (ix_files ix);
          (byPath, tri) = compact_loop 0 files [] Map.empty
      in ix\<lparr>ix_files := files, ix_dead := 0, ix_byPath := byPath, ix_tri := tri\<rparr>)"

definition maybeCompactLocked :: "Index \<Rightarrow> Index" where
  "maybeCompactLocked ix =
     (if ix_dead ix < compactMinDead \<or>
         int (ix_dead ix * compactDeadRatio) < int (length (ix_files ix)) - int (ix_dead ix)
      then ix else compact ix)"

definition AddWithKeys :: "Index \<Rightarrow> FileMeta \<Rightarrow> bytes \<Rightarrow> u32 list \<Rightarrow> Def list \<Rightarrow> Index" where
  "AddWithKeys ix meta content keys defs =
     (let ix = removeLocked ix (fm_Path meta);
          fid = of_nat (length (ix_files ix));
          ix = ix\<lparr>ix_files := ix_files ix @ [\<lparr>fe_meta = meta, fe_content = content, fe_defs = defs, fe_dead = False\<rparr>],
                  ix_byPath := AList.update (fm_Path meta) fid (ix_byPath ix),
                  ix_tri := addPostings fid keys (ix_tri ix)\<rparr>
      in maybeCompactLocked ix)"

definition Add :: "symlib \<Rightarrow> Index \<Rightarrow> FileMeta \<Rightarrow> bytes \<Rightarrow> Index" where
  "Add S ix meta content =
     AddWithKeys ix meta content (TrigramKeys content) (Extract S (fm_Path meta) content)"

definition Remove :: "Index \<Rightarrow> gostring \<Rightarrow> Index" where
  "Remove ix path = maybeCompactLocked (removeLocked ix path)"

definition RemovePrefix :: "Index \<Rightarrow> gostring \<Rightarrow> Index" where
  "RemovePrefix ix dir =
     maybeCompactLocked (foldl removeLocked ix (filter (under_dir dir) (map fst (ix_byPath ix))))"

subsection \<open>Reads\<close>

definition Meta :: "Index \<Rightarrow> gostring \<Rightarrow> FileMeta option" where
  "Meta ix path = map_option (\<lambda>fid. fe_meta (entry ix fid)) (map_of (ix_byPath ix) path)"

definition Paths :: "((gostring \<times> u32) list \<Rightarrow> (gostring \<times> u32) list) \<Rightarrow> Index \<Rightarrow> gostring list" where
  "Paths rng ix = map fst (rng (ix_byPath ix))"

definition NumFiles :: "Index \<Rightarrow> nat" where
  "NumFiles ix = length (ix_byPath ix)"

definition Snapshot :: "Index \<Rightarrow> FileMeta list \<times> bytes list \<times> Def list list" where
  "Snapshot ix =
     (let live = filter (\<lambda>f. \<not> fe_dead f) (ix_files ix)
      in (map fe_meta live, map fe_content live, map fe_defs live))"

text \<open>\<open>LineText\<close>; the line number is 1-based, and 0 or less reads the first line.\<close>

fun LineText :: "bytes \<Rightarrow> nat \<Rightarrow> gostring" where
  "LineText content (Suc (Suc n)) =
     (case IndexByte content newline of
        None \<Rightarrow> []
      | Some i \<Rightarrow> LineText (drop (i + 1) content) (Suc n))"
| "LineText content n =
     (case IndexByte content newline of
        None \<Rightarrow> content
      | Some i \<Rightarrow> take i content)"

record DefHit =
  dh_Path :: gostring
  dh_Def :: Def
  dh_Text :: gostring

definition pathOk :: "(gostring \<Rightarrow> bool) option \<Rightarrow> gostring \<Rightarrow> bool" where
  "pathOk pathMatch p \<longleftrightarrow> (case pathMatch of None \<Rightarrow> True | Some f \<Rightarrow> f p)"

definition Defs :: "symlib \<Rightarrow> Index \<Rightarrow> gostring \<Rightarrow> bool \<Rightarrow> (gostring \<Rightarrow> bool) option \<Rightarrow> DefHit list" where
  "Defs S ix name nocase pathMatch =
     (let cf = (\<lambda>s. if nocase then ToLower (unicode_ToLower S) s else s);
          want = cf name
      in concat (map (\<lambda>f.
           if fe_dead f \<or> length (fe_defs f) = 0 then []
           else if \<not> pathOk pathMatch (fm_Path (fe_meta f)) then []
           else map (\<lambda>d. \<lparr>dh_Path = fm_Path (fe_meta f), dh_Def = d, dh_Text = LineText (fe_content f) (d_Line d)\<rparr>)
                  (filter (\<lambda>d. cf (d_Name d) = want) (fe_defs f)))
         (ix_files ix)))"

definition FileDefs :: "Index \<Rightarrow> gostring \<Rightarrow> DefHit list option" where
  "FileDefs ix path =
     (case map_of (ix_byPath ix) path of
        None \<Rightarrow> None
      | Some fid \<Rightarrow>
          let f = entry ix fid in
          Some (map (\<lambda>d. \<lparr>dh_Path = path, dh_Def = d, dh_Text = LineText (fe_content f) (d_Line d)\<rparr>) (fe_defs f)))"

subsection \<open>Candidates\<close>

text \<open>The posting lists of all keys, or nothing when one key has none.\<close>

fun postingLists :: "(u32 \<rightharpoonup> u32 list) \<Rightarrow> u32 list \<Rightarrow> u32 list list option" where
  "postingLists tri [] = Some []"
| "postingLists tri (k # ks) =
     (case tri k of
        None \<Rightarrow> None
      | Some l \<Rightarrow> map_option (Cons l) (postingLists tri ks))"

definition shortest :: "'a list list \<Rightarrow> nat" where
  "shortest pls =
     foldl (\<lambda>s i. if length (pls ! i) < length (pls ! s) then i else s) 0 [0..<length pls]"

fun intersect_loop :: "nat \<Rightarrow> nat \<Rightarrow> u32 list list \<Rightarrow> u32 list \<Rightarrow> u32 list" where
  "intersect_loop s i [] out = out"
| "intersect_loop s i (l # ls) out =
     (if i = s then intersect_loop s (i + 1) ls out
      else let out = intersectSorted out l in
           if length out = 0 then [] else intersect_loop s (i + 1) ls out)"

definition candidatesLocked ::
    "((gostring \<times> u32) list \<Rightarrow> (gostring \<times> u32) list) \<Rightarrow> Index \<Rightarrow> gostring \<Rightarrow> u32 list" where
  "candidatesLocked rng ix lit =
     (if length lit < 3 then map snd (rng (ix_byPath ix))
      else case postingLists (ix_tri ix) (trigramsOf lit []) of
             None \<Rightarrow> []
           | Some pls \<Rightarrow>
               let s = shortest pls in intersect_loop s 0 pls (pls ! s))"

record FileContent =
  fc_Path :: gostring
  fc_Content :: bytes

definition FilesContaining ::
    "(rune \<Rightarrow> rune) \<Rightarrow> ((gostring \<times> u32) list \<Rightarrow> (gostring \<times> u32) list) \<Rightarrow> Index \<Rightarrow> gostring \<Rightarrow>
       (gostring \<Rightarrow> bool) option \<Rightarrow> FileContent list" where
  "FilesContaining uni rng ix lit pathMatch =
     concat (map (\<lambda>fid.
         let f = entry ix fid in
         if fe_dead f \<or> \<not> pathOk pathMatch (fm_Path (fe_meta f)) then []
         else if Contains (fe_content f) lit
         then [\<lparr>fc_Path = fm_Path (fe_meta f), fc_Content = fe_content f\<rparr>] else [])
       (candidatesLocked rng ix (ToLower uni lit)))"

subsection \<open>Search\<close>

record Match =
  mt_Path :: gostring
  mt_Line :: nat
  mt_Text :: gostring
  mt_Col :: nat
  mt_LineLen :: nat

record SearchOpts =
  so_Literal :: gostring
  so_PathMatch :: "(gostring \<Rightarrow> bool) option"
  so_FilesOnly :: bool
  so_Limit :: int
  so_PlainLiteral :: gostring
  so_FoldCase :: bool
  so_MaxColumns :: int
  so_MaxFileSize :: int

record SearchResult =
  sr_Matches :: "Match list"
  sr_FileCounts :: "(gostring \<times> nat) list"
  sr_Truncated :: bool

text \<open>The inner loop of \<open>appendLineMatches\<close>: move \<open>pos\<close> to \<open>target\<close>, counting newlines.\<close>

function advance :: "bytes \<Rightarrow> nat \<Rightarrow> nat \<Rightarrow> nat \<Rightarrow> nat \<times> nat" where
  "advance content target pos lineNo =
     (if pos < target then
        case IndexByte (slice content pos target) newline of
          None \<Rightarrow> (target, lineNo)
        | Some nl \<Rightarrow> advance content target (pos + nl + 1) (lineNo + 1)
      else (pos, lineNo))"
  by pat_completeness auto
termination
  by (relation "measure (\<lambda>(content, target, pos, lineNo). target - pos)") auto

declare advance.simps [simp del]

definition lineMatch :: "fileEntry \<Rightarrow> nat \<times> nat \<Rightarrow> nat \<Rightarrow> int \<Rightarrow> Match" where
  "lineMatch f loc lineNo maxCols =
     (let content = fe_content f;
          start = (case LastIndexByte (take (fst loc) content) newline of Some i \<Rightarrow> i + 1 | None \<Rightarrow> 0);
          end = (case IndexByte (drop (snd loc) content) newline of
                   Some i \<Rightarrow> snd loc + i | None \<Rightarrow> length content)
      in \<lparr>mt_Path = fm_Path (fe_meta f), mt_Line = lineNo,
          mt_Text = (if maxCols \<le> 0 \<or> int (end - start) \<le> maxCols then slice content start end else []),
          mt_Col = fst loc - start, mt_LineLen = end - start\<rparr>)"

fun appendLineMatches_loop ::
    "fileEntry \<Rightarrow> int \<Rightarrow> int \<Rightarrow> nat \<Rightarrow> nat \<Rightarrow> nat option \<Rightarrow> (nat \<times> nat) list \<Rightarrow> Match list \<Rightarrow> Match list" where
  "appendLineMatches_loop f limit maxCols lineNo pos lastLine [] ms = ms"
| "appendLineMatches_loop f limit maxCols lineNo pos lastLine (loc # locs) ms =
     (let (pos, lineNo) = advance (fe_content f) (fst loc) pos lineNo in
      if Some lineNo = lastLine then appendLineMatches_loop f limit maxCols lineNo pos lastLine locs ms
      else
        let ms = ms @ [lineMatch f loc lineNo maxCols] in
        if limit > 0 \<and> int (length ms) \<ge> limit then ms
        else appendLineMatches_loop f limit maxCols lineNo pos (Some lineNo) locs ms)"

definition appendLineMatches ::
    "SearchResult \<Rightarrow> fileEntry \<Rightarrow> (nat \<times> nat) list \<Rightarrow> int \<Rightarrow> int \<Rightarrow> SearchResult" where
  "appendLineMatches res f locs limit maxCols =
     res\<lparr>sr_Matches := appendLineMatches_loop f limit maxCols 1 0 None locs (sr_Matches res)\<rparr>"

definition locsOf :: "'re regexlib \<Rightarrow> 're \<Rightarrow> SearchOpts \<Rightarrow> bytes \<Rightarrow> (nat \<times> nat) list" where
  "locsOf L re opts content =
     (if length (so_PlainLiteral opts) > 0
      then literalFindAll content (so_PlainLiteral opts) (so_FoldCase opts)
      else re_FindAllIndex L re content)"

definition skipFile :: "SearchOpts \<Rightarrow> fileEntry \<Rightarrow> bool" where
  "skipFile opts f \<longleftrightarrow>
     fe_dead f \<or> so_MaxFileSize opts > 0 \<and> fm_Size (fe_meta f) > so_MaxFileSize opts \<or>
     \<not> pathOk (so_PathMatch opts) (fm_Path (fe_meta f))"

fun search_loop_ids ::
    "'re regexlib \<Rightarrow> 're \<Rightarrow> SearchOpts \<Rightarrow> Index \<Rightarrow> u32 list \<Rightarrow> SearchResult \<Rightarrow> SearchResult" where
  "search_loop_ids L re opts ix [] res = res"
| "search_loop_ids L re opts ix (fid # ids) res =
     (let f = entry ix fid in
      if skipFile opts f then search_loop_ids L re opts ix ids res
      else
        let locs = locsOf L re opts (fe_content f) in
        if length locs = 0 then search_loop_ids L re opts ix ids res
        else
          let res = res\<lparr>sr_FileCounts := AList.update (fm_Path (fe_meta f)) (length locs) (sr_FileCounts res)\<rparr> in
          if so_FilesOnly opts then search_loop_ids L re opts ix ids res
          else
            let res = appendLineMatches res f locs (so_Limit opts) (so_MaxColumns opts) in
            if so_Limit opts > 0 \<and> int (length (sr_Matches res)) \<ge> so_Limit opts
            then res\<lparr>sr_Truncated := True\<rparr>
            else search_loop_ids L re opts ix ids res)"

definition Search ::
    "'re regexlib \<Rightarrow> ((gostring \<times> u32) list \<Rightarrow> (gostring \<times> u32) list) \<Rightarrow> Index \<Rightarrow> 're \<Rightarrow> SearchOpts \<Rightarrow> SearchResult" where
  "Search L rng ix re opts =
     search_loop_ids L re opts ix (candidatesLocked rng ix (so_Literal opts))
       \<lparr>sr_Matches = [], sr_FileCounts = [], sr_Truncated = False\<rparr>"

text \<open>\<open>TruncateWindow\<close>; the ellipsis is U+2026, three bytes of UTF-8. The offset and
  the column limit are ints; \<open>maxCols / 2\<close> divides a positive number.\<close>

definition ellipsis :: gostring where "ellipsis = [0xE2, 0x80, 0xA6]"

definition TruncateWindow :: "bytes \<Rightarrow> int \<Rightarrow> int \<Rightarrow> gostring" where
  "TruncateWindow ln matchOff maxCols =
     (if maxCols \<le> 0 \<or> int (length ln) \<le> maxCols then ln
      else
        let start = (if matchOff > maxCols div 2 then matchOff - maxCols div 2 else 0);
            end = start + maxCols;
            (start, end) = (if end > int (length ln)
                            then (int (length ln) - maxCols, int (length ln)) else (start, end));
            out = slice ln (nat start) (nat end);
            out = (if start > 0 then ellipsis @ out else out)
        in if end < int (length ln) then out @ ellipsis else out)"

subsection \<open>Invariant\<close>

text \<open>
  IDs fit 32 bits; \<open>byPath\<close> holds exactly the live entries; \<open>dead\<close> counts the tombstones; and
  the posting list of a key is the increasing list of all IDs, dead ones included, whose content has it.
\<close>

definition live_at :: "fileEntry list \<Rightarrow> gostring \<Rightarrow> u32 \<Rightarrow> bool" where
  "live_at files p fid \<longleftrightarrow>
     unat fid < length files \<and> \<not> fe_dead (files ! unat fid) \<and> fm_Path (fe_meta (files ! unat fid)) = p"

definition byPath_ok :: "fileEntry list \<Rightarrow> (gostring \<times> u32) list \<Rightarrow> bool" where
  "byPath_ok files bp \<longleftrightarrow>
     distinct (map fst bp) \<and> (\<forall>p fid. map_of bp p = Some fid \<longleftrightarrow> live_at files p fid)"

definition ix_inv :: "Index \<Rightarrow> bool" where
  "ix_inv ix \<longleftrightarrow>
     length (ix_files ix) \<le> 2 ^ 32 \<and> byPath_ok (ix_files ix) (ix_byPath ix) \<and>
     ix_dead ix = length (filter fe_dead (ix_files ix)) \<and> ix_tri ix = tri_of (map fe_content (ix_files ix))"

lemma addPostings_apply:
  "distinct keys \<Longrightarrow> addPostings fid keys tri k =
     (if k \<in> set keys then Some ((case tri k of None \<Rightarrow> [] | Some l \<Rightarrow> l) @ [fid]) else tri k)"
  by (induction keys arbitrary: tri) (auto simp: addPostings_def append_posting_def)

lemma tri_of_snoc:
  assumes "distinct keys" and "set keys = keys_of c"
  shows "addPostings (of_nat (length cs)) keys (tri_of cs) = tri_of (cs @ [c])"
  by (rule ext) (simp add: addPostings_apply [OF assms(1)] assms(2) tri_of_def postings_snoc)

lemma byPath_ok_snoc:
  assumes "byPath_ok files bp" and "length files < 2 ^ 32" and "\<not> fe_dead f"
    and "map_of bp (fm_Path (fe_meta f)) = None"
  shows "byPath_ok (files @ [f]) (AList.update (fm_Path (fe_meta f)) (of_nat (length files)) bp)"
proof -
  let ?n = "of_nat (length files) :: u32"
  have n: "unat ?n = length files" using assms(2) by (simp add: unat_of_nat)
  have fid: "unat fid = length files \<longleftrightarrow> fid = ?n" for fid
    using n by (metis word_unat_eq_iff)
  have "live_at (files @ [f]) p fid \<longleftrightarrow> (if fid = ?n then p = fm_Path (fe_meta f) else live_at files p fid)" for p fid
    using assms(3) fid [of fid] by (auto simp: live_at_def nth_append less_Suc_eq)
  moreover have "\<not> live_at files p ?n" for p by (simp add: live_at_def n)
  ultimately show ?thesis
    using assms(1,4) by (auto simp: byPath_ok_def update_conv' distinct_update)
qed

lemma live_at_upd_dead:
  assumes "unat d < length files"
  shows "live_at (files[unat d := (files ! unat d)\<lparr>fe_dead := True\<rparr>]) p fid \<longleftrightarrow>
         fid \<noteq> d \<and> live_at files p fid"
  using assms by (auto simp: live_at_def nth_list_update word_unat_eq_iff)

lemma byPath_ok_delete:
  assumes ok: "byPath_ok files bp" and p: "map_of bp p = Some d"
  shows "byPath_ok (files[unat d := (files ! unat d)\<lparr>fe_dead := True\<rparr>]) (AList.delete p bp)"
proof -
  from ok p have d: "live_at files p d" by (simp add: byPath_ok_def)
  have uniq: "fid = d" if "live_at files p fid" for fid
    using ok p that unfolding byPath_ok_def by (metis option.inject)
  have "map_of (AList.delete p bp) q = Some fid \<longleftrightarrow> fid \<noteq> d \<and> live_at files q fid" for q fid
  proof (cases "q = p")
    case True
    then show ?thesis using uniq by (auto simp: delete_conv')
  next
    case False
    moreover from this have "\<not> live_at files q d" using d by (auto simp: live_at_def)
    ultimately show ?thesis using ok by (auto simp: delete_conv' byPath_ok_def)
  qed
  moreover have "unat d < length files" using d by (simp add: live_at_def)
  ultimately show ?thesis
    using ok by (simp add: byPath_ok_def live_at_upd_dead distinct_delete)
qed

lemma count_dead_upd:
  assumes "n < length files" and "\<not> fe_dead (files ! n)"
  shows "length (filter fe_dead (files[n := (files ! n)\<lparr>fe_dead := True\<rparr>])) = length (filter fe_dead files) + 1"
  using assms
proof (induction files arbitrary: n)
  case (Cons f files)
  then show ?case by (cases n) auto
qed simp

lemma removeLocked_inv:
  assumes "ix_inv ix"
  shows "ix_inv (removeLocked ix path)"
proof (cases "map_of (ix_byPath ix) path")
  case (Some d)
  then have d: "live_at (ix_files ix) path d" using assms by (simp add: ix_inv_def byPath_ok_def)
  have "map fe_content ((ix_files ix)[unat d := (entry ix d)\<lparr>fe_dead := True\<rparr>]) = map fe_content (ix_files ix)"
    using d by (simp add: map_update live_at_def) (metis list_update_id nth_map)
  with assms Some d show ?thesis
    by (auto simp: removeLocked_def ix_inv_def live_at_def byPath_ok_delete count_dead_upd)
qed (use assms in \<open>simp add: removeLocked_def\<close>)

lemma removeLocked_length [simp]: "length (ix_files (removeLocked ix p)) = length (ix_files ix)"
  by (simp add: removeLocked_def split: option.split)

lemma removeLocked_gone: "ix_inv ix \<Longrightarrow> map_of (ix_byPath (removeLocked ix p)) p = None"
  by (auto simp: removeLocked_def delete_conv' split: option.split)

subsection \<open>Compaction\<close>

lemma compact_loop_ok:
  assumes "byPath_ok pre bp" and "length (pre @ fs) \<le> 2 ^ 32" and "\<forall>f \<in> set fs. \<not> fe_dead f"
    and "distinct (map (\<lambda>f. fm_Path (fe_meta f)) fs)"
    and "\<forall>f \<in> set fs. map_of bp (fm_Path (fe_meta f)) = None"
  shows "\<exists>bp'. compact_loop (length pre) fs bp (tri_of (map fe_content pre)) = (bp', tri_of (map fe_content (pre @ fs))) \<and>
    byPath_ok (pre @ fs) bp'"
  using assms
proof (induction fs arbitrary: pre bp)
  case (Cons f fs)
  let ?bp = "AList.update (fm_Path (fe_meta f)) (of_nat (length pre)) bp"
  have tri: "addPostings (of_nat (length pre)) (trigramsOf (fe_content f) []) (tri_of (map fe_content pre)) =
      tri_of (map fe_content (pre @ [f]))"
    using tri_of_snoc [of "trigramsOf (fe_content f) []" "fe_content f" "map fe_content pre"]
    by (simp add: trigram_simps)
  have "byPath_ok (pre @ [f]) ?bp"
    using Cons.prems by (intro byPath_ok_snoc) auto
  moreover have "\<forall>g \<in> set fs. map_of ?bp (fm_Path (fe_meta g)) = None"
  proof
    fix g assume "g \<in> set fs"
    moreover from this have "fm_Path (fe_meta g) \<noteq> fm_Path (fe_meta f)"
      using Cons.prems(4) by (metis (no_types, lifting) distinct.simps(2) image_eqI list.set_map list.simps(9))
    ultimately show "map_of ?bp (fm_Path (fe_meta g)) = None"
      using Cons.prems(5) by (simp add: update_conv')
  qed
  ultimately have "\<exists>bp'. compact_loop (length (pre @ [f])) fs ?bp (tri_of (map fe_content (pre @ [f]))) =
      (bp', tri_of (map fe_content ((pre @ [f]) @ fs))) \<and> byPath_ok ((pre @ [f]) @ fs) bp'"
    using Cons.prems by (intro Cons.IH) auto
  then show ?case by (simp add: tri)
qed simp

lemma live_paths_distinct:
  assumes "byPath_ok files bp" and "length files \<le> 2 ^ 32"
  shows "distinct (map (\<lambda>f. fm_Path (fe_meta f)) (filter (\<lambda>f. \<not> fe_dead f) files))"
proof -
  have inj: "i = j" if ij: "i < length files" "j < length files" "\<not> fe_dead (files ! i)" "\<not> fe_dead (files ! j)"
    "fm_Path (fe_meta (files ! i)) = fm_Path (fe_meta (files ! j))" for i j
  proof -
    have un: "unat (of_nat i :: u32) = i" "unat (of_nat j :: u32) = j"
      using ij assms(2) by (simp_all add: unat_of_nat)
    have "live_at files (fm_Path (fe_meta (files ! i))) (of_nat i)"
      "live_at files (fm_Path (fe_meta (files ! i))) (of_nat j)"
      using ij un by (simp_all add: live_at_def)
    then have "(of_nat i :: u32) = of_nat j"
      using assms(1) unfolding byPath_ok_def by (metis option.inject)
    then show ?thesis using un by metis
  qed
  let ?live = "filter (\<lambda>i. \<not> fe_dead (files ! i)) [0..<length files]"
  have "filter (\<lambda>f. \<not> fe_dead f) files = map ((!) files) ?live"
    by (metis (mono_tags, lifting) comp_apply filter_cong filter_map map_nth)
  moreover have "inj_on (\<lambda>i. fm_Path (fe_meta (files ! i))) (set ?live)"
    by (rule inj_onI) (use inj in auto)
  ultimately show ?thesis by (simp add: distinct_map comp_def)
qed

lemma compact_inv:
  assumes "ix_inv ix"
  shows "ix_inv (compact ix)"
proof -
  let ?live = "filter (\<lambda>f. \<not> fe_dead f) (ix_files ix)"
  have len: "length ?live \<le> 2 ^ 32"
    by (rule order_trans [OF length_filter_le]) (use assms in \<open>simp add: ix_inv_def\<close>)
  have "\<exists>bp. compact_loop (length ([] :: fileEntry list)) ?live [] (tri_of (map fe_content ([] :: fileEntry list))) =
      (bp, tri_of (map fe_content ([] @ ?live))) \<and>
      byPath_ok ([] @ ?live) bp"
  proof (rule compact_loop_ok)
    show "byPath_ok [] []" by (simp add: byPath_ok_def live_at_def)
    show "distinct (map (\<lambda>f. fm_Path (fe_meta f)) ?live)"
      using assms by (intro live_paths_distinct) (auto simp: ix_inv_def)
  qed (use len in simp_all)
  then obtain bp where "compact_loop 0 ?live [] Map.empty = (bp, tri_of (map fe_content ?live))" "byPath_ok ?live bp"
    by auto
  with len show ?thesis by (simp add: compact_def ix_inv_def Let_def)
qed

lemma maybeCompactLocked_inv: "ix_inv ix \<Longrightarrow> ix_inv (maybeCompactLocked ix)"
  by (simp add: maybeCompactLocked_def compact_inv)

subsection \<open>The index as a map from paths to documents\<close>

type_synonym document = "FileMeta \<times> bytes \<times> Def list"

definition doc_of :: "fileEntry \<Rightarrow> document" where
  "doc_of f = (fe_meta f, fe_content f, fe_defs f)"

definition doc_path :: "document \<Rightarrow> gostring" where
  "doc_path d = fm_Path (fst d)"

definition mem_abs :: "Index \<Rightarrow> gostring \<rightharpoonup> document" where
  "mem_abs ix p = map_option (\<lambda>fid. doc_of (entry ix fid)) (map_of (ix_byPath ix) p)"

definition is_live :: "Index \<Rightarrow> fileEntry \<Rightarrow> bool" where
  "is_live ix f \<longleftrightarrow> f \<in> set (ix_files ix) \<and> \<not> fe_dead f"

text \<open>Everything observable of the store part is determined by the live entries.\<close>

lemma mem_abs_Some_iff:
  assumes "ix_inv ix"
  shows "mem_abs ix p = Some d \<longleftrightarrow> (\<exists>f. is_live ix f \<and> fm_Path (fe_meta f) = p \<and> doc_of f = d)"
proof
  assume "mem_abs ix p = Some d"
  then obtain fid where "map_of (ix_byPath ix) p = Some fid" "d = doc_of (entry ix fid)"
    by (auto simp: mem_abs_def)
  then have "is_live ix (entry ix fid) \<and> fm_Path (fe_meta (entry ix fid)) = p \<and> doc_of (entry ix fid) = d"
    using assms by (auto simp: ix_inv_def byPath_ok_def live_at_def is_live_def)
  then show "\<exists>f. is_live ix f \<and> fm_Path (fe_meta f) = p \<and> doc_of f = d" ..
next
  assume "\<exists>f. is_live ix f \<and> fm_Path (fe_meta f) = p \<and> doc_of f = d"
  then obtain n where n: "n < length (ix_files ix)" "\<not> fe_dead (ix_files ix ! n)"
    "fm_Path (fe_meta (ix_files ix ! n)) = p" "doc_of (ix_files ix ! n) = d"
    by (auto simp: is_live_def in_set_conv_nth)
  then have "unat (of_nat n :: u32) = n" using assms by (simp add: ix_inv_def unat_of_nat)
  with n have "live_at (ix_files ix) p (of_nat n)" by (simp add: live_at_def)
  then have "map_of (ix_byPath ix) p = Some (of_nat n)" using assms by (simp only: ix_inv_def byPath_ok_def)
  with n \<open>unat (of_nat n :: u32) = n\<close> show "mem_abs ix p = Some d"
    by (simp add: mem_abs_def)
qed

lemma mem_abs_eqI:
  assumes "ix_inv ix" and "\<And>p d. m p = Some d \<longleftrightarrow> (\<exists>f. is_live ix f \<and> fm_Path (fe_meta f) = p \<and> doc_of f = d)"
  shows "mem_abs ix = m"
proof
  fix p show "mem_abs ix p = m p"
    using mem_abs_Some_iff [OF assms(1), of p] assms(2) [of p] by (metis not_None_eq)
qed

lemma is_live_compact: "is_live (compact ix) f \<longleftrightarrow> is_live ix f"
  by (auto simp: is_live_def compact_def Let_def split: prod.splits)

lemma is_live_maybeCompact [simp]: "is_live (maybeCompactLocked ix) f \<longleftrightarrow> is_live ix f"
  by (simp add: maybeCompactLocked_def is_live_compact)

lemma mem_abs_maybeCompact: "ix_inv ix \<Longrightarrow> mem_abs (maybeCompactLocked ix) = mem_abs ix"
  by (rule mem_abs_eqI [OF maybeCompactLocked_inv]) (simp_all add: mem_abs_Some_iff)

lemma length_maybeCompact: "length (ix_files (maybeCompactLocked ix)) \<le> length (ix_files ix)"
  by (simp add: maybeCompactLocked_def compact_def Let_def split: prod.splits)

lemma mem_abs_removeLocked:
  assumes "ix_inv ix"
  shows "mem_abs (removeLocked ix p) = (mem_abs ix)(p := None)"
proof (cases "map_of (ix_byPath ix) p")
  case None
  then show ?thesis by (auto simp: removeLocked_def mem_abs_def)
next
  case (Some d)
  show ?thesis
  proof
    fix q
    show "mem_abs (removeLocked ix p) q = ((mem_abs ix)(p := None)) q"
    proof (cases "q = p")
      case True
      then show ?thesis using Some by (simp add: removeLocked_def mem_abs_def delete_conv')
    next
      case False
      have "unat d \<noteq> unat fid" if "map_of (ix_byPath ix) q = Some fid" for fid
        using assms that Some False by (auto simp: ix_inv_def byPath_ok_def live_at_def)
      then have "map_of (ix_byPath ix) q = Some fid \<Longrightarrow> entry (removeLocked ix p) fid = entry ix fid" for fid
        using Some by (simp add: removeLocked_def)
      then show ?thesis
        using False Some
        by (cases "map_of (ix_byPath ix) q") (simp_all add: removeLocked_def mem_abs_def delete_conv')
    qed
  qed
qed

lemma foldl_removeLocked:
  "ix_inv ix \<Longrightarrow> ix_inv (foldl removeLocked ix ps) \<and>
     mem_abs (foldl removeLocked ix ps) = (\<lambda>p. if p \<in> set ps then None else mem_abs ix p) \<and>
     length (ix_files (foldl removeLocked ix ps)) = length (ix_files ix)"
  by (induction ps arbitrary: ix) (auto simp: removeLocked_inv mem_abs_removeLocked fun_eq_iff)

subsection \<open>Adding a file\<close>

lemma AddWithKeys_refines:
  assumes inv: "ix_inv ix" and room: "length (ix_files ix) < 2 ^ 32"
    and keys: "distinct keys" "set keys = keys_of content"
  shows "ix_inv (AddWithKeys ix meta content keys defs) \<and>
         mem_abs (AddWithKeys ix meta content keys defs) = (mem_abs ix)(fm_Path meta \<mapsto> (meta, content, defs)) \<and>
         length (ix_files (AddWithKeys ix meta content keys defs)) \<le> length (ix_files ix) + 1"
proof -
  let ?p = "fm_Path meta" and ?ix = "removeLocked ix (fm_Path meta)"
  let ?f = "\<lparr>fe_meta = meta, fe_content = content, fe_defs = defs, fe_dead = False\<rparr>"
  let ?id = "of_nat (length (ix_files ?ix)) :: u32"
  define ix' where "ix' = ?ix\<lparr>ix_files := ix_files ?ix @ [?f],
      ix_byPath := AList.update ?p ?id (ix_byPath ?ix), ix_tri := addPostings ?id keys (ix_tri ?ix)\<rparr>"
  have inv1: "ix_inv ?ix" using inv by (rule removeLocked_inv)
  have bp: "byPath_ok (ix_files ?ix @ [?f]) (AList.update ?p ?id (ix_byPath ?ix))"
    using inv1 room removeLocked_gone [OF inv, of ?p] byPath_ok_snoc [of "ix_files ?ix" "ix_byPath ?ix" ?f]
    by (simp add: ix_inv_def)
  have tri: "addPostings ?id keys (ix_tri ?ix) = tri_of (map fe_content (ix_files ?ix @ [?f]))"
    using inv1 keys tri_of_snoc [of keys content "map fe_content (ix_files ?ix)"] by (simp add: ix_inv_def)
  have inv2: "ix_inv ix'"
    using inv1 bp tri room by (simp add: ix_inv_def ix'_def)
  have "mem_abs ix' = (mem_abs ?ix)(?p \<mapsto> (meta, content, defs))"
  proof (rule mem_abs_eqI [OF inv2])
    fix p d
    have "mem_abs ?ix ?p = None" by (simp add: mem_abs_removeLocked [OF inv])
    then have no: "\<not> (is_live ?ix f \<and> fm_Path (fe_meta f) = ?p)" for f
      using mem_abs_Some_iff [OF inv1, of ?p "doc_of f"] by auto
    have live: "is_live ix' f \<longleftrightarrow> is_live ?ix f \<or> f = ?f" for f
      by (auto simp: is_live_def ix'_def)
    show "((mem_abs ?ix)(?p \<mapsto> (meta, content, defs))) p = Some d \<longleftrightarrow>
        (\<exists>f. is_live ix' f \<and> fm_Path (fe_meta f) = p \<and> doc_of f = d)"
    proof (cases "p = ?p")
      case True
      with no show ?thesis by (auto simp: live doc_of_def)
    next
      case False
      then show ?thesis using mem_abs_Some_iff [OF inv1, of p d] by (auto simp: live)
    qed
  qed
  moreover have "AddWithKeys ix meta content keys defs = maybeCompactLocked ix'"
    by (simp add: AddWithKeys_def ix'_def Let_def)
  moreover have "length (ix_files ix') = length (ix_files ix) + 1" by (simp add: ix'_def)
  ultimately show ?thesis
    using inv2 length_maybeCompact [of ix'] mem_abs_removeLocked [OF inv, of ?p]
    by (simp add: maybeCompactLocked_inv mem_abs_maybeCompact)
qed

subsection \<open>The in-memory index is a file store\<close>

definition mem_put :: "Index \<Rightarrow> document \<Rightarrow> Index" where
  "mem_put ix d = (case d of (meta, content, defs) \<Rightarrow> AddWithKeys ix meta content (TrigramKeys content) defs)"

interpretation mem: file_store mem_abs doc_path mem_put Remove RemovePrefix ix_inv "\<lambda>ix. length (ix_files ix)" "2 ^ 32"
proof
  fix s d p dir
  note add = AddWithKeys_refines [OF _ _ TrigramKeys_distinct TrigramKeys_set]
  show "ix_inv (mem_put s d)" if "ix_inv s" "length (ix_files s) < 2 ^ 32"
    using add [OF that] by (simp add: mem_put_def split: prod.splits)
  show "mem_abs (mem_put s d) = (mem_abs s)(doc_path d \<mapsto> d)" if "ix_inv s" "length (ix_files s) < 2 ^ 32"
    using add [OF that] by (cases d) (simp add: mem_put_def doc_path_def)
  show "length (ix_files (mem_put s d)) \<le> length (ix_files s) + 1"
    by (auto simp: mem_put_def AddWithKeys_def Let_def split: prod.splits
        intro!: order_trans [OF length_maybeCompact])
  show "ix_inv (Remove s p)" "mem_abs (Remove s p) = (mem_abs s)(p := None)" if "ix_inv s"
    using that by (simp_all add: Remove_def removeLocked_inv maybeCompactLocked_inv mem_abs_maybeCompact mem_abs_removeLocked)
  show "length (ix_files (Remove s p)) \<le> length (ix_files s)"
    using length_maybeCompact [of "removeLocked s p"] by (simp add: Remove_def)
  show "ix_inv (RemovePrefix s p)" if "ix_inv s"
    using foldl_removeLocked [OF that] by (simp add: RemovePrefix_def maybeCompactLocked_inv)
  show "mem_abs (RemovePrefix s dir) = (\<lambda>p. if under_dir dir p then None else mem_abs s p)" if "ix_inv s"
  proof -
    let ?ps = "filter (under_dir dir) (map fst (ix_byPath s))"
    have "mem_abs s p = None" if "p \<notin> fst ` set (ix_byPath s)" for p
      using that by (simp add: mem_abs_def map_of_eq_None_iff)
    then show ?thesis
      using foldl_removeLocked [OF that, of ?ps]
      by (auto simp: RemovePrefix_def mem_abs_maybeCompact fun_eq_iff)
  qed
  have "length (ix_files (foldl removeLocked s ps)) = length (ix_files s)" for ps
    by (induction ps arbitrary: s) simp_all
  then show "length (ix_files (RemovePrefix s p)) \<le> length (ix_files s)"
    unfolding RemovePrefix_def using length_maybeCompact by (metis order_trans order_refl)
qed

end
