(* ===== verification/ShardFile.thy ===== *)
theory ShardFile
  imports Codec Symbol Trigram MemIndex
begin

text \<open>
  \<open>internal/shard/build.go\<close> and \<open>shard.go\<close>: the shard file. \<open>Builder\<close> accumulates files and
  posting lists and serialises them; the readers decode the bytes. A Go panic (an index or a
  slice out of range) is \<open>None\<close>, an error result is \<open>Inl\<close>. Offsets of type \<open>int\<close> are
  mathematical integers; every value that is stored passes through its word type, so
  truncation on writing is in the model. The file metadata record is the one of
  \<open>MemIndex\<close>, which has the same fields.
\<close>

subsection \<open>build.go: the builder\<close>

record buildFile =
  bf_path :: gostring
  bf_size :: int
  bf_mtimeNS :: int
  bf_defs :: "Def list"
  bf_content :: "bytes option"

record Builder =
  bd_files :: "buildFile list"
  bd_tris :: "(u32 \<times> u32 list) list"
  bd_inlineKB :: int

definition NewBuilder :: "int \<Rightarrow> Builder" where
  "NewBuilder inlineKB = \<lparr>bd_files = [], bd_tris = [], bd_inlineKB = inlineKB\<rparr>"

definition appendTri :: "u32 \<Rightarrow> (u32 \<times> u32 list) list \<Rightarrow> u32 \<Rightarrow> (u32 \<times> u32 list) list" where
  "appendTri fid tris k =
     AList.update k ((case map_of tris k of None \<Rightarrow> [] | Some l \<Rightarrow> l) @ [fid]) tris"

definition AddWithDefs :: "Builder \<Rightarrow> gostring \<Rightarrow> int \<Rightarrow> int \<Rightarrow> bytes \<Rightarrow> Def list \<Rightarrow> Builder" where
  "AddWithDefs b path sz mtimeNS content defs =
     (let fid = of_nat (length (bd_files b));
          stored = (if bd_inlineKB b > 0 \<and> int (length content) \<le> bd_inlineKB b * 1024 then Some content else None);
          f = \<lparr>bf_path = path, bf_size = sz, bf_mtimeNS = mtimeNS, bf_defs = defs, bf_content = stored\<rparr>
      in b\<lparr>bd_files := bd_files b @ [f],
           bd_tris := foldl (appendTri fid) (bd_tris b) (trigramsOf content [])\<rparr>)"

definition BuilderAdd :: "Builder \<Rightarrow> gostring \<Rightarrow> int \<Rightarrow> int \<Rightarrow> bytes \<Rightarrow> Builder" where
  "BuilderAdd b path sz mtimeNS content = AddWithDefs b path sz mtimeNS content []"

subsection \<open>build.go: the serialised form\<close>

definition magic :: bytes where "magic = str ''GCSHARD1''"
definition headerSize :: nat where "headerSize = 64"
definition fileEntryLen :: nat where "fileEntryLen = 32"
definition formatVer :: u32 where "formatVer = 3"
definition noContent :: u32 where "noContent = 0xFFFFFFFF"

text \<open>\<open>uint32(len(blob))\<close> before each part is appended to the blob.\<close>

fun blobOffsets :: "nat \<Rightarrow> bytes list \<Rightarrow> u32 list" where
  "blobOffsets n [] = []"
| "blobOffsets n (x # xs) = of_nat n # blobOffsets (n + length x) xs"

fun deltas :: "u32 \<Rightarrow> u32 list \<Rightarrow> u64 list" where
  "deltas prev [] = []"
| "deltas prev (i # ids) = ucast (i - prev) # deltas i ids"

definition encPosting :: "u32 list \<Rightarrow> bytes" where
  "encPosting ids = PutUvarint (of_nat (length ids)) @ concat (map PutUvarint (deltas 0 ids))"

definition encString :: "gostring \<Rightarrow> bytes" where
  "encString s = PutUvarint (of_nat (length s)) @ s"

definition encDef :: "Def \<Rightarrow> bytes" where
  "encDef d = encString (d_Name d) @ encString (d_Kind d) @ encString (d_Container d) @
     PutUvarint (of_nat (d_Line d))"

definition encDefs :: "Def list \<Rightarrow> bytes" where
  "encDefs ds = PutUvarint (of_nat (length ds)) @ concat (map encDef ds)"

text \<open>\<open>contentRefs\<close>: offset and length of each inlined content in the content blob.\<close>

fun contentRefs :: "nat \<Rightarrow> buildFile list \<Rightarrow> (u32 \<times> u32) list" where
  "contentRefs n [] = []"
| "contentRefs n (f # fs) =
     (case bf_content f of
        Some c \<Rightarrow> (of_nat n, of_nat (length c)) # contentRefs (n + length c) fs
      | None \<Rightarrow> (noContent, 0) # contentRefs n fs)"

definition triKeysOf :: "Builder \<Rightarrow> u32 list" where
  "triKeysOf b = sort (map fst (bd_tris b))"

definition postingParts :: "Builder \<Rightarrow> bytes list" where
  "postingParts b = map (\<lambda>k. encPosting (sort (the (map_of (bd_tris b) k)))) (triKeysOf b)"

definition contentParts :: "Builder \<Rightarrow> bytes list" where
  "contentParts b = map (\<lambda>f. case bf_content f of Some c \<Rightarrow> c | None \<Rightarrow> []) (bd_files b)"

definition pathBlobOf :: "Builder \<Rightarrow> bytes" where
  "pathBlobOf b = concat (map bf_path (bd_files b))"

definition symDataOf :: "Builder \<Rightarrow> bytes" where
  "symDataOf b = concat (map (\<lambda>f. encDefs (bf_defs f)) (bd_files b))"

definition encEntry :: "buildFile \<Rightarrow> u32 \<Rightarrow> u32 \<times> u32 \<Rightarrow> bytes" where
  "encEntry f pathOff cref =
     PutUint32 pathOff @ PutUint16 (of_nat (length (bf_path f))) @ [0, 0] @
     PutUint64 (word_of_int (bf_size f)) @ PutUint64 (word_of_int (bf_mtimeNS f)) @
     PutUint32 (fst cref) @ PutUint32 (snd cref)"

definition fileTable :: "Builder \<Rightarrow> bytes list" where
  "fileTable b =
     map (\<lambda>(f, pathOff, cref). encEntry f pathOff cref)
       (zip (bd_files b) (zip (blobOffsets 0 (map bf_path (bd_files b))) (contentRefs 0 (bd_files b))))"

definition numFilesOf :: "Builder \<Rightarrow> u32" where "numFilesOf b = of_nat (length (bd_files b))"
definition numTriOf :: "Builder \<Rightarrow> u32" where "numTriOf b = of_nat (length (bd_tris b))"
definition numSymsOf :: "Builder \<Rightarrow> u32" where
  "numSymsOf b = of_nat (sum_list (map (\<lambda>f. length (bf_defs f)) (bd_files b)))"

definition triIdxOffOf :: "Builder \<Rightarrow> u64" where
  "triIdxOffOf b = of_nat headerSize + ucast (numFilesOf b) * of_nat fileEntryLen + of_nat (length (pathBlobOf b))"
definition postOffOf :: "Builder \<Rightarrow> u64" where
  "postOffOf b = triIdxOffOf b + ucast (numTriOf b) * 4 * 2"
definition symOffOf :: "Builder \<Rightarrow> u64" where
  "symOffOf b = postOffOf b + of_nat (length (concat (postingParts b)))"
definition ctOffOf :: "Builder \<Rightarrow> u64" where
  "ctOffOf b = (if length (concat (contentParts b)) > 0 then symOffOf b + of_nat (length (symDataOf b)) else 0)"

definition headerOf :: "Builder \<Rightarrow> bytes" where
  "headerOf b =
     magic @ PutUint32 formatVer @ PutUint32 (numFilesOf b) @ PutUint32 (numTriOf b) @ PutUint32 (numSymsOf b) @
     PutUint64 (of_nat headerSize) @ PutUint64 (triIdxOffOf b) @ PutUint64 (postOffOf b) @ PutUint64 (symOffOf b) @
     PutUint64 (ctOffOf b)"

text \<open>
  The buffer \<open>out\<close>. The code allocates it zeroed and copies each section to its offset; the
  sections are adjacent, and the two bytes of an entry that are never written stay 0.
\<close>

definition shardBytes :: "Builder \<Rightarrow> bytes" where
  "shardBytes b =
     headerOf b @ concat (fileTable b) @ pathBlobOf b @
     concat (map PutUint32 (triKeysOf b)) @ concat (map PutUint32 (blobOffsets 0 (postingParts b))) @
     concat (postingParts b) @ symDataOf b @ concat (contentParts b)"

text \<open>
  \<open>Write\<close>: a directory, a temporary file and a rename. The file system maps the names of regular files to their bytes; \<open>io\<close>
  says which of the three calls fails, if any, and what a failed \<open>os.WriteFile\<close> leaves in the file, which may be anything.
\<close>

type_synonym filesystem = "gostring \<rightharpoonup> bytes"

datatype io_outcome = MkdirFails | WriteFails bytes | RenameFails | AllOk

definition osMkdirAll :: "io_outcome \<Rightarrow> filesystem \<Rightarrow> bool \<times> filesystem" where
  "osMkdirAll io fs = (case io of MkdirFails \<Rightarrow> (False, fs) | _ \<Rightarrow> (True, fs))"

definition osWriteFile :: "io_outcome \<Rightarrow> gostring \<Rightarrow> bytes \<Rightarrow> filesystem \<Rightarrow> bool \<times> filesystem" where
  "osWriteFile io name out fs = (case io of WriteFails junk \<Rightarrow> (False, fs(name \<mapsto> junk)) | _ \<Rightarrow> (True, fs(name \<mapsto> out)))"

definition osRename :: "io_outcome \<Rightarrow> gostring \<Rightarrow> gostring \<Rightarrow> filesystem \<Rightarrow> bool \<times> filesystem" where
  "osRename io old new fs = (case io of RenameFails \<Rightarrow> (False, fs) | _ \<Rightarrow> (True, fs(old := None, new := fs old)))"

definition Write :: "Builder \<Rightarrow> gostring \<Rightarrow> io_outcome \<Rightarrow> filesystem \<Rightarrow> bool \<times> filesystem" where
  "Write b path io fs =
     (case osMkdirAll io fs of
        (False, fs) \<Rightarrow> (False, fs)
      | (True, fs) \<Rightarrow>
          let tmp = path @ str ''.tmp'' in
          case osWriteFile io tmp (shardBytes b) fs of
            (False, fs) \<Rightarrow> (False, fs)
          | (True, fs) \<Rightarrow> osRename io tmp path fs)"

lemma Write_cases:
  "Write b path io fs =
     (case io of
        MkdirFails \<Rightarrow> (False, fs)
      | WriteFails junk \<Rightarrow> (False, fs(path @ str ''.tmp'' \<mapsto> junk))
      | RenameFails \<Rightarrow> (False, fs(path @ str ''.tmp'' \<mapsto> shardBytes b))
      | AllOk \<Rightarrow> (True, fs(path @ str ''.tmp'' := None, path \<mapsto> shardBytes b)))"
  by (cases io) (simp_all add: Write_def osMkdirAll_def osWriteFile_def osRename_def Let_def)

subsection \<open>shard.go: the reader's state\<close>

record Shard =
  sh_path :: gostring
  sh_size :: nat
  sh_pathMin :: gostring
  sh_pathMax :: gostring
  sh_numFiles :: u32
  sh_numTri :: u32
  sh_numSyms :: u32
  sh_fileTbl :: int
  sh_pathBlob :: int
  sh_triIdx :: int
  sh_postings :: int
  sh_symbolOff :: int
  sh_contentOff :: int
  sh_triKeys :: "u32 list"
  sh_data :: bytes
  sh_refs :: int

datatype shard_err = OpenErr | TooSmall | BadMagic | BadVersion u32 | ReadErr

subsection \<open>shard.go: accessors\<close>

definition FileAt :: "Shard \<Rightarrow> nat \<Rightarrow> FileMeta option" where
  "FileAt s i =
     (let off = sh_fileTbl s + int i * int fileEntryLen; d = sh_data s in
      case (readUint32 d off, readUint16 d (off + 4), readUint64 d (off + 8), readUint64 d (off + 16)) of
        (Some pOff, Some pLen, Some sz, Some mtime) \<Rightarrow>
          map_option (\<lambda>p. \<lparr>fm_Path = p, fm_Size = sint sz, fm_MtimeNS = sint mtime\<rparr>)
            (sliceRange d (sh_pathBlob s + int (unat pOff)) (sh_pathBlob s + int (unat pOff) + int (unat pLen)))
      | _ \<Rightarrow> None)"

text \<open>\<open>FileContent\<close>; the inner \<open>None\<close> is the nil slice.\<close>

definition FileContentAt :: "Shard \<Rightarrow> nat \<Rightarrow> bytes option option" where
  "FileContentAt s i =
     (if sh_contentOff s = 0 then Some None
      else
        let off = sh_fileTbl s + int i * int fileEntryLen; d = sh_data s in
        case (readUint32 d (off + 24), readUint32 d (off + 28)) of
          (Some cOff, Some cLen) \<Rightarrow>
            if cOff = noContent \<or> cLen = 0 then Some None
            else
              let base = sh_contentOff s + int (unat cOff) in
              map_option Some (sliceRange d base (base + int (unat cLen)))
        | _ \<Rightarrow> None)"

fun filesFrom :: "Shard \<Rightarrow> nat list \<Rightarrow> FileMeta list option" where
  "filesFrom s [] = Some []"
| "filesFrom s (i # is) =
     (case FileAt s i of
        None \<Rightarrow> None
      | Some f \<Rightarrow> map_option (Cons f) (filesFrom s is))"

definition ShardFiles :: "Shard \<Rightarrow> FileMeta list option" where
  "ShardFiles s = filesFrom s [0..<unat (sh_numFiles s)]"

text \<open>One definition of the symbol table, read, and skipped as the walk over earlier files does.\<close>

definition readStr :: "bytes \<Rightarrow> int \<Rightarrow> (gostring \<times> int) option" where
  "readStr d pos =
     (case readUvarint d pos of
        None \<Rightarrow> None
      | Some (n, p) \<Rightarrow> map_option (\<lambda>x. (x, p + sint n)) (sliceRange d p (p + sint n)))"

definition readContainer :: "bytes \<Rightarrow> int \<Rightarrow> (gostring \<times> int) option" where
  "readContainer d pos =
     (case readUvarint d pos of
        None \<Rightarrow> None
      | Some (n, p) \<Rightarrow>
          if n > 0 then map_option (\<lambda>x. (x, p + sint n)) (sliceRange d p (p + sint n))
          else Some ([], p + sint n))"

definition readDef :: "bytes \<Rightarrow> int \<Rightarrow> (Def \<times> int) option" where
  "readDef d pos =
     Option.bind (readStr d pos) (\<lambda>(name, p).
     Option.bind (readStr d p) (\<lambda>(kind, p2).
     Option.bind (readContainer d p2) (\<lambda>(container, p3).
     map_option (\<lambda>(ln, p4). (\<lparr>d_Name = name, d_Kind = kind, d_Container = container, d_Line = nat (sint ln)\<rparr>, p4))
       (readUvarint d p3))))"

definition skipStr :: "bytes \<Rightarrow> int \<Rightarrow> int option" where
  "skipStr d pos = map_option (\<lambda>(n, p). p + sint n) (readUvarint d pos)"

definition skipDef :: "bytes \<Rightarrow> int \<Rightarrow> (unit \<times> int) option" where
  "skipDef d pos =
     Option.bind (skipStr d pos) (\<lambda>p.
     Option.bind (skipStr d p) (\<lambda>p2.
     Option.bind (skipStr d p2) (\<lambda>p3.
     map_option (\<lambda>(_, p4). ((), p4)) (readUvarint d p3))))"

text \<open>The loop over \<open>fi\<close>: \<open>k\<close> files are still to be skipped.\<close>

fun fileDefs_loop :: "bytes \<Rightarrow> nat \<Rightarrow> int \<Rightarrow> Def list option" where
  "fileDefs_loop d 0 pos =
     Option.bind (readUvarint d pos) (\<lambda>(numDefs, p).
       if numDefs = 0 then Some [] else map_option fst (readN readDef (unat numDefs) d p))"
| "fileDefs_loop d (Suc k) pos =
     Option.bind (readUvarint d pos) (\<lambda>(numDefs, p).
       Option.bind (readN skipDef (unat numDefs) d p) (\<lambda>(_, p). fileDefs_loop d k p))"

definition ShardFileDefs :: "Shard \<Rightarrow> nat \<Rightarrow> Def list option" where
  "ShardFileDefs s fileID =
     (if sh_symbolOff s = 0 \<or> sh_numSyms s = 0 then Some []
      else fileDefs_loop (sh_data s) fileID (sh_symbolOff s))"

subsection \<open>shard.go: postings and candidates\<close>

function posting_search :: "bytes \<Rightarrow> int \<Rightarrow> u32 \<Rightarrow> nat \<Rightarrow> nat \<Rightarrow> nat option" where
  "posting_search d keysOff tri lo hi =
     (if lo < hi then
        let mid = lo + (hi - lo) div 2 in
        case readUint32 d (keysOff + int mid * 4) of
          None \<Rightarrow> None
        | Some k \<Rightarrow> if k < tri then posting_search d keysOff tri (mid + 1) hi
                    else posting_search d keysOff tri lo mid
      else Some lo)"
  by pat_completeness auto
termination
  by (relation "measure (\<lambda>(d, keysOff, tri, lo, hi). hi - lo)") auto

declare posting_search.simps [simp del]

fun undelta :: "u32 \<Rightarrow> u64 list \<Rightarrow> u32 list" where
  "undelta prev [] = []"
| "undelta prev (d # ds) = (let i = prev + ucast d in i # undelta i ds)"

text \<open>\<open>posting\<close>; the inner \<open>None\<close> is nil: the key is not in the shard.\<close>

definition posting :: "Shard \<Rightarrow> u32 \<Rightarrow> u32 list option option" where
  "posting s tri =
     (let d = sh_data s; keysOff = sh_triIdx s; n = unat (sh_numTri s) in
      Option.bind (posting_search d keysOff tri 0 n) (\<lambda>lo.
        if lo \<ge> n then Some None
        else
          Option.bind (readUint32 d (keysOff + int lo * 4)) (\<lambda>k.
            if k \<noteq> tri then Some None
            else
              Option.bind (readUint32 d (keysOff + int n * 4 + int lo * 4)) (\<lambda>po.
              Option.bind (readUvarint d (int (unat po) + sh_postings s)) (\<lambda>(numDocs, pos).
                map_option (\<lambda>(ds, _). Some (undelta 0 ds)) (readN readUvarint (unat numDocs) d pos))))))"

text \<open>The loop of \<open>Candidates\<close> after the first key.\<close>

fun candidates_loop :: "Shard \<Rightarrow> u32 list \<Rightarrow> u32 list \<Rightarrow> u32 list option" where
  "candidates_loop s [] result = Some result"
| "candidates_loop s (tri # tris) result =
     Option.bind (posting s tri) (\<lambda>p.
       case p of
         None \<Rightarrow> Some []
       | Some ids \<Rightarrow>
           let result = intersectSorted result ids in
           if length result = 0 then Some [] else candidates_loop s tris result)"

definition Candidates :: "Shard \<Rightarrow> gostring \<Rightarrow> u32 list option" where
  "Candidates s literal =
     (if length literal < 3 then Some (map of_nat [0..<unat (sh_numFiles s)])
      else case trigramsOfLit literal of
             [] \<Rightarrow> Some []
           | tri # tris \<Rightarrow>
               Option.bind (posting s tri) (\<lambda>p. case p of None \<Rightarrow> Some [] | Some ids \<Rightarrow> candidates_loop s tris ids))"

definition HasTrigrams :: "Shard \<Rightarrow> gostring \<Rightarrow> bool" where
  "HasTrigrams s literal \<longleftrightarrow>
     length literal < 3 \<or>
     list_all (\<lambda>tri.
       let keys = sh_triKeys s; i = sort_Search (length keys) (\<lambda>j. keys ! j \<ge> tri)
       in \<not> (i \<ge> length keys \<or> keys ! i \<noteq> tri)) (trigramsOfLit literal)"

definition ShardPath :: "Shard \<Rightarrow> gostring" where "ShardPath s = sh_path s"
definition PathMin :: "Shard \<Rightarrow> gostring" where "PathMin s = sh_pathMin s"
definition PathMax :: "Shard \<Rightarrow> gostring" where "PathMax s = sh_pathMax s"
definition ShardNumFiles :: "Shard \<Rightarrow> nat" where "ShardNumFiles s = unat (sh_numFiles s)"
definition FileSize :: "Shard \<Rightarrow> nat" where "FileSize s = sh_size s"
definition TriKeyCount :: "Shard \<Rightarrow> nat" where "TriKeyCount s = length (sh_triKeys s)"

definition ContainsPath :: "Shard \<Rightarrow> gostring \<Rightarrow> bool" where
  "ContainsPath s path \<longleftrightarrow> path \<ge> sh_pathMin s \<and> path \<le> sh_pathMax s"

subsection \<open>shard.go: Open and Load\<close>

text \<open>The header fields, from the first 64 bytes.\<close>

definition parseHeader :: "gostring \<Rightarrow> nat \<Rightarrow> bytes \<Rightarrow> shard_err + Shard" where
  "parseHeader path sz hdr =
     (if take 8 hdr \<noteq> magic then Inl BadMagic
      else
        let u32 = (\<lambda>off. the (Uint32 (drop off hdr))); i64 = (\<lambda>off. sint (the (Uint64 (drop off hdr)))) in
        if u32 8 \<noteq> formatVer then Inl (BadVersion (u32 8))
        else Inr \<lparr>sh_path = path, sh_size = sz, sh_pathMin = [], sh_pathMax = [],
               sh_numFiles = u32 12, sh_numTri = u32 16, sh_numSyms = u32 20,
               sh_fileTbl = i64 24,
               sh_pathBlob = i64 24 + int (unat (u32 12)) * int fileEntryLen,
               sh_triIdx = i64 32, sh_postings = i64 40, sh_symbolOff = i64 48, sh_contentOff = i64 56,
               sh_triKeys = [], sh_data = [], sh_refs = 0\<rparr>)"

text \<open>\<open>f.ReadAt\<close>: an error when the range is not in the file.\<close>

definition ReadAt :: "bytes \<Rightarrow> int \<Rightarrow> nat \<Rightarrow> bytes option" where
  "ReadAt file off n =
     (if off < 0 then None
      else if n = 0 then Some []
      else if nat off + n \<le> length file then Some (slice file (nat off) (nat off + n)) else None)"

definition readPathAt :: "Shard \<Rightarrow> bytes \<Rightarrow> nat \<Rightarrow> gostring option" where
  "readPathAt s file i =
     (case ReadAt file (sh_fileTbl s + int i * int fileEntryLen) 6 of
        None \<Rightarrow> None
      | Some ent \<Rightarrow>
          ReadAt file (sh_pathBlob s + int (unat (the (Uint32 ent)))) (unat (the (Uint16 (drop 4 ent)))))"

text \<open>The keys in a buffer, four bytes each; reading past its end is a panic.\<close>

fun keysFrom :: "bytes \<Rightarrow> nat list \<Rightarrow> u32 list option" where
  "keysFrom buf [] = Some []"
| "keysFrom buf (i # is) =
     (case readUint32 buf (int i * 4) of
        None \<Rightarrow> None
      | Some k \<Rightarrow> map_option (Cons k) (keysFrom buf is))"

text \<open>The outer \<open>None\<close> is a panic. The key buffer has \<open>s.numTri*4\<close> bytes, a 32-bit product.\<close>

definition Open :: "filesystem \<Rightarrow> gostring \<Rightarrow> (shard_err + Shard) option" where
  "Open fs path =
     (case fs path of
        None \<Rightarrow> Some (Inl OpenErr)
      | Some file \<Rightarrow>
          if length file < headerSize then Some (Inl TooSmall)
          else case parseHeader path (length file) (take headerSize file) of
            Inl err \<Rightarrow> Some (Inl err)
          | Inr s \<Rightarrow>
              let n = unat (sh_numFiles s);
                  paths = (if n > 0 then
                             case readPathAt s file 0 of
                               None \<Rightarrow> None
                             | Some pmin \<Rightarrow> map_option (\<lambda>pmax. (pmin, pmax)) (readPathAt s file (n - 1))
                           else Some ([], []))
              in case paths of
                   None \<Rightarrow> Some (Inl ReadErr)
                 | Some (pmin, pmax) \<Rightarrow>
                     let s = s\<lparr>sh_pathMin := pmin, sh_pathMax := pmax\<rparr> in
                     if sh_numTri s > 0 then
                       case ReadAt file (sh_triIdx s) (unat (sh_numTri s * 4)) of
                         None \<Rightarrow> Some (Inl ReadErr)
                       | Some buf \<Rightarrow>
                           map_option (\<lambda>keys. Inr (s\<lparr>sh_triKeys := keys\<rparr>)) (keysFrom buf [0..<unat (sh_numTri s)])
                     else Some (Inr s))"

definition Load :: "filesystem \<Rightarrow> gostring \<Rightarrow> (shard_err + Shard) option" where
  "Load fs path =
     (case fs path of
        None \<Rightarrow> Some (Inl OpenErr)
      | Some file \<Rightarrow>
          if length file < headerSize then Some (Inl TooSmall)
          else case parseHeader path (length file) file of
            Inl err \<Rightarrow> Some (Inl err)
          | Inr s \<Rightarrow>
              let s = s\<lparr>sh_data := file, sh_refs := 1\<rparr>; n = unat (sh_numFiles s) in
              Option.bind (if n > 0 then Option.bind (FileAt s 0) (\<lambda>f.
                             map_option (\<lambda>g. s\<lparr>sh_pathMin := fm_Path f, sh_pathMax := fm_Path g\<rparr>) (FileAt s (n - 1)))
                           else Some s)
                (\<lambda>s. if sh_numTri s > 0 then
                       Option.bind (sliceFrom file (sh_triIdx s)) (\<lambda>buf.
                         map_option (\<lambda>keys. Inr (s\<lparr>sh_triKeys := keys\<rparr>)) (keysFrom buf [0..<unat (sh_numTri s)]))
                     else Some (Inr s)))"

subsection \<open>shard.go: the mapping\<close>

text \<open>
  \<open>Mmap\<close> and \<open>Munmap\<close>, each under the shard's lock. \<open>mapped\<close> is what the operating system
  returns when the file is mapped now, \<open>None\<close> for an error. An unmapped shard has no data.
\<close>

definition Mmap :: "Shard \<Rightarrow> bytes option \<Rightarrow> bool \<times> Shard" where
  "Mmap s mapped =
     (if sh_refs s > 0 then (True, s\<lparr>sh_refs := sh_refs s + 1\<rparr>)
      else case mapped of
             None \<Rightarrow> (False, s)
           | Some data \<Rightarrow> (True, s\<lparr>sh_data := data, sh_refs := 1\<rparr>))"

definition Munmap :: "Shard \<Rightarrow> Shard" where
  "Munmap s =
     (if sh_refs s \<le> 0 then s
      else let s = s\<lparr>sh_refs := sh_refs s - 1\<rparr> in
           if sh_refs s = 0 then s\<lparr>sh_data := []\<rparr> else s)"

subsection \<open>build.go: batches\<close>

record ShardSizeConfig =
  sc_TargetBytes :: int
  sc_MinBytes :: int
  sc_MaxBytes :: int

record BuildFile =
  bF_Rel :: gostring
  bF_Size :: int
  bF_MtimeNS :: int

text \<open>The loop over the sorted files; \<open>batches\<close> and \<open>cur\<close> as in the code.\<close>

fun group_loop :: "ShardSizeConfig \<Rightarrow> BuildFile list \<Rightarrow> BuildFile list list \<Rightarrow> BuildFile list \<Rightarrow> int \<Rightarrow>
    BuildFile list list \<times> BuildFile list \<times> int" where
  "group_loop sc [] batches cur curBytes = (batches, cur, curBytes)"
| "group_loop sc (f # files) batches cur curBytes =
     (let cur = cur @ [f]; curBytes = curBytes + bF_Size f in
      if curBytes \<ge> sc_TargetBytes sc then group_loop sc files (batches @ [cur]) [] 0
      else group_loop sc files batches cur curBytes)"

definition GroupByDirBoundary :: "BuildFile list \<Rightarrow> ShardSizeConfig \<Rightarrow> BuildFile list list" where
  "GroupByDirBoundary files sc =
     (let files = sort_key bF_Rel files in
      if length files = 0 then []
      else case group_loop sc files [] [] 0 of
        (batches, cur, curBytes) \<Rightarrow>
          if length cur > 0 then
            if length batches > 0 \<and> curBytes < sc_MinBytes sc
            then butlast batches @ [List.last batches @ cur]
            else batches @ [cur]
          else batches)"

definition topDir :: "gostring \<Rightarrow> gostring" where
  "topDir rel = (case IndexByte rel slash of Some i \<Rightarrow> take i rel | None \<Rightarrow> [])"

end
