(* ===== verification/ShardProps.thy ===== *)
theory ShardProps
  imports ShardFile
begin

text \<open>
  Reading back what the builder wrote: every section of the file decodes to the files,
  definitions, contents and posting lists that were added, and a loaded shard is an instance
  of \<open>trigram_index\<close>.
\<close>

subsection \<open>The builder holds exactly what was added\<close>

definition addDoc :: "Builder \<Rightarrow> document \<Rightarrow> Builder" where
  "addDoc b d = (case d of (meta, content, defs) \<Rightarrow>
     AddWithDefs b (fm_Path meta) (fm_Size meta) (fm_MtimeNS meta) content defs)"

definition Build :: "int \<Rightarrow> document list \<Rightarrow> Builder" where
  "Build inlineKB docs = foldl addDoc (NewBuilder inlineKB) docs"

definition storedFile :: "int \<Rightarrow> document \<Rightarrow> buildFile" where
  "storedFile kb d = (case d of (meta, content, defs) \<Rightarrow>
     \<lparr>bf_path = fm_Path meta, bf_size = fm_Size meta, bf_mtimeNS = fm_MtimeNS meta, bf_defs = defs,
      bf_content = (if kb > 0 \<and> int (length content) \<le> kb * 1024 then Some content else None)\<rparr>)"

definition doc_content :: "document \<Rightarrow> bytes" where
  "doc_content d = fst (snd d)"

lemma doc_content_simp [simp]: "doc_content (meta, content, defs) = content"
  by (simp add: doc_content_def)

lemma map_of_appendTri: "map_of (appendTri fid tris k) = append_posting fid k (map_of tris)"
  by (simp add: appendTri_def append_posting_def update_conv')

lemma map_of_appendTris: "map_of (foldl (appendTri fid) tris keys) = addPostings fid keys (map_of tris)"
  by (induction keys arbitrary: tris) (simp_all add: addPostings_def map_of_appendTri)

lemma distinct_appendTris: "distinct (map fst tris) \<Longrightarrow> distinct (map fst (foldl (appendTri fid) tris keys))"
  by (induction keys arbitrary: tris) (simp_all add: appendTri_def distinct_update)

lemma Build_props:
  "bd_files (Build kb docs) = map (storedFile kb) docs \<and> distinct (map fst (bd_tris (Build kb docs))) \<and>
   map_of (bd_tris (Build kb docs)) = tri_of (map doc_content docs) \<and> bd_inlineKB (Build kb docs) = kb"
proof (induction docs rule: rev_induct)
  case Nil
  then show ?case by (simp add: Build_def NewBuilder_def)
next
  case (snoc d docs)
  obtain meta c defs where d: "d = (meta, c, defs)" by (cases d)
  have "addPostings (of_nat (length docs)) (trigramsOf c []) (tri_of (map doc_content docs)) =
      tri_of (map doc_content docs @ [c])"
    using tri_of_snoc [of "trigramsOf c []" c "map doc_content docs"] by (simp add: trigram_simps)
  moreover have "Build kb (docs @ [d]) = addDoc (Build kb docs) d" by (simp add: Build_def)
  ultimately show ?case
    using snoc
    by (simp add: addDoc_def d AddWithDefs_def Let_def storedFile_def map_of_appendTris distinct_appendTris)
qed

lemma sort_posting:
  assumes "length cs \<le> 2 ^ 32" and "tri_of cs k = Some l"
  shows "sort l = l" "l = postings cs k" "l \<noteq> []"
proof -
  show "l = postings cs k" "l \<noteq> []" using assms(2) by (auto simp: tri_of_def split: if_splits)
  then show "sort l = l"
    using strict_sorted_postings [OF assms(1), of k] by (simp add: sorted_sort_id strict_sorted_iff)
qed

subsection \<open>Codecs of the sections\<close>

lemma sint_of_int_u64: "- (2 ^ 63) \<le> i \<Longrightarrow> i < 2 ^ 63 \<Longrightarrow> sint (word_of_int i :: u64) = i"
  by (simp add: sint_sbintrunc' signed_take_bit_int_eq_self)

lemma sint_of_nat_u64: "n < 2 ^ 63 \<Longrightarrow> sint (of_nat n :: u64) = int n"
  using sint_of_int_u64 [of "int n"] by simp

interpretation strc: byte_codec encString readStr "\<lambda>s. s" "\<lambda>s. length s < 2 ^ 63"
proof
  fix v :: gostring and pos :: int and a r :: bytes
  assume "length v < 2 ^ 63" and pos: "pos = int (length a)"
  then show "readStr (a @ encString v @ r) pos = Some (v, pos + int (length (encString v)))"
    using sliceRange_append [of "pos + int (length (PutUvarint (of_nat (length v))))" "a @ PutUvarint (of_nat (length v))" _ v r]
    by (simp add: readStr_def encString_def readUvarint_append sint_of_nat_u64)
qed

lemma of_nat_u64_pos: "n < 2 ^ 63 \<Longrightarrow> (0 :: u64) < of_nat n \<longleftrightarrow> 0 < n"
  by (simp add: word_less_nat_alt unat_of_nat)

interpretation containerc: byte_codec encString readContainer "\<lambda>s. s" "\<lambda>s. length s < 2 ^ 63"
proof
  fix v :: gostring and pos :: int and a r :: bytes
  assume v: "length v < 2 ^ 63" and pos: "pos = int (length a)"
  show "readContainer (a @ encString v @ r) pos = Some (v, pos + int (length (encString v)))"
  proof (cases "v = []")
    case True
    then show ?thesis using pos by (simp add: readContainer_def encString_def readUvarint_append)
  next
    case False
    then have "readContainer (a @ encString v @ r) pos = readStr (a @ encString v @ r) pos"
      using v pos by (simp add: readContainer_def readStr_def encString_def readUvarint_append of_nat_u64_pos)
    then show ?thesis using strc.rd_enc [OF v pos] by simp
  qed
qed

definition def_ok :: "Def \<Rightarrow> bool" where
  "def_ok d \<longleftrightarrow> length (d_Name d) < 2 ^ 63 \<and> length (d_Kind d) < 2 ^ 63 \<and> length (d_Container d) < 2 ^ 63 \<and> d_Line d < 2 ^ 63"

interpretation defc: byte_codec encDef readDef "\<lambda>d. d" def_ok
proof
  fix v :: Def and pos :: int and a r :: bytes
  assume ok: "def_ok v" and pos: "pos = int (length a)"
  let ?n = "encString (d_Name v)" and ?k = "encString (d_Kind v)" and ?c = "encString (d_Container v)"
    and ?l = "PutUvarint (of_nat (d_Line v))"
  let ?d = "a @ ?n @ ?k @ ?c @ ?l @ r"
  have 1: "readStr ?d pos = Some (d_Name v, pos + int (length ?n))"
    using ok pos by (intro strc.rd_enc) (simp_all add: def_ok_def)
  have 2: "readStr ?d (pos + int (length ?n)) = Some (d_Kind v, pos + int (length ?n) + int (length ?k))"
    using ok pos strc.rd_enc [of "d_Kind v" _ "a @ ?n" "?c @ ?l @ r"] by (simp add: def_ok_def)
  have 3: "readContainer ?d (pos + int (length ?n) + int (length ?k)) =
      Some (d_Container v, pos + int (length ?n) + int (length ?k) + int (length ?c))"
    using ok pos containerc.rd_enc [of "d_Container v" _ "a @ ?n @ ?k" "?l @ r"] by (simp add: def_ok_def add.assoc)
  have 4: "readUvarint ?d (pos + int (length ?n) + int (length ?k) + int (length ?c)) =
      Some (of_nat (d_Line v), pos + int (length ?n) + int (length ?k) + int (length ?c) + int (length ?l))"
    using pos readUvarint_append [of _ "a @ ?n @ ?k @ ?c" "of_nat (d_Line v)" r] by (simp add: add.assoc)
  show "readDef (a @ encDef v @ r) pos = Some (v, pos + int (length (encDef v)))"
    using ok 1 2 3 4 by (simp add: readDef_def encDef_def def_ok_def sint_of_nat_u64)
qed

lemma skipStr_enc:
  "length v < 2 ^ 63 \<Longrightarrow> pos = int (length a) \<Longrightarrow> skipStr (a @ encString v @ r) pos = Some (pos + int (length (encString v)))"
  by (simp add: skipStr_def encString_def readUvarint_append sint_of_nat_u64)

interpretation skipc: byte_codec encDef skipDef "\<lambda>_. ()" def_ok
proof
  fix v :: Def and pos :: int and a r :: bytes
  assume ok: "def_ok v" and pos: "pos = int (length a)"
  let ?n = "encString (d_Name v)" and ?k = "encString (d_Kind v)" and ?c = "encString (d_Container v)"
    and ?l = "PutUvarint (of_nat (d_Line v))"
  let ?d = "a @ ?n @ ?k @ ?c @ ?l @ r"
  have 1: "skipStr ?d pos = Some (pos + int (length ?n))"
    using ok pos by (intro skipStr_enc) (simp_all add: def_ok_def)
  have 2: "skipStr ?d (pos + int (length ?n)) = Some (pos + int (length ?n) + int (length ?k))"
    using ok pos skipStr_enc [of "d_Kind v" _ "a @ ?n" "?c @ ?l @ r"] by (simp add: def_ok_def)
  have 3: "skipStr ?d (pos + int (length ?n) + int (length ?k)) =
      Some (pos + int (length ?n) + int (length ?k) + int (length ?c))"
    using ok pos skipStr_enc [of "d_Container v" _ "a @ ?n @ ?k" "?l @ r"] by (simp add: def_ok_def add.assoc)
  have 4: "readUvarint ?d (pos + int (length ?n) + int (length ?k) + int (length ?c)) =
      Some (of_nat (d_Line v), pos + int (length ?n) + int (length ?k) + int (length ?c) + int (length ?l))"
    using pos readUvarint_append [of _ "a @ ?n @ ?k @ ?c" "of_nat (d_Line v)" r] by (simp add: add.assoc)
  show "skipDef (a @ encDef v @ r) pos = Some ((), pos + int (length (encDef v)))"
    using 1 2 3 4 by (simp add: skipDef_def encDef_def)
qed

subsection \<open>The symbol table\<close>

lemma unat_of_nat_u64: "n < 2 ^ 63 \<Longrightarrow> unat (of_nat n :: u64) = n"
  by (simp add: unat_of_nat)

lemma fileDefs_loop_enc:
  assumes "i < length dss" and "\<forall>ds \<in> set dss. length ds < 2 ^ 63 \<and> (\<forall>d \<in> set ds. def_ok d)"
    and "pos = int (length a)"
  shows "fileDefs_loop (a @ concat (map encDefs dss) @ r) i pos = Some (dss ! i)"
  using assms
proof (induction i arbitrary: dss a pos)
  case 0
  then obtain ds dss' where dss: "dss = ds # dss'" by (cases dss) auto
  let ?n = "PutUvarint (of_nat (length ds))"
  let ?r = "concat (map encDefs dss') @ r"
  have n: "readUvarint (a @ ?n @ concat (map encDef ds) @ ?r) pos = Some (of_nat (length ds), pos + int (length ?n))"
    using "0.prems"(3) by (rule readUvarint_append)
  have "readN readDef (length ds) ((a @ ?n) @ concat (map encDef ds) @ ?r) (pos + int (length ?n)) =
      Some (map (\<lambda>d. d) ds, pos + int (length ?n) + int (length (concat (map encDef ds))))"
    using "0.prems" by (intro defc.readN_enc) (auto simp: dss)
  moreover have len: "unat (of_nat (length ds) :: u64) = length ds"
    using "0.prems"(2) by (auto simp: dss unat_of_nat_u64)
  ultimately have rd: "map_option fst (readN readDef (unat (of_nat (length ds) :: u64)) (a @ encDefs ds @ ?r) (pos + int (length ?n))) =
      Some ds"
    by (simp add: encDefs_def [of ds])
  have "ds = []" if "(of_nat (length ds) :: u64) = 0" using len that by (metis length_0_conv unat_0)
  then show ?case using n rd by (cases "(of_nat (length ds) :: u64) = 0") (simp_all add: dss encDefs_def [of ds] encDefs_def [of "[]"])
next
  case (Suc i)
  then obtain ds dss' where dss: "dss = ds # dss'" by (cases dss) auto
  let ?n = "PutUvarint (of_nat (length ds))"
  let ?r = "concat (map encDefs dss') @ r"
  have n: "readUvarint (a @ ?n @ concat (map encDef ds) @ ?r) pos = Some (of_nat (length ds), pos + int (length ?n))"
    using Suc.prems(3) by (rule readUvarint_append)
  have skip: "readN skipDef (length ds) ((a @ ?n) @ concat (map encDef ds) @ ?r) (pos + int (length ?n)) =
      Some (map (\<lambda>_. ()) ds, pos + int (length ?n) + int (length (concat (map encDef ds))))"
    using Suc.prems by (intro skipc.readN_enc) (auto simp: dss)
  have "fileDefs_loop ((a @ encDefs ds) @ concat (map encDefs dss') @ r) i (pos + int (length (encDefs ds))) = Some (dss' ! i)"
    using Suc.prems by (intro Suc.IH) (auto simp: dss)
  moreover have "unat (of_nat (length ds) :: u64) = length ds"
    using Suc.prems(2) by (auto simp: dss unat_of_nat_u64)
  ultimately show ?case using n skip by (simp add: dss encDefs_def [of ds] add.assoc)
qed

subsection \<open>Postings\<close>

lemma undelta_deltas [simp]: "undelta prev (deltas prev ids) = ids"
proof (induction ids arbitrary: prev)
  case (Cons i ids)
  have "(ucast (ucast (i - prev) :: u64) :: u32) = i - prev"
    by (rule bit_word_eqI) (auto simp: bit_simps)
  with Cons show ?case by simp
qed simp

lemma length_deltas [simp]: "length (deltas prev ids) = length ids"
  by (induction ids arbitrary: prev) simp_all

lemma readPosting_enc:
  assumes "length ids < 2 ^ 63" and "pos = int (length a)"
  shows "Option.bind (readUvarint (a @ encPosting ids @ r) pos) (\<lambda>(numDocs, p).
      map_option (\<lambda>(ds, _). Some (undelta 0 ds)) (readN readUvarint (unat numDocs) (a @ encPosting ids @ r) p)) = Some (Some ids)"
proof -
  let ?n = "PutUvarint (of_nat (length ids))"
  have "readUvarint (a @ ?n @ concat (map PutUvarint (deltas 0 ids)) @ r) pos = Some (of_nat (length ids), pos + int (length ?n))"
    using assms(2) by (rule readUvarint_append)
  moreover have "readN readUvarint (length (deltas 0 ids)) ((a @ ?n) @ concat (map PutUvarint (deltas 0 ids)) @ r) (pos + int (length ?n)) =
      Some (map (\<lambda>v. v) (deltas 0 ids), pos + int (length ?n) + int (length (concat (map PutUvarint (deltas 0 ids)))))"
    using assms(2) by (intro uvarint.readN_enc) simp_all
  moreover have "unat (of_nat (length ids) :: u64) = length ids"
    using assms(1) by (rule unat_of_nat_u64)
  ultimately show ?thesis by (simp add: encPosting_def)
qed

text \<open>The binary search over the key table finds the first key that is not smaller.\<close>

lemma posting_search_correct:
  assumes "\<forall>i < length keys. readUint32 d (keysOff + int i * 4) = Some (keys ! i)" and "sorted keys"
    and "lo \<le> hi" and "hi \<le> length keys" and "\<forall>i < lo. keys ! i < tri" and "\<forall>i. hi \<le> i \<and> i < length keys \<longrightarrow> tri \<le> keys ! i"
  shows "\<exists>l. posting_search d keysOff tri lo hi = Some l \<and> l \<le> length keys \<and>
    (\<forall>i < l. keys ! i < tri) \<and> (\<forall>i. l \<le> i \<and> i < length keys \<longrightarrow> tri \<le> keys ! i)"
  using assms(3-6)
proof (induction "hi - lo" arbitrary: lo hi rule: less_induct)
  case less
  show ?case
  proof (cases "lo < hi")
    case False
    with less.prems show ?thesis by (subst posting_search.simps) auto
  next
    case True
    define mid where "mid = lo + (hi - lo) div 2"
    have mid: "lo \<le> mid" "mid < hi" using True by (auto simp: mid_def)
    have rd: "readUint32 d (keysOff + int mid * 4) = Some (keys ! mid)"
      using assms(1) mid less.prems(2) by simp
    show ?thesis
    proof (cases "keys ! mid < tri")
      case lt: True
      have "\<forall>i < mid + 1. keys ! i < tri"
      proof (intro allI impI)
        fix i assume "i < mid + 1"
        then have "keys ! i \<le> keys ! mid" using mid less.prems(2) by (intro sorted_nth_mono [OF assms(2)]) auto
        with lt show "keys ! i < tri" by simp
      qed
      then have "\<exists>l. posting_search d keysOff tri (mid + 1) hi = Some l \<and> l \<le> length keys \<and>
          (\<forall>i < l. keys ! i < tri) \<and> (\<forall>i. l \<le> i \<and> i < length keys \<longrightarrow> tri \<le> keys ! i)"
        using mid less.prems by (intro less.hyps) auto
      then show ?thesis using True lt rd by (subst posting_search.simps) (simp add: mid_def [symmetric])
    next
      case ge: False
      have "\<forall>i. mid \<le> i \<and> i < length keys \<longrightarrow> tri \<le> keys ! i"
        using ge sorted_nth_mono [OF assms(2), of mid] by (meson linorder_not_less order_trans)
      then have "\<exists>l. posting_search d keysOff tri lo mid = Some l \<and> l \<le> length keys \<and>
          (\<forall>i < l. keys ! i < tri) \<and> (\<forall>i. l \<le> i \<and> i < length keys \<longrightarrow> tri \<le> keys ! i)"
        using mid less.prems by (intro less.hyps) auto
      then show ?thesis using True ge rd by (subst posting_search.simps) (simp add: mid_def [symmetric])
    qed
  qed
qed

subsection \<open>Layout of the file\<close>

text \<open>What has to hold for nothing to be truncated by the format's field widths.\<close>

definition file_fits :: "buildFile \<Rightarrow> bool" where
  "file_fits f \<longleftrightarrow> length (bf_path f) < 2 ^ 16 \<and> - (2 ^ 63) \<le> bf_size f \<and> bf_size f < 2 ^ 63 \<and>
     - (2 ^ 63) \<le> bf_mtimeNS f \<and> bf_mtimeNS f < 2 ^ 63 \<and> length (bf_defs f) < 2 ^ 63 \<and> (\<forall>d \<in> set (bf_defs f). def_ok d)"

definition fits :: "Builder \<Rightarrow> bool" where
  "fits b \<longleftrightarrow> length (bd_files b) < 2 ^ 32 \<and> (\<forall>f \<in> set (bd_files b). file_fits f) \<and>
     length (bd_tris b) < 2 ^ 30 \<and> length (pathBlobOf b) < 2 ^ 32 \<and> length (concat (postingParts b)) < 2 ^ 32 \<and>
     length (concat (contentParts b)) < 2 ^ 32 - 1 \<and>
     sum_list (map (\<lambda>f. length (bf_defs f)) (bd_files b)) < 2 ^ 32 \<and> length (shardBytes b) < 2 ^ 63"

lemma length_triKeysOf [simp]: "length (triKeysOf b) = length (bd_tris b)"
  by (simp add: triKeysOf_def)

lemma length_blobOffsets [simp]: "length (blobOffsets n xs) = length xs"
  by (induction xs arbitrary: n) simp_all

lemma blobOffsets_nth: "i < length xs \<Longrightarrow> blobOffsets n xs ! i = of_nat (n + length (concat (take i xs)))"
proof (induction xs arbitrary: n i)
  case (Cons x xs)
  then show ?case by (cases i) simp_all
qed simp

lemma length_contentRefs [simp]: "length (contentRefs n fs) = length fs"
  by (induction fs arbitrary: n) (simp_all split: option.split)

lemma contentRefs_nth:
  "i < length fs \<Longrightarrow> contentRefs n fs ! i =
     (case bf_content (fs ! i) of
        None \<Rightarrow> (noContent, 0)
      | Some c \<Rightarrow> (of_nat (n + length (concat (take i (map (\<lambda>f. case bf_content f of Some c \<Rightarrow> c | None \<Rightarrow> []) fs)))),
                   of_nat (length c)))"
proof (induction fs arbitrary: n i)
  case (Cons f fs)
  then show ?case by (cases i) (auto split: option.splits simp: add.assoc)
qed simp

lemma length_encEntry [simp]: "length (encEntry f po cref) = 32"
  by (simp add: encEntry_def)

lemma length_concat_const: "\<forall>x \<in> set xs. length x = k \<Longrightarrow> length (concat xs) = length xs * k"
  by (induction xs) auto

lemma length_fileTable [simp]: "length (fileTable b) = length (bd_files b)"
  by (simp add: fileTable_def)

lemma fileTable_nth:
  "i < length (bd_files b) \<Longrightarrow> fileTable b ! i =
     encEntry (bd_files b ! i) (blobOffsets 0 (map bf_path (bd_files b)) ! i) (contentRefs 0 (bd_files b) ! i)"
  by (simp add: fileTable_def)

lemma fileTable_entries: "\<forall>x \<in> set (fileTable b). length x = 32"
  by (auto simp: fileTable_def)

lemma length_headerOf [simp]: "length (headerOf b) = 64"
  by (simp add: headerOf_def magic_def str_def)

abbreviation secPaths :: "Builder \<Rightarrow> nat" where "secPaths b \<equiv> 64 + length (bd_files b) * 32"
abbreviation secKeys :: "Builder \<Rightarrow> nat" where "secKeys b \<equiv> secPaths b + length (pathBlobOf b)"
abbreviation secPost :: "Builder \<Rightarrow> nat" where "secPost b \<equiv> secKeys b + length (bd_tris b) * 8"
abbreviation secSyms :: "Builder \<Rightarrow> nat" where "secSyms b \<equiv> secPost b + length (concat (postingParts b))"
abbreviation secContent :: "Builder \<Rightarrow> nat" where "secContent b \<equiv> secSyms b + length (symDataOf b)"

lemma length_tables:
  "length (concat (fileTable b)) = length (bd_files b) * 32"
  "length (concat (map PutUint32 ks)) = length ks * 4"
  using length_concat_const [OF fileTable_entries] length_concat_const [of "map PutUint32 ks" 4] by auto

lemma length_shardBytes: "length (shardBytes b) = secContent b + length (concat (contentParts b))"
  by (simp add: shardBytes_def length_tables postingParts_def del: length_concat)

lemma ucast_of_nat_u64: "n < 2 ^ 32 \<Longrightarrow> (ucast (of_nat n :: u32) :: u64) = of_nat n"
  by (simp add: word_unat_eq_iff unat_of_nat)

lemma offsets_eq:
  assumes "fits b"
  shows "sint (triIdxOffOf b) = int (secKeys b)" "sint (postOffOf b) = int (secPost b)"
    "sint (symOffOf b) = int (secSyms b)"
    "sint (ctOffOf b) = (if length (concat (contentParts b)) > 0 then int (secContent b) else 0)"
proof -
  have sz: "length (bd_files b) < 2 ^ 32" "length (bd_tris b) < 2 ^ 32" "secContent b < 2 ^ 63"
    using assms length_shardBytes [of b] by (auto simp: fits_def)
  have tri: "triIdxOffOf b = of_nat (secKeys b)"
    using sz by (simp add: triIdxOffOf_def numFilesOf_def ucast_of_nat_u64 headerSize_def fileEntryLen_def)
  have post: "postOffOf b = of_nat (secPost b)"
    using sz by (simp add: postOffOf_def tri numTriOf_def ucast_of_nat_u64)
  have sym: "symOffOf b = of_nat (secSyms b)"
    by (simp add: symOffOf_def post del: length_concat)
  have ct: "ctOffOf b = (if length (concat (contentParts b)) > 0 then of_nat (secContent b) else 0)"
    by (simp add: ctOffOf_def sym del: length_concat)
  show "sint (triIdxOffOf b) = int (secKeys b)" unfolding tri using sz(3) by (intro sint_of_nat_u64) linarith
  show "sint (postOffOf b) = int (secPost b)" unfolding post using sz(3) by (intro sint_of_nat_u64) linarith
  show "sint (symOffOf b) = int (secSyms b)" unfolding sym using sz(3) by (intro sint_of_nat_u64) linarith
  show "sint (ctOffOf b) = (if length (concat (contentParts b)) > 0 then int (secContent b) else 0)"
    unfolding ct using sint_of_nat_u64 [OF sz(3)] by (simp del: length_concat)
qed

subsection \<open>Reading a written file\<close>

text \<open>The descriptor that a written shard is expected to load as.\<close>

definition imageOf :: "gostring \<Rightarrow> Builder \<Rightarrow> Shard" where
  "imageOf path b =
     \<lparr>sh_path = path, sh_size = length (shardBytes b),
      sh_pathMin = (if bd_files b = [] then [] else bf_path (hd (bd_files b))),
      sh_pathMax = (if bd_files b = [] then [] else bf_path (List.last (bd_files b))),
      sh_numFiles = numFilesOf b, sh_numTri = numTriOf b, sh_numSyms = numSymsOf b,
      sh_fileTbl = 64, sh_pathBlob = int (secPaths b), sh_triIdx = int (secKeys b), sh_postings = int (secPost b),
      sh_symbolOff = int (secSyms b),
      sh_contentOff = (if length (concat (contentParts b)) > 0 then int (secContent b) else 0),
      sh_triKeys = triKeysOf b, sh_data = shardBytes b, sh_refs = 1\<rparr>"

lemma parseHeader_header:
  assumes "fits b"
  shows "parseHeader path sz (headerOf b @ r) =
    Inr ((imageOf path b)\<lparr>sh_size := sz, sh_pathMin := [], sh_pathMax := [], sh_triKeys := [], sh_data := [], sh_refs := 0\<rparr>)"
proof -
  have len: "length magic = 8" by (simp add: magic_def str_def)
  have "sint (of_nat headerSize :: u64) = 64" using sint_of_nat_u64 [of 64] by (simp add: headerSize_def)
  moreover have "unat (numFilesOf b) = length (bd_files b)" using assms by (simp add: numFilesOf_def fits_def unat_of_nat)
  ultimately show ?thesis
    using offsets_eq [OF assms]
    by (simp add: parseHeader_def headerOf_def len Let_def imageOf_def fileEntryLen_def del: length_concat)
qed

text \<open>The part of the file before entry \<open>i\<close> of the table, and after it.\<close>

lemma shardBytes_entry:
  assumes "i < length (bd_files b)"
  shows "\<exists>a r. shardBytes b = a @ fileTable b ! i @ r \<and> length a = 64 + i * 32"
proof -
  let ?t = "fileTable b"
  have "concat ?t = concat (take i ?t) @ ?t ! i @ concat (drop (Suc i) ?t)"
    using assms by (subst id_take_nth_drop [of i ?t]) simp_all
  moreover have "length (concat (take i ?t)) = i * 32"
    using length_concat_const [of "take i ?t" 32] fileTable_entries [of b] assms by (auto dest: in_set_takeD)
  ultimately show ?thesis
    by (intro exI [of _ "headerOf b @ concat (take i ?t)"] exI) (simp add: shardBytes_def del: length_concat)
qed

lemma read_entry:
  assumes "off = int (length a)"
  shows "readUint32 (a @ encEntry f po cref @ r) off = Some po"
    "readUint16 (a @ encEntry f po cref @ r) (off + 4) = Some (of_nat (length (bf_path f)))"
    "readUint64 (a @ encEntry f po cref @ r) (off + 8) = Some (word_of_int (bf_size f))"
    "readUint64 (a @ encEntry f po cref @ r) (off + 16) = Some (word_of_int (bf_mtimeNS f))"
    "readUint32 (a @ encEntry f po cref @ r) (off + 24) = Some (fst cref)"
    "readUint32 (a @ encEntry f po cref @ r) (off + 28) = Some (snd cref)"
  using sliceFrom_into [of _ "encEntry f po cref @ r" a]
  by (simp_all add: assms readUint16_def readUint32_def readUint64_def sliceFrom_append)
    (simp_all add: encEntry_def)

lemma entry_reads:
  assumes "i < length (bd_files b)" and "off = 64 + int i * 32"
  defines "f \<equiv> bd_files b ! i" and "cref \<equiv> contentRefs 0 (bd_files b) ! i"
  shows "readUint32 (shardBytes b) off = Some (blobOffsets 0 (map bf_path (bd_files b)) ! i)"
    "readUint16 (shardBytes b) (off + 4) = Some (of_nat (length (bf_path f)))"
    "readUint64 (shardBytes b) (off + 8) = Some (word_of_int (bf_size f))"
    "readUint64 (shardBytes b) (off + 16) = Some (word_of_int (bf_mtimeNS f))"
    "readUint32 (shardBytes b) (off + 24) = Some (fst cref)"
    "readUint32 (shardBytes b) (off + 28) = Some (snd cref)"
proof -
  obtain a r where e: "shardBytes b = a @ fileTable b ! i @ r" "length a = 64 + i * 32"
    using shardBytes_entry [OF assms(1)] by blast
  have "off = int (length a)" using e(2) assms(2) by simp
  note rd = read_entry [OF this]
  show "readUint32 (shardBytes b) off = Some (blobOffsets 0 (map bf_path (bd_files b)) ! i)"
    "readUint16 (shardBytes b) (off + 4) = Some (of_nat (length (bf_path f)))"
    "readUint64 (shardBytes b) (off + 8) = Some (word_of_int (bf_size f))"
    "readUint64 (shardBytes b) (off + 16) = Some (word_of_int (bf_mtimeNS f))"
    "readUint32 (shardBytes b) (off + 24) = Some (fst cref)"
    "readUint32 (shardBytes b) (off + 28) = Some (snd cref)"
    unfolding e(1) fileTable_nth [OF assms(1)] f_def cref_def by (rule rd)+
qed

lemma concat_nth_split:
  assumes "i < length xs"
  shows "concat xs = concat (take i xs) @ xs ! i @ concat (drop (Suc i) xs)"
  using assms by (subst id_take_nth_drop [of i xs]) simp_all

lemma length_concat_take_le: "length (concat (take i xs)) \<le> length (concat xs)"
  by (metis append_take_drop_id concat_append le_add1 length_append)

text \<open>A part of a section, read through its offset in the section.\<close>

lemma sliceRange_part:
  assumes "d = a @ concat xs @ r" and "i < length xs" and "base = int (length a)"
    and "off = length (concat (take i xs))" and "n = length (xs ! i)"
  shows "sliceRange d (base + int off) (base + int off + int n) = Some (xs ! i)"
proof -
  have "d = (a @ concat (take i xs)) @ xs ! i @ concat (drop (Suc i) xs) @ r"
    using assms(1) concat_nth_split [OF assms(2)] by simp
  then show ?thesis
    by (simp only: sliceRange_append assms(3-5) length_append of_nat_add)
qed

definition readable :: "Shard \<Rightarrow> Builder \<Rightarrow> bool" where
  "readable s b \<longleftrightarrow> sh_data s = shardBytes b \<and> sh_fileTbl s = 64 \<and> sh_pathBlob s = int (secPaths b)"

lemma FileAt_written:
  assumes "fits b" and "readable s b" and "i < length (bd_files b)"
  shows "FileAt s i = Some \<lparr>fm_Path = bf_path (bd_files b ! i), fm_Size = bf_size (bd_files b ! i),
    fm_MtimeNS = bf_mtimeNS (bd_files b ! i)\<rparr>"
proof -
  let ?f = "bd_files b ! i" and ?ps = "map bf_path (bd_files b)"
  let ?off = "length (concat (take i ?ps))"
  have f: "file_fits ?f" using assms(1,3) by (simp add: fits_def)
  have "?off \<le> length (pathBlobOf b)"
    unfolding pathBlobOf_def by (rule length_concat_take_le)
  then have "?off < 2 ^ 32" using assms(1) by (simp add: fits_def del: length_concat)
  then have po: "unat (blobOffsets 0 ?ps ! i) = ?off"
    using blobOffsets_nth [of i ?ps 0] assms(3) by (simp add: unat_of_nat del: length_concat)
  have plen: "unat (of_nat (length (bf_path ?f)) :: u16) = length (bf_path ?f)"
    using f by (simp add: file_fits_def unat_of_nat)
  have "sliceRange (shardBytes b) (int (secPaths b) + int ?off) (int (secPaths b) + int ?off + int (length (bf_path ?f))) = Some (?ps ! i)"
  proof (rule sliceRange_part)
    show "shardBytes b = (headerOf b @ concat (fileTable b)) @ concat ?ps @
        (concat (map PutUint32 (triKeysOf b)) @ concat (map PutUint32 (blobOffsets 0 (postingParts b))) @
         concat (postingParts b) @ symDataOf b @ concat (contentParts b))"
      by (simp add: shardBytes_def pathBlobOf_def)
  qed (use assms(3) length_tables(1) [of b] in simp_all)
  then show ?thesis
    using f assms(2,3) entry_reads [OF assms(3) refl]
    by (simp add: FileAt_def readable_def Let_def fileEntryLen_def po plen sint_of_int_u64 file_fits_def del: length_concat)
qed

lemma of_nat_u32_0: "n < 2 ^ 32 \<Longrightarrow> (of_nat n :: u32) = 0 \<longleftrightarrow> n = 0"
  by (simp add: word_unat_eq_iff unat_of_nat)

lemma FileContentAt_written:
  assumes "fits b" and "i < length (bd_files b)"
  shows "FileContentAt (imageOf path b) i =
    Some (case bf_content (bd_files b ! i) of None \<Rightarrow> None | Some c \<Rightarrow> if c = [] then None else Some c)"
proof -
  let ?f = "bd_files b ! i" and ?cs = "contentParts b"
  let ?off = "length (concat (take i ?cs))"
  have len: "i < length ?cs" using assms(2) by (simp add: contentParts_def)
  have split: "concat ?cs = concat (take i ?cs) @ ?cs ! i @ concat (drop (Suc i) ?cs)"
    by (rule concat_nth_split [OF len])
  have nth: "?cs ! i = (case bf_content ?f of Some c \<Rightarrow> c | None \<Rightarrow> [])"
    using assms(2) by (simp add: contentParts_def)
  have total: "?off + length (?cs ! i) < 2 ^ 32 - 1"
    using assms(1) arg_cong [OF split, of length] by (simp add: fits_def del: length_concat)
  show ?thesis
  proof (cases "concat ?cs = []")
    case True
    then have "?cs ! i = []" using split by simp
    then show ?thesis using True nth by (auto simp: FileContentAt_def imageOf_def split: option.splits)
  next
    case False
    have rd: "readUint32 (shardBytes b) (64 + int i * 32 + 24) = Some (fst (contentRefs 0 (bd_files b) ! i))"
      "readUint32 (shardBytes b) (64 + int i * 32 + 28) = Some (snd (contentRefs 0 (bd_files b) ! i))"
      using entry_reads(5,6) [OF assms(2) refl] by simp_all
    have off: "sh_contentOff (imageOf path b) = int (secContent b)"
      using False by (simp add: imageOf_def del: length_concat concat_eq_Nil_conv)
    show ?thesis
    proof (cases "bf_content ?f")
      case None
      then have "contentRefs 0 (bd_files b) ! i = (noContent, 0)"
        using contentRefs_nth [OF assms(2), of 0] by simp
      with None rd off show ?thesis
        by (simp add: FileContentAt_def Let_def fileEntryLen_def imageOf_def del: length_concat)
    next
      case (Some c)
      then have ref: "contentRefs 0 (bd_files b) ! i = (of_nat ?off, of_nat (length c))"
        using contentRefs_nth [OF assms(2), of 0] by (simp add: contentParts_def del: length_concat)
      have un: "unat (of_nat ?off :: u32) = ?off" "unat (of_nat (length c) :: u32) = length c"
        using total Some nth by (simp_all add: unat_of_nat del: length_concat)
      have ne: "(of_nat ?off :: u32) \<noteq> noContent"
        using un(1) total by (auto simp: noContent_def word_unat_eq_iff simp del: length_concat)
      have zero: "(of_nat (length c) :: u32) = 0 \<longleftrightarrow> c = []"
        using total Some nth by (subst of_nat_u32_0) simp_all
      have "sliceRange (shardBytes b) (int (secContent b) + int ?off) (int (secContent b) + int ?off + int (length c)) = Some (?cs ! i)"
      proof (rule sliceRange_part [OF _ len])
        show "shardBytes b = (headerOf b @ concat (fileTable b) @ pathBlobOf b @
            concat (map PutUint32 (triKeysOf b)) @ concat (map PutUint32 (blobOffsets 0 (postingParts b))) @
            concat (postingParts b) @ symDataOf b) @ concat ?cs @ []"
          by (simp add: shardBytes_def)
      qed (use Some nth in \<open>simp_all add: length_tables postingParts_def del: length_concat\<close>)
      with Some rd off ref ne zero un nth show ?thesis
        by (simp add: FileContentAt_def Let_def fileEntryLen_def imageOf_def del: length_concat)
    qed
  qed
qed

lemma ShardFileDefs_written:
  assumes "fits b" and "i < length (bd_files b)"
  shows "ShardFileDefs (imageOf path b) i = Some (bf_defs (bd_files b ! i))"
proof (cases "numSymsOf b = 0")
  case True
  let ?n = "sum_list (map (\<lambda>f. length (bf_defs f)) (bd_files b))"
  have "?n < 2 ^ 32" using assms(1) by (simp add: fits_def)
  then have "?n = 0" using True unfolding numSymsOf_def by (subst (asm) of_nat_u32_0)
  then have "bf_defs (bd_files b ! i) = []" using assms(2) by (simp add: sum_list_eq_0_iff)
  with True show ?thesis by (simp add: ShardFileDefs_def imageOf_def)
next
  case False
  let ?dss = "map bf_defs (bd_files b)"
  let ?pre = "headerOf b @ concat (fileTable b) @ pathBlobOf b @
    concat (map PutUint32 (triKeysOf b)) @ concat (map PutUint32 (blobOffsets 0 (postingParts b))) @ concat (postingParts b)"
  have "fileDefs_loop (?pre @ concat (map encDefs ?dss) @ concat (contentParts b)) i (int (secSyms b)) = Some (?dss ! i)"
  proof (rule fileDefs_loop_enc)
    show "\<forall>ds \<in> set ?dss. length ds < 2 ^ 63 \<and> (\<forall>d \<in> set ds. def_ok d)"
      using assms(1) by (auto simp: fits_def file_fits_def)
    show "int (secSyms b) = int (length ?pre)"
      by (simp add: length_tables postingParts_def del: length_concat)
  qed (use assms(2) in simp)
  then show ?thesis
    using False assms(2) by (simp add: ShardFileDefs_def imageOf_def shardBytes_def symDataOf_def comp_def)
qed

lemma keys_read:
  assumes "fits b" and "i < length (bd_tris b)"
  shows "readUint32 (shardBytes b) (int (secKeys b) + int i * 4) = Some (triKeysOf b ! i)"
proof -
  have pre: "length (concat (map PutUint32 (take i ks))) = i * 4" if "i \<le> length ks" for ks
    using that by (simp add: length_tables(2) del: length_concat)
  have "map_option (\<lambda>v. (v, int (secKeys b) + int i * 4 + 4)) (readUint32
      ((headerOf b @ concat (fileTable b) @ pathBlobOf b) @ concat (map PutUint32 (triKeysOf b)) @
       (concat (map PutUint32 (blobOffsets 0 (postingParts b))) @ concat (postingParts b) @ symDataOf b @ concat (contentParts b)))
      (int (secKeys b) + int i * 4)) =
    Some (triKeysOf b ! i, int (secKeys b) + int i * 4 + int (length (PutUint32 (triKeysOf b ! i))))"
    by (rule uint32.rd_nth) (use assms(2) pre [of "triKeysOf b"] in \<open>simp_all add: length_tables del: length_concat\<close>)
  then show ?thesis by (auto simp: shardBytes_def)
qed

lemma post_offsets_read:
  assumes "fits b" and "i < length (bd_tris b)"
  shows "readUint32 (shardBytes b) (int (secKeys b) + int (length (bd_tris b)) * 4 + int i * 4) =
    Some (of_nat (length (concat (take i (postingParts b)))))"
proof -
  let ?os = "blobOffsets 0 (postingParts b)"
  have len: "length (postingParts b) = length (bd_tris b)" by (simp add: postingParts_def)
  have pre: "length (concat (map PutUint32 (take i ?os))) = i * 4"
    using assms(2) len by (simp add: length_tables(2) del: length_concat)
  let ?pos = "int (secKeys b) + int (length (bd_tris b)) * 4 + int i * 4"
  have "map_option (\<lambda>v. (v, ?pos + 4)) (readUint32
      ((headerOf b @ concat (fileTable b) @ pathBlobOf b @ concat (map PutUint32 (triKeysOf b))) @ concat (map PutUint32 ?os) @
       (concat (postingParts b) @ symDataOf b @ concat (contentParts b))) ?pos) =
    Some (?os ! i, ?pos + int (length (PutUint32 (?os ! i))))"
    by (rule uint32.rd_nth) (use assms(2) pre len in \<open>simp_all add: length_tables del: length_concat\<close>)
  moreover have "?os ! i = of_nat (length (concat (take i (postingParts b))))"
    using blobOffsets_nth [of i "postingParts b" 0] assms(2) len by simp
  ultimately show ?thesis by (auto simp: shardBytes_def simp del: length_concat)
qed

lemma length_encPosting: "length ids < length (encPosting ids)"
proof -
  have le: "length xs \<le> length (concat (map PutUvarint xs))" for xs
  proof (induction xs)
    case (Cons x xs)
    have "length (PutUvarint x) \<ge> 1" using length_PutUvarint_pos [of x] by linarith
    with Cons show ?case by (simp del: length_concat length_PutUvarint_pos length_greater_0_conv)
  qed simp
  show ?thesis
    using le [of "deltas 0 ids"] length_PutUvarint_pos [of "of_nat (length ids)"]
    unfolding encPosting_def length_append length_deltas by linarith
qed

lemma posting_at:
  assumes "fits b" and "i < length (bd_tris b)"
  defines "d \<equiv> shardBytes b" and "ids \<equiv> sort (the (map_of (bd_tris b) (triKeysOf b ! i)))"
  shows "Option.bind (readUvarint d (int (length (concat (take i (postingParts b)))) + int (secPost b))) (\<lambda>(numDocs, pos).
    map_option (\<lambda>(ds, _). Some (undelta 0 ds)) (readN readUvarint (unat numDocs) d pos)) = Some (Some ids)"
proof -
  let ?ps = "postingParts b"
  have len: "i < length ?ps" using assms(2) by (simp add: postingParts_def)
  have nth: "?ps ! i = encPosting ids" using assms(2) by (simp add: postingParts_def ids_def)
  let ?pre = "headerOf b @ concat (fileTable b) @ pathBlobOf b @
    concat (map PutUint32 (triKeysOf b)) @ concat (map PutUint32 (blobOffsets 0 ?ps)) @ concat (take i ?ps)"
  have d: "d = ?pre @ encPosting ids @ concat (drop (Suc i) ?ps) @ symDataOf b @ concat (contentParts b)"
    using concat_nth_split [OF len] nth by (simp add: d_def shardBytes_def)
  have "length (encPosting ids) \<le> length (concat ?ps)"
    using arg_cong [OF concat_nth_split [OF len], of length] nth by (simp del: length_concat)
  then have "length ids < 2 ^ 63"
    using length_encPosting [of ids] assms(1) by (simp add: fits_def del: length_concat)
  moreover have "int (length (concat (take i ?ps))) + int (secPost b) = int (length ?pre)"
    using len by (simp add: length_tables postingParts_def del: length_concat)
  ultimately show ?thesis unfolding d by (rule readPosting_enc)
qed

lemma posting_written:
  assumes "fits b" and "distinct (map fst (bd_tris b))"
  shows "posting (imageOf path b) k = Some (map_option sort (map_of (bd_tris b) k))"
proof -
  let ?keys = "triKeysOf b" and ?d = "shardBytes b" and ?n = "length (bd_tris b)"
  have keys: "sorted ?keys" "set ?keys = fst ` set (bd_tris b)" by (simp_all add: triKeysOf_def)
  have n: "unat (numTriOf b) = ?n" using assms(1) by (simp add: fits_def numTriOf_def unat_of_nat)
  have "\<exists>l. posting_search ?d (int (secKeys b)) k 0 ?n = Some l \<and> l \<le> length ?keys \<and>
    (\<forall>i < l. ?keys ! i < k) \<and> (\<forall>i. l \<le> i \<and> i < length ?keys \<longrightarrow> k \<le> ?keys ! i)"
    by (rule posting_search_correct) (use keys_read [OF assms(1)] keys(1) in auto)
  then obtain l where l: "posting_search ?d (int (secKeys b)) k 0 ?n = Some l" "l \<le> ?n"
    "\<forall>i < l. ?keys ! i < k" "\<forall>i. l \<le> i \<and> i < ?n \<longrightarrow> k \<le> ?keys ! i"
    by auto
  have absent: "map_of (bd_tris b) k = None" if "l \<ge> ?n \<or> ?keys ! l \<noteq> k"
  proof (rule ccontr)
    assume "map_of (bd_tris b) k \<noteq> None"
    then have "k \<in> set ?keys" by (auto simp: keys(2) map_of_eq_None_iff)
    then obtain j where j: "j < ?n" "?keys ! j = k" by (auto simp: in_set_conv_nth)
    then have "l \<le> j" using l(3) by (meson linorder_not_less order_less_irrefl)
    with that j l(4) have "?keys ! l \<noteq> k" "k \<le> ?keys ! l" by auto
    then show False using sorted_nth_mono [OF keys(1) \<open>l \<le> j\<close>] j by simp
  qed
  show ?thesis
  proof (cases "l \<ge> ?n \<or> ?keys ! l \<noteq> k")
    case True
    then show ?thesis
      using l absent keys_read [OF assms(1), of l] by (auto simp: posting_def imageOf_def Let_def n)
  next
    case False
    then have here: "l < ?n" "?keys ! l = k" by auto
    then have "k \<in> set ?keys" by (metis length_triKeysOf nth_mem)
    then obtain ids where ids: "map_of (bd_tris b) k = Some ids"
      using keys(2) by (metis map_of_eq_None_iff not_None_eq)
    have "length (concat (take l (postingParts b))) < 2 ^ 32"
      using assms(1) length_concat_take_le [of l "postingParts b"] by (simp add: fits_def del: length_concat)
    then have "unat (of_nat (length (concat (take l (postingParts b)))) :: u32) = length (concat (take l (postingParts b)))"
      by (simp add: unat_of_nat del: length_concat)
    from arg_cong [OF this, of int]
    have "uint (of_nat (length (concat (take l (postingParts b)))) :: u32) = int (length (concat (take l (postingParts b))))"
      by (simp del: length_concat)
    with here ids l(1) keys_read [OF assms(1) here(1)] post_offsets_read [OF assms(1) here(1)] posting_at [OF assms(1) here(1)]
    show ?thesis by (simp add: posting_def imageOf_def Let_def n del: length_concat)
  qed
qed

subsection \<open>Load and Open\<close>

lemma keysFrom_eq:
  "\<forall>i \<in> set is. readUint32 buf (int i * 4) = Some (keys ! i) \<Longrightarrow> keysFrom buf is = Some (map ((!) keys) is)"
  by (induction "is") auto

lemma readUint32_drop:
  "k \<le> length d \<Longrightarrow> readUint32 (drop k d) (int i * 4) = (if k + i * 4 \<le> length d then readUint32 d (int k + int i * 4) else None)"
  by (auto simp: readUint32_def sliceFrom_def nat_add_distrib add.commute nat_mult_distrib)

lemma secKeys_le: "secKeys b \<le> length (shardBytes b)"
  by (simp add: length_shardBytes)

lemma readUint32_in_range: "readUint32 d off = Some v \<Longrightarrow> off + 4 \<le> int (length d)"
proof -
  assume "readUint32 d off = Some v"
  then have "0 \<le> off" "off \<le> int (length d)" "Uint32 (drop (nat off) d) = Some v"
    by (auto simp: readUint32_def sliceFrom_def bind_eq_Some_conv split: if_splits)
  moreover from this(3) have "4 \<le> length (drop (nat off) d)"
    by (cases "drop (nat off) d" rule: Uint32.cases) simp_all
  ultimately show ?thesis by simp
qed

lemma keysFrom_written:
  assumes "fits b"
  shows "keysFrom (drop (secKeys b) (shardBytes b)) [0..<length (bd_tris b)] = Some (triKeysOf b)"
proof -
  have "readUint32 (drop (secKeys b) (shardBytes b)) (int i * 4) = Some (triKeysOf b ! i)" if "i < length (bd_tris b)" for i
    using keys_read [OF assms that] readUint32_in_range [OF keys_read [OF assms that]] secKeys_le [of b]
    by (simp add: readUint32_drop)
  then have "keysFrom (drop (secKeys b) (shardBytes b)) [0..<length (bd_tris b)] =
      Some (map ((!) (triKeysOf b)) [0..<length (triKeysOf b)])"
    by (subst keysFrom_eq) auto
  then show ?thesis by (simp only: map_nth)
qed

lemma Load_written:
  assumes "fits b" and "fs path = Some (shardBytes b)"
  shows "Load fs path = Some (Inr (imageOf path b))"
proof -
  have hdr: "shardBytes b = headerOf b @ drop 64 (shardBytes b)"
    by (simp add: shardBytes_def)
  define s0 where "s0 = (imageOf path b)\<lparr>sh_pathMin := [], sh_pathMax := [], sh_triKeys := []\<rparr>"
  have parse: "parseHeader path (length (shardBytes b)) (shardBytes b) = Inr (s0\<lparr>sh_data := [], sh_refs := 0\<rparr>)"
    using parseHeader_header [OF assms(1), of path "length (shardBytes b)" "drop 64 (shardBytes b)"]
    unfolding hdr [symmetric] by (simp add: s0_def imageOf_def)
  have n: "unat (numFilesOf b) = length (bd_files b)" "unat (numTriOf b) = length (bd_tris b)"
    using assms(1) by (simp_all add: fits_def numFilesOf_def numTriOf_def unat_of_nat)
  have rd: "readable s0 b" by (simp add: readable_def s0_def imageOf_def)
  have files: "FileAt s0 0 = Some \<lparr>fm_Path = bf_path (hd (bd_files b)), fm_Size = bf_size (hd (bd_files b)), fm_MtimeNS = bf_mtimeNS (hd (bd_files b))\<rparr>"
    "FileAt s0 (length (bd_files b) - 1) = Some \<lparr>fm_Path = bf_path (List.last (bd_files b)),
       fm_Size = bf_size (List.last (bd_files b)), fm_MtimeNS = bf_mtimeNS (List.last (bd_files b))\<rparr>" if "bd_files b \<noteq> []"
    using that FileAt_written [OF assms(1) rd] by (simp_all add: hd_conv_nth last_conv_nth)
  have keys: "sliceFrom (shardBytes b) (int (secKeys b)) = Some (drop (secKeys b) (shardBytes b))"
    using secKeys_le [of b] by (simp add: sliceFrom_def nat_add_distrib nat_mult_distrib)
  have notri: "triKeysOf b = []" if "\<not> 0 < numTriOf b"
    using that n(2) by (metis length_0_conv length_triKeysOf unat_0 word_gt_0)
  have "length (shardBytes b) \<ge> headerSize" by (simp add: headerSize_def length_shardBytes)
  with assms(2) parse n files keys keysFrom_written [OF assms(1)] notri show ?thesis
    by (cases "bd_files b = []"; cases "0 < numTriOf b")
      (simp_all add: Load_def Let_def s0_def imageOf_def numFilesOf_def)
qed

lemma ReadAt_sliceRange: "0 \<le> off \<Longrightarrow> sliceRange d off (off + int n) = Some x \<Longrightarrow> ReadAt d off n = Some x"
  by (auto simp: ReadAt_def sliceRange_def slice_def nat_add_distrib split: if_splits)

lemma ReadAt_append: "off = int (length a) \<Longrightarrow> n = length x \<Longrightarrow> ReadAt (a @ x @ r) off n = Some x"
  by (rule ReadAt_sliceRange) (simp_all add: sliceRange_append)

lemma readPathAt_written:
  assumes "fits b" and "i < length (bd_files b)" and "sh_fileTbl s = 64" and "sh_pathBlob s = int (secPaths b)"
  shows "readPathAt s (shardBytes b) i = Some (bf_path (bd_files b ! i))"
proof -
  let ?f = "bd_files b ! i" and ?ps = "map bf_path (bd_files b)"
  let ?off = "length (concat (take i ?ps))" and ?cref = "contentRefs 0 (bd_files b) ! i"
  have plen: "unat (of_nat (length (bf_path ?f)) :: u16) = length (bf_path ?f)"
    using assms(1,2) by (simp add: fits_def file_fits_def unat_of_nat)
  have "?off \<le> length (pathBlobOf b)" unfolding pathBlobOf_def by (rule length_concat_take_le)
  then have po: "unat (blobOffsets 0 ?ps ! i) = ?off"
    using blobOffsets_nth [of i ?ps 0] assms(1,2) by (simp add: fits_def unat_of_nat del: length_concat)
  obtain a r where e: "shardBytes b = a @ fileTable b ! i @ r" "length a = 64 + i * 32"
    using shardBytes_entry [OF assms(2)] by blast
  let ?ent = "PutUint32 (blobOffsets 0 ?ps ! i) @ PutUint16 (of_nat (length (bf_path ?f)))"
  have "ReadAt (shardBytes b) (64 + int i * 32) 6 = Some ?ent"
    using ReadAt_append [of "64 + int i * 32" a 6 ?ent] e
    by (simp add: fileTable_nth [OF assms(2)] encEntry_def)
  moreover have "Uint32 ?ent = Some (blobOffsets 0 ?ps ! i)" by simp
  moreover have "Uint16 (drop 4 ?ent) = Some (of_nat (length (bf_path ?f)))"
    using Uint16_Put [of "of_nat (length (bf_path ?f))" "[]"] by simp
  moreover have "sliceRange (shardBytes b) (int (secPaths b) + int ?off) (int (secPaths b) + int ?off + int (length (bf_path ?f))) = Some (?ps ! i)"
  proof (rule sliceRange_part)
    show "shardBytes b = (headerOf b @ concat (fileTable b)) @ concat ?ps @
        (concat (map PutUint32 (triKeysOf b)) @ concat (map PutUint32 (blobOffsets 0 (postingParts b))) @
         concat (postingParts b) @ symDataOf b @ concat (contentParts b))"
      by (simp add: shardBytes_def pathBlobOf_def)
  qed (use assms(2) length_tables(1) [of b] in simp_all)
  then have "ReadAt (shardBytes b) (int (secPaths b) + int ?off) (length (bf_path ?f)) = Some (bf_path ?f)"
    using assms(2) by (intro ReadAt_sliceRange) simp_all
  ultimately show ?thesis
    using assms(3,4) po plen by (simp add: readPathAt_def fileEntryLen_def del: length_concat)
qed

lemma Open_written:
  assumes "fits b" and "fs path = Some (shardBytes b)"
  shows "Open fs path = Some (Inr ((imageOf path b)\<lparr>sh_data := [], sh_refs := 0\<rparr>))"
proof -
  define s0 where "s0 = (imageOf path b)\<lparr>sh_pathMin := [], sh_pathMax := [], sh_triKeys := [], sh_data := [], sh_refs := 0\<rparr>"
  have "take 64 (shardBytes b) = headerOf b @ []" by (simp add: shardBytes_def)
  then have parse: "parseHeader path (length (shardBytes b)) (take headerSize (shardBytes b)) = Inr s0"
    using parseHeader_header [OF assms(1), of path "length (shardBytes b)" "[]"] by (simp add: headerSize_def s0_def imageOf_def)
  have n: "unat (numFilesOf b) = length (bd_files b)" "unat (numTriOf b) = length (bd_tris b)"
    "unat (numTriOf b * 4) = length (bd_tris b) * 4"
    using assms(1) by (simp_all add: fits_def numFilesOf_def numTriOf_def unat_of_nat unat_word_ariths)
  have paths: "readPathAt s0 (shardBytes b) 0 = Some (bf_path (hd (bd_files b)))"
    "readPathAt s0 (shardBytes b) (length (bd_files b) - 1) = Some (bf_path (List.last (bd_files b)))" if "bd_files b \<noteq> []"
    using that readPathAt_written [OF assms(1), of _ s0]
    by (simp_all add: hd_conv_nth last_conv_nth s0_def imageOf_def)
  let ?ks = "concat (map PutUint32 (triKeysOf b))"
  have buf: "ReadAt (shardBytes b) (int (secKeys b)) (length (bd_tris b) * 4) = Some ?ks"
    using ReadAt_append [of "int (secKeys b)" "headerOf b @ concat (fileTable b) @ pathBlobOf b" _ ?ks]
    by (simp add: shardBytes_def length_tables del: length_concat)
  have "readUint32 ?ks (int i * 4) = Some (triKeysOf b ! i)" if "i < length (bd_tris b)" for i
    using that uint32.rd_nth [of "triKeysOf b" i "int i * 4" "[]" "[]"]
    by (auto simp: length_tables simp del: length_concat)
  then have "keysFrom ?ks [0..<length (bd_tris b)] = Some (map ((!) (triKeysOf b)) [0..<length (triKeysOf b)])"
    by (subst keysFrom_eq) auto
  then have keys: "keysFrom ?ks [0..<length (bd_tris b)] = Some (triKeysOf b)" by (simp only: map_nth)
  have notri: "triKeysOf b = []" if "\<not> 0 < numTriOf b"
    using that n(2) by (metis length_0_conv length_triKeysOf unat_0 word_gt_0)
  have "length (shardBytes b) \<ge> headerSize" by (simp add: headerSize_def length_shardBytes)
  with assms(2) parse n paths buf keys notri show ?thesis
    by (cases "bd_files b = []"; cases "0 < numTriOf b")
      (simp_all add: Open_def Let_def s0_def imageOf_def del: length_concat)
qed

subsection \<open>Candidates of a written shard\<close>

lemma candidates_loop_written:
  assumes "fits b" and "distinct (map fst (bd_tris b))" and "sorted res"
  shows "\<exists>ids. candidates_loop (imageOf path b) ks res = Some ids \<and>
    set ids = set res \<inter> {i. \<forall>k \<in> set ks. i \<in> set (case map_of (bd_tris b) k of None \<Rightarrow> [] | Some l \<Rightarrow> l)}"
  using assms(3)
proof (induction ks arbitrary: res)
  case (Cons k ks)
  show ?case
  proof (cases "map_of (bd_tris b) k")
    case None
    then show ?thesis by (simp add: posting_written [OF assms(1,2)])
  next
    case (Some l)
    let ?r = "intersectSorted res (sort l)"
    have r: "set ?r = set res \<inter> set l" "sorted ?r"
      using Cons.prems by (simp_all add: set_intersectSorted sorted_intersectSorted)
    show ?thesis
    proof (cases "?r = []")
      case True
      with r(1) Some show ?thesis by (simp add: posting_written [OF assms(1,2)] Let_def) blast
    next
      case False
      with Cons.IH [OF r(2)] Some r(1) show ?thesis
        by (fastforce simp: posting_written [OF assms(1,2)] Let_def)
    qed
  qed
qed simp

lemma Candidates_written:
  assumes fit: "fits (Build kb docs)"
  shows "\<exists>ids. Candidates (imageOf path (Build kb docs)) lit = Some ids \<and>
    set ids = {i. unat i < length docs \<and> keys_of lit \<subseteq> keys_of (doc_content (docs ! unat i))}"
proof -
  let ?b = "Build kb docs" and ?cs = "map doc_content docs"
  have b: "length (bd_files ?b) = length docs" "distinct (map fst (bd_tris ?b))" "map_of (bd_tris ?b) = tri_of ?cs"
    using Build_props [of kb docs] by simp_all
  have len: "length docs < 2 ^ 32" using fit b(1) by (simp add: fits_def)
  then have len': "length ?cs \<le> 2 ^ 32" by simp
  show ?thesis
  proof (cases "length lit < 3")
    case True
    have "set (map of_nat [0..<length docs]) = {i :: u32. unat i < length docs}"
      using len by (force simp: image_iff unat_of_nat intro: exI [of _ "unat _"])
    with True b(1) len show ?thesis
      by (auto simp: Candidates_def imageOf_def numFilesOf_def unat_of_nat)
  next
    case False
    then obtain k ks where ks: "trigramsOfLit lit = k # ks"
      using trigramsOfLit_nonempty [of lit] trigramsOfLit_set [of lit] by (cases "trigramsOfLit lit") auto
    have set_ks: "keys_of lit = insert k (set ks)" using trigramsOfLit_set [of lit] ks by simp
    let ?P = "\<lambda>k. set (case tri_of ?cs k of None \<Rightarrow> [] | Some l \<Rightarrow> l)"
    have P: "?P k = {i. unat i < length docs \<and> k \<in> keys_of (doc_content (docs ! unat i))}" for k
    proof -
      have "?P k = set (postings ?cs k)" by (simp add: tri_of_def)
      then show ?thesis using set_postings [OF len', of k] by auto
    qed
    show ?thesis
    proof (cases "tri_of ?cs k")
      case None
      then have "{i :: u32. unat i < length docs \<and> k \<in> keys_of (doc_content (docs ! unat i))} = {}" using P [of k] by simp
      with None False ks set_ks b show ?thesis
        by (auto simp: Candidates_def posting_written [OF fit b(2)])
    next
      case (Some l)
      obtain ids where ids: "candidates_loop (imageOf path ?b) ks (sort l) = Some ids"
        "set ids = set (sort l) \<inter> {i. \<forall>k \<in> set ks. i \<in> ?P k}"
        using candidates_loop_written [OF fit b(2), of "sort l" path ks] by (auto simp: b(3))
      have l: "set l = {i. unat i < length docs \<and> k \<in> keys_of (doc_content (docs ! unat i))}"
        using P [of k] Some by simp
      have "set ids = {i. unat i < length docs \<and> keys_of lit \<subseteq> keys_of (doc_content (docs ! unat i))}"
        using ids(2) unfolding set_ks P set_sort l by auto
      with ids(1) False ks Some b(3) show ?thesis
        by (simp add: Candidates_def posting_written [OF fit b(2)])
    qed
  qed
qed

lemma candidates_loop_sorted:
  "candidates_loop s ks res = Some ids \<Longrightarrow> sorted_wrt (<) res \<Longrightarrow> sorted_wrt (<) ids"
proof (induction ks arbitrary: res)
  case (Cons k ks)
  then show ?case
    using strict_sorted_intersectSorted [OF Cons.prems(2)]
    by (auto simp: Let_def split: option.splits bind_splits if_splits)
qed simp

lemma strict_sorted_ids: "n \<le> 2 ^ 32 \<Longrightarrow> sorted_wrt (<) (map of_nat (filter P [0..<n]) :: u32 list)"
  unfolding sorted_wrt_map
  by (rule sorted_wrt_mono_rel [OF _ sorted_wrt_filter [OF sorted_wrt_upt]]) (auto simp: word_less_nat_alt unat_of_nat)

text \<open>The candidates come in increasing order, so the list is determined.\<close>

lemma Candidates_list:
  assumes fit: "fits (Build kb docs)"
  shows "Candidates (imageOf path (Build kb docs)) lit =
    Some (map of_nat (filter (\<lambda>i. keys_of lit \<subseteq> keys_of (doc_content (docs ! i))) [0..<length docs]))"
proof -
  let ?b = "Build kb docs" and ?cs = "map doc_content docs"
  have b: "length (bd_files ?b) = length docs" "distinct (map fst (bd_tris ?b))" "map_of (bd_tris ?b) = tri_of ?cs"
    using Build_props [of kb docs] by simp_all
  have len: "length docs < 2 ^ 32" using fit b(1) by (simp add: fits_def)
  then have len': "length ?cs \<le> 2 ^ 32" by simp
  obtain ids where ids: "Candidates (imageOf path ?b) lit = Some ids"
    "set ids = {i. unat i < length docs \<and> keys_of lit \<subseteq> keys_of (doc_content (docs ! unat i))}"
    using Candidates_written [OF fit] by blast
  have "sorted_wrt (<) ids"
  proof (cases "length lit < 3")
    case True
    with ids(1) b(1) len have "ids = map of_nat (filter (\<lambda>_. True) [0..<length docs])"
      by (simp add: Candidates_def imageOf_def numFilesOf_def unat_of_nat)
    then show ?thesis using strict_sorted_ids len by (metis less_imp_le)
  next
    case False
    have post: "posting (imageOf path ?b) k = Some p \<Longrightarrow> p = Some l \<Longrightarrow> sorted_wrt (<) l" for k p l
      using sort_posting [OF len', of k] strict_sorted_postings [OF len', of k]
      by (auto simp: posting_written [OF fit b(2)] b(3))
    from ids(1) False show ?thesis
      by (auto simp: Candidates_def split: list.splits option.splits bind_splits intro: post dest!: candidates_loop_sorted)
  qed
  moreover have "set (map of_nat (filter (\<lambda>i. keys_of lit \<subseteq> keys_of (doc_content (docs ! i))) [0..<length docs])) = set ids"
    unfolding ids(2) using len by (force simp: image_iff unat_of_nat intro: exI [of _ "unat _"])
  ultimately show ?thesis
    unfolding ids(1) using strict_sorted_ids [of "length docs"] len
    by (auto intro!: strict_sorted_equal)
qed

text \<open>A written shard as an index: the state is the inlining threshold and the documents.\<close>

definition shard_cands :: "int \<times> document list \<Rightarrow> gostring \<Rightarrow> u32 list" where
  "shard_cands st lit = the (Candidates (imageOf [] (Build (fst st) (snd st))) lit)"

definition shard_doc :: "int \<times> document list \<Rightarrow> u32 \<Rightarrow> bytes option" where
  "shard_doc st i = (if unat i < length (snd st) then Some (doc_content (snd st ! unat i)) else None)"

interpretation shardtri: trigram_index shard_cands shard_doc "\<lambda>st. fits (Build (fst st) (snd st))"
proof
  fix ix :: "int \<times> document list" and fid content lit
  assume fit: "fits (Build (fst ix) (snd ix))" and doc: "shard_doc ix fid = Some content"
  obtain ids where ids: "Candidates (imageOf [] (Build (fst ix) (snd ix))) lit = Some ids"
    "set ids = {i. unat i < length (snd ix) \<and> keys_of lit \<subseteq> keys_of (doc_content (snd ix ! unat i))}"
    using Candidates_written [OF fit, of "[]" lit] by blast
  have iff: "fid \<in> set (shard_cands ix lit) \<longleftrightarrow> keys_of lit \<subseteq> keys_of content"
    using doc ids by (auto simp: shard_cands_def shard_doc_def split: if_splits)
  show "fid \<in> set (shard_cands ix lit)" if "keys_of lit \<subseteq> keys_of content" using iff that by simp
  show "keys_of lit \<subseteq> keys_of content" if "3 \<le> length lit" "fid \<in> set (shard_cands ix lit)" using iff that by simp
qed

lemma HasTrigrams_iff:
  assumes "sorted (sh_triKeys s)"
  shows "HasTrigrams s lit \<longleftrightarrow> keys_of lit \<subseteq> set (sh_triKeys s)"
proof -
  let ?ks = "sh_triKeys s"
  have found: "(let i = sort_Search (length ?ks) (\<lambda>j. ?ks ! j \<ge> k) in \<not> (i \<ge> length ?ks \<or> ?ks ! i \<noteq> k)) \<longleftrightarrow> k \<in> set ?ks" for k
  proof -
    define i where "i = sort_Search (length ?ks) (\<lambda>j. ?ks ! j \<ge> k)"
    have mono: "\<And>a b. a \<le> b \<Longrightarrow> b < length ?ks \<Longrightarrow> ?ks ! a \<ge> k \<Longrightarrow> ?ks ! b \<ge> k"
      using sorted_nth_mono [OF assms] order_trans by blast
    have below: "j < i \<Longrightarrow> \<not> ?ks ! j \<ge> k" and above: "i \<le> j \<Longrightarrow> j < length ?ks \<Longrightarrow> ?ks ! j \<ge> k" for j
      using sort_Search_correct(2,3) [OF mono, where k = j] by (simp_all add: i_def)
    have "i < length ?ks \<and> ?ks ! i = k" if mem: "k \<in> set ?ks"
    proof -
      obtain j where j: "j < length ?ks" "?ks ! j = k" using mem by (auto simp: in_set_conv_nth)
      then have "i \<le> j" using below [of j] by (meson linorder_not_less order_refl)
      with j above [of i] sorted_nth_mono [OF assms, of i j] show ?thesis by auto
    qed
    then show ?thesis by (auto simp: Let_def simp flip: i_def)
  qed
  have "HasTrigrams s lit \<longleftrightarrow> length lit < 3 \<or> (\<forall>k \<in> keys_of lit. k \<in> set ?ks)"
    unfolding HasTrigrams_def list_all_iff trigramsOfLit_set
    by (rule arg_cong [where f = "\<lambda>P. length lit < 3 \<or> P"], rule ball_cong [OF refl])
      (use found in \<open>simp only: Let_def\<close>)
  then show ?thesis by (cases "length lit < 3") auto
qed

lemma HasTrigrams_written:
  assumes "fits (Build kb docs)" and "d \<in> set docs" and "keys_of lit \<subseteq> keys_of (doc_content d)"
    and "sh_triKeys s = triKeysOf (Build kb docs)"
  shows "HasTrigrams s lit"
proof -
  let ?b = "Build kb docs" and ?cs = "map doc_content docs"
  have b: "map_of (bd_tris ?b) = tri_of ?cs" "length docs < 2 ^ 32"
    using Build_props [of kb docs] assms(1) by (simp_all add: fits_def)
  obtain i where i: "i < length docs" "docs ! i = d" using assms(2) by (auto simp: in_set_conv_nth)
  have "k \<in> set (triKeysOf ?b)" if "k \<in> keys_of lit" for k
  proof -
    have "of_nat i \<in> set (postings ?cs k)"
      using that assms(3) i b(2) by (subst set_postings) (auto simp: unat_of_nat)
    then have "map_of (bd_tris ?b) k \<noteq> None" by (auto simp: b(1) tri_of_def)
    then show ?thesis by (simp add: triKeysOf_def map_of_eq_None_iff)
  qed
  then show ?thesis using HasTrigrams_iff [of s lit] assms(4) by (auto simp: triKeysOf_def)
qed

subsection \<open>Mapping\<close>

text \<open>A shard is consistent when it has data exactly while it is referenced.\<close>

definition map_ok :: "bytes \<Rightarrow> Shard \<Rightarrow> bool" where
  "map_ok file s \<longleftrightarrow> sh_refs s \<ge> 0 \<and> sh_data s = (if sh_refs s > 0 then file else [])"

datatype map_event = DoMmap bool | DoMunmap

fun map_step :: "bytes \<Rightarrow> Shard \<Rightarrow> map_event \<Rightarrow> Shard" where
  "map_step file s (DoMmap ok) = snd (Mmap s (if ok then Some file else None))"
| "map_step file s DoMunmap = Munmap s"

lemma map_step_ok: "map_ok file s \<Longrightarrow> map_ok file (map_step file s e)"
  by (cases e) (auto simp: map_ok_def Mmap_def Munmap_def Let_def)

subsection \<open>Batches\<close>

lemma group_loop_props:
  "group_loop sc files batches cur n = (bs, c, m) \<Longrightarrow> [] \<notin> set batches \<Longrightarrow>
     concat bs @ c = concat batches @ cur @ files \<and> [] \<notin> set bs \<and>
     (bs = batches \<or> length bs > length batches)"
proof (induction files arbitrary: batches cur n)
  case (Cons f files)
  show ?case
  proof (cases "n + bF_Size f \<ge> sc_TargetBytes sc")
    case True
    with Cons.IH [of "batches @ [cur @ [f]]" "[]" 0] Cons.prems show ?thesis by auto
  next
    case False
    with Cons.IH [of batches "cur @ [f]" "n + bF_Size f"] Cons.prems show ?thesis by auto
  qed
qed auto

lemma GroupByDirBoundary_props:
  "concat (GroupByDirBoundary files sc) = sort_key bF_Rel files \<and> [] \<notin> set (GroupByDirBoundary files sc)"
proof (cases "files = []")
  case True
  then show ?thesis by (simp add: GroupByDirBoundary_def)
next
  case False
  let ?fs = "sort_key bF_Rel files"
  obtain bs c m where g: "group_loop sc ?fs [] [] 0 = (bs, c, m)" by (metis prod_cases3)
  have props: "concat bs @ c = ?fs" "[] \<notin> set bs"
    using group_loop_props [OF g] by simp_all
  have bs: "concat bs = concat (butlast bs) @ List.last bs" "[] \<notin> set (butlast bs)" if "bs \<noteq> []"
    using that props(2) by (metis append_butlast_last_id concat_append concat.simps append_Nil2) (meson in_set_butlastD props(2))
  have ne: "?fs \<noteq> []" using False by (metis length_0_conv length_sort)
  show ?thesis
    using props bs ne by (auto simp: GroupByDirBoundary_def g Let_def)
qed

subsection \<open>Properties\<close>

text \<open>One small Go file, for the examples.\<close>

definition exampleDoc :: document where
  "exampleDoc = (\<lparr>fm_Path = str ''a.go'', fm_Size = 3, fm_MtimeNS = 7\<rparr>, str ''abc'',
     [\<lparr>d_Name = str ''f'', d_Kind = KindFunc, d_Container = [], d_Line = 1\<rparr>])"

lemma fits_example: "fits (Build 1 [exampleDoc])"
  by (simp add: exampleDoc_def fits_def file_fits_def def_ok_def Build_def addDoc_def NewBuilder_def AddWithDefs_def
      Let_def appendTri_def length_shardBytes postingParts_def triKeysOf_def pathBlobOf_def contentParts_def symDataOf_def
      encDefs_def encDef_def encString_def encPosting_def str_def KindFunc_def PutUvarint.simps)

text \<open>C12. Reading back a shard: when the sizes fit the field widths of the format, the file that
  \<open>Write\<close> produces loads without error or panic, opening and mapping it gives the same
  descriptor, and for every file that was added it returns its path, size and time, its definitions,
  and its content when it was inlined (an empty content reads as not inlined).\<close>

theorem shard_roundtrip:
  assumes "fits (Build kb docs)" and "Write (Build kb docs) path AllOk fs = (True, fs')"
  shows "\<exists>s t. Load fs' path = Some (Inr s) \<and> Open fs' path = Some (Inr t) \<and> Mmap t (fs' path) = (True, s) \<and>
    ShardNumFiles s = length docs \<and>
    (\<forall>i < length docs. \<exists>meta content defs. docs ! i = (meta, content, defs) \<and>
       FileAt s i = Some meta \<and> ShardFileDefs s i = Some defs \<and>
       FileContentAt s i = Some (if content \<noteq> [] \<and> kb > 0 \<and> int (length content) \<le> kb * 1024 then Some content else None))"
proof -
  let ?b = "Build kb docs" and ?s = "imageOf path (Build kb docs)"
  have fs: "fs' path = Some (shardBytes ?b)" using assms(2) by (auto simp: Write_cases)
  have files: "bd_files ?b = map (storedFile kb) docs" using Build_props [of kb docs] by simp
  have "Mmap (?s\<lparr>sh_data := [], sh_refs := 0\<rparr>) (fs' path) = (True, ?s)"
    by (simp add: fs Mmap_def imageOf_def)
  moreover have "ShardNumFiles ?s = length docs"
    using assms(1) files by (simp add: ShardNumFiles_def imageOf_def numFilesOf_def fits_def unat_of_nat)
  moreover have "\<exists>meta content defs. docs ! i = (meta, content, defs) \<and>
       FileAt ?s i = Some meta \<and> ShardFileDefs ?s i = Some defs \<and>
       FileContentAt ?s i = Some (if content \<noteq> [] \<and> kb > 0 \<and> int (length content) \<le> kb * 1024 then Some content else None)"
    if "i < length docs" for i
  proof -
    obtain meta content defs where d: "docs ! i = (meta, content, defs)" by (cases "docs ! i")
    have i: "i < length (bd_files ?b)" "bd_files ?b ! i = storedFile kb (meta, content, defs)"
      using that d files by simp_all
    have "readable ?s ?b" by (simp add: readable_def imageOf_def)
    from FileAt_written [OF assms(1) this i(1)] ShardFileDefs_written [OF assms(1) i(1)] FileContentAt_written [OF assms(1) i(1)]
    show ?thesis using d i(2) by (simp add: storedFile_def)
  qed
  ultimately show ?thesis
    using Load_written [of ?b fs' path, OF assms(1) fs] Open_written [of ?b fs' path, OF assms(1) fs] by blast
qed

theorem shard_roundtrip_witness:
  "\<exists>s. Load (snd (Write (Build 1 [exampleDoc]) (str ''s.idx'') AllOk Map.empty)) (str ''s.idx'') = Some (Inr s) \<and>
     FileAt s 0 = Some (fst exampleDoc) \<and> FileContentAt s 0 = Some (Some (str ''abc''))"
proof -
  let ?fs = "snd (Write (Build 1 [exampleDoc]) (str ''s.idx'') AllOk Map.empty)"
  have "Write (Build 1 [exampleDoc]) (str ''s.idx'') AllOk Map.empty = (True, ?fs)"
    by (simp add: Write_cases)
  from shard_roundtrip [OF fits_example this] obtain s t where
    "Load ?fs (str ''s.idx'') = Some (Inr s)"
    "\<forall>i < length [exampleDoc]. \<exists>meta content defs. [exampleDoc] ! i = (meta, content, defs) \<and>
       FileAt s i = Some meta \<and> ShardFileDefs s i = Some defs \<and>
       FileContentAt s i = Some (if content \<noteq> [] \<and> (1::int) > 0 \<and> int (length content) \<le> 1 * 1024 then Some content else None)"
    by blast
  then show ?thesis by (auto simp: exampleDoc_def str_def)
qed

text \<open>C17. Candidate selection in a written shard is exact and does not panic: the candidates of a
  literal are the files whose content has all its trigrams, decoded from the key table, the
  offset table and the delta-encoded posting lists. So no file that contains the literal, up to
  ASCII case, is missed.\<close>

theorem shard_candidates_exact:
  assumes "fits (Build kb docs)"
  shows "\<exists>ids. Candidates (imageOf path (Build kb docs)) lit = Some ids \<and>
    (\<forall>i < length docs. of_nat i \<in> set ids \<longleftrightarrow> keys_of lit \<subseteq> keys_of (doc_content (docs ! i))) \<and>
    (\<forall>i < length docs. Contains (map lower (doc_content (docs ! i))) (map lower lit) \<longrightarrow> of_nat i \<in> set ids)"
proof -
  have "length docs < 2 ^ 32" using assms Build_props [of kb docs] by (simp add: fits_def)
  then have un: "unat (of_nat i :: u32) = i" if "i < length docs" for i
    using that by (simp add: unat_of_nat)
  obtain ids where "Candidates (imageOf path (Build kb docs)) lit = Some ids"
    "set ids = {i. unat i < length docs \<and> keys_of lit \<subseteq> keys_of (doc_content (docs ! unat i))}"
    using Candidates_written [OF assms] by blast
  then show ?thesis using un occurrence_has_keys by auto
qed

theorem shard_candidates_exact_witness:
  "\<exists>ids. Candidates (imageOf [] (Build 1 [exampleDoc])) (str ''ABC'') = Some ids \<and> 0 \<in> set ids"
proof -
  have "Contains (map lower (doc_content exampleDoc)) (map lower (str ''ABC''))" by code_simp
  then show ?thesis
    using shard_candidates_exact [OF fits_example, of "[]" "str ''ABC''"] by auto
qed

text \<open>C18. Skipping a shard by its key table is safe: when \<open>HasTrigrams\<close> says no for a written
  shard, no file of it contains the literal, up to ASCII case.\<close>

theorem HasTrigrams_safe:
  assumes "fits (Build kb docs)" and "\<not> HasTrigrams (imageOf path (Build kb docs)) lit" and "d \<in> set docs"
  shows "\<not> Contains (map lower (doc_content d)) (map lower lit)"
  using HasTrigrams_written [OF assms(1,3) occurrence_has_keys, of lit "imageOf path (Build kb docs)"] assms(2)
  by (auto simp: imageOf_def)

theorem HasTrigrams_safe_witness: "\<not> Contains (map lower (str ''abc'')) (map lower (str ''xyz''))"
proof -
  have "\<not> HasTrigrams (imageOf [] (Build 1 [exampleDoc])) (str ''xyz'')" by code_simp
  from HasTrigrams_safe [OF fits_example this, of exampleDoc] show ?thesis by (simp add: exampleDoc_def)
qed

text \<open>Across any interleaving of mapping and unmapping calls, failed ones included, a shard has its file's
  bytes as data exactly while it is referenced, so a reader that holds a reference never
  sees unmapped data.\<close>

theorem mapping_consistent:
  assumes "map_ok file s"
  shows "map_ok file (foldl (map_step file) s es)"
  using assms by (induction es arbitrary: s) (auto simp: map_step_ok)

theorem mapping_consistent_witness:
  "map_ok [1] (foldl (map_step [1]) ((imageOf [] (NewBuilder 0))\<lparr>sh_data := [], sh_refs := 0\<rparr>)
     [DoMmap True, DoMmap True, DoMunmap])"
  by (rule mapping_consistent) (simp add: map_ok_def)

text \<open>Batching loses and duplicates nothing: the batches in order are the files sorted by
  path, and no batch is empty.\<close>

theorem GroupByDirBoundary_partition:
  "concat (GroupByDirBoundary files sc) = sort_key bF_Rel files \<and> [] \<notin> set (GroupByDirBoundary files sc)"
  by (rule GroupByDirBoundary_props)

text \<open>The variable-length integers of the format round-trip for every 64-bit value, wherever
  they stand in the file.\<close>

theorem uvarint_roundtrip:
  "readUvarint (appendUvarint a v @ r) (int (length a)) = Some (v, int (length (appendUvarint a v)))"
  using readUvarint_append [of _ a v r] by (simp add: appendUvarint_def)

end
