(* ===== verification/Manifest.thy ===== *)
theory Manifest
  imports ShardFile
begin

text \<open>
  \<open>internal/shard/manifest.go\<close>: the list of valid shard files. The JSON text of a manifest is
  modelled by the value it encodes; a file that does not parse is \<open>Garbled\<close>. Directories are clean paths, so
  \<open>filepath.Join\<close> puts one slash between its operands.
\<close>

definition Join :: "gostring \<Rightarrow> gostring \<Rightarrow> gostring" where
  "Join dir name = dir @ slash # name"

record ManifestShard =
  ms_File :: gostring
  ms_PathMin :: gostring
  ms_PathMax :: gostring

record Manifest =
  mf_Version :: int
  mf_SeqNo :: nat
  mf_Shards :: "ManifestShard list"

datatype manifest_file = Json Manifest | Garbled

definition manifestFile :: gostring where "manifestFile = str ''manifest.json''"

text \<open>\<open>WriteManifest\<close>: written to a temporary file, synced, renamed. \<open>cur\<close> is the present \<open>manifest.json\<close>.\<close>

datatype manifest_io = MWriteFails | MRenameFails | MOk

definition WriteManifest :: "Manifest \<Rightarrow> manifest_io \<Rightarrow> manifest_file option \<Rightarrow> bool \<times> manifest_file option" where
  "WriteManifest m io cur =
     (case io of
        MWriteFails \<Rightarrow> (False, cur)
      | MRenameFails \<Rightarrow> (False, cur)
      | MOk \<Rightarrow> (True, Some (Json m)))"

text \<open>\<open>ReadManifest\<close>: \<open>Inl\<close> when it does not parse, \<open>Inr None\<close> when there is no file.\<close>

definition ReadManifest :: "manifest_file option \<Rightarrow> unit + Manifest option" where
  "ReadManifest file =
     (case file of
        None \<Rightarrow> Inr None
      | Some Garbled \<Rightarrow> Inl ()
      | Some (Json m) \<Rightarrow> Inr (Some m))"

text \<open>\<open>CleanOrphans\<close>; \<open>entries\<close> is what \<open>os.ReadDir\<close> lists, \<open>None\<close> when it fails.\<close>

definition keepEntry :: "Manifest option \<Rightarrow> gostring \<Rightarrow> bool" where
  "keepEntry m name \<longleftrightarrow>
     name = manifestFile \<or> name = manifestFile @ str ''.tmp'' \<or>
     (\<not> HasSuffix name (str ''.idx'') \<and> \<not> HasSuffix name (str ''.idx.tmp'')) \<or>
     (case m of None \<Rightarrow> False | Some m \<Rightarrow> name \<in> set (map ms_File (mf_Shards m)))"

definition CleanOrphans :: "gostring \<Rightarrow> Manifest option \<Rightarrow> gostring list option \<Rightarrow> filesystem \<Rightarrow> filesystem" where
  "CleanOrphans dir m entries fs =
     (case entries of
        None \<Rightarrow> fs
      | Some names \<Rightarrow> foldl (\<lambda>fs name. if keepEntry m name then fs else fs(Join dir name := None)) fs names)"

text \<open>\<open>filepath.Base\<close> of a path without a trailing slash is \<open>pathBase\<close>.\<close>

definition ManifestFromShards :: "Shard list \<Rightarrow> nat \<Rightarrow> Manifest" where
  "ManifestFromShards shards seqNo =
     \<lparr>mf_Version = 1, mf_SeqNo = seqNo,
      mf_Shards = map (\<lambda>s. \<lparr>ms_File = pathBase (sh_path s), ms_PathMin = sh_pathMin s, ms_PathMax = sh_pathMax s\<rparr>) shards\<rparr>"

lemma Join_inj [simp]: "Join dir a = Join dir b \<longleftrightarrow> a = b"
  by (simp add: Join_def)

lemma LastIndexByte_append:
  "c \<notin> set b \<Longrightarrow> LastIndexByte (a @ c # b) c = Some (length a)"
  by (simp add: LastIndexByte_Some_iff nth_append)

lemma pathBase_Join: "slash \<notin> set name \<Longrightarrow> pathBase (Join dir name) = name"
  by (simp add: pathBase_def Join_def LastIndexByte_append)

lemma CleanOrphans_apply:
  "CleanOrphans dir m (Some names) fs p =
     (if \<exists>name \<in> set names. p = Join dir name \<and> \<not> keepEntry m name then None else fs p)"
proof -
  have "foldl (\<lambda>fs name. if keepEntry m name then fs else fs(Join dir name := None)) fs names p =
      (if \<exists>name \<in> set names. p = Join dir name \<and> \<not> keepEntry m name then None else fs p)"
    by (induction names arbitrary: fs) auto
  then show ?thesis by (simp add: CleanOrphans_def)
qed

subsection \<open>Properties\<close>

text \<open>Cleaning up after a crash deletes exactly the shard files and temporary shard files that
  the manifest does not list: every listed shard, the manifest itself and files of other kinds stay.\<close>

theorem CleanOrphans_exact:
  assumes "\<And>name. fs (Join dir name) \<noteq> None \<Longrightarrow> name \<in> set names"
  shows "CleanOrphans dir (Some m) (Some names) fs (Join dir name) =
    (if (HasSuffix name (str ''.idx'') \<or> HasSuffix name (str ''.idx.tmp'')) \<and> name \<notin> set (map ms_File (mf_Shards m))
     then None else fs (Join dir name))"
proof -
  have man: "\<not> HasSuffix name (str ''.idx'')" "\<not> HasSuffix name (str ''.idx.tmp'')"
    if "name = manifestFile \<or> name = manifestFile @ str ''.tmp''"
    using that by (auto simp: manifestFile_def HasSuffix_def str_def suffix_def Cons_eq_append_conv append_eq_Cons_conv)
  show ?thesis
    using assms [of name] man
    by (cases "fs (Join dir name)") (auto simp: CleanOrphans_apply keepEntry_def)
qed

theorem CleanOrphans_exact_witness:
  "CleanOrphans (str ''d'') (Some (ManifestFromShards [] 0)) (Some [str ''a.idx'', str ''b''])
     [Join (str ''d'') (str ''a.idx'') \<mapsto> [1], Join (str ''d'') (str ''b'') \<mapsto> [2]] (Join (str ''d'') (str ''a.idx'')) = None"
proof -
  let ?fs = "[Join (str ''d'') (str ''a.idx'') \<mapsto> [1], Join (str ''d'') (str ''b'') \<mapsto> [2]] :: filesystem"
  have "?fs (Join (str ''d'') name) \<noteq> None \<Longrightarrow> name \<in> set [str ''a.idx'', str ''b'']" for name
    by (auto split: if_splits)
  from CleanOrphans_exact [where fs = ?fs and dir = "str ''d''" and name = "str ''a.idx''"
      and m = "ManifestFromShards [] 0", OF this]
  have "CleanOrphans (str ''d'') (Some (ManifestFromShards [] 0)) (Some [str ''a.idx'', str ''b'']) ?fs
      (Join (str ''d'') (str ''a.idx'')) =
    (if (HasSuffix (str ''a.idx'') (str ''.idx'') \<or> HasSuffix (str ''a.idx'') (str ''.idx.tmp'')) \<and>
        str ''a.idx'' \<notin> set (map ms_File (mf_Shards (ManifestFromShards [] 0)))
     then None else ?fs (Join (str ''d'') (str ''a.idx'')))" .
  moreover have "HasSuffix (str ''a.idx'') (str ''.idx'')" by code_simp
  ultimately show ?thesis by (simp add: ManifestFromShards_def)
qed

end
