(* ===== verification/MemSearch.thy ===== *)
theory MemSearch
  imports MemIndex
begin

text \<open>
  What the in-memory index answers: candidate selection over the exact posting lists, the
  search loop with its line accounting and limit, definition lookup, and the display
  window. The index is an instance of \<open>trigram_index\<close>.
\<close>

subsection \<open>Candidates\<close>

lemma postingLists_eq:
  "postingLists tri ks =
     (if \<exists>k \<in> set ks. tri k = None then None else Some (map (\<lambda>k. the (tri k)) ks))"
  by (induction ks) (auto split: option.splits)

lemma shortest_bound:
  assumes "pls \<noteq> []"
  shows "shortest pls < length pls"
proof -
  have "s < length pls \<Longrightarrow> set is \<subseteq> {..<length pls} \<Longrightarrow>
      foldl (\<lambda>s i. if length (pls ! i) < length (pls ! s) then i else s) s is < length pls" for s "is"
    by (induction "is" arbitrary: s) auto
  note loop = this
  show ?thesis unfolding shortest_def by (rule loop) (use assms in auto)
qed

lemma intersect_loop_set:
  assumes "sorted out" and "\<forall>l \<in> set ls. sorted l" and "\<forall>j < length ls. i + j = s \<longrightarrow> set out \<subseteq> set (ls ! j)"
  shows "set (intersect_loop s i ls out) = set out \<inter> (\<Inter>l \<in> set ls. set l)"
  using assms
proof (induction s i ls out rule: intersect_loop.induct)
  case (2 s i l ls out)
  have rest: "\<forall>j < length ls. i + 1 + j = s \<longrightarrow> set out \<subseteq> set (ls ! j)"
    using "2.prems"(3) by force
  show ?case
  proof (cases "i = s")
    case True
    then have "set out \<subseteq> set l" using "2.prems"(3) by force
    with True "2.IH"(1) "2.prems" rest show ?thesis by auto
  next
    case False
    let ?o = "intersectSorted out l"
    have o: "set ?o = set out \<inter> set l" "sorted ?o"
      using "2.prems" by (simp_all add: set_intersectSorted sorted_intersectSorted)
    show ?thesis
    proof (cases "?o = []")
      case True
      with False o show ?thesis by auto
    next
      case nonempty: False
      have "set (intersect_loop s (i + 1) ls ?o) = set ?o \<inter> (\<Inter>l \<in> set ls. set l)"
        using False nonempty "2.prems" rest o by (intro "2.IH"(2)) auto
      with False nonempty o show ?thesis by auto
    qed
  qed
qed auto

lemma candidates_long:
  assumes inv: "ix_inv ix" and long: "3 \<le> length lit"
  shows "set (candidatesLocked rng ix lit) =
    {fid. unat fid < length (ix_files ix) \<and> keys_of lit \<subseteq> keys_of (fe_content (entry ix fid))}"
proof -
  let ?ks = "trigramsOf lit []" and ?files = "map fe_content (ix_files ix)"
  have len: "length ?files \<le> 2 ^ 32" and tri: "ix_tri ix = tri_of ?files"
    using inv by (simp_all add: ix_inv_def)
  have ks: "set ?ks = keys_of lit" by (simp add: trigramsOf_set)
  then have "?ks \<noteq> []" using trigramsOfLit_nonempty [OF long] by auto
  show ?thesis
  proof (cases "\<exists>k \<in> set ?ks. tri_of ?files k = None")
    case True
    then obtain k where k: "k \<in> keys_of lit" "postings ?files k = []"
      by (auto simp: ks tri_of_def split: if_splits)
    then have "{fid :: u32. unat fid < length ?files \<and> k \<in> keys_of (?files ! unat fid)} = {}"
      using set_postings [OF len, of k] by simp
    then have "{fid. unat fid < length (ix_files ix) \<and> keys_of lit \<subseteq> keys_of (fe_content (entry ix fid))} = {}"
      using k(1) by auto
    moreover have "candidatesLocked rng ix lit = []"
      using True long by (simp add: candidatesLocked_def tri postingLists_eq)
    ultimately show ?thesis by simp
  next
    case False
    let ?pls = "map (postings ?files) ?ks"
    have "map (\<lambda>k. the (tri_of ?files k)) ?ks = ?pls"
      using False by (auto simp: tri_of_def split: if_splits)
    then have "postingLists (tri_of ?files) ?ks = Some ?pls"
      unfolding postingLists_eq using False by (simp only: if_False)
    then have "candidatesLocked rng ix lit = intersect_loop (shortest ?pls) 0 ?pls (?pls ! shortest ?pls)"
      using long by (simp add: candidatesLocked_def tri Let_def)
    moreover have s: "shortest ?pls < length ?pls"
      using \<open>?ks \<noteq> []\<close> by (intro shortest_bound) simp
    have sorted: "\<forall>l \<in> set ?pls. sorted l"
      using strict_sorted_postings [OF len] by (auto simp: strict_sorted_iff)
    have "set (intersect_loop (shortest ?pls) 0 ?pls (?pls ! shortest ?pls)) =
        set (?pls ! shortest ?pls) \<inter> (\<Inter>l \<in> set ?pls. set l)"
    proof (rule intersect_loop_set)
      show "sorted (?pls ! shortest ?pls)" using sorted nth_mem [OF s] by blast
    qed (use sorted in auto)
    moreover have "(\<Inter>l \<in> set ?pls. set l) \<subseteq> set (?pls ! shortest ?pls)"
      using s by (auto simp del: nth_map set_map dest: nth_mem)
    ultimately have "set (candidatesLocked rng ix lit) = (\<Inter>l \<in> set ?pls. set l)" by auto
    then show ?thesis
      using \<open>?ks \<noteq> []\<close> trigramsOfLit_nonempty [OF long] by (auto simp: ks set_postings [OF len])
  qed
qed

lemma candidates_short:
  assumes "ix_inv ix" and "length lit < 3" and "mset (rng (ix_byPath ix)) = mset (ix_byPath ix)"
  shows "set (candidatesLocked rng ix lit) = {fid. \<exists>p. live_at (ix_files ix) p fid}"
proof -
  have "set (rng (ix_byPath ix)) = set (ix_byPath ix)" using assms(3) by (metis set_mset_mset)
  moreover have "distinct (map fst (ix_byPath ix))" using assms(1) by (simp add: ix_inv_def byPath_ok_def)
  moreover have "(p, fid) \<in> set (ix_byPath ix) \<longleftrightarrow> live_at (ix_files ix) p fid" for p fid
    using calculation(2) assms(1) by (metis map_of_eq_Some_iff ix_inv_def byPath_ok_def)
  moreover have "snd ` A = {fid. \<exists>p. (p, fid) \<in> A}" for A :: "(gostring \<times> u32) set"
    by force
  ultimately show ?thesis
    using assms(2) by (simp add: candidatesLocked_def)
qed

definition perm_order :: "((gostring \<times> u32) list \<Rightarrow> (gostring \<times> u32) list) \<Rightarrow> bool" where
  "perm_order rng \<longleftrightarrow> (\<forall>xs. mset (rng xs) = mset xs)"

definition mem_doc :: "Index \<Rightarrow> u32 \<Rightarrow> bytes option" where
  "mem_doc ix fid =
     (if unat fid < length (ix_files ix) \<and> \<not> fe_dead (entry ix fid) then Some (fe_content (entry ix fid)) else None)"

interpretation memtri: trigram_index
  "\<lambda>(rng, ix). candidatesLocked rng ix" "\<lambda>(rng, ix). mem_doc ix" "\<lambda>(rng, ix). ix_inv ix \<and> perm_order rng"
proof
  fix ix :: "((gostring \<times> u32) list \<Rightarrow> (gostring \<times> u32) list) \<times> Index" and fid content lit
  obtain rng x where ix: "ix = (rng, x)" by fastforce
  assume a: "(case ix of (rng, ix) \<Rightarrow> ix_inv ix \<and> perm_order rng)"
    and b: "(case ix of (rng, ix) \<Rightarrow> mem_doc ix) fid = Some content"
  have inv: "ix_inv x" "perm_order rng" and doc: "unat fid < length (ix_files x)" "\<not> fe_dead (entry x fid)"
    "content = fe_content (entry x fid)"
    using a b by (auto simp: ix mem_doc_def split: if_splits)
  show "fid \<in> set ((case ix of (rng, ix) \<Rightarrow> candidatesLocked rng ix) lit)" if "keys_of lit \<subseteq> keys_of content"
  proof (cases "length lit < 3")
    case True
    then show ?thesis
      using candidates_short [OF inv(1) True] inv(2) doc by (simp add: ix perm_order_def live_at_def)
  next
    case False
    then show ?thesis using candidates_long [OF inv(1), of lit rng] that doc by (simp add: ix)
  qed
  show "keys_of lit \<subseteq> keys_of content" if "3 \<le> length lit"
    "fid \<in> set ((case ix of (rng, ix) \<Rightarrow> candidatesLocked rng ix) lit)"
    using candidates_long [OF inv(1) that(1), of rng] that(2) doc by (simp add: ix)
qed

subsection \<open>Line accounting\<close>

lemma lineOf_step:
  assumes "pos \<le> q"
  shows "lineOf s q = lineOf s pos + length (filter (\<lambda>b. b = newline) (slice s pos q))"
proof -
  have "take q s = take pos s @ slice s pos q"
    by (simp add: take_slice [OF assms])
  then show ?thesis by (simp add: lineOf_def)
qed

lemma advance_eq:
  "pos \<le> target \<Longrightarrow> target \<le> length s \<Longrightarrow> n = lineOf s pos \<Longrightarrow>
     advance s target pos n = (target, lineOf s target)"
proof (induction s target pos n rule: advance.induct)
  case (1 s target pos n)
  show ?case
  proof (cases "pos < target")
    case True
    show ?thesis
    proof (cases "IndexByte (slice s pos target) newline")
      case None
      then have "filter (\<lambda>b. b = newline) (slice s pos target) = []"
        by (auto simp: IndexByte_None_iff filter_empty_conv)
      then show ?thesis
        using True None "1.prems" lineOf_step [of pos target s] by (simp add: advance.simps)
    next
      case (Some i)
      then have i: "pos + i < target" "s ! (pos + i) = newline" "\<forall>j < i. s ! (pos + j) \<noteq> newline"
        using "1.prems" True by (auto simp: IndexByte_Some_iff slice_def)
      have "slice s pos (pos + i + 1) = slice s pos (pos + i) @ [newline]"
        using i(1,2) "1.prems"(2) by (simp add: slice_def take_Suc_conv_app_nth)
      moreover have "filter (\<lambda>b. b = newline) (slice s pos (pos + i)) = []"
        using i(1,3) "1.prems"(2) by (auto simp: filter_empty_conv slice_def in_set_conv_nth)
      ultimately have "lineOf s (pos + i + 1) = n + 1"
        using lineOf_step [of pos "pos + i + 1" s] "1.prems"(3) by simp
      then show ?thesis
        using True Some i(1) "1.prems" "1.IH" [OF True Some]
        by (simp add: advance.simps [of s target pos "lineOf s pos"])
    qed
  next
    case False
    then show ?thesis using "1.prems" by (simp add: advance.simps)
  qed
qed

text \<open>Of several matches that start on one line, the first is kept.\<close>

fun firstPerLine :: "bytes \<Rightarrow> nat option \<Rightarrow> (nat \<times> nat) list \<Rightarrow> (nat \<times> nat) list" where
  "firstPerLine s prev [] = []"
| "firstPerLine s prev (loc # locs) =
     (if Some (lineOf s (fst loc)) = prev then firstPerLine s prev locs
      else loc # firstPerLine s (Some (lineOf s (fst loc))) locs)"

definition locs_ok :: "bytes \<Rightarrow> (nat \<times> nat) list \<Rightarrow> bool" where
  "locs_ok s locs \<longleftrightarrow>
     sorted_wrt (\<lambda>l l'. fst l \<le> fst l') locs \<and> (\<forall>l \<in> set locs. fst l \<le> snd l \<and> snd l \<le> length s)"

definition lineMatches :: "fileEntry \<Rightarrow> int \<Rightarrow> nat option \<Rightarrow> (nat \<times> nat) list \<Rightarrow> Match list" where
  "lineMatches f maxCols prev locs =
     map (\<lambda>loc. lineMatch f loc (lineOf (fe_content f) (fst loc)) maxCols) (firstPerLine (fe_content f) prev locs)"

definition cutAt :: "int \<Rightarrow> 'a list \<Rightarrow> 'a list" where
  "cutAt limit xs = (if limit > 0 then take (nat limit) xs else xs)"

lemma appendLineMatches_loop_eq:
  assumes "locs_ok (fe_content f) locs" and "\<forall>l \<in> set locs. pos \<le> fst l" and "n = lineOf (fe_content f) pos"
    and "limit > 0 \<longrightarrow> int (length ms) < limit"
  shows "appendLineMatches_loop f limit maxCols n pos prev locs ms = cutAt limit (ms @ lineMatches f maxCols prev locs)"
  using assms
proof (induction locs arbitrary: pos n prev ms)
  case Nil
  then show ?case by (auto simp: lineMatches_def cutAt_def)
next
  case (Cons loc locs)
  let ?l = "lineOf (fe_content f) (fst loc)"
  have adv: "advance (fe_content f) (fst loc) pos n = (fst loc, ?l)"
    using Cons.prems by (intro advance_eq) (auto simp: locs_ok_def)
  have ok: "locs_ok (fe_content f) locs" "\<forall>l \<in> set locs. fst loc \<le> fst l"
    using Cons.prems(1) by (auto simp: locs_ok_def)
  show ?case
  proof (cases "Some ?l = prev")
    case True
    then show ?thesis
      using Cons.IH [OF ok refl Cons.prems(4), of prev] by (simp add: adv lineMatches_def)
  next
    case False
    let ?ms = "ms @ [lineMatch f loc ?l maxCols]"
    show ?thesis
    proof (cases "limit > 0 \<and> int (length ?ms) \<ge> limit")
      case True
      with Cons.prems(4) have "nat limit = length ?ms" by auto
      with True False show ?thesis by (simp add: adv lineMatches_def cutAt_def)
    next
      case below: False
      then have "limit > 0 \<longrightarrow> int (length ?ms) < limit" by auto
      from Cons.IH [OF ok refl this, of "Some ?l"] False below show ?thesis
        by (auto simp: adv lineMatches_def Let_def)
    qed
  qed
qed

lemma appendLineMatches_eq:
  assumes "locs_ok (fe_content f) locs" and "limit > 0 \<longrightarrow> int (length (sr_Matches res)) < limit"
  shows "appendLineMatches res f locs limit maxCols =
    res\<lparr>sr_Matches := cutAt limit (sr_Matches res @ lineMatches f maxCols None locs)\<rparr>"
  using appendLineMatches_loop_eq [OF assms(1), of 0 1 limit "sr_Matches res"] assms(2)
  by (simp add: appendLineMatches_def lineOf_def)

lemma firstPerLine_lines:
  assumes "locs_ok s locs" and "case prev of None \<Rightarrow> True | Some l \<Rightarrow> \<forall>loc \<in> set locs. l \<le> lineOf s (fst loc)"
  shows "set (map (\<lambda>l. lineOf s (fst l)) (firstPerLine s prev locs)) =
           (\<lambda>l. lineOf s (fst l)) ` set locs - set_option prev \<and>
         sorted_wrt (<) (map (\<lambda>l. lineOf s (fst l)) (firstPerLine s prev locs)) \<and>
         set (firstPerLine s prev locs) \<subseteq> set locs"
  using assms
proof (induction locs arbitrary: prev)
  case (Cons loc locs)
  let ?l = "lineOf s (fst loc)"
  have ok: "locs_ok s locs" and ge: "\<forall>m \<in> set locs. ?l \<le> lineOf s (fst m)"
    using Cons.prems(1) lineOf_mono by (auto simp: locs_ok_def)
  show ?case
  proof (cases "Some ?l = prev")
    case True
    have "set (map (\<lambda>l. lineOf s (fst l)) (firstPerLine s prev locs)) = (\<lambda>l. lineOf s (fst l)) ` set locs - set_option prev \<and>
        sorted_wrt (<) (map (\<lambda>l. lineOf s (fst l)) (firstPerLine s prev locs)) \<and> set (firstPerLine s prev locs) \<subseteq> set locs"
      using ge by (intro Cons.IH [OF ok]) (simp flip: True)
    with True show ?thesis by auto
  next
    case False
    have IH: "set (map (\<lambda>l. lineOf s (fst l)) (firstPerLine s (Some ?l) locs)) = (\<lambda>l. lineOf s (fst l)) ` set locs - {?l} \<and>
        sorted_wrt (<) (map (\<lambda>l. lineOf s (fst l)) (firstPerLine s (Some ?l) locs)) \<and> set (firstPerLine s (Some ?l) locs) \<subseteq> set locs"
      using ge Cons.IH [OF ok, of "Some ?l"] by simp
    have not_prev: "lineOf s (fst m) \<notin> set_option prev" if "m \<in> insert loc (set locs)" for m
    proof
      assume "lineOf s (fst m) \<in> set_option prev"
      then have "lineOf s (fst m) \<le> ?l" "prev = Some (lineOf s (fst m))" using Cons.prems(2) by auto
      moreover have "?l \<le> lineOf s (fst m)" using that ge by auto
      ultimately show False using False by simp
    qed
    have lt: "\<forall>x \<in> set (map (\<lambda>l. lineOf s (fst l)) (firstPerLine s (Some ?l) locs)). ?l < x"
      using IH ge by (auto simp: le_less)
    have "set (map (\<lambda>l. lineOf s (fst l)) (loc # firstPerLine s (Some ?l) locs)) =
        (\<lambda>l. lineOf s (fst l)) ` set (loc # locs) - set_option prev"
    proof -
      have "(\<lambda>l. lineOf s (fst l)) ` set (loc # locs) \<inter> set_option prev = {}"
      proof (rule equals0I, elim IntE imageE)
        fix x m assume "x \<in> set_option prev" "x = lineOf s (fst m)" "m \<in> set (loc # locs)"
        with not_prev [of m] show False by simp
      qed
      moreover have "set (map (\<lambda>l. lineOf s (fst l)) (loc # firstPerLine s (Some ?l) locs)) =
          (\<lambda>l. lineOf s (fst l)) ` set (loc # locs)"
        using IH by auto
      ultimately show ?thesis by (simp only: Diff_triv)
    qed
    with False IH lt show ?thesis by auto
  qed
qed simp

subsection \<open>The text of a matched line\<close>

abbreviation newlines :: "bytes \<Rightarrow> nat" where
  "newlines s \<equiv> length (filter (\<lambda>b. b = newline) s)"

definition closed_lines :: "bytes \<Rightarrow> bool" where
  "closed_lines u \<longleftrightarrow> u = [] \<or> List.last u = newline"

lemma newlines_0: "newline \<notin> set s \<Longrightarrow> filter (\<lambda>b. b = newline) s = []"
  by (auto simp: filter_empty_conv)

lemma LineText_parts:
  assumes "closed_lines u" and "newline \<notin> set v" and "w = [] \<or> hd w = newline"
  shows "LineText (u @ v @ w) (1 + newlines u) = v"
  using assms(1)
proof (induction "newlines u" arbitrary: u)
  case 0
  then have "u = []"
    by (cases u rule: rev_cases) (auto simp: closed_lines_def)
  moreover have "IndexByte (v @ w) newline = (if w = [] then None else Some (length v))"
    using assms(2,3) by (cases w) (auto simp: IndexByte_append IndexByte_None_iff)
  ultimately show ?case by simp
next
  case (Suc n)
  have "newline \<in> set u"
    by (rule ccontr) (use newlines_0 [of u] Suc.hyps(2) in simp)
  then obtain x u' where u: "u = x @ newline # u'" "newline \<notin> set x"
    by (metis split_list_first)
  then have n: "newlines u = Suc (newlines u')" by (simp add: newlines_0)
  moreover have "closed_lines u'"
    using Suc.prems u(1) by (auto simp: closed_lines_def split: if_splits)
  ultimately have "LineText (u' @ v @ w) (1 + newlines u') = v"
    using Suc.hyps by simp
  moreover have "IndexByte (u @ v @ w) newline = Some (length x)"
    using u by (simp add: IndexByte_append)
  ultimately show ?case using u n by simp
qed

lemma lineMatch_text:
  assumes "a \<le> b" and "b \<le> length (fe_content f)" and "newline \<notin> set (slice (fe_content f) a b)"
    and "maxCols \<le> 0"
  shows "mt_Text (lineMatch f (a, b) (lineOf (fe_content f) a) maxCols) = LineText (fe_content f) (lineOf (fe_content f) a)"
proof -
  let ?s = "fe_content f"
  define st where "st = (case LastIndexByte (take a ?s) newline of Some i \<Rightarrow> i + 1 | None \<Rightarrow> 0)"
  define en where "en = (case IndexByte (drop b ?s) newline of Some i \<Rightarrow> b + i | None \<Rightarrow> length ?s)"
  have st: "st \<le> a" "closed_lines (take st ?s)" "newline \<notin> set (slice ?s st a)"
    using assms(1,2)
    by (auto simp: st_def closed_lines_def slice_def LastIndexByte_Some_iff LastIndexByte_None_iff
        take_Suc_conv_app_nth drop_take split: option.splits)
  have en: "b \<le> en" "en \<le> length ?s" "newline \<notin> set (slice ?s b en)" "drop en ?s = [] \<or> hd (drop en ?s) = newline"
    using assms(2)
    by (auto simp: en_def slice_def IndexByte_None_iff hd_drop_conv_nth add.commute
        dest: IndexByte_SomeD split: option.splits)
  have mid: "slice ?s st en = slice ?s st a @ slice ?s a b @ slice ?s b en"
    using st(1) assms(1) en(1) by (simp add: slice_join)
  have whole: "?s = take st ?s @ slice ?s st en @ drop en ?s"
    using st(1) assms(1) en(1) take_slice [of st en ?s] append_take_drop_id [of en ?s]
    by (simp del: append_take_drop_id flip: append_assoc)
  have "newlines (take a ?s) = newlines (take st ?s)"
    using st(3) take_slice [OF st(1), of ?s, symmetric] by (simp add: newlines_0)
  then have "LineText ?s (lineOf ?s a) = LineText (take st ?s @ slice ?s st en @ drop en ?s) (1 + newlines (take st ?s))"
    using whole by (simp add: lineOf_def)
  also have "\<dots> = slice ?s st en"
    by (rule LineText_parts [OF st(2)]) (use mid st(3) en assms(3) in auto)
  finally show ?thesis
    using assms(4) by (simp add: lineMatch_def st_def en_def Let_def cong: option.case_cong)
qed

subsection \<open>Search\<close>

text \<open>The regexp engine reports matches in order and inside the text; \<open>literalFindAll\<close> does so too.\<close>

definition regex_ok :: "'re regexlib \<Rightarrow> 're \<Rightarrow> bool" where
  "regex_ok L re \<longleftrightarrow> (\<forall>s. locs_ok s (re_FindAllIndex L re s))"

lemma literalFindAll_locs_ok: "locs_ok s (literalFindAll s lit nocase)"
proof -
  let ?ms = "findAll_exact (case_norm nocase s) (case_norm nocase lit) 0"
  have bounds: "\<forall>m \<in> set ?ms. fst m \<le> snd m \<and> snd m \<le> length s"
    using findAll_exact_sound [of _ _ "case_norm nocase s" "case_norm nocase lit" 0] by fastforce
  have "sorted_wrt (\<lambda>l l'. fst l \<le> fst l') ?ms"
    by (rule sorted_wrt_mono_rel [OF _ findAll_exact_sorted]) (use bounds in \<open>fastforce split: prod.splits\<close>)
  with bounds show ?thesis by (simp add: locs_ok_def literalFindAll_norm)
qed

lemma locsOf_ok: "regex_ok L re \<Longrightarrow> locs_ok s (locsOf L re opts s)"
  by (simp add: locsOf_def regex_ok_def literalFindAll_locs_ok)

text \<open>What one candidate contributes to the matches and to the counts.\<close>

definition fileMatches :: "'re regexlib \<Rightarrow> 're \<Rightarrow> SearchOpts \<Rightarrow> fileEntry \<Rightarrow> Match list" where
  "fileMatches L re opts f =
     (if skipFile opts f \<or> so_FilesOnly opts then []
      else lineMatches f (so_MaxColumns opts) None (locsOf L re opts (fe_content f)))"

lemma lineMatches_Nil [simp]: "lineMatches f mc prev [] = []"
  by (simp add: lineMatches_def)

lemma search_loop_matches:
  assumes "regex_ok L re" and "so_Limit opts > 0 \<longrightarrow> int (length (sr_Matches res)) < so_Limit opts"
    and "\<not> sr_Truncated res"
  shows "sr_Matches (search_loop_ids L re opts ix ids res) =
      cutAt (so_Limit opts) (sr_Matches res @ concat (map (\<lambda>fid. fileMatches L re opts (entry ix fid)) ids)) \<and>
    (sr_Truncated (search_loop_ids L re opts ix ids res) \<longleftrightarrow>
      so_Limit opts > 0 \<and>
      so_Limit opts \<le> int (length (sr_Matches res @ concat (map (\<lambda>fid. fileMatches L re opts (entry ix fid)) ids))))"
  using assms(2,3)
proof (induction ids arbitrary: res)
  case Nil
  then show ?case by (auto simp: cutAt_def)
next
  case (Cons fid ids)
  let ?f = "entry ix fid"
  let ?locs = "locsOf L re opts (fe_content ?f)"
  let ?rest = "concat (map (\<lambda>fid. fileMatches L re opts (entry ix fid)) ids)"
  let ?counted = "res\<lparr>sr_FileCounts := AList.update (fm_Path (fe_meta ?f)) (length ?locs) (sr_FileCounts res)\<rparr>"
  consider (skip) "skipFile opts ?f \<or> ?locs = []" | (files) "\<not> skipFile opts ?f" "?locs \<noteq> []" "so_FilesOnly opts"
    | (hit) "\<not> skipFile opts ?f" "?locs \<noteq> []" "\<not> so_FilesOnly opts"
    by blast
  then show ?case
  proof cases
    case skip
    then have "search_loop_ids L re opts ix (fid # ids) res = search_loop_ids L re opts ix ids res"
      and "fileMatches L re opts ?f = []"
      by (auto simp: fileMatches_def Let_def)
    with Cons.IH [OF Cons.prems] show ?thesis by simp
  next
    case files
    then have "search_loop_ids L re opts ix (fid # ids) res = search_loop_ids L re opts ix ids ?counted"
      and "fileMatches L re opts ?f = []"
      by (auto simp: fileMatches_def Let_def)
    with Cons.IH [of ?counted] Cons.prems show ?thesis by simp
  next
    case hit
    let ?ms = "sr_Matches res @ fileMatches L re opts ?f"
    define res' where "res' = ?counted\<lparr>sr_Matches := cutAt (so_Limit opts) ?ms\<rparr>"
    have app: "appendLineMatches ?counted ?f ?locs (so_Limit opts) (so_MaxColumns opts) = res'"
      using hit Cons.prems(1) by (simp add: appendLineMatches_eq [OF locsOf_ok [OF assms(1)]] res'_def fileMatches_def)
    show ?thesis
    proof (cases "so_Limit opts > 0 \<and> int (length (sr_Matches res')) \<ge> so_Limit opts")
      case True
      then have lim: "so_Limit opts > 0" "so_Limit opts \<le> int (length ?ms)"
        by (auto simp: res'_def cutAt_def split: if_splits)
      then have "nat (so_Limit opts) \<le> length ?ms" by simp
      then have "take (nat (so_Limit opts)) (?ms @ ?rest) = take (nat (so_Limit opts)) ?ms" by simp
      with True hit lim show ?thesis by (simp add: app Let_def) (simp add: res'_def cutAt_def)
    next
      case False
      have ms: "sr_Matches res' = ?ms" "so_Limit opts > 0 \<longrightarrow> int (length (sr_Matches res')) < so_Limit opts"
        using False by (auto simp: res'_def cutAt_def)
      have "search_loop_ids L re opts ix (fid # ids) res = search_loop_ids L re opts ix ids res'"
        using hit False by (simp only: search_loop_ids.simps app Let_def if_False length_0_conv)
      with Cons.IH [OF ms(2)] Cons.prems(2) show ?thesis by (simp add: ms(1)) (simp add: res'_def)
    qed
  qed
qed

definition admits :: "SearchOpts \<Rightarrow> FileMeta \<Rightarrow> bool" where
  "admits opts meta \<longleftrightarrow>
     \<not> (so_MaxFileSize opts > 0 \<and> fm_Size meta > so_MaxFileSize opts) \<and> pathOk (so_PathMatch opts) (fm_Path meta)"

text \<open>The count a file has to be reported with, read off the abstract store.\<close>

definition wanted :: "'re regexlib \<Rightarrow> 're \<Rightarrow> SearchOpts \<Rightarrow> Index \<Rightarrow> gostring \<rightharpoonup> nat" where
  "wanted L re opts ix p =
     (case mem_abs ix p of
        None \<Rightarrow> None
      | Some (meta, content, defs) \<Rightarrow>
          if admits opts meta \<and> locsOf L re opts content \<noteq> [] then Some (length (locsOf L re opts content)) else None)"

definition live_id :: "Index \<Rightarrow> gostring \<Rightarrow> u32 \<Rightarrow> bool" where
  "live_id ix p fid \<longleftrightarrow> live_at (ix_files ix) p fid"

lemma live_id_iff: "ix_inv ix \<Longrightarrow> live_id ix p fid \<longleftrightarrow> map_of (ix_byPath ix) p = Some fid"
  by (simp add: live_id_def ix_inv_def byPath_ok_def)

lemma search_loop_counts:
  assumes inv: "ix_inv ix" and ids: "\<forall>fid \<in> set ids. unat fid < length (ix_files ix)"
    and all: "so_FilesOnly opts \<or> so_Limit opts \<le> 0"
  shows "map_of (sr_FileCounts (search_loop_ids L re opts ix ids res)) p =
    (if wanted L re opts ix p \<noteq> None \<and> (\<exists>fid \<in> set ids. live_id ix p fid)
     then wanted L re opts ix p else map_of (sr_FileCounts res) p)"
  using ids
proof (induction ids arbitrary: res)
  case (Cons fid ids)
  let ?f = "entry ix fid"
  let ?q = "fm_Path (fe_meta ?f)"
  let ?locs = "locsOf L re opts (fe_content ?f)"
  have live: "live_id ix p fid \<longleftrightarrow> \<not> fe_dead ?f \<and> ?q = p" for p
    using Cons.prems by (auto simp: live_id_def live_at_def)
  have want: "wanted L re opts ix ?q = (if skipFile opts ?f \<or> ?locs = [] then None else Some (length ?locs))"
    if "\<not> fe_dead ?f"
    using that live [of ?q] live_id_iff [OF inv, of ?q fid]
    by (auto simp: wanted_def mem_abs_def doc_of_def admits_def skipFile_def)
  define res' where "res' = (if skipFile opts ?f \<or> ?locs = [] then res
      else res\<lparr>sr_FileCounts := AList.update ?q (length ?locs) (sr_FileCounts res)\<rparr>)"
  define res'' where "res'' = (if skipFile opts ?f \<or> ?locs = [] \<or> so_FilesOnly opts then res'
      else appendLineMatches res' ?f ?locs (so_Limit opts) (so_MaxColumns opts))"
  have step: "search_loop_ids L re opts ix (fid # ids) res = search_loop_ids L re opts ix ids res''"
    using all by (auto simp: res''_def res'_def Let_def)
  have counts: "sr_FileCounts res'' = sr_FileCounts res'"
    by (simp add: res''_def appendLineMatches_def)
  show ?case
  proof (cases "skipFile opts ?f \<or> ?locs = []")
    case True
    then have "res'' = res" by (auto simp: res''_def res'_def)
    moreover have "wanted L re opts ix p = None" if "live_id ix p fid"
      using that want live [of p] True by auto
    ultimately show ?thesis
      unfolding step using Cons.IH [of res] Cons.prems by auto
  next
    case False
    then have alive: "\<not> fe_dead ?f" by (simp add: skipFile_def)
    have "map_of (sr_FileCounts res'') p = (if p = ?q then wanted L re opts ix p else map_of (sr_FileCounts res) p)"
      using False want [OF alive] by (auto simp: counts res'_def update_conv')
    moreover have "wanted L re opts ix ?q \<noteq> None" using False want [OF alive] by simp
    ultimately show ?thesis
      unfolding step using Cons.IH [of res''] Cons.prems live [of p] alive by auto
  qed
qed simp

text \<open>A literal prunes soundly for these options when its keys are in every text that matches.\<close>

definition literal_sound :: "'re regexlib \<Rightarrow> 're \<Rightarrow> SearchOpts \<Rightarrow> bool" where
  "literal_sound L re opts \<longleftrightarrow>
     (\<forall>s. locsOf L re opts s \<noteq> [] \<longrightarrow> keys_of (so_Literal opts) \<subseteq> keys_of s)"

lemma candidates_in_range:
  assumes "ix_inv ix" and "perm_order rng"
  shows "\<forall>fid \<in> set (candidatesLocked rng ix lit). unat fid < length (ix_files ix)"
proof (cases "length lit < 3")
  case True
  then show ?thesis
    using candidates_short [OF assms(1) True] assms(2) by (auto simp: perm_order_def live_at_def)
next
  case False
  then show ?thesis using candidates_long [OF assms(1), of lit rng] by auto
qed

lemma candidate_docs:
  assumes "ix_inv ix" and "perm_order rng" and "\<And>meta content. Q meta content \<Longrightarrow> keys_of lit \<subseteq> keys_of content"
  shows "(\<exists>fid \<in> set (candidatesLocked rng ix lit). \<not> fe_dead (entry ix fid) \<and>
            fm_Path (fe_meta (entry ix fid)) = p \<and> Q (fe_meta (entry ix fid)) (fe_content (entry ix fid))) \<longleftrightarrow>
         (\<exists>meta content defs. mem_abs ix p = Some (meta, content, defs) \<and> Q meta content)" (is "?l \<longleftrightarrow> ?r")
proof
  assume ?l
  then obtain fid where fid: "fid \<in> set (candidatesLocked rng ix lit)" "\<not> fe_dead (entry ix fid)"
    "fm_Path (fe_meta (entry ix fid)) = p" "Q (fe_meta (entry ix fid)) (fe_content (entry ix fid))" by blast
  moreover have "unat fid < length (ix_files ix)" using candidates_in_range [OF assms(1,2)] fid(1) by blast
  ultimately have "live_id ix p fid" by (simp add: live_id_def live_at_def)
  with fid(4) show ?r using live_id_iff [OF assms(1)] by (auto simp: mem_abs_def doc_of_def)
next
  assume ?r
  then obtain fid where fid: "map_of (ix_byPath ix) p = Some fid" "Q (fe_meta (entry ix fid)) (fe_content (entry ix fid))"
    by (auto simp: mem_abs_def doc_of_def)
  then have live: "live_at (ix_files ix) p fid" using live_id_iff [OF assms(1)] by (simp add: live_id_def)
  then have "mem_doc ix fid = Some (fe_content (entry ix fid))" by (simp add: live_at_def mem_doc_def)
  then have "fid \<in> set (candidatesLocked rng ix lit)"
    using memtri.cands_complete [of "(rng, ix)" fid _ lit] assms fid(2) by simp
  with live fid(2) show ?l by (auto simp: live_at_def)
qed

lemma Search_counts:
  assumes "ix_inv ix" and "perm_order rng" and "literal_sound L re opts"
    and "so_FilesOnly opts \<or> so_Limit opts \<le> 0"
  shows "map_of (sr_FileCounts (Search L rng ix re opts)) = wanted L re opts ix"
proof
  fix p
  have "\<exists>fid \<in> set (candidatesLocked rng ix (so_Literal opts)). live_id ix p fid"
    if "wanted L re opts ix p \<noteq> None"
  proof -
    from that obtain fid where fid: "map_of (ix_byPath ix) p = Some fid" "locsOf L re opts (fe_content (entry ix fid)) \<noteq> []"
      by (auto simp: wanted_def mem_abs_def doc_of_def split: if_splits option.splits)
    then have "live_id ix p fid" using live_id_iff [OF assms(1)] by simp
    moreover from this have "mem_doc ix fid = Some (fe_content (entry ix fid))"
      by (simp add: live_id_def live_at_def mem_doc_def)
    ultimately show ?thesis
      using memtri.cands_complete [of "(rng, ix)" fid _ "so_Literal opts"] assms fid(2)
      by (auto simp: literal_sound_def)
  qed
  with search_loop_counts [OF assms(1) candidates_in_range [OF assms(1,2)] assms(4),
      of L re "so_Literal opts" "\<lparr>sr_Matches = [], sr_FileCounts = [], sr_Truncated = False\<rparr>" p]
  show "map_of (sr_FileCounts (Search L rng ix re opts)) p = wanted L re opts ix p"
    by (cases "wanted L re opts ix p") (auto simp: Search_def)
qed

lemma Search_matches:
  assumes "regex_ok L re"
  shows "sr_Matches (Search L rng ix re opts) =
      cutAt (so_Limit opts) (concat (map (\<lambda>fid. fileMatches L re opts (entry ix fid)) (candidatesLocked rng ix (so_Literal opts)))) \<and>
    (sr_Truncated (Search L rng ix re opts) \<longleftrightarrow> so_Limit opts > 0 \<and>
      so_Limit opts \<le> int (length (concat (map (\<lambda>fid. fileMatches L re opts (entry ix fid)) (candidatesLocked rng ix (so_Literal opts))))))"
  unfolding Search_def by (subst search_loop_matches [OF assms] | simp)+

lemma fileMatches_lines:
  assumes "regex_ok L re" and "\<not> so_FilesOnly opts"
  shows "(\<lambda>m. (mt_Path m, mt_Line m)) ` set (fileMatches L re opts f) =
      (if skipFile opts f then {}
       else {(fm_Path (fe_meta f), lineOf (fe_content f) a) | a b. (a, b) \<in> set (locsOf L re opts (fe_content f))})"
proof -
  let ?s = "fe_content f" and ?p = "fm_Path (fe_meta f)"
  have lines: "(\<lambda>l. lineOf ?s (fst l)) ` set (firstPerLine ?s None (locsOf L re opts ?s)) =
      (\<lambda>l. lineOf ?s (fst l)) ` set (locsOf L re opts ?s)"
    using firstPerLine_lines [where prev = None, OF locsOf_ok [OF assms(1), of ?s opts]] by simp
  have "(\<lambda>m. (mt_Path m, mt_Line m)) ` set (lineMatches f mc None (locsOf L re opts ?s)) =
      Pair ?p ` (\<lambda>l. lineOf ?s (fst l)) ` set (locsOf L re opts ?s)" for mc
    unfolding lines [symmetric] by (simp add: lineMatches_def lineMatch_def Let_def image_image)
  moreover have "Pair ?p ` (\<lambda>l. lineOf ?s (fst l)) ` A = {(?p, lineOf ?s a) | a b. (a, b) \<in> A}"
    for A :: "(nat \<times> nat) set"
    by force
  ultimately show ?thesis
    using assms(2) by (simp add: fileMatches_def)
qed

subsection \<open>Plain literals\<close>

lemma locs_nonempty_iff:
  assumes "so_PlainLiteral opts \<noteq> []"
  shows "locsOf L re opts s \<noteq> [] \<longleftrightarrow>
    Contains (case_norm (so_FoldCase opts) s) (case_norm (so_FoldCase opts) (so_PlainLiteral opts))"
    (is "?l \<noteq> [] \<longleftrightarrow> Contains ?s ?lit")
proof
  assume "?l \<noteq> []"
  then obtain a b where "(a, b) \<in> set (findAll_exact ?s ?lit 0)"
    using assms by (auto simp: locsOf_def literalFindAll_norm) (metis list.set_intros(1) neq_Nil_conv surj_pair)
  then have "prefix ?lit (drop a ?s)" by (blast dest: findAll_exact_sound)
  then show "Contains ?s ?lit"
    by (metis Contains_iff sublist_order.order_trans prefix_imp_sublist suffix_drop suffix_imp_sublist)
next
  assume "Contains ?s ?lit"
  then obtain j where "prefix ?lit (drop j ?s)"
    by (auto simp: Contains_def bytes_Index_None_iff)
  then show "?l \<noteq> []"
    using findAll_exact_complete [of ?lit 0 j ?s] assms by (auto simp: locsOf_def literalFindAll_norm)
qed

lemma plain_literal_sound:
  assumes "so_PlainLiteral opts = lit" and "lit \<noteq> []" and "\<not> HasNonASCII lit"
    and "so_Literal opts = ExtractLiteral parse uni lit True"
  shows "literal_sound L re opts"
proof -
  have "keys_of lit \<subseteq> keys_of s" if "locsOf L re opts s \<noteq> []" for s
  proof -
    have "Contains (case_norm (so_FoldCase opts) s) (case_norm (so_FoldCase opts) lit)"
      using that assms(1,2) by (simp add: locs_nonempty_iff)
    then have "sublist (map lower lit) (map lower s)"
      by (auto simp: Contains_iff case_norm_def dest: map_mono_sublist split: if_splits)
    then show ?thesis using keys_of_sublist by fastforce
  qed
  with ExtractLiteral_fixed_keys [OF assms(3), of parse uni] show ?thesis
    unfolding literal_sound_def assms(4) by blast
qed

subsection \<open>Properties\<close>

text \<open>One daemon change against the index.\<close>

fun mem_apply :: "Index \<Rightarrow> document change \<Rightarrow> Index" where
  "mem_apply ix (Put d) = (case d of (meta, content, defs) \<Rightarrow> AddWithKeys ix meta content (TrigramKeys content) defs)"
| "mem_apply ix (Del p) = Remove ix p"
| "mem_apply ix (DelPrefix dir) = RemovePrefix ix dir"

lemma mem_apply_step: "mem_apply = mem.step"
proof (intro ext)
  fix ix c show "mem_apply ix c = mem.step ix c"
    by (cases c) (simp_all add: mem_put_def)
qed

lemma New_ok: "ix_inv (New root)" "mem_abs (New root) = Map.empty"
  by (auto simp: ix_inv_def New_def byPath_ok_def live_at_def mem_abs_def)

text \<open>C7. The index refines a map from paths to documents: after any history of added,
  removed and directory-removed files from an empty index (fewer than \<open>2 ^ 32\<close> of them),
  tombstones and compactions included, a path looks up exactly the document that the
  same history leaves in the map, and every internal structure is consistent.\<close>

theorem mem_index_refines_map:
  assumes "length cs \<le> 2 ^ 32"
  shows "mem_abs (foldl mem_apply (New root) cs) = foldl (change_spec doc_path) Map.empty cs \<and>
         ix_inv (foldl mem_apply (New root) cs)"
proof -
  have "length (ix_files (New root)) + length cs \<le> 2 ^ 32" using assms by (simp add: New_def)
  from mem.history_refines [OF New_ok(1) this] show ?thesis
    by (simp add: mem_apply_step New_ok)
qed

theorem mem_index_refines_map_witness:
  "mem_abs (foldl mem_apply (New [])
     [Put (\<lparr>fm_Path = str ''d/a'', fm_Size = 1, fm_MtimeNS = 5\<rparr>, str ''x'', []), DelPrefix (str ''d'')]) (str ''d/a'') = None"
proof -
  let ?cs = "[Put (\<lparr>fm_Path = str ''d/a'', fm_Size = 1, fm_MtimeNS = 5\<rparr>, str ''x'', []), DelPrefix (str ''d'')]"
  have "length ?cs \<le> 2 ^ 32" by simp
  moreover have "under_dir (str ''d'') (str ''d/a'')" by code_simp
  ultimately show ?thesis using mem_index_refines_map [of ?cs "[]"] by simp
qed

text \<open>A search for a fixed ASCII literal, without a limit or listing files only, counts
  exactly the indexed files that pass the size and path filters and contain the literal, up to
  ASCII case when folding, each with its number of non-overlapping occurrences,
  whatever order Go iterates its maps in.\<close>

theorem Search_literal_exact:
  assumes "ix_inv ix" and "perm_order rng"
    and "so_PlainLiteral opts = lit" and "lit \<noteq> []" and "\<not> HasNonASCII lit"
    and "so_Literal opts = ExtractLiteral parse uni lit True"
    and "so_FilesOnly opts \<or> so_Limit opts \<le> 0"
  shows "map_of (sr_FileCounts (Search L rng ix re opts)) p = Some n \<longleftrightarrow>
    (\<exists>meta content defs. mem_abs ix p = Some (meta, content, defs) \<and> admits opts meta \<and>
       Contains (case_norm (so_FoldCase opts) content) (case_norm (so_FoldCase opts) lit) \<and>
       n = length (literalFindAll content lit (so_FoldCase opts)))"
proof -
  have "so_PlainLiteral opts \<noteq> []" using assms(3,4) by simp
  note iff = locs_nonempty_iff [OF this, where L = L and re = re]
  have "map_of (sr_FileCounts (Search L rng ix re opts)) p = wanted L re opts ix p"
    using Search_counts [OF assms(1,2) plain_literal_sound [OF assms(3-6)] assms(7), of L re] by simp
  then show ?thesis
    using assms(3,4) iff
    by (auto simp: wanted_def locsOf_def split: option.splits if_splits)
qed

theorem Search_literal_exact_witness:
  "map_of (sr_FileCounts (Search \<lparr>re_Parse = (\<lambda>_. None), re_Compile = Inr, re_String = (\<lambda>re. re),
        re_FindIndex = (\<lambda>_ _. None), re_FindAllIndex = (\<lambda>_ _. [])\<rparr> (\<lambda>xs. xs)
      (mem_apply (New []) (Put (\<lparr>fm_Path = str ''a'', fm_Size = 6, fm_MtimeNS = 5\<rparr>, str ''xFOOfo'', [])))
      (str ''foo'')
      \<lparr>so_Literal = ExtractLiteral (\<lambda>_. None) (\<lambda>r. r) (str ''foo'') True, so_PathMatch = None, so_FilesOnly = False,
       so_Limit = 0, so_PlainLiteral = str ''foo'', so_FoldCase = True, so_MaxColumns = 0, so_MaxFileSize = 0\<rparr>))
    (str ''a'') = Some 1"
proof -
  let ?m = "\<lparr>fm_Path = str ''a'', fm_Size = 6, fm_MtimeNS = 5\<rparr>"
  let ?d = "(?m, str ''xFOOfo'', []) :: document"
  let ?ix = "mem_apply (New []) (Put ?d)"
  let ?opts = "\<lparr>so_Literal = ExtractLiteral (\<lambda>_. None) (\<lambda>r. r) (str ''foo'') True, so_PathMatch = None,
      so_FilesOnly = False, so_Limit = 0, so_PlainLiteral = str ''foo'', so_FoldCase = True, so_MaxColumns = 0, so_MaxFileSize = 0\<rparr>"
  have "length (ix_files (New [])) < 2 ^ 32" by (simp add: New_def)
  then have ix: "ix_inv ?ix" "mem_abs ?ix (str ''a'') = Some ?d"
    using mem.step_refines [OF New_ok(1), of "[]" "Put ?d"] by (simp_all add: mem_apply_step doc_path_def)
  have rng: "perm_order (\<lambda>xs. xs)" by (simp add: perm_order_def)
  have lit: "so_PlainLiteral ?opts = str ''foo''" "str ''foo'' \<noteq> []" "\<not> HasNonASCII (str ''foo'')"
    by (simp_all add: str_def HasNonASCII_def)
  have occ: "Contains (case_norm True (str ''xFOOfo'')) (case_norm True (str ''foo''))"
    "1 = length (literalFindAll (str ''xFOOfo'') (str ''foo'') True)" by code_simp+
  have "admits ?opts ?m" by (simp add: admits_def pathOk_def)
  with ix(2) occ show ?thesis
    by (subst Search_literal_exact [OF ix(1) rng lit, of "\<lambda>_. None" "\<lambda>r. r"]) simp_all
qed

text \<open>C20. Search with a positive limit returns the first \<open>limit\<close> matches of the unlimited
  search, and reports truncation exactly when the unlimited search has at least that many.\<close>

theorem Search_limit_prefix:
  assumes "regex_ok L re" and "so_Limit opts > 0"
  shows "sr_Matches (Search L rng ix re opts) =
           take (nat (so_Limit opts)) (sr_Matches (Search L rng ix re (opts\<lparr>so_Limit := 0\<rparr>))) \<and>
         (sr_Truncated (Search L rng ix re opts) \<longleftrightarrow>
           so_Limit opts \<le> int (length (sr_Matches (Search L rng ix re (opts\<lparr>so_Limit := 0\<rparr>)))))"
proof -
  have "fileMatches L re (opts\<lparr>so_Limit := 0\<rparr>) = fileMatches L re opts"
    by (rule ext) (simp add: fileMatches_def skipFile_def locsOf_def)
  then show ?thesis
    using assms(2) Search_matches [OF assms(1), of rng ix opts]
      Search_matches [OF assms(1), of rng ix "opts\<lparr>so_Limit := 0\<rparr>"]
    by (simp add: cutAt_def)
qed

theorem Search_limit_prefix_witness:
  "map mt_Line (sr_Matches (Search \<lparr>re_Parse = (\<lambda>_. None), re_Compile = Inr, re_String = (\<lambda>re. re),
        re_FindIndex = (\<lambda>_ _. None), re_FindAllIndex = (\<lambda>_ _. [])\<rparr> (\<lambda>xs. xs)
      (mem_apply (New []) (Put (\<lparr>fm_Path = str ''a'', fm_Size = 5, fm_MtimeNS = 5\<rparr>, [120, 10, 120, 10, 120], []))) []
      \<lparr>so_Literal = [], so_PathMatch = None, so_FilesOnly = False, so_Limit = 2, so_PlainLiteral = str ''x'', so_FoldCase = False,
       so_MaxColumns = 0, so_MaxFileSize = 0\<rparr>)) = [1, 2]"
proof -
  let ?L = "\<lparr>re_Parse = (\<lambda>_. None), re_Compile = Inr, re_String = (\<lambda>re. re),
        re_FindIndex = (\<lambda>_ _. None), re_FindAllIndex = (\<lambda>_ _. [])\<rparr> :: gostring regexlib"
  let ?d = "(\<lparr>fm_Path = str ''a'', fm_Size = 5, fm_MtimeNS = 5\<rparr>, [120, 10, 120, 10, 120], []) :: document"
  let ?ix = "mem_apply (New []) (Put ?d)"
  let ?opts = "\<lparr>so_Literal = [], so_PathMatch = None, so_FilesOnly = False, so_Limit = 2, so_PlainLiteral = str ''x'',
       so_FoldCase = False, so_MaxColumns = 0, so_MaxFileSize = 0\<rparr>"
  have rx: "regex_ok ?L []" by (simp add: regex_ok_def locs_ok_def)
  have full: "map mt_Line (sr_Matches (Search ?L (\<lambda>xs. xs) ?ix [] (?opts\<lparr>so_Limit := 0\<rparr>))) = [1, 2, 3]" by code_simp
  have "so_Limit ?opts > 0" by simp
  from Search_limit_prefix [OF rx this, of "\<lambda>xs. xs" ?ix]
  have "sr_Matches (Search ?L (\<lambda>xs. xs) ?ix [] ?opts) = take 2 (sr_Matches (Search ?L (\<lambda>xs. xs) ?ix [] (?opts\<lparr>so_Limit := 0\<rparr>)))"
    by simp
  then have "map mt_Line (sr_Matches (Search ?L (\<lambda>xs. xs) ?ix [] ?opts)) =
      take 2 (map mt_Line (sr_Matches (Search ?L (\<lambda>xs. xs) ?ix [] (?opts\<lparr>so_Limit := 0\<rparr>))))"
    by (simp only: take_map)
  then show ?thesis unfolding full by simp
qed

text \<open>The unlimited listing reports each line with a match once, in the files that have every trigram of the literal: a candidate has
  them, and a file that has them is a candidate.\<close>

lemma Search_lines_pruned:
  assumes "ix_inv ix" and "perm_order rng" and "regex_ok L re" and "so_Limit opts \<le> 0" and "\<not> so_FilesOnly opts"
  shows "(p, l) \<in> (\<lambda>m. (mt_Path m, mt_Line m)) ` set (sr_Matches (Search L rng ix re opts)) \<longleftrightarrow>
    (\<exists>meta content defs a b. mem_abs ix p = Some (meta, content, defs) \<and> admits opts meta \<and>
       keys_of (so_Literal opts) \<subseteq> keys_of content \<and> (a, b) \<in> set (locsOf L re opts content) \<and> l = lineOf content a)"
    (is "?lhs \<longleftrightarrow> ?rhs")
proof -
  let ?cands = "set (candidatesLocked rng ix (so_Literal opts))"
  have keys: "keys_of (so_Literal opts) \<subseteq> keys_of (fe_content (entry ix fid))" if "fid \<in> ?cands" "\<not> fe_dead (entry ix fid)" for fid
  proof (cases "length (so_Literal opts) < 3")
    case False
    have "mem_doc ix fid = Some (fe_content (entry ix fid))"
      using candidates_in_range [OF assms(1,2)] that by (simp add: mem_doc_def)
    then show ?thesis
      using memtri.cands_sound [of "(rng, ix)" fid _ "so_Literal opts"] assms(1,2) that(1) False by simp
  qed (simp add: keys_of_def)
  have "set (sr_Matches (Search L rng ix re opts)) = (\<Union>fid \<in> ?cands. set (fileMatches L re opts (entry ix fid)))"
    using Search_matches [OF assms(3), of rng ix opts] assms(4) by (simp add: cutAt_def)
  with fileMatches_lines [OF assms(3,5)]
  have "?lhs \<longleftrightarrow> (\<exists>fid \<in> ?cands. \<not> skipFile opts (entry ix fid) \<and> p = fm_Path (fe_meta (entry ix fid)) \<and>
      (\<exists>a b. (a, b) \<in> set (locsOf L re opts (fe_content (entry ix fid))) \<and> l = lineOf (fe_content (entry ix fid)) a))"
    by (auto simp: image_UN split: if_splits)
  also have "\<dots> \<longleftrightarrow> (\<exists>fid \<in> ?cands. \<not> fe_dead (entry ix fid) \<and> fm_Path (fe_meta (entry ix fid)) = p \<and>
      admits opts (fe_meta (entry ix fid)) \<and> keys_of (so_Literal opts) \<subseteq> keys_of (fe_content (entry ix fid)) \<and>
      (\<exists>a b. (a, b) \<in> set (locsOf L re opts (fe_content (entry ix fid))) \<and> l = lineOf (fe_content (entry ix fid)) a))"
    using keys by (auto simp: skipFile_def admits_def)
  also have "\<dots> \<longleftrightarrow> ?rhs"
    by (subst candidate_docs [OF assms(1,2), where Q = "\<lambda>meta content. admits opts meta \<and>
          keys_of (so_Literal opts) \<subseteq> keys_of content \<and>
          (\<exists>a b. (a, b) \<in> set (locsOf L re opts content) \<and> l = lineOf content a)"]) blast+
  finally show ?thesis .
qed

text \<open>Where the literal loses nothing these are all the lines on which a match of an admitted file starts.\<close>

theorem Search_lines_exact:
  assumes "ix_inv ix" and "perm_order rng" and "literal_sound L re opts" and "regex_ok L re"
    and "so_Limit opts \<le> 0" and "\<not> so_FilesOnly opts"
  shows "(p, l) \<in> (\<lambda>m. (mt_Path m, mt_Line m)) ` set (sr_Matches (Search L rng ix re opts)) \<longleftrightarrow>
    (\<exists>meta content defs a b. mem_abs ix p = Some (meta, content, defs) \<and> admits opts meta \<and>
       (a, b) \<in> set (locsOf L re opts content) \<and> l = lineOf content a)"
  unfolding Search_lines_pruned [OF assms(1,2,4-6)] using assms(3) by (force simp: literal_sound_def)

theorem Search_lines_exact_witness:
  "(str ''a'', 2) \<in> (\<lambda>m. (mt_Path m, mt_Line m)) ` set (sr_Matches (Search \<lparr>re_Parse = (\<lambda>_. None), re_Compile = Inr,
        re_String = (\<lambda>re. re), re_FindIndex = (\<lambda>_ _. None), re_FindAllIndex = (\<lambda>_ _. [])\<rparr> (\<lambda>xs. xs)
      (mem_apply (New []) (Put (\<lparr>fm_Path = str ''a'', fm_Size = 4, fm_MtimeNS = 5\<rparr>, [120, 10, 120, 121], []))) []
      \<lparr>so_Literal = [], so_PathMatch = None, so_FilesOnly = False, so_Limit = 0, so_PlainLiteral = str ''xy'',
       so_FoldCase = False, so_MaxColumns = 0, so_MaxFileSize = 0\<rparr>))"
proof -
  let ?L = "\<lparr>re_Parse = (\<lambda>_. None), re_Compile = Inr, re_String = (\<lambda>re. re),
        re_FindIndex = (\<lambda>_ _. None), re_FindAllIndex = (\<lambda>_ _. [])\<rparr> :: gostring regexlib"
  let ?m = "\<lparr>fm_Path = str ''a'', fm_Size = 4, fm_MtimeNS = 5\<rparr>"
  let ?d = "(?m, [120, 10, 120, 121], []) :: document"
  let ?ix = "mem_apply (New []) (Put ?d)"
  let ?opts = "\<lparr>so_Literal = [], so_PathMatch = None, so_FilesOnly = False, so_Limit = 0, so_PlainLiteral = str ''xy'',
       so_FoldCase = False, so_MaxColumns = 0, so_MaxFileSize = 0\<rparr>"
  have "length (ix_files (New [])) < 2 ^ 32" by (simp add: New_def)
  then have ix: "ix_inv ?ix" "mem_abs ?ix (str ''a'') = Some ?d"
    using mem.step_refines [OF New_ok(1), of "[]" "Put ?d"] by (simp_all add: mem_apply_step doc_path_def)
  have hyps: "perm_order (\<lambda>xs. xs)" "literal_sound ?L [] ?opts" "regex_ok ?L []"
    by (simp_all add: perm_order_def literal_sound_def regex_ok_def locs_ok_def)
  have loc: "literalFindAll [120, 10, 120, 121] (str ''xy'') False = [(2, 4)]" "lineOf [120, 10, 120, 121] 2 = 2"
    by code_simp+
  have "admits ?opts ?m" "(2, 4) \<in> set (locsOf ?L [] ?opts [120, 10, 120, 121])"
    using loc by (simp_all add: admits_def pathOk_def locsOf_def str_def)
  with ix(2) loc(2) show ?thesis
    by (subst Search_lines_exact [OF ix(1) hyps]) auto
qed

text \<open>Definition lookup returns exactly the definitions of indexed files whose name is the
  wanted one, with the path of the file and the text of the definition's line.\<close>

theorem Defs_exact:
  assumes "ix_inv ix"
  shows "h \<in> set (Defs S ix name False pathMatch) \<longleftrightarrow>
    (\<exists>p meta content defs d. mem_abs ix p = Some (meta, content, defs) \<and> pathOk pathMatch p \<and>
       d \<in> set defs \<and> d_Name d = name \<and>
       h = \<lparr>dh_Path = p, dh_Def = d, dh_Text = LineText content (d_Line d)\<rparr>)"
proof -
  have "h \<in> set (Defs S ix name False pathMatch) \<longleftrightarrow>
      (\<exists>f d. is_live ix f \<and> pathOk pathMatch (fm_Path (fe_meta f)) \<and> d \<in> set (fe_defs f) \<and> d_Name d = name \<and>
         h = \<lparr>dh_Path = fm_Path (fe_meta f), dh_Def = d, dh_Text = LineText (fe_content f) (d_Line d)\<rparr>)"
    by (fastforce simp: Defs_def is_live_def split: if_splits)
  then show ?thesis
    unfolding mem_abs_Some_iff [OF assms] by (fastforce simp: doc_of_def)
qed

theorem Defs_exact_witness:
  "\<lparr>dh_Path = str ''a'', dh_Def = \<lparr>d_Name = str ''f'', d_Kind = KindFunc, d_Container = [], d_Line = 1\<rparr>, dh_Text = str ''func f''\<rparr>
   \<in> set (Defs \<lparr>ParseFile = (\<lambda>_. None), FindAllSubmatchIndex = (\<lambda>_ _. []), FindSubmatch = (\<lambda>_ _. None), unicode_ToLower = (\<lambda>r. r)\<rparr>
       (mem_apply (New []) (Put (\<lparr>fm_Path = str ''a'', fm_Size = 6, fm_MtimeNS = 5\<rparr>, str ''func f'',
          [\<lparr>d_Name = str ''f'', d_Kind = KindFunc, d_Container = [], d_Line = 1\<rparr>])))
       (str ''f'') False None)"
proof -
  let ?def = "\<lparr>d_Name = str ''f'', d_Kind = KindFunc, d_Container = [], d_Line = 1\<rparr>"
  let ?d = "(\<lparr>fm_Path = str ''a'', fm_Size = 6, fm_MtimeNS = 5\<rparr>, str ''func f'', [?def]) :: document"
  have "length (ix_files (New [])) < 2 ^ 32" by (simp add: New_def)
  then have ix: "ix_inv (mem_apply (New []) (Put ?d))" "mem_abs (mem_apply (New []) (Put ?d)) (str ''a'') = Some ?d"
    using mem.step_refines [OF New_ok(1), of "[]" "Put ?d"] by (simp_all add: mem_apply_step doc_path_def)
  have "LineText (str ''func f'') 1 = str ''func f''" by code_simp
  with ix(2) show ?thesis
    unfolding Defs_exact [OF ix(1)]
    by (intro exI [of _ "str ''a''"] exI [of _ "fst ?d"] exI [of _ "str ''func f''"] exI [of _ "[?def]"] exI [of _ ?def])
      (simp add: pathOk_def)
qed

text \<open>A long line is shown as a window of exactly \<open>maxCols\<close> bytes of it that contains the
  match offset, with an ellipsis on each side where bytes were cut.\<close>

theorem TruncateWindow_shows_match:
  assumes "0 < maxCols" and "maxCols < int (length ln)" and "0 \<le> off" and "off < int (length ln)"
  shows "\<exists>start. int start \<le> off \<and> off < int start + maxCols \<and> start + nat maxCols \<le> length ln \<and>
    TruncateWindow ln off maxCols =
      (if start > 0 then ellipsis else []) @ slice ln start (start + nat maxCols) @
      (if start + nat maxCols < length ln then ellipsis else [])"
proof -
  define st0 where "st0 = (if off > maxCols div 2 then off - maxCols div 2 else 0)"
  define st where "st = (if st0 + maxCols > int (length ln) then int (length ln) - maxCols else st0)"
  have half: "0 \<le> maxCols div 2" "maxCols div 2 < maxCols" using assms(1) by auto
  have st: "0 \<le> st" "st \<le> off" "off < st + maxCols" "st + maxCols \<le> int (length ln)"
    using half assms by (auto simp: st_def st0_def split: if_splits)
  have "TruncateWindow ln off maxCols =
      (if st > 0 then ellipsis else []) @ slice ln (nat st) (nat (st + maxCols)) @
      (if st + maxCols < int (length ln) then ellipsis else [])"
    using assms by (auto simp: TruncateWindow_def st_def st0_def Let_def)
  then show ?thesis
    using st assms(1) by (intro exI [of _ "nat st"]) (auto simp: nat_add_distrib)
qed

theorem TruncateWindow_shows_match_witness:
  "\<exists>start. int start \<le> 6 \<and> 6 < int start + 4 \<and> start + 4 \<le> 8 \<and>
    TruncateWindow (str ''abcdefgh'') 6 4 =
      (if start > 0 then ellipsis else []) @ slice (str ''abcdefgh'') start (start + 4) @
      (if start + 4 < 8 then ellipsis else [])"
proof -
  have "length (str ''abcdefgh'') = 8" by (simp add: str_def)
  then show ?thesis using TruncateWindow_shows_match [of 4 "str ''abcdefgh''" 6] by simp
qed

lemma fileMatches_lineMatch:
  assumes "regex_ok L re" and "m \<in> set (fileMatches L re opts f)"
  shows "\<exists>loc \<in> set (locsOf L re opts (fe_content f)).
    \<not> skipFile opts f \<and> m = lineMatch f loc (lineOf (fe_content f) (fst loc)) (so_MaxColumns opts)"
proof -
  have "set (firstPerLine (fe_content f) None (locsOf L re opts (fe_content f))) \<subseteq> set (locsOf L re opts (fe_content f))"
    using firstPerLine_lines [where prev = None, OF locsOf_ok [OF assms(1)]] by simp
  with assms(2) show ?thesis
    by (auto simp: fileMatches_def lineMatches_def split: if_splits)
qed

lemma literal_match_single_line:
  assumes "(a, b) \<in> set (literalFindAll s lit nocase)" and "newline \<notin> set lit"
  shows "newline \<notin> set (slice s a b)"
proof
  have occ: "b = a + length lit" "prefix (case_norm nocase lit) (drop a (case_norm nocase s))"
    using assms(1) findAll_exact_sound unfolding literalFindAll_norm by fastforce+
  then obtain zs where zs: "drop a (case_norm nocase s) = case_norm nocase lit @ zs"
    by (auto simp: prefix_def)
  have "case_norm nocase (slice s a b) = take (length lit) (drop a (case_norm nocase s))"
    using occ(1) by (simp add: slice_def case_norm_def take_map drop_map)
  then have eq: "case_norm nocase (slice s a b) = case_norm nocase lit"
    unfolding zs by simp
  assume "newline \<in> set (slice s a b)"
  then have "case_norm nocase [newline] ! 0 \<in> set (case_norm nocase (slice s a b))"
    by (auto simp: case_norm_def)
  then obtain x where "x \<in> set lit" "(if nocase then lower x = lower newline else x = newline)"
    unfolding eq by (auto simp: case_norm_def split: if_splits)
  moreover have "lower x = newline \<Longrightarrow> x = newline" "lower newline = newline" for x
    using unat_lower [of x] by (auto simp: lower_def word_le_nat_alt word_unat_eq_iff split: if_splits)
  ultimately show False using assms(2) by (auto split: if_splits)
qed

text \<open>With no column limit, every match of a plain literal without a newline belongs to an
  indexed file and its text is the full source line of that number in it.\<close>

theorem Search_match_text:
  assumes "ix_inv ix" and "perm_order rng" and "regex_ok L re"
    and "so_PlainLiteral opts = lit" and "lit \<noteq> []" and "newline \<notin> set lit" and "so_MaxColumns opts \<le> 0"
    and "m \<in> set (sr_Matches (Search L rng ix re opts))"
  shows "\<exists>meta content defs. mem_abs ix (mt_Path m) = Some (meta, content, defs) \<and> admits opts meta \<and>
    mt_Text m = LineText content (mt_Line m)"
proof -
  let ?cands = "candidatesLocked rng ix (so_Literal opts)"
  have "set (cutAt n xs) \<subseteq> set xs" for n and xs :: "Match list"
    by (auto simp: cutAt_def dest: in_set_takeD)
  then obtain fid where fid: "fid \<in> set ?cands" "m \<in> set (fileMatches L re opts (entry ix fid))"
    using Search_matches [OF assms(3), of rng ix opts] assms(8) by fastforce
  let ?f = "entry ix fid"
  obtain a b where m: "(a, b) \<in> set (locsOf L re opts (fe_content ?f))" "\<not> skipFile opts ?f"
    "m = lineMatch ?f (a, b) (lineOf (fe_content ?f) a) (so_MaxColumns opts)"
    using fileMatches_lineMatch [OF assms(3) fid(2)] by auto
  have loc: "a \<le> b" "b \<le> length (fe_content ?f)"
    using locsOf_ok [OF assms(3), of "fe_content ?f" opts] m(1) by (auto simp: locs_ok_def)
  have "newline \<notin> set (slice (fe_content ?f) a b)"
    using m(1) assms(4-6) by (intro literal_match_single_line) (auto simp: locsOf_def)
  then have shown: "mt_Text m = LineText (fe_content ?f) (mt_Line m)" "mt_Path m = fm_Path (fe_meta ?f)"
    using lineMatch_text [OF loc _ assms(7)] by (simp_all add: m(3) lineMatch_def Let_def)
  have "unat fid < length (ix_files ix)" using candidates_in_range [OF assms(1,2)] fid(1) by blast
  then have "live_id ix (mt_Path m) fid" using m(2) shown(2) by (simp add: live_id_def live_at_def skipFile_def)
  with shown(1) m(2) show ?thesis
    using live_id_iff [OF assms(1)] by (auto simp: mem_abs_def doc_of_def admits_def skipFile_def)
qed

theorem Search_match_text_witness:
  "\<exists>meta content defs. mem_abs
     (mem_apply (New []) (Put (\<lparr>fm_Path = str ''a'', fm_Size = 4, fm_MtimeNS = 5\<rparr>, str ''a xy'', [])))
     (str ''a'') = Some (meta, content, defs) \<and> str ''a xy'' = LineText content 1"
proof -
  let ?L = "\<lparr>re_Parse = (\<lambda>_. None), re_Compile = Inr, re_String = (\<lambda>re. re),
        re_FindIndex = (\<lambda>_ _. None), re_FindAllIndex = (\<lambda>_ _. [])\<rparr> :: gostring regexlib"
  let ?d = "(\<lparr>fm_Path = str ''a'', fm_Size = 4, fm_MtimeNS = 5\<rparr>, str ''a xy'', []) :: document"
  let ?ix = "mem_apply (New []) (Put ?d)"
  let ?opts = "\<lparr>so_Literal = [], so_PathMatch = None, so_FilesOnly = False, so_Limit = 0, so_PlainLiteral = str ''xy'',
       so_FoldCase = False, so_MaxColumns = 0, so_MaxFileSize = 0\<rparr>"
  let ?m = "\<lparr>mt_Path = str ''a'', mt_Line = 1, mt_Text = str ''a xy'', mt_Col = 2, mt_LineLen = 4\<rparr>"
  have "length (ix_files (New [])) < 2 ^ 32" by (simp add: New_def)
  then have ix: "ix_inv ?ix"
    using mem.step_refines [OF New_ok(1), of "[]" "Put ?d"] by (simp add: mem_apply_step)
  have hyps: "perm_order (\<lambda>xs. xs)" "regex_ok ?L []"
    by (simp_all add: perm_order_def regex_ok_def locs_ok_def)
  have found: "sr_Matches (Search ?L (\<lambda>xs. xs) ?ix [] ?opts) = [?m]" by code_simp
  have found_m: "?m \<in> set (sr_Matches (Search ?L (\<lambda>xs. xs) ?ix [] ?opts))" unfolding found by (rule list.set_intros)
  have lit: "str ''xy'' \<noteq> []" "newline \<notin> set (str ''xy'')" by (simp_all add: str_def)
  have "\<exists>meta content defs. mem_abs ?ix (mt_Path ?m) = Some (meta, content, defs) \<and> admits ?opts meta \<and>
      mt_Text ?m = LineText content (mt_Line ?m)"
    by (rule Search_match_text [OF ix hyps _ lit _ found_m]) simp_all
  then show ?thesis by auto
qed

end
