(* ===== verification/Engine.thy ===== *)
theory Engine
  imports Manifest MemSearch "HOL-Library.Monad_Syntax"
begin

text \<open>
  \<open>internal/shard/engine.go\<close>: the disk-backed engine, ordered immutable shards plus a list of
  dirty paths. The working tree is a map from slash-separated paths below the root to what
  \<open>os.ReadFile\<close> and \<open>os.Stat\<close> return for them; the shard directory is a \<open>filesystem\<close> and the state of the manifest
  file, both part of the engine's state. A Go panic in a shard reader is \<open>None\<close>.

  A shard is mapped for the length of one loop and unmapped again, so the snapshot's
  descriptors are unmapped between operations. Integers that only count are mathematical.
\<close>

subsection \<open>The tree and the configuration\<close>

record treefile =
  tf_content :: bytes
  tf_size :: int
  tf_mtime :: int

type_synonym tree = "gostring \<rightharpoonup> treefile"

record DiskEngineConfig =
  dc_ShardSize :: ShardSizeConfig
  dc_RebuildThreshold :: int
  dc_SearchWorkers :: int
  dc_InlineKB :: int

record dirtyEntry =
  de_deleted :: bool

type_synonym dirtyMap = "(gostring \<times> dirtyEntry) list"

record DiskEngine =
  en_root :: gostring
  en_shardDir :: gostring
  en_cfg :: DiskEngineConfig
  en_shards :: "Shard list"
  en_seqNo :: nat
  en_totalFiles :: int
  en_totalBytes :: int
  en_dirty :: dirtyMap
  en_pending :: "gostring list"
  en_closed :: bool
  en_fs :: filesystem
  en_manifest :: "manifest_file option"

definition NewDiskEngine :: "gostring \<Rightarrow> gostring \<Rightarrow> DiskEngineConfig \<Rightarrow> filesystem \<Rightarrow> manifest_file option \<Rightarrow> DiskEngine" where
  "NewDiskEngine root shardDir cfg fs man =
     \<lparr>en_root = root, en_shardDir = shardDir, en_cfg = cfg, en_shards = [], en_seqNo = 0,
      en_totalFiles = 0, en_totalBytes = 0, en_dirty = [], en_pending = [], en_closed = False,
      en_fs = fs, en_manifest = man\<rparr>"

definition Close :: "DiskEngine \<Rightarrow> DiskEngine" where
  "Close e = (if en_closed e then e else e\<lparr>en_closed := True\<rparr>)"

subsection \<open>Helpers\<close>

text \<open>\<open>fmt.Sprintf("shard-%04d.idx", seq)\<close>\<close>

fun decimal :: "nat \<Rightarrow> gostring" where
  "decimal n = (if n < 10 then [of_nat (48 + n)] else decimal (n div 10) @ [of_nat (48 + n mod 10)])"

declare decimal.simps [simp del]

definition shardName :: "nat \<Rightarrow> gostring" where
  "shardName seq = str ''shard-'' @ replicate (4 - length (decimal seq)) 48 @ decimal seq @ str ''.idx''"

definition shardPath :: "gostring \<Rightarrow> nat \<Rightarrow> gostring" where
  "shardPath shardDir seq = Join shardDir (shardName seq)"

text \<open>\<open>os.ReadFile\<close>, then the UTF-16 check and the binary check that every indexing path makes.\<close>

definition decoded :: "bytes \<Rightarrow> bytes" where
  "decoded content = (case decodeUTF16_shard content of Some d \<Rightarrow> d | None \<Rightarrow> content)"

definition loadText :: "tree \<Rightarrow> gostring \<Rightarrow> bytes option" where
  "loadText tr rel =
     (case tr rel of
        None \<Rightarrow> None
      | Some f \<Rightarrow> let content = decoded (tf_content f) in if isBinary content then None else Some content)"

definition readLine :: "tree \<Rightarrow> gostring \<Rightarrow> nat \<Rightarrow> gostring" where
  "readLine tr rel lineNo = (case tr rel of None \<Rightarrow> [] | Some f \<Rightarrow> LineText (tf_content f) lineNo)"

text \<open>\<open>s.Mmap()\<close> before a loop, \<open>None\<close> when it fails; the matching \<open>s.Munmap()\<close> restores the descriptor.\<close>

definition mapShard :: "filesystem \<Rightarrow> Shard \<Rightarrow> Shard option" where
  "mapShard fs s = (case Mmap s (fs (sh_path s)) of (True, s') \<Rightarrow> Some s' | (False, _) \<Rightarrow> None)"

lemma Munmap_mapShard: "mapShard fs s = Some s' \<Longrightarrow> sh_refs s = 0 \<Longrightarrow> sh_data s = [] \<Longrightarrow> Munmap s' = s"
  by (cases s; cases "fs (sh_path s)") (auto simp: mapShard_def Mmap_def Munmap_def)

text \<open>All file entries of a shard that could be mapped, none when it could not.\<close>

definition shardEntries :: "filesystem \<Rightarrow> Shard \<Rightarrow> FileMeta list option" where
  "shardEntries fs s = (case mapShard fs s of None \<Rightarrow> Some [] | Some s \<Rightarrow> ShardFiles s)"

fun allEntries :: "filesystem \<Rightarrow> Shard list \<Rightarrow> FileMeta list option" where
  "allEntries fs [] = Some []"
| "allEntries fs (s # ss) = do { a \<leftarrow> shardEntries fs s; b \<leftarrow> allEntries fs ss; Some (a @ b) }"

subsection \<open>Shard lookup\<close>

definition shardForPath :: "Shard list \<Rightarrow> gostring \<Rightarrow> nat option" where
  "shardForPath shards path =
     (let n = length shards;
          i = sort_Search n (\<lambda>i. sh_pathMin (shards ! i) > path)
      in if i = 0 then None
         else let s = shards ! (i - 1) in
              if path \<ge> sh_pathMin s \<and> path \<le> sh_pathMax s then Some (i - 1) else None)"

fun shardsForPrefix_loop :: "Shard list \<Rightarrow> nat \<Rightarrow> gostring \<Rightarrow> nat list" where
  "shardsForPrefix_loop [] i pre = []"
| "shardsForPrefix_loop (s # ss) i pre =
     (if sh_pathMax s < pre then shardsForPrefix_loop ss (i + 1) pre
      else if HasPrefix (sh_pathMin s) pre \<or> sh_pathMin s \<le> pre then i # shardsForPrefix_loop ss (i + 1) pre
      else [])"

definition shardsForPrefix :: "Shard list \<Rightarrow> gostring \<Rightarrow> nat list" where
  "shardsForPrefix shards pre = shardsForPrefix_loop shards 0 pre"

subsection \<open>FullBuild\<close>

text \<open>One batch: unreadable and binary files are skipped.\<close>

fun buildBatch :: "symlib \<Rightarrow> tree \<Rightarrow> BuildFile list \<Rightarrow> Builder \<Rightarrow> int \<Rightarrow> int \<Rightarrow> Builder \<times> int \<times> int" where
  "buildBatch S tr [] b totalFiles totalBytes = (b, totalFiles, totalBytes)"
| "buildBatch S tr (f # files) b totalFiles totalBytes =
     (case loadText tr (bF_Rel f) of
        None \<Rightarrow> buildBatch S tr files b totalFiles totalBytes
      | Some content \<Rightarrow>
          buildBatch S tr files
            (AddWithDefs b (bF_Rel f) (bF_Size f) (bF_MtimeNS f) content (Extract S (bF_Rel f) content))
            (totalFiles + 1) (totalBytes + bF_Size f))"

datatype build_err = WriteShard | OpenShard shard_err

text \<open>The loop over the batches; \<open>io seq\<close> is the outcome of writing shard number \<open>seq\<close>.\<close>

fun buildBatches ::
    "symlib \<Rightarrow> tree \<Rightarrow> (nat \<Rightarrow> io_outcome) \<Rightarrow> gostring \<Rightarrow> int \<Rightarrow> BuildFile list list \<Rightarrow>
     Shard list \<Rightarrow> nat \<Rightarrow> int \<Rightarrow> int \<Rightarrow> filesystem \<Rightarrow>
     (build_err \<times> filesystem + Shard list \<times> nat \<times> int \<times> int \<times> filesystem) option" where
  "buildBatches S tr io dir kb [] shards seqNo tf tb fs = Some (Inr (shards, seqNo, tf, tb, fs))"
| "buildBatches S tr io dir kb (batch # batches) shards seqNo tf tb fs =
     (let (b, tf, tb) = buildBatch S tr batch (NewBuilder kb) tf tb in
      if length (bd_files b) = 0 then buildBatches S tr io dir kb batches shards seqNo tf tb fs
      else
        let path = shardPath dir seqNo; (ok, fs) = Write b path (io seqNo) fs in
        if \<not> ok then Some (Inl (WriteShard, fs))
        else do {
          r \<leftarrow> Open fs path;
          case r of
            Inl err \<Rightarrow> Some (Inl (OpenShard err, fs))
          | Inr s \<Rightarrow> buildBatches S tr io dir kb batches (shards @ [s]) (seqNo + 1) tf tb fs
        })"

definition FullBuild ::
    "symlib \<Rightarrow> tree \<Rightarrow> (nat \<Rightarrow> io_outcome) \<Rightarrow> manifest_io \<Rightarrow> DiskEngine \<Rightarrow> BuildFile list \<Rightarrow>
     (build_err option \<times> DiskEngine) option" where
  "FullBuild S tr io mio e files = do {
     r \<leftarrow> buildBatches S tr io (en_shardDir e) (dc_InlineKB (en_cfg e)) (GroupByDirBoundary files (dc_ShardSize (en_cfg e)))
            [] 0 0 0 (en_fs e);
     case r of
       Inl (err, fs) \<Rightarrow> Some (Some err, e\<lparr>en_fs := fs\<rparr>)
     | Inr (shards, seqNo, tf, tb, fs) \<Rightarrow>
         Some (None, e\<lparr>en_shards := shards, en_seqNo := seqNo, en_totalFiles := tf, en_totalBytes := tb, en_fs := fs,
                en_manifest := snd (WriteManifest (ManifestFromShards shards seqNo) mio (en_manifest e))\<rparr>)
   }"

subsection \<open>Reconcile\<close>

text \<open>Opening the shards of the manifest; one that does not open is skipped.\<close>

fun openShards :: "filesystem \<Rightarrow> gostring \<Rightarrow> ManifestShard list \<Rightarrow> Shard list option" where
  "openShards fs dir [] = Some []"
| "openShards fs dir (ms # mss) = do {
     r \<leftarrow> Open fs (Join dir (ms_File ms));
     rest \<leftarrow> openShards fs dir mss;
     Some (case r of Inl _ \<Rightarrow> rest | Inr s \<Rightarrow> s # rest)
   }"

text \<open>\<open>onDisk\<close>: later entries of the list win, as they do in the Go map.\<close>

definition onDiskOf :: "BuildFile list \<Rightarrow> gostring \<rightharpoonup> BuildFile" where
  "onDiskOf files = map_of (rev (map (\<lambda>f. (bF_Rel f, f)) files))"

fun reconcileEntries :: "(gostring \<rightharpoonup> BuildFile) \<Rightarrow> FileMeta list \<Rightarrow> dirtyMap \<Rightarrow> dirtyMap" where
  "reconcileEntries onDisk [] dirty = dirty"
| "reconcileEntries onDisk (fm # fms) dirty =
     reconcileEntries onDisk fms
       (case onDisk (fm_Path fm) of
          None \<Rightarrow> AList.update (fm_Path fm) \<lparr>de_deleted = True\<rparr> dirty
        | Some df \<Rightarrow>
            if bF_Size df \<noteq> fm_Size fm \<or> bF_MtimeNS df \<noteq> fm_MtimeNS fm
            then AList.update (fm_Path fm) \<lparr>de_deleted = False\<rparr> dirty else dirty)"

fun reconcileNew :: "gostring set \<Rightarrow> BuildFile list \<Rightarrow> dirtyMap \<Rightarrow> dirtyMap" where
  "reconcileNew inShard [] dirty = dirty"
| "reconcileNew inShard (f # files) dirty =
     reconcileNew inShard files
       (if bF_Rel f \<notin> inShard then AList.update (bF_Rel f) \<lparr>de_deleted = False\<rparr> dirty else dirty)"

text \<open>\<open>entries\<close> is the directory listing that \<open>CleanOrphans\<close> reads.\<close>

definition Reconcile :: "gostring list option \<Rightarrow> DiskEngine \<Rightarrow> BuildFile list \<Rightarrow> DiskEngine option" where
  "Reconcile entries e diskFiles = do {
     let manifest = (case ReadManifest (en_manifest e) of Inl _ \<Rightarrow> None | Inr m \<Rightarrow> m);
     shards \<leftarrow> (case manifest of None \<Rightarrow> Some [] | Some m \<Rightarrow> openShards (en_fs e) (en_shardDir e) (mf_Shards m));
     let seqNo = (case manifest of None \<Rightarrow> 0 | Some m \<Rightarrow> mf_SeqNo m);
     let fs = CleanOrphans (en_shardDir e) manifest entries (en_fs e);
     fms \<leftarrow> allEntries fs shards;
     let onDisk = onDiskOf diskFiles;
     let dirty = reconcileEntries onDisk fms (en_dirty e);
     let dirty = reconcileNew (fm_Path ` set fms) diskFiles dirty;
     Some (e\<lparr>en_fs := fs, en_dirty := dirty, en_shards := shards, en_seqNo := seqNo,
             en_totalFiles := int (length (remdups (map bF_Rel diskFiles))),
             en_totalBytes := sum_list (map fm_Size fms)\<rparr>)
   }"

subsection \<open>The dirty list\<close>

definition MarkDirty :: "DiskEngine \<Rightarrow> gostring \<Rightarrow> DiskEngine" where
  "MarkDirty e rel = e\<lparr>en_dirty := AList.update rel \<lparr>de_deleted = False\<rparr> (en_dirty e)\<rparr>"

definition MarkDeleted :: "DiskEngine \<Rightarrow> gostring \<Rightarrow> DiskEngine" where
  "MarkDeleted e rel = e\<lparr>en_dirty := AList.update rel \<lparr>de_deleted = True\<rparr> (en_dirty e)\<rparr>"

definition MarkDeletedPrefix :: "DiskEngine \<Rightarrow> gostring \<Rightarrow> DiskEngine option" where
  "MarkDeletedPrefix e dir = do {
     let pre = dir @ [slash];
     fms \<leftarrow> allEntries (en_fs e) (map (\<lambda>i. en_shards e ! i) (shardsForPrefix (en_shards e) pre));
     let toDelete = filter (\<lambda>p. p = dir \<or> HasPrefix p pre) (map fm_Path fms);
     Some (if length toDelete = 0 then e
           else e\<lparr>en_dirty := foldl (\<lambda>d p. AList.update p \<lparr>de_deleted = True\<rparr> d) (en_dirty e) toDelete\<rparr>)
   }"

definition DirtyCount :: "DiskEngine \<Rightarrow> nat" where
  "DirtyCount e = length (en_dirty e)"

end
