(* ===== verification/EngineQuery.thy ===== *)
theory EngineQuery
  imports Engine
begin

text \<open>
  The queries of \<open>internal/shard/engine.go\<close>: search over shards in parallel and over the dirty
  files, line scanning, definition lookup. Each worker writes the result of a shard into the
  shard's own slot; \<open>sched\<close> is the order in which the jobs happen to finish.
\<close>

subsection \<open>Line scanning\<close>

definition lineHit :: "gostring \<Rightarrow> SearchOpts \<Rightarrow> nat \<Rightarrow> nat \<times> nat \<Rightarrow> bytes \<Rightarrow> Match" where
  "lineHit rel opts lineNo loc ln =
     \<lparr>mt_Path = rel, mt_Line = lineNo,
      mt_Text = (if so_MaxColumns opts \<le> 0 \<or> int (length ln) \<le> so_MaxColumns opts then ln else []),
      mt_Col = fst loc, mt_LineLen = length ln\<rparr>"

text \<open>The early returns after a match: only the file is wanted, or the limit is reached.\<close>

definition scanDone :: "SearchOpts \<Rightarrow> Match list \<Rightarrow> bool" where
  "scanDone opts ms \<longleftrightarrow> so_FilesOnly opts \<or> so_Limit opts > 0 \<and> int (length ms) \<ge> so_Limit opts"

text \<open>The loop of \<open>verifyFile\<close>: \<open>ReadBytes\<close> returns a line with its newline, or the rest of the file.\<close>

function verify_loop ::
    "'re regexlib \<Rightarrow> 're Matcher \<Rightarrow> SearchOpts \<Rightarrow> gostring \<Rightarrow> nat \<Rightarrow> bytes \<Rightarrow> Match list \<Rightarrow> Match list" where
  "verify_loop L mat opts rel lineNo content ms =
     (if content = [] then ms
      else
        let ln = (case IndexByte content newline of Some i \<Rightarrow> take (i + 1) content | None \<Rightarrow> content);
            rest = (case IndexByte content newline of Some i \<Rightarrow> drop (i + 1) content | None \<Rightarrow> []);
            lineNo = lineNo + 1;
            trimmed = (if List.last ln = newline then butlast ln else ln)
        in case FindFirst L mat trimmed of
             None \<Rightarrow> verify_loop L mat opts rel lineNo rest ms
           | Some loc \<Rightarrow>
               let ms = ms @ [lineHit rel opts lineNo loc trimmed] in
               if scanDone opts ms then ms else verify_loop L mat opts rel lineNo rest ms)"
  by pat_completeness auto
termination
  by (relation "measure (\<lambda>(L, mat, opts, rel, lineNo, content, ms). length content)")
    (auto split: option.splits)

declare verify_loop.simps [simp del]

function match_loop ::
    "'re regexlib \<Rightarrow> 're Matcher \<Rightarrow> SearchOpts \<Rightarrow> gostring \<Rightarrow> nat \<Rightarrow> bytes \<Rightarrow> Match list \<Rightarrow> Match list" where
  "match_loop L mat opts rel lineNo content ms =
     (if length content > 0 then
        let lineNo = lineNo + 1;
            (ln, rest) = (case IndexByte content newline of
                            Some idx \<Rightarrow> (take idx content, drop (idx + 1) content)
                          | None \<Rightarrow> (content, []))
        in case FindFirst L mat ln of
             None \<Rightarrow> match_loop L mat opts rel lineNo rest ms
           | Some loc \<Rightarrow>
               let ms = ms @ [lineHit rel opts lineNo loc ln] in
               if scanDone opts ms then ms else match_loop L mat opts rel lineNo rest ms
      else ms)"
  by pat_completeness auto
termination
  by (relation "measure (\<lambda>(L, mat, opts, rel, lineNo, content, ms). length content)")
    (auto split: option.splits)

declare match_loop.simps [simp del]

definition matchContent ::
    "'re regexlib \<Rightarrow> gostring \<Rightarrow> bytes \<Rightarrow> 're Matcher \<Rightarrow> SearchOpts \<Rightarrow> Match list" where
  "matchContent L rel content mat opts =
     (let n = (if length content > 8192 then 8192 else length content) in
      if IndexByte (take n content) 0 \<noteq> None then [] else match_loop L mat opts rel 0 content [])"

definition verifyFile ::
    "'re regexlib \<Rightarrow> tree \<Rightarrow> gostring \<Rightarrow> 're Matcher \<Rightarrow> SearchOpts \<Rightarrow> bytes option \<Rightarrow> Match list" where
  "verifyFile L tr rel mat opts inline =
     (case inline of
        Some content \<Rightarrow> matchContent L rel content mat opts
      | None \<Rightarrow>
          (case tr rel of
             None \<Rightarrow> []
           | Some f \<Rightarrow>
               if IndexByte (take 8192 (tf_content f)) 0 \<noteq> None then []
               else verify_loop L mat opts rel 0 (tf_content f) []))"

subsection \<open>Search\<close>

text \<open>The compiled pattern of a query; a pattern that does not compile gives the zero \<open>Matcher\<close>.\<close>

definition engineMatcher :: "'re regexlib \<Rightarrow> 're \<Rightarrow> SearchOpts \<Rightarrow> 're Matcher" where
  "engineMatcher L re opts =
     (let mat = (case MatcherFor L (re_String L re) False False of
                   Inl _ \<Rightarrow> \<lparr>m_Re = None, m_PlainLit = [], m_Fold = False, m_rareByte = 0, m_hasRare = False\<rparr>
                 | Inr m \<Rightarrow> m)
      in if so_PlainLiteral opts \<noteq> []
         then mat\<lparr>m_PlainLit := so_PlainLiteral opts, m_Fold := so_FoldCase opts, m_Re := Some re\<rparr> else mat)"

record shardResult =
  sr_matches :: "Match list"
  sr_fileCounts :: "(gostring \<times> nat) list"

definition emptyResult :: shardResult where
  "emptyResult = \<lparr>sr_matches = [], sr_fileCounts = []\<rparr>"

fun scanCandidates ::
    "'re regexlib \<Rightarrow> tree \<Rightarrow> dirtyMap \<Rightarrow> 're Matcher \<Rightarrow> SearchOpts \<Rightarrow> Shard \<Rightarrow> u32 list \<Rightarrow> shardResult \<Rightarrow> shardResult option" where
  "scanCandidates L tr dirty mat opts s [] sr = Some sr"
| "scanCandidates L tr dirty mat opts s (i # is) sr = do {
     fm \<leftarrow> FileAt s (unat i);
     if map_of dirty (fm_Path fm) \<noteq> None then scanCandidates L tr dirty mat opts s is sr
     else if so_MaxFileSize opts > 0 \<and> fm_Size fm > so_MaxFileSize opts then scanCandidates L tr dirty mat opts s is sr
     else if \<not> pathOk (so_PathMatch opts) (fm_Path fm) then scanCandidates L tr dirty mat opts s is sr
     else do {
       inline \<leftarrow> FileContentAt s (unat i);
       let matches = verifyFile L tr (fm_Path fm) mat opts inline;
       scanCandidates L tr dirty mat opts s is
         (if length matches > 0
          then \<lparr>sr_matches = (if \<not> so_FilesOnly opts then sr_matches sr @ matches else sr_matches sr),
                sr_fileCounts = AList.update (fm_Path fm) (length matches) (sr_fileCounts sr)\<rparr>
          else sr)
     }
   }"

definition searchShard ::
    "'re regexlib \<Rightarrow> tree \<Rightarrow> filesystem \<Rightarrow> dirtyMap \<Rightarrow> 're Matcher \<Rightarrow> SearchOpts \<Rightarrow> Shard \<Rightarrow> shardResult option" where
  "searchShard L tr fs dirty mat opts s =
     (if \<not> HasTrigrams s (so_Literal opts) then Some emptyResult
      else case mapShard fs s of
             None \<Rightarrow> Some emptyResult
           | Some s \<Rightarrow> do {
               candidates \<leftarrow> Candidates s (so_Literal opts);
               scanCandidates L tr dirty mat opts s candidates emptyResult
             })"

text \<open>The workers: job \<open>i\<close> fills slot \<open>i\<close>; a slot that no job filled is the zero result. A panic of one
  worker is a panic of the process.\<close>

fun runJobs :: "(nat \<Rightarrow> shardResult option) \<Rightarrow> nat list \<Rightarrow> shardResult list \<Rightarrow> shardResult list option" where
  "runJobs job [] slots = Some slots"
| "runJobs job (i # sched) slots = do { r \<leftarrow> job i; runJobs job sched (slots[i := r]) }"

fun mergeCounts :: "(gostring \<times> nat) list \<Rightarrow> (gostring \<times> nat) list \<Rightarrow> (gostring \<times> nat) list" where
  "mergeCounts counts [] = counts"
| "mergeCounts counts ((p, c) # cs) = mergeCounts (AList.update p c counts) cs"

text \<open>The merge in shard order; \<open>True\<close> is the early return at the limit.\<close>

fun merge_loop :: "SearchOpts \<Rightarrow> shardResult list \<Rightarrow> SearchResult \<Rightarrow> bool \<times> SearchResult" where
  "merge_loop opts [] res = (False, res)"
| "merge_loop opts (sr # srs) res =
     (let res = res\<lparr>sr_FileCounts := mergeCounts (sr_FileCounts res) (sr_fileCounts sr)\<rparr>;
          res = (if \<not> so_FilesOnly opts then res\<lparr>sr_Matches := sr_Matches res @ sr_matches sr\<rparr> else res)
      in if so_Limit opts > 0 \<and> int (length (sr_Matches res)) \<ge> so_Limit opts
         then (True, res\<lparr>sr_Matches := take (nat (so_Limit opts)) (sr_Matches res), sr_Truncated := True\<rparr>)
         else merge_loop opts srs res)"

fun dirty_loop :: "'re regexlib \<Rightarrow> tree \<Rightarrow> 're Matcher \<Rightarrow> SearchOpts \<Rightarrow> gostring list \<Rightarrow> SearchResult \<Rightarrow> SearchResult" where
  "dirty_loop L tr mat opts [] res = res"
| "dirty_loop L tr mat opts (rel # rels) res =
     (if \<not> pathOk (so_PathMatch opts) rel then dirty_loop L tr mat opts rels res
      else case tr rel of
        None \<Rightarrow> dirty_loop L tr mat opts rels res
      | Some f \<Rightarrow>
          if so_MaxFileSize opts > 0 \<and> tf_size f > so_MaxFileSize opts then dirty_loop L tr mat opts rels res
          else
            let matches = verifyFile L tr rel mat opts None;
                res = (if length matches > 0
                       then let res = res\<lparr>sr_FileCounts := AList.update rel (length matches) (sr_FileCounts res)\<rparr> in
                            if \<not> so_FilesOnly opts then res\<lparr>sr_Matches := sr_Matches res @ matches\<rparr> else res
                       else res)
            in if so_Limit opts > 0 \<and> int (length (sr_Matches res)) \<ge> so_Limit opts
               then res\<lparr>sr_Truncated := True\<rparr>
               else dirty_loop L tr mat opts rels res)"

definition dirtyPathsOf :: "dirtyMap \<Rightarrow> gostring list" where
  "dirtyPathsOf dirty = map fst (filter (\<lambda>(p, de). \<not> de_deleted de) dirty)"

definition DiskSearch ::
    "'re regexlib \<Rightarrow> tree \<Rightarrow> nat list \<Rightarrow> DiskEngine \<Rightarrow> 're \<Rightarrow> SearchOpts \<Rightarrow> SearchResult option" where
  "DiskSearch L tr sched e re opts = do {
     let mat = engineMatcher L re opts;
     let job = (\<lambda>i. searchShard L tr (en_fs e) (en_dirty e) mat opts (en_shards e ! i));
     results \<leftarrow> runJobs job sched (replicate (length (en_shards e)) emptyResult);
     let (stop, res) = merge_loop opts results \<lparr>sr_Matches = [], sr_FileCounts = [], sr_Truncated = False\<rparr>;
     Some (if stop then res else dirty_loop L tr mat opts (sort (dirtyPathsOf (en_dirty e))) res)
   }"

subsection \<open>Symbols\<close>

definition matchDefs :: "symlib \<Rightarrow> bool \<Rightarrow> gostring \<Rightarrow> Def list \<Rightarrow> Def list" where
  "matchDefs S nocase name defs =
     (let cf = (\<lambda>s. if nocase then ToLower (unicode_ToLower S) s else s)
      in filter (\<lambda>d. cf (d_Name d) = cf name) defs)"

fun shardDefs ::
    "symlib \<Rightarrow> tree \<Rightarrow> gostring \<Rightarrow> bool \<Rightarrow> (gostring \<Rightarrow> bool) option \<Rightarrow> Shard \<Rightarrow> nat list \<Rightarrow> DefHit list option" where
  "shardDefs S tr name nocase pathMatch s [] = Some []"
| "shardDefs S tr name nocase pathMatch s (i # is) = do {
     fm \<leftarrow> FileAt s i;
     if \<not> pathOk pathMatch (fm_Path fm) then shardDefs S tr name nocase pathMatch s is
     else do {
       defs \<leftarrow> ShardFileDefs s i;
       rest \<leftarrow> shardDefs S tr name nocase pathMatch s is;
       Some (map (\<lambda>d. \<lparr>dh_Path = fm_Path fm, dh_Def = d, dh_Text = readLine tr (fm_Path fm) (d_Line d)\<rparr>)
               (matchDefs S nocase name defs) @ rest)
     }
   }"

fun allShardDefs ::
    "symlib \<Rightarrow> tree \<Rightarrow> filesystem \<Rightarrow> gostring \<Rightarrow> bool \<Rightarrow> (gostring \<Rightarrow> bool) option \<Rightarrow> Shard list \<Rightarrow> DefHit list option" where
  "allShardDefs S tr fs name nocase pathMatch [] = Some []"
| "allShardDefs S tr fs name nocase pathMatch (s # ss) = do {
     a \<leftarrow> (case mapShard fs s of
            None \<Rightarrow> Some []
          | Some s \<Rightarrow> shardDefs S tr name nocase pathMatch s [0..<unat (sh_numFiles s)]);
     b \<leftarrow> allShardDefs S tr fs name nocase pathMatch ss;
     Some (a @ b)
   }"

definition textDefs :: "symlib \<Rightarrow> tree \<Rightarrow> gostring \<Rightarrow> bool \<Rightarrow> gostring \<Rightarrow> DefHit list" where
  "textDefs S tr name nocase path =
     (case loadText tr path of
        None \<Rightarrow> []
      | Some content \<Rightarrow>
          map (\<lambda>d. \<lparr>dh_Path = path, dh_Def = d, dh_Text = LineText content (d_Line d)\<rparr>)
            (matchDefs S nocase name (Extract S path content)))"

text \<open>\<open>rng\<close> is the order in which Go iterates the dirty map.\<close>

definition DiskDefs ::
    "symlib \<Rightarrow> (dirtyMap \<Rightarrow> dirtyMap) \<Rightarrow> tree \<Rightarrow> DiskEngine \<Rightarrow> gostring \<Rightarrow> bool \<Rightarrow> (gostring \<Rightarrow> bool) option \<Rightarrow>
       DefHit list option" where
  "DiskDefs S rng tr e name nocase pathMatch = do {
     hits \<leftarrow> allShardDefs S tr (en_fs e) name nocase pathMatch (en_shards e);
     let dirtyPaths = filter (pathOk pathMatch) (dirtyPathsOf (rng (en_dirty e)));
     Some (hits @ concat (map (textDefs S tr name nocase) dirtyPaths))
   }"

definition DiskFileDefs :: "symlib \<Rightarrow> tree \<Rightarrow> gostring \<Rightarrow> DefHit list option" where
  "DiskFileDefs S tr path =
     (case loadText tr path of
        None \<Rightarrow> None
      | Some content \<Rightarrow>
          let defs = Extract S path content in
          if length defs = 0 then Some []
          else Some (map (\<lambda>d. \<lparr>dh_Path = path, dh_Def = d, dh_Text = LineText content (d_Line d)\<rparr>) defs))"

text \<open>\<open>FilesContaining\<close>: \<open>seen\<close> collects the paths that a shard has offered.\<close>

fun containing_loop ::
    "tree \<Rightarrow> gostring \<Rightarrow> (gostring \<Rightarrow> bool) option \<Rightarrow> Shard \<Rightarrow> u32 list \<Rightarrow> gostring list \<Rightarrow> FileContent list \<Rightarrow>
     (gostring list \<times> FileContent list) option" where
  "containing_loop tr lit pathMatch s [] seen out = Some (seen, out)"
| "containing_loop tr lit pathMatch s (i # is) seen out = do {
     fm \<leftarrow> FileAt s (unat i);
     if fm_Path fm \<in> set seen \<or> \<not> pathOk pathMatch (fm_Path fm) then containing_loop tr lit pathMatch s is seen out
     else
       let seen = fm_Path fm # seen in
       case tr (fm_Path fm) of
         None \<Rightarrow> containing_loop tr lit pathMatch s is seen out
       | Some f \<Rightarrow>
           containing_loop tr lit pathMatch s is seen
             (if Contains (tf_content f) lit
              then out @ [\<lparr>fc_Path = fm_Path fm, fc_Content = tf_content f\<rparr>] else out)
   }"

fun containing_shards ::
    "(rune \<Rightarrow> rune) \<Rightarrow> tree \<Rightarrow> filesystem \<Rightarrow> gostring \<Rightarrow> (gostring \<Rightarrow> bool) option \<Rightarrow> Shard list \<Rightarrow> gostring list \<Rightarrow>
     FileContent list \<Rightarrow> (gostring list \<times> FileContent list) option" where
  "containing_shards uni tr fs lit pathMatch [] seen out = Some (seen, out)"
| "containing_shards uni tr fs lit pathMatch (s # ss) seen out =
     (case mapShard fs s of
        None \<Rightarrow> containing_shards uni tr fs lit pathMatch ss seen out
      | Some s \<Rightarrow> do {
          candidates \<leftarrow> Candidates s (ToLower uni lit);
          (seen, out) \<leftarrow> containing_loop tr lit pathMatch s candidates seen out;
          containing_shards uni tr fs lit pathMatch ss seen out
        })"

definition DiskFilesContaining ::
    "(rune \<Rightarrow> rune) \<Rightarrow> (dirtyMap \<Rightarrow> dirtyMap) \<Rightarrow> tree \<Rightarrow> DiskEngine \<Rightarrow> gostring \<Rightarrow> (gostring \<Rightarrow> bool) option \<Rightarrow>
       FileContent list option" where
  "DiskFilesContaining uni rng tr e lit pathMatch = do {
     (seen, out) \<leftarrow> containing_shards uni tr (en_fs e) lit pathMatch (en_shards e) [] [];
     let dirtyPaths = filter (\<lambda>p. p \<notin> set seen) (dirtyPathsOf (rng (en_dirty e)));
     Some (out @ concat (map (\<lambda>p.
       if \<not> pathOk pathMatch p then []
       else case tr p of
              None \<Rightarrow> []
            | Some f \<Rightarrow> if Contains (tf_content f) lit then [\<lparr>fc_Path = p, fc_Content = tf_content f\<rparr>] else [])
       dirtyPaths))
   }"

subsection \<open>Status and metadata\<close>

definition DiskNumFiles :: "DiskEngine \<Rightarrow> int" where "DiskNumFiles e = en_totalFiles e"
definition DiskTotalBytes :: "DiskEngine \<Rightarrow> int" where "DiskTotalBytes e = en_totalBytes e"
definition NumShards :: "DiskEngine \<Rightarrow> nat" where "NumShards e = length (en_shards e)"

definition DiskMeta :: "DiskEngine \<Rightarrow> gostring \<Rightarrow> FileMeta option option" where
  "DiskMeta e path =
     (case shardForPath (en_shards e) path of
        None \<Rightarrow> Some None
      | Some si \<Rightarrow> do {
          fms \<leftarrow> shardEntries (en_fs e) (en_shards e ! si);
          Some (find (\<lambda>fm. fm_Path fm = path) fms)
        })"

definition DiskPaths :: "DiskEngine \<Rightarrow> gostring list option" where
  "DiskPaths e = map_option (map fm_Path) (allEntries (en_fs e) (en_shards e))"

end
