(* ===== verification/EngineRebuild.thy ===== *)
theory EngineRebuild
  imports EngineQuery
begin

text \<open>
  \<open>rebuild\<close> of \<open>internal/shard/engine.go\<close>: a snapshot of the dirty list is taken, the shards that
  cover enough dirty paths are written again, new files get a shard of their own, and the new
  snapshot is published. Watcher marks that arrive between the snapshot of the dirty list and
  its final clean-up are the argument \<open>during\<close>.
\<close>

subsection \<open>Which shards are rebuilt\<close>

definition dirtyPerShard :: "Shard list \<Rightarrow> dirtyMap \<Rightarrow> nat \<Rightarrow> int" where
  "dirtyPerShard shards snap si = int (length (filter (\<lambda>(p, de). shardForPath shards p = Some si) snap))"

definition affected :: "Shard list \<Rightarrow> dirtyMap \<Rightarrow> int \<Rightarrow> nat \<Rightarrow> bool" where
  "affected shards snap threshold si \<longleftrightarrow>
     dirtyPerShard shards snap si > 0 \<and>
     (dirtyPerShard shards snap si \<ge> threshold \<or> int (length snap) \<le> threshold)"

definition deferred :: "Shard list \<Rightarrow> dirtyMap \<Rightarrow> int \<Rightarrow> gostring \<Rightarrow> bool" where
  "deferred shards snap threshold p \<longleftrightarrow>
     \<not> int (length snap) \<le> threshold \<and>
     (case shardForPath shards p of None \<Rightarrow> False | Some si \<Rightarrow> dirtyPerShard shards snap si < threshold)"

text \<open>Dirty paths outside every shard that exist on disk, in path order.\<close>

definition newFilesOf :: "tree \<Rightarrow> Shard list \<Rightarrow> dirtyMap \<Rightarrow> BuildFile list" where
  "newFilesOf tr shards snap =
     sort_key bF_Rel
       (concat (map (\<lambda>(p, de).
          if shardForPath shards p = None \<and> \<not> de_deleted de
          then case tr p of
                 None \<Rightarrow> []
               | Some f \<Rightarrow> [\<lparr>bF_Rel = p, bF_Size = tf_size f, bF_MtimeNS = tf_mtime f\<rparr>]
          else []) snap))"

subsection \<open>Rebuilding one shard\<close>

text \<open>The files of the old shard: dirty ones are read and parsed again, the others are read again
  and keep their definitions.\<close>

fun rebuildFiles ::
    "symlib \<Rightarrow> tree \<Rightarrow> dirtyMap \<Rightarrow> Shard \<Rightarrow> nat list \<Rightarrow> Builder \<Rightarrow> int \<Rightarrow> (Builder \<times> int) option" where
  "rebuildFiles S tr snap s [] b totalBytes = Some (b, totalBytes)"
| "rebuildFiles S tr snap s (i # is) b totalBytes = do {
     fm \<leftarrow> FileAt s i;
     case map_of snap (fm_Path fm) of
       Some de \<Rightarrow>
         if de_deleted de then rebuildFiles S tr snap s is b totalBytes
         else (case tr (fm_Path fm) of
           None \<Rightarrow> rebuildFiles S tr snap s is b totalBytes
         | Some f \<Rightarrow>
             let content = decoded (tf_content f) in
             if isBinary content then rebuildFiles S tr snap s is b totalBytes
             else rebuildFiles S tr snap s is
                    (AddWithDefs b (fm_Path fm) (tf_size f) (tf_mtime f) content (Extract S (fm_Path fm) content))
                    (totalBytes + tf_size f))
     | None \<Rightarrow>
         (case tr (fm_Path fm) of
           None \<Rightarrow> rebuildFiles S tr snap s is b totalBytes
         | Some f \<Rightarrow> do {
             oldDefs \<leftarrow> ShardFileDefs s i;
             rebuildFiles S tr snap s is
               (AddWithDefs b (fm_Path fm) (fm_Size fm) (fm_MtimeNS fm) (decoded (tf_content f)) oldDefs)
               (totalBytes + fm_Size fm)
           })
   }"

record rebuildState =
  rs_newShards :: "Shard option list"
  rs_seqNo :: nat
  rs_totalBytes :: int
  rs_oldFiles :: "gostring list"
  rs_fs :: filesystem

text \<open>One round of the loop over the old shards, for an affected shard \<open>si\<close>. A failing call
  keeps the old shard.\<close>

definition rebuildShard ::
    "symlib \<Rightarrow> tree \<Rightarrow> (nat \<Rightarrow> io_outcome) \<Rightarrow> DiskEngine \<Rightarrow> dirtyMap \<Rightarrow> nat \<Rightarrow> Shard \<Rightarrow> rebuildState \<Rightarrow> rebuildState option" where
  "rebuildShard S tr io e snap si s st =
     (case mapShard (rs_fs st) s of
        None \<Rightarrow> Some st
      | Some s' \<Rightarrow> do {
          (b, tb) \<leftarrow> rebuildFiles S tr snap s' [0..<unat (sh_numFiles s')]
                       (NewBuilder (dc_InlineKB (en_cfg e))) (rs_totalBytes st);
          let st = st\<lparr>rs_totalBytes := tb\<rparr>;
          if length (bd_files b) = 0
          then Some (st\<lparr>rs_newShards := (rs_newShards st)[si := None], rs_oldFiles := rs_oldFiles st @ [sh_path s]\<rparr>)
          else
            let path = shardPath (en_shardDir e) (rs_seqNo st);
                (ok, fs) = Write b path (io (rs_seqNo st)) (rs_fs st);
                st = st\<lparr>rs_seqNo := rs_seqNo st + 1, rs_fs := fs\<rparr>
            in if \<not> ok then do {
                 fms \<leftarrow> shardEntries (rs_fs st) s;
                 Some (st\<lparr>rs_totalBytes := rs_totalBytes st + sum_list (map fm_Size fms)\<rparr>)
               }
               else do {
                 r \<leftarrow> Open (rs_fs st) path;
                 Some (case r of
                         Inl _ \<Rightarrow> st
                       | Inr ns \<Rightarrow> st\<lparr>rs_newShards := (rs_newShards st)[si := Some ns],
                                   rs_oldFiles := rs_oldFiles st @ [sh_path s]\<rparr>)
               }
        })"

fun rebuildShards ::
    "symlib \<Rightarrow> tree \<Rightarrow> (nat \<Rightarrow> io_outcome) \<Rightarrow> DiskEngine \<Rightarrow> dirtyMap \<Rightarrow> nat \<Rightarrow> Shard list \<Rightarrow> rebuildState \<Rightarrow> rebuildState option" where
  "rebuildShards S tr io e snap si [] st = Some st"
| "rebuildShards S tr io e snap si (s # ss) st =
     (if \<not> affected (en_shards e) snap (dc_RebuildThreshold (en_cfg e)) si
      then rebuildShards S tr io e snap (si + 1) ss st
      else Option.bind (rebuildShard S tr io e snap si s st) (rebuildShards S tr io e snap (si + 1) ss))"

text \<open>The shard of the new files; its errors are not reported.\<close>

definition newFilesShard ::
    "symlib \<Rightarrow> tree \<Rightarrow> (nat \<Rightarrow> io_outcome) \<Rightarrow> DiskEngine \<Rightarrow> BuildFile list \<Rightarrow> rebuildState \<Rightarrow> rebuildState option" where
  "newFilesShard S tr io e newFiles st =
     (if length newFiles > 0 then
        let (b, n, tb) = buildBatch S tr newFiles (NewBuilder (dc_InlineKB (en_cfg e))) 0 (rs_totalBytes st);
            st = st\<lparr>rs_totalBytes := tb\<rparr>
        in if length (bd_files b) > 0 then
             let path = shardPath (en_shardDir e) (rs_seqNo st);
                 (ok, fs) = Write b path (io (rs_seqNo st)) (rs_fs st);
                 st = st\<lparr>rs_seqNo := rs_seqNo st + 1, rs_fs := fs\<rparr>
             in if \<not> ok then Some st
                else do {
                  r \<leftarrow> Open (rs_fs st) path;
                  Some (case r of Inl _ \<Rightarrow> st | Inr ns \<Rightarrow> st\<lparr>rs_newShards := rs_newShards st @ [Some ns]\<rparr>)
                }
           else Some st
      else Some st)"

subsection \<open>rebuild\<close>

text \<open>\<open>rm\<close> tells which files \<open>os.Remove\<close> can delete.\<close>

definition cleanPending :: "(gostring \<Rightarrow> bool) \<Rightarrow> DiskEngine \<Rightarrow> DiskEngine" where
  "cleanPending rm e =
     e\<lparr>en_pending := filter (\<lambda>p. \<not> rm p) (en_pending e),
       en_fs := (\<lambda>p. if p \<in> set (en_pending e) \<and> rm p then None else en_fs e p)\<rparr>"

text \<open>The bytes of the shards that are not rebuilt.\<close>

definition unaffectedBytes :: "filesystem \<Rightarrow> Shard list \<Rightarrow> (nat \<Rightarrow> bool) \<Rightarrow> int option" where
  "unaffectedBytes fs shards aff = do {
     fms \<leftarrow> allEntries fs (map snd (filter (\<lambda>(si, s). \<not> aff si) (zip [0..<length shards] shards)));
     Some (sum_list (map fm_Size fms))
   }"

definition mark :: "dirtyMap \<Rightarrow> gostring \<times> dirtyEntry \<Rightarrow> dirtyMap" where
  "mark dirty m = AList.update (fst m) (snd m) dirty"

definition clearProcessed :: "(gostring \<Rightarrow> bool) \<Rightarrow> dirtyMap \<Rightarrow> dirtyMap \<Rightarrow> dirtyMap" where
  "clearProcessed isDeferred snap dirty =
     filter (\<lambda>(p, de). \<not> (map_of snap p \<noteq> None \<and> \<not> isDeferred p \<and> map_of snap p = Some de)) dirty"

definition rebuild ::
    "symlib \<Rightarrow> tree \<Rightarrow> (nat \<Rightarrow> io_outcome) \<Rightarrow> manifest_io \<Rightarrow> (gostring \<Rightarrow> bool) \<Rightarrow> (gostring \<times> dirtyEntry) list \<Rightarrow>
       DiskEngine \<Rightarrow> DiskEngine option" where
  "rebuild S tr io mio rm during e =
     (if length (en_dirty e) = 0 then Some e
      else do {
        let snap = en_dirty e;
        let shards = en_shards e;
        let threshold = dc_RebuildThreshold (en_cfg e);
        tb \<leftarrow> unaffectedBytes (en_fs e) shards (affected shards snap threshold);
        st \<leftarrow> rebuildShards S tr io e snap 0 shards
                \<lparr>rs_newShards = map Some shards, rs_seqNo = en_seqNo e, rs_totalBytes = tb, rs_oldFiles = [], rs_fs = en_fs e\<rparr>;
        st \<leftarrow> newFilesShard S tr io e (newFilesOf tr shards snap) st;
        let compacted = sort_key sh_pathMin (List.map_filter (\<lambda>s. s) (rs_newShards st));
        let e = e\<lparr>en_shards := compacted, en_seqNo := rs_seqNo st, en_fs := rs_fs st,
                  en_totalFiles := int (sum_list (map ShardNumFiles compacted)), en_totalBytes := rs_totalBytes st,
                  en_manifest := snd (WriteManifest (ManifestFromShards compacted (rs_seqNo st)) mio (en_manifest e))\<rparr>;
        let e = cleanPending rm e;
        let e = e\<lparr>en_pending := en_pending e @ rs_oldFiles st\<rparr>;
        let dirty = foldl mark (en_dirty e) during;
        Some (e\<lparr>en_dirty := clearProcessed (deferred shards snap threshold) snap dirty\<rparr>)
      })"

text \<open>\<open>rebuildLoop\<close>: ticks are handled until the engine is closed.\<close>

datatype loop_event = Tick "(nat \<Rightarrow> io_outcome)" manifest_io "(gostring \<Rightarrow> bool)" "(gostring \<times> dirtyEntry) list" | Closed

fun rebuildLoop :: "symlib \<Rightarrow> tree \<Rightarrow> loop_event list \<Rightarrow> DiskEngine \<Rightarrow> DiskEngine option" where
  "rebuildLoop S tr [] e = Some e"
| "rebuildLoop S tr (Closed # evs) e = Some e"
| "rebuildLoop S tr (Tick io mio rm during # evs) e =
     Option.bind (rebuild S tr io mio rm during e) (rebuildLoop S tr evs)"

end
