(* ===== verification/EngineProps.thy ===== *)
theory EngineProps
  imports EngineRebuild ShardProps
begin

text \<open>
  What the disk engine's queries return: the line scanners against a reference, the worker
  pool, a search against the working tree it is meant to reflect.
\<close>

subsection \<open>Lines\<close>

text \<open>The lines of a text; a final newline does not open another line.\<close>

definition scanLines :: "bytes \<Rightarrow> bytes list" where
  "scanLines content = (let ls = splitLines content in if List.last ls = [] then butlast ls else ls)"

lemma splitLines_ne [simp]: "splitLines s \<noteq> []"
  by (cases s) (auto split: list.splits)

lemma splitLines_plain: "newline \<notin> set v \<Longrightarrow> splitLines v = [v]"
  by (induction v) auto

lemma splitLines_cut: "newline \<notin> set v \<Longrightarrow> splitLines (v @ newline # w) = v # splitLines w"
  by (induction v) auto

lemma scanLines_Nil [simp]: "scanLines [] = []"
  by (simp add: scanLines_def)

lemma scanLines_plain: "newline \<notin> set v \<Longrightarrow> v \<noteq> [] \<Longrightarrow> scanLines v = [v]"
  by (simp add: scanLines_def splitLines_plain)

lemma scanLines_cut: "newline \<notin> set v \<Longrightarrow> scanLines (v @ newline # w) = v # scanLines w"
  by (simp add: scanLines_def splitLines_cut Let_def)

lemma IndexByte_cases:
  obtains (none) "IndexByte s c = None" "c \<notin> set s"
  | (found) v w where "s = v @ c # w" "c \<notin> set v" "IndexByte s c = Some (length v)"
proof (cases "IndexByte s c")
  case None
  then show thesis using none by (simp add: IndexByte_None_iff)
next
  case (Some i)
  then have "s = take i s @ c # drop (i + 1) s" "c \<notin> set (take i s)" "length (take i s) = i"
    by (auto simp: IndexByte_Some_iff Cons_nth_drop_Suc in_set_conv_nth)
  then show thesis using found Some by metis
qed

lemma scanLines_no_newline: "ln \<in> set (scanLines s) \<Longrightarrow> newline \<notin> set ln"
proof (induction "length s" arbitrary: s rule: less_induct)
  case less
  show ?case
  proof (cases rule: IndexByte_cases [where s = s and c = newline])
    case none
    with less show ?thesis by (cases "s = []") (auto simp: scanLines_plain)
  next
    case (found v w)
    then have "ln \<in> set (scanLines w) \<Longrightarrow> newline \<notin> set ln" using less(1) [of w] by simp
    with less(2) show ?thesis by (auto simp: found(1,2) scanLines_cut)
  qed
qed

lemma scanLines_sublist: "ln \<in> set (scanLines s) \<Longrightarrow> sublist ln s"
proof (induction "length s" arbitrary: s rule: less_induct)
  case less
  show ?case
  proof (cases rule: IndexByte_cases [where s = s and c = newline])
    case none
    with less show ?thesis by (cases "s = []") (auto simp: scanLines_plain)
  next
    case (found v w)
    from less(2) consider "ln = v" | "ln \<in> set (scanLines w)" by (auto simp: found scanLines_cut)
    then show ?thesis
    proof cases
      case 2
      then have "sublist ln w" using less(1) found by auto
      then obtain a b where "w = a @ ln @ b" by (auto simp: sublist_def)
      then have "s = (v @ newline # a) @ ln @ b" by (simp add: found(1))
      then show ?thesis by (metis sublist_appendI)
    qed (auto simp: found)
  qed
qed

subsection \<open>The line scanners\<close>

definition allHits :: "'re regexlib \<Rightarrow> 're Matcher \<Rightarrow> SearchOpts \<Rightarrow> gostring \<Rightarrow> nat \<Rightarrow> bytes list \<Rightarrow> Match list" where
  "allHits L mat opts rel n lns =
     concat (map (\<lambda>(k, ln). case FindFirst L mat ln of None \<Rightarrow> [] | Some loc \<Rightarrow> [lineHit rel opts k loc ln])
       (enumerate (Suc n) lns))"

lemma allHits_simps [simp]:
  "allHits L mat opts rel n [] = []"
  "allHits L mat opts rel n (ln # lns) =
     (case FindFirst L mat ln of None \<Rightarrow> [] | Some loc \<Rightarrow> [lineHit rel opts (Suc n) loc ln]) @
     allHits L mat opts rel (Suc n) lns"
  by (simp_all add: allHits_def)

text \<open>What is left to report after \<open>m\<close> matches.\<close>

definition cutHits :: "SearchOpts \<Rightarrow> nat \<Rightarrow> Match list \<Rightarrow> Match list" where
  "cutHits opts m hs =
     (if so_FilesOnly opts then take 1 hs
      else if so_Limit opts > 0 then take (nat (so_Limit opts) - m) hs else hs)"

definition goesOn :: "SearchOpts \<Rightarrow> Match list \<Rightarrow> bool" where
  "goesOn opts ms \<longleftrightarrow> so_FilesOnly opts \<or> so_Limit opts \<le> 0 \<or> int (length ms) < so_Limit opts"

lemma cutHits_step:
  assumes "goesOn opts ms"
  shows "cutHits opts (length ms) (h # hs) =
    h # (if scanDone opts (ms @ [h]) then [] else cutHits opts (length (ms @ [h])) hs)"
    "\<not> scanDone opts (ms @ [h]) \<Longrightarrow> goesOn opts (ms @ [h])"
proof -
  have "nat (so_Limit opts) - length ms = Suc n \<Longrightarrow> nat (so_Limit opts) - Suc (length ms) = n" for n by simp
  then show "cutHits opts (length ms) (h # hs) =
    h # (if scanDone opts (ms @ [h]) then [] else cutHits opts (length (ms @ [h])) hs)"
    using assms by (auto simp: cutHits_def scanDone_def goesOn_def take_Cons split: nat.splits)
  show "\<not> scanDone opts (ms @ [h]) \<Longrightarrow> goesOn opts (ms @ [h])"
    using assms by (auto simp: scanDone_def goesOn_def)
qed

lemma match_loop_hits:
  "goesOn opts ms \<Longrightarrow>
     match_loop L mat opts rel n content ms = ms @ cutHits opts (length ms) (allHits L mat opts rel n (scanLines content))"
proof (induction "length content" arbitrary: content n ms rule: less_induct)
  case less
  show ?case
  proof (cases rule: IndexByte_cases [where s = content and c = newline])
    case none
    then show ?thesis
      using less(2) cutHits_step [OF less(2)]
      by (cases "content = []")
        (auto simp: match_loop.simps scanLines_plain cutHits_def Let_def split: option.splits)
  next
    case (found v w)
    have IH: "goesOn opts ms' \<Longrightarrow> match_loop L mat opts rel n' w ms' =
        ms' @ cutHits opts (length ms') (allHits L mat opts rel n' (scanLines w))" for n' ms'
      using less(1) found(1) by auto
    show ?thesis
    proof (cases "FindFirst L mat v")
      case None
      then show ?thesis
        using IH [OF less(2)] by (subst match_loop.simps) (simp add: found(3), simp add: found(1,2) scanLines_cut)
    next
      case (Some loc)
      have l: "match_loop L mat opts rel n content ms =
          (let ms = ms @ [lineHit rel opts (Suc n) loc v] in
           if scanDone opts ms then ms else match_loop L mat opts rel (Suc n) w ms)"
        using Some by (subst match_loop.simps) (simp add: found(3), simp add: found(1) Let_def)
      show ?thesis
        unfolding l Let_def
        using Some IH [OF cutHits_step(2) [OF less(2)]] cutHits_step(1) [OF less(2)]
        by (simp add: found(1,2) scanLines_cut)
    qed
  qed
qed

lemma verify_loop_match_loop:
  "verify_loop L mat opts rel n content ms = match_loop L mat opts rel n content ms"
proof (induction "length content" arbitrary: content n ms rule: less_induct)
  case less
  show ?case
  proof (cases rule: IndexByte_cases [where s = content and c = newline])
    case none
    have last: "List.last content \<noteq> newline" if "content \<noteq> []"
      using none(2) last_in_set [OF that] by metis
    with none show ?thesis
      by (cases "content = []") (simp_all add: verify_loop.simps match_loop.simps Let_def split: option.splits)
  next
    case (found v w)
    then have IH: "verify_loop L mat opts rel n' w ms' = match_loop L mat opts rel n' w ms'" for n' ms'
      using less by auto
    show ?thesis
      by (subst verify_loop.simps, subst match_loop.simps)
        (simp add: found(3), simp add: found(1) Let_def IH butlast_append split: option.splits)
  qed
qed

lemma matchContent_eq:
  "matchContent L rel content mat opts =
     (if isBinary content then [] else cutHits opts 0 (allHits L mat opts rel 0 (scanLines content)))"
proof -
  have "take (if length content > 8192 then 8192 else length content) content = take 8192 content" by simp
  moreover have "goesOn opts []" by (auto simp: goesOn_def)
  ultimately show ?thesis
    using match_loop_hits [of opts "[]" L mat rel 0 content]
    by (simp add: matchContent_def isBinary_def Let_def)
qed

lemma verifyFile_eq:
  assumes "inline \<noteq> None \<Longrightarrow> inline = Some (tf_content f)" and "tr rel = Some f"
  shows "verifyFile L tr rel mat opts inline = matchContent L rel (tf_content f) mat opts"
proof (cases inline)
  case None
  have "take (if length c > 8192 then 8192 else length c) c = take 8192 c" for c :: bytes by simp
  with None assms(2) show ?thesis
    by (simp add: verifyFile_def matchContent_def verify_loop_match_loop Let_def)
next
  case (Some c)
  with assms show ?thesis by (simp add: verifyFile_def)
qed


subsection \<open>The worker pool\<close>

lemma runJobs_eq:
  assumes "set sched \<subseteq> {..<length slots}"
  shows "runJobs job sched slots =
    (if \<exists>i \<in> set sched. job i = None then None
     else Some (map (\<lambda>i. if i \<in> set sched then the (job i) else slots ! i) [0..<length slots]))"
  using assms
proof (induction sched arbitrary: slots)
  case Nil
  then show ?case by (simp add: map_nth)
next
  case (Cons i sched)
  show ?case
  proof (cases "job i")
    case (Some r)
    have "set sched \<subseteq> {..<length (slots[i := r])}" using Cons.prems by simp
    from Cons.IH [OF this] Some show ?thesis
      by (auto simp: nth_list_update intro!: map_cong)
  qed simp
qed

lemma runJobs_all:
  assumes "set sched = {..<n}"
  shows "runJobs job sched (replicate n z) =
    (if \<exists>i < n. job i = None then None else Some (map (\<lambda>i. the (job i)) [0..<n]))"
  using runJobs_eq [of sched "replicate n z" job] assms by (auto intro!: map_cong)

subsection \<open>Shards on disk\<close>

text \<open>The descriptor of a shard between operations, and the shard file it belongs to.\<close>

definition shardOf :: "gostring \<Rightarrow> int \<Rightarrow> document list \<Rightarrow> Shard" where
  "shardOf path kb docs = (imageOf path (Build kb docs))\<lparr>sh_data := [], sh_refs := 0\<rparr>"

definition shard_holds :: "filesystem \<Rightarrow> int \<Rightarrow> Shard \<Rightarrow> document list \<Rightarrow> bool" where
  "shard_holds fs kb s docs \<longleftrightarrow>
     fits (Build kb docs) \<and> s = shardOf (sh_path s) kb docs \<and> fs (sh_path s) = Some (shardBytes (Build kb docs))"

lemma sh_path_shardOf [simp]: "sh_path (shardOf path kb docs) = path"
  by (simp add: shardOf_def imageOf_def)

lemma shard_holdsE:
  assumes "shard_holds fs kb s docs"
  obtains path where "s = shardOf path kb docs" "fits (Build kb docs)" "fs path = Some (shardBytes (Build kb docs))"
  using assms by (auto simp: shard_holds_def)

lemma mapShard_holds:
  "shard_holds fs kb s docs \<Longrightarrow> mapShard fs s = Some (imageOf (sh_path s) (Build kb docs))"
  by (erule shard_holdsE) (simp add: mapShard_def Mmap_def, simp add: shardOf_def imageOf_def)

text \<open>What a shard keeps of a content; an empty one reads back as not inlined.\<close>

definition inlineOf :: "int \<Rightarrow> bytes \<Rightarrow> bytes option" where
  "inlineOf kb c = (if c \<noteq> [] \<and> kb > 0 \<and> int (length c) \<le> kb * 1024 then Some c else None)"

lemma docs_nth:
  assumes "fits (Build kb docs)" and "i < length docs"
  shows "FileAt (imageOf path (Build kb docs)) i = Some (fst (docs ! i))"
    "ShardFileDefs (imageOf path (Build kb docs)) i = Some (snd (snd (docs ! i)))"
    "FileContentAt (imageOf path (Build kb docs)) i =
      Some (inlineOf kb (doc_content (docs ! i)))"
proof -
  let ?b = "Build kb docs"
  have files: "bd_files ?b = map (storedFile kb) docs" using Build_props [of kb docs] by simp
  then have i: "i < length (bd_files ?b)" "bd_files ?b ! i = storedFile kb (docs ! i)" using assms(2) by simp_all
  obtain m c ds where d: "docs ! i = (m, c, ds)" by (cases "docs ! i")
  have "readable (imageOf path ?b) ?b" by (simp add: readable_def imageOf_def)
  from FileAt_written [OF assms(1) this i(1)] ShardFileDefs_written [OF assms(1) i(1)] FileContentAt_written [OF assms(1) i(1)]
  show "FileAt (imageOf path ?b) i = Some (fst (docs ! i))"
    "ShardFileDefs (imageOf path ?b) i = Some (snd (snd (docs ! i)))"
    "FileContentAt (imageOf path ?b) i =
      Some (inlineOf kb (doc_content (docs ! i)))"
    by (simp_all add: i(2) d storedFile_def inlineOf_def)
qed

lemma numFiles_image: "fits (Build kb docs) \<Longrightarrow> unat (sh_numFiles (imageOf path (Build kb docs))) = length docs"
  using Build_props [of kb docs] by (simp add: imageOf_def numFilesOf_def fits_def unat_of_nat)

lemma filesFrom_image:
  "fits (Build kb docs) \<Longrightarrow> \<forall>i \<in> set is. i < length docs \<Longrightarrow>
     filesFrom (imageOf path (Build kb docs)) is = Some (map (\<lambda>i. fst (docs ! i)) is)"
  by (induction "is") (simp_all add: docs_nth(1))

lemma map_nth_upt: "map (\<lambda>i. f (xs ! i)) [0..<length xs] = map f xs"
  by (metis map_map map_nth comp_def map_cong)

lemma shardEntries_holds: "shard_holds fs kb s docs \<Longrightarrow> shardEntries fs s = Some (map fst docs)"
  using filesFrom_image [of kb docs "[0..<length docs]" "sh_path s"] map_nth_upt [of fst docs]
  by (simp add: shardEntries_def mapShard_holds ShardFiles_def) (auto simp: numFiles_image shard_holds_def)

lemma allEntries_holds:
  "list_all2 (shard_holds fs kb) ss dss \<Longrightarrow> allEntries fs ss = Some (map fst (concat dss))"
  by (induction rule: list_all2_induct) (simp_all add: shardEntries_holds)

subsection \<open>Reports\<close>

text \<open>A search as a sequence of reports: a path and the matches found there.\<close>

type_synonym report = "gostring \<times> Match list"

definition addCount :: "(gostring \<times> nat) list \<Rightarrow> report \<Rightarrow> (gostring \<times> nat) list" where
  "addCount fc r = (if snd r = [] then fc else AList.update (fst r) (length (snd r)) fc)"

definition countMap :: "report list \<Rightarrow> gostring \<rightharpoonup> nat" where
  "countMap rs = map_of (rev (map (\<lambda>r. (fst r, length (snd r))) (filter (\<lambda>r. snd r \<noteq> []) rs)))"

lemma countMap_Nil [simp]: "countMap [] = Map.empty"
  by (simp add: countMap_def)

lemma countMap_append: "countMap (rs @ rs') = countMap rs ++ countMap rs'"
  by (simp add: countMap_def)

lemma countMap_single: "countMap [r] = (if snd r = [] then Map.empty else [fst r \<mapsto> length (snd r)])"
  by (simp add: countMap_def)

lemma map_of_addCount: "map_of (addCount fc r) = map_of fc ++ countMap [r]"
  by (simp add: addCount_def countMap_single update_conv')

lemma distinct_addCount: "distinct (map fst fc) \<Longrightarrow> distinct (map fst (addCount fc r))"
  by (simp add: addCount_def distinct_update)

lemma map_of_addCounts: "map_of (foldl addCount fc rs) = map_of fc ++ countMap rs"
proof (induction rs arbitrary: fc)
  case (Cons r rs)
  then show ?case using countMap_append [of "[r]" rs] by (simp add: map_of_addCount)
qed simp

lemma distinct_addCounts: "distinct (map fst fc) \<Longrightarrow> distinct (map fst (foldl addCount fc rs))"
  by (induction rs arbitrary: fc) (simp_all add: distinct_addCount)

lemma map_of_mergeCounts: "distinct (map fst cs) \<Longrightarrow> map_of (mergeCounts fc cs) = map_of fc ++ map_of cs"
proof (induction cs arbitrary: fc)
  case (Cons c cs)
  obtain p n where c: "c = (p, n)" by (cases c)
  with Cons have "map_of cs p = None" by (simp add: map_of_eq_None_iff)
  then have "m(p \<mapsto> n) ++ map_of cs = m ++ (map_of cs)(p \<mapsto> n)" for m :: "gostring \<rightharpoonup> nat"
    by (intro ext) (simp add: map_add_def split: option.split)
  with Cons c show ?case by (simp add: update_conv' fun_upd_def)
qed simp

lemma countMap_Some_iff:
  "distinct (map fst rs) \<Longrightarrow> countMap rs p = Some n \<longleftrightarrow> (\<exists>ms. (p, ms) \<in> set rs \<and> ms \<noteq> [] \<and> n = length ms)"
  unfolding countMap_def
  by (subst map_of_eq_Some_iff) (auto simp: rev_map [symmetric] distinct_map inj_on_def image_iff intro!: inj_onI)

text \<open>The reports of a shard, in the order of its files, and of the dirty files.\<close>

definition docMatches ::
    "'re regexlib \<Rightarrow> tree \<Rightarrow> dirtyMap \<Rightarrow> 're Matcher \<Rightarrow> SearchOpts \<Rightarrow> int \<Rightarrow> document \<Rightarrow> Match list" where
  "docMatches L tr dirty mat opts kb d =
     (if map_of dirty (fm_Path (fst d)) \<noteq> None \<or> \<not> admits opts (fst d) then []
      else verifyFile L tr (fm_Path (fst d)) mat opts (inlineOf kb (doc_content d)))"

definition docReport ::
    "'re regexlib \<Rightarrow> tree \<Rightarrow> dirtyMap \<Rightarrow> 're Matcher \<Rightarrow> SearchOpts \<Rightarrow> int \<Rightarrow> document \<Rightarrow> report" where
  "docReport L tr dirty mat opts kb d = (fm_Path (fst d), docMatches L tr dirty mat opts kb d)"

definition shardReports ::
    "'re regexlib \<Rightarrow> tree \<Rightarrow> dirtyMap \<Rightarrow> 're Matcher \<Rightarrow> SearchOpts \<Rightarrow> int \<Rightarrow> document list \<Rightarrow> report list" where
  "shardReports L tr dirty mat opts kb docs =
     map (docReport L tr dirty mat opts kb) (filter (\<lambda>d. keys_of (so_Literal opts) \<subseteq> keys_of (doc_content d)) docs)"

definition dirtyMatches :: "'re regexlib \<Rightarrow> tree \<Rightarrow> 're Matcher \<Rightarrow> SearchOpts \<Rightarrow> gostring \<Rightarrow> Match list" where
  "dirtyMatches L tr mat opts rel =
     (case tr rel of
        None \<Rightarrow> []
      | Some f \<Rightarrow>
          if admits opts \<lparr>fm_Path = rel, fm_Size = tf_size f, fm_MtimeNS = tf_mtime f\<rparr>
          then verifyFile L tr rel mat opts None else [])"

definition listed :: "SearchOpts \<Rightarrow> report list \<Rightarrow> Match list" where
  "listed opts rs = (if so_FilesOnly opts then [] else concat (map snd rs))"

lemma listed_append [simp]: "listed opts (rs @ rs') = listed opts rs @ listed opts rs'"
  by (simp add: listed_def)

lemma listed_Nil [simp]: "listed opts [] = []"
  by (simp add: listed_def)

lemma scanCandidates_holds:
  assumes "fits (Build kb docs)" and "\<forall>i \<in> set is. unat i < length docs"
  shows "scanCandidates L tr dirty mat opts (imageOf path (Build kb docs)) is sr =
    (let rs = map (\<lambda>i. docReport L tr dirty mat opts kb (docs ! unat i)) is in
     Some \<lparr>sr_matches = sr_matches sr @ listed opts rs, sr_fileCounts = foldl addCount (sr_fileCounts sr) rs\<rparr>)"
  using assms(2)
proof (induction "is" arbitrary: sr)
  case (Cons i "is")
  let ?d = "docs ! unat i" and ?r = "docReport L tr dirty mat opts kb (docs ! unat i)"
  let ?sr = "\<lparr>sr_matches = sr_matches sr @ listed opts [?r], sr_fileCounts = addCount (sr_fileCounts sr) ?r\<rparr>"
  have i: "unat i < length docs" using Cons.prems by simp
  have "scanCandidates L tr dirty mat opts (imageOf path (Build kb docs)) (i # is) sr =
      scanCandidates L tr dirty mat opts (imageOf path (Build kb docs)) is ?sr"
    by (cases sr) (simp add: docs_nth [OF assms(1) i] docReport_def docMatches_def admits_def listed_def addCount_def Let_def)
  with Cons show ?case by (simp add: Let_def listed_def)
qed simp

lemma searchShard_holds:
  assumes "shard_holds fs kb s docs"
  shows "searchShard L tr fs dirty mat opts s =
    (let rs = shardReports L tr dirty mat opts kb docs in
     Some \<lparr>sr_matches = listed opts rs, sr_fileCounts = foldl addCount [] rs\<rparr>)"
proof -
  from assms obtain path where s: "s = shardOf path kb docs" "fits (Build kb docs)" by (rule shard_holdsE)
  show ?thesis
  proof (cases "HasTrigrams s (so_Literal opts)")
    case False
    have "sh_triKeys s = triKeysOf (Build kb docs)" by (simp add: s(1) shardOf_def imageOf_def)
    then have "filter (\<lambda>d. keys_of (so_Literal opts) \<subseteq> keys_of (doc_content d)) docs = []"
      using HasTrigrams_written [OF s(2)] False by (auto simp: filter_empty_conv)
    with False show ?thesis by (simp add: searchShard_def shardReports_def emptyResult_def Let_def)
  next
    case True
    let ?P = "\<lambda>d. keys_of (so_Literal opts) \<subseteq> keys_of (doc_content d)"
    let ?is = "map of_nat (filter (\<lambda>i. ?P (docs ! i)) [0..<length docs]) :: u32 list"
    have len: "length docs < 2 ^ 32" using s(2) Build_props [of kb docs] by (simp add: fits_def)
    then have un: "unat (of_nat i :: u32) = i" if "i < length docs" for i using that by (simp add: unat_of_nat)
    have "map (\<lambda>i. docs ! unat i) ?is = map (\<lambda>i. docs ! i) (filter (\<lambda>i. ?P (docs ! i)) [0..<length docs])"
      by (auto simp: un)
    also have "\<dots> = filter ?P docs"
      using filter_map [of ?P "\<lambda>i. docs ! i" "[0..<length docs]"] by (simp add: map_nth comp_def)
    finally have sel: "map (\<lambda>i. docs ! unat i) ?is = filter ?P docs" .
    have rs: "map (\<lambda>i. docReport L tr dirty mat opts kb (docs ! unat i)) ?is = shardReports L tr dirty mat opts kb docs"
      using arg_cong [OF sel, of "map (docReport L tr dirty mat opts kb)"] by (simp add: shardReports_def comp_def)
    have "\<forall>i \<in> set ?is. unat i < length docs" by (auto simp: un)
    from scanCandidates_holds [OF s(2) this, of L tr dirty mat opts path emptyResult]
    have "scanCandidates L tr dirty mat opts (imageOf path (Build kb docs)) ?is emptyResult =
        (let rs = shardReports L tr dirty mat opts kb docs in
         Some \<lparr>sr_matches = listed opts rs, sr_fileCounts = foldl addCount [] rs\<rparr>)"
      unfolding rs by (simp add: emptyResult_def)
    moreover have "mapShard fs s = Some (imageOf path (Build kb docs))"
      using mapShard_holds [OF assms] s(1) by simp
    ultimately show ?thesis
      using True by (simp add: searchShard_def Candidates_list [OF s(2)])
  qed
qed

subsection \<open>Merging\<close>

definition resultOf :: "SearchOpts \<Rightarrow> report list \<Rightarrow> shardResult" where
  "resultOf opts rs = \<lparr>sr_matches = listed opts rs, sr_fileCounts = foldl addCount [] rs\<rparr>"

lemma map_of_merge_result:
  "map_of (mergeCounts fc (sr_fileCounts (resultOf opts rs))) = map_of fc ++ countMap rs"
  by (simp add: resultOf_def map_of_mergeCounts distinct_addCounts map_of_addCounts)

definition unlimited :: "SearchOpts \<Rightarrow> bool" where
  "unlimited opts \<longleftrightarrow> so_FilesOnly opts \<or> so_Limit opts \<le> 0"

lemma merge_unlimited:
  assumes "unlimited opts" and "so_FilesOnly opts \<Longrightarrow> sr_Matches res = []"
  shows "\<exists>res'. merge_loop opts (map (resultOf opts) rss) res = (False, res') \<and>
    sr_Matches res' = sr_Matches res @ listed opts (concat rss) \<and>
    map_of (sr_FileCounts res') = map_of (sr_FileCounts res) ++ countMap (concat rss) \<and>
    sr_Truncated res' = sr_Truncated res"
  using assms(2)
proof (induction rss arbitrary: res)
  case (Cons rs rss)
  let ?res = "\<lparr>sr_Matches = sr_Matches res @ listed opts rs,
      sr_FileCounts = mergeCounts (sr_FileCounts res) (sr_fileCounts (resultOf opts rs)), sr_Truncated = sr_Truncated res\<rparr>"
  have step: "merge_loop opts (map (resultOf opts) (rs # rss)) res = merge_loop opts (map (resultOf opts) rss) ?res"
    using assms(1) Cons.prems by (cases res) (auto simp: Let_def resultOf_def listed_def unlimited_def)
  have "so_FilesOnly opts \<Longrightarrow> sr_Matches ?res = []" using Cons.prems by (simp add: listed_def)
  from Cons.IH [OF this] show ?case
    unfolding step by (auto simp: map_of_merge_result countMap_append)
qed simp

lemma merge_limited:
  assumes "\<not> unlimited opts" and "int (length (sr_Matches res)) < so_Limit opts"
  shows "\<exists>stop res'. merge_loop opts (map (resultOf opts) rss) res = (stop, res') \<and>
    (stop \<longleftrightarrow> so_Limit opts \<le> int (length (sr_Matches res @ listed opts (concat rss)))) \<and>
    sr_Matches res' = take (nat (so_Limit opts)) (sr_Matches res @ listed opts (concat rss)) \<and>
    (sr_Truncated res' \<longleftrightarrow> sr_Truncated res \<or> stop)"
  using assms(2)
proof (induction rss arbitrary: res)
  case Nil
  then show ?case by (intro exI [of _ False]) simp
next
  case (Cons rs rss)
  let ?ms = "sr_Matches res @ listed opts rs"
  let ?res = "\<lparr>sr_Matches = ?ms,
      sr_FileCounts = mergeCounts (sr_FileCounts res) (sr_fileCounts (resultOf opts rs)), sr_Truncated = sr_Truncated res\<rparr>"
  have lim: "so_Limit opts > 0" "\<not> so_FilesOnly opts" using assms(1) by (auto simp: unlimited_def)
  show ?case
  proof (cases "so_Limit opts \<le> int (length ?ms)")
    case True
    then have "take (nat (so_Limit opts)) (?ms @ xs) = take (nat (so_Limit opts)) ?ms" for xs by simp
    with True lim show ?thesis
      by (cases res) (auto simp: Let_def resultOf_def)
  next
    case False
    then have step: "merge_loop opts (map (resultOf opts) (rs # rss)) res = merge_loop opts (map (resultOf opts) rss) ?res"
      using lim by (cases res) (auto simp: Let_def resultOf_def)
    have "int (length (sr_Matches ?res)) < so_Limit opts" using False by simp
    from Cons.IH [OF this] show ?thesis unfolding step by auto
  qed
qed

definition dirtyReport :: "'re regexlib \<Rightarrow> tree \<Rightarrow> 're Matcher \<Rightarrow> SearchOpts \<Rightarrow> gostring \<Rightarrow> report" where
  "dirtyReport L tr mat opts rel = (rel, dirtyMatches L tr mat opts rel)"

definition dirtySkips :: "tree \<Rightarrow> SearchOpts \<Rightarrow> gostring \<Rightarrow> bool" where
  "dirtySkips tr opts rel \<longleftrightarrow> tr rel = None \<or> \<not> admits opts \<lparr>fm_Path = rel, fm_Size = tf_size (the (tr rel)), fm_MtimeNS = tf_mtime (the (tr rel))\<rparr>"

lemma dirty_step:
  "dirty_loop L tr mat opts (rel # rels) res =
     (if dirtySkips tr opts rel
      then dirty_loop L tr mat opts rels res
      else
        let r = dirtyReport L tr mat opts rel;
            res = \<lparr>sr_Matches = sr_Matches res @ listed opts [r], sr_FileCounts = addCount (sr_FileCounts res) r,
                   sr_Truncated = sr_Truncated res\<rparr>
        in if so_Limit opts > 0 \<and> int (length (sr_Matches res)) \<ge> so_Limit opts
           then res\<lparr>sr_Truncated := True\<rparr> else dirty_loop L tr mat opts rels res)"
  by (cases res; cases "tr rel")
    (auto simp: dirtySkips_def dirtyReport_def dirtyMatches_def admits_def listed_def addCount_def Let_def)

declare dirty_loop.simps(2) [simp del]

lemma listed_empty [simp]: "listed opts [(rel, [])] = []"
  by (simp add: listed_def)

lemma dirty_go:
  assumes "\<not> dirtySkips tr opts rel"
    and "res' = \<lparr>sr_Matches = sr_Matches res @ listed opts [dirtyReport L tr mat opts rel],
           sr_FileCounts = addCount (sr_FileCounts res) (dirtyReport L tr mat opts rel), sr_Truncated = sr_Truncated res\<rparr>"
  shows "dirty_loop L tr mat opts (rel # rels) res =
    (if so_Limit opts > 0 \<and> int (length (sr_Matches res')) \<ge> so_Limit opts
     then res'\<lparr>sr_Truncated := True\<rparr> else dirty_loop L tr mat opts rels res')"
  unfolding assms(2) by (simp only: dirty_step assms(1) if_False Let_def)

lemma dirty_report_none:
  "dirtySkips tr opts rel \<Longrightarrow>
     dirtyReport L tr mat opts rel = (rel, [])"
  by (cases "tr rel") (auto simp: dirtySkips_def dirtyReport_def dirtyMatches_def)

lemma dirty_unlimited:
  assumes "unlimited opts" and "so_FilesOnly opts \<Longrightarrow> sr_Matches res = []"
  shows "sr_Matches (dirty_loop L tr mat opts rels res) =
      sr_Matches res @ listed opts (map (dirtyReport L tr mat opts) rels) \<and>
    map_of (sr_FileCounts (dirty_loop L tr mat opts rels res)) =
      map_of (sr_FileCounts res) ++ countMap (map (dirtyReport L tr mat opts) rels) \<and>
    sr_Truncated (dirty_loop L tr mat opts rels res) = sr_Truncated res"
  using assms(2)
proof (induction rels arbitrary: res)
  case (Cons rel rels)
  let ?r = "dirtyReport L tr mat opts rel"
  let ?res = "\<lparr>sr_Matches = sr_Matches res @ listed opts [?r], sr_FileCounts = addCount (sr_FileCounts res) ?r,
      sr_Truncated = sr_Truncated res\<rparr>"
  have rs: "countMap (map (dirtyReport L tr mat opts) (rel # rels)) = countMap [?r] ++ countMap (map (dirtyReport L tr mat opts) rels)"
    "listed opts (map (dirtyReport L tr mat opts) (rel # rels)) = listed opts [?r] @ listed opts (map (dirtyReport L tr mat opts) rels)"
    by (simp_all add: countMap_def listed_def)
  show ?case
  proof (cases "dirtySkips tr opts rel")
    case True
    then have "dirty_loop L tr mat opts (rel # rels) res = dirty_loop L tr mat opts rels res"
      by (simp only: dirty_step if_True)
    with Cons.IH [OF Cons.prems] dirty_report_none [OF True, of L mat] show ?thesis
      unfolding rs by (simp add: countMap_single)
  next
    case False
    have "so_FilesOnly opts \<Longrightarrow> sr_Matches ?res = []" using Cons.prems by (simp add: listed_def)
    note IH = Cons.IH [OF this]
    have "\<not> (so_Limit opts > 0 \<and> int (length (sr_Matches ?res)) \<ge> so_Limit opts)"
      using assms(1) Cons.prems by (auto simp: listed_def unlimited_def)
    then have "dirty_loop L tr mat opts (rel # rels) res = dirty_loop L tr mat opts rels ?res"
      by (simp only: dirty_go [OF False refl] if_False)
    with IH show ?thesis unfolding rs by (simp add: map_of_addCount)
  qed
qed simp

lemma dirty_limited:
  assumes "\<not> unlimited opts" and "int (length (sr_Matches res)) < so_Limit opts"
    and "\<And>rel. int (length (dirtyMatches L tr mat opts rel)) \<le> so_Limit opts"
  shows "prefix (sr_Matches (dirty_loop L tr mat opts rels res))
      (sr_Matches res @ listed opts (map (dirtyReport L tr mat opts) rels)) \<and>
    take (nat (so_Limit opts)) (sr_Matches (dirty_loop L tr mat opts rels res)) =
      take (nat (so_Limit opts)) (sr_Matches res @ listed opts (map (dirtyReport L tr mat opts) rels)) \<and>
    int (length (sr_Matches (dirty_loop L tr mat opts rels res))) < 2 * so_Limit opts \<and>
    (sr_Truncated (dirty_loop L tr mat opts rels res) \<longleftrightarrow>
      sr_Truncated res \<or> so_Limit opts \<le> int (length (sr_Matches res @ listed opts (map (dirtyReport L tr mat opts) rels))))"
  using assms(2)
proof (induction rels arbitrary: res)
  case Nil
  then show ?case by (simp add: take_all)
next
  case (Cons rel rels)
  let ?r = "dirtyReport L tr mat opts rel" and ?rs = "map (dirtyReport L tr mat opts) rels"
  let ?res = "\<lparr>sr_Matches = sr_Matches res @ listed opts [?r], sr_FileCounts = addCount (sr_FileCounts res) ?r,
      sr_Truncated = sr_Truncated res\<rparr>"
  have lim: "so_Limit opts > 0" "\<not> so_FilesOnly opts" using assms(1) by (auto simp: unlimited_def)
  have rs: "listed opts (map (dirtyReport L tr mat opts) (rel # rels)) = listed opts [?r] @ listed opts ?rs"
    by (simp add: listed_def)
  show ?case
  proof (cases "dirtySkips tr opts rel")
    case True
    then have "dirty_loop L tr mat opts (rel # rels) res = dirty_loop L tr mat opts rels res"
      by (simp only: dirty_step if_True)
    with Cons.IH [OF Cons.prems] dirty_report_none [OF True, of L mat] show ?thesis
      unfolding rs by simp
  next
    case go: False
    show ?thesis
    proof (cases "so_Limit opts \<le> int (length (sr_Matches ?res))")
      case True
      then have "dirty_loop L tr mat opts (rel # rels) res = ?res\<lparr>sr_Truncated := True\<rparr>"
        by (simp only: dirty_go [OF go refl] lim simp_thms if_True)
      moreover have "int (length (sr_Matches ?res)) < 2 * so_Limit opts"
        using Cons.prems assms(3) [of rel] lim(2) by (simp add: listed_def dirtyReport_def)
      ultimately show ?thesis unfolding rs using True by simp
    next
      case False
      then have step: "dirty_loop L tr mat opts (rel # rels) res = dirty_loop L tr mat opts rels ?res"
        by (simp only: dirty_go [OF go refl] simp_thms if_False)
      have "int (length (sr_Matches ?res)) < so_Limit opts" using False by simp
      from Cons.IH [OF this] show ?thesis unfolding rs step by simp
    qed
  qed
qed

subsection \<open>A search as its reports\<close>

definition searchReports ::
    "'re regexlib \<Rightarrow> tree \<Rightarrow> 're Matcher \<Rightarrow> SearchOpts \<Rightarrow> int \<Rightarrow> document list list \<Rightarrow> dirtyMap \<Rightarrow> report list" where
  "searchReports L tr mat opts kb dss dirty =
     concat (map (shardReports L tr dirty mat opts kb) dss) @ map (dirtyReport L tr mat opts) (sort (dirtyPathsOf dirty))"

lemma DiskSearch_run:
  assumes "list_all2 (shard_holds (en_fs e) kb) (en_shards e) dss" and "set sched = {..<NumShards e}"
  shows "DiskSearch L tr sched e re opts =
    (case merge_loop opts (map (resultOf opts) (map (shardReports L tr (en_dirty e) (engineMatcher L re opts) opts kb) dss))
        \<lparr>sr_Matches = [], sr_FileCounts = [], sr_Truncated = False\<rparr> of
       (stop, res) \<Rightarrow> Some (if stop then res
         else dirty_loop L tr (engineMatcher L re opts) opts (sort (dirtyPathsOf (en_dirty e))) res))"
proof -
  let ?mat = "engineMatcher L re opts" and ?n = "length (en_shards e)"
  let ?job = "\<lambda>i. searchShard L tr (en_fs e) (en_dirty e) ?mat opts (en_shards e ! i)"
  have len: "length dss = ?n" using assms(1) by (simp add: list_all2_lengthD)
  have job: "?job i = Some (resultOf opts (shardReports L tr (en_dirty e) ?mat opts kb (dss ! i)))" if "i < ?n" for i
    using searchShard_holds [OF list_all2_nthD [OF assms(1) that]] by (simp add: resultOf_def Let_def)
  have "map (\<lambda>i. the (?job i)) [0..<?n] = map (\<lambda>i. resultOf opts (shardReports L tr (en_dirty e) ?mat opts kb (dss ! i))) [0..<?n]"
    using job by auto
  also have "\<dots> = map (resultOf opts) (map (shardReports L tr (en_dirty e) ?mat opts kb) dss)"
    using map_nth_upt [of "\<lambda>docs. resultOf opts (shardReports L tr (en_dirty e) ?mat opts kb docs)" dss] len by simp
  moreover have "\<not> (\<exists>i < ?n. ?job i = None)" using job by auto
  ultimately have "runJobs ?job sched (replicate ?n emptyResult) =
      Some (map (resultOf opts) (map (shardReports L tr (en_dirty e) ?mat opts kb) dss))"
    using assms(2) runJobs_all [of sched ?n ?job emptyResult] by (simp add: NumShards_def)
  then show ?thesis by (simp add: DiskSearch_def Let_def split: prod.splits)
qed

lemma DiskSearch_unlimited:
  assumes "list_all2 (shard_holds (en_fs e) kb) (en_shards e) dss" and "set sched = {..<NumShards e}"
    and "unlimited opts"
  shows "\<exists>res. DiskSearch L tr sched e re opts = Some res \<and>
    sr_Matches res = listed opts (searchReports L tr (engineMatcher L re opts) opts kb dss (en_dirty e)) \<and>
    map_of (sr_FileCounts res) = countMap (searchReports L tr (engineMatcher L re opts) opts kb dss (en_dirty e)) \<and>
    \<not> sr_Truncated res"
proof -
  let ?mat = "engineMatcher L re opts"
  obtain res' where res': "merge_loop opts (map (resultOf opts) (map (shardReports L tr (en_dirty e) ?mat opts kb) dss))
        \<lparr>sr_Matches = [], sr_FileCounts = [], sr_Truncated = False\<rparr> = (False, res')"
    "sr_Matches res' = listed opts (concat (map (shardReports L tr (en_dirty e) ?mat opts kb) dss))"
    "map_of (sr_FileCounts res') = countMap (concat (map (shardReports L tr (en_dirty e) ?mat opts kb) dss))"
    "\<not> sr_Truncated res'"
    using merge_unlimited [OF assms(3), of "\<lparr>sr_Matches = [], sr_FileCounts = [], sr_Truncated = False\<rparr>"
        "map (shardReports L tr (en_dirty e) ?mat opts kb) dss"] by auto
  have "so_FilesOnly opts \<Longrightarrow> sr_Matches res' = []" by (simp add: res' listed_def)
  note dirty = dirty_unlimited [OF assms(3) this, of L tr ?mat "sort (dirtyPathsOf (en_dirty e))"]
  show ?thesis
    unfolding DiskSearch_run [OF assms(1,2)] res'(1)
    using dirty res' by (simp add: searchReports_def countMap_append)
qed

lemma DiskSearch_limited:
  assumes "list_all2 (shard_holds (en_fs e) kb) (en_shards e) dss" and "set sched = {..<NumShards e}"
    and "\<not> unlimited opts"
    and "\<And>rel. int (length (dirtyMatches L tr (engineMatcher L re opts) opts rel)) \<le> so_Limit opts"
  shows "\<exists>res. DiskSearch L tr sched e re opts = Some res \<and>
    take (nat (so_Limit opts)) (sr_Matches res) =
      take (nat (so_Limit opts)) (listed opts (searchReports L tr (engineMatcher L re opts) opts kb dss (en_dirty e))) \<and>
    int (length (sr_Matches res)) < 2 * so_Limit opts \<and>
    (sr_Truncated res \<longleftrightarrow>
      so_Limit opts \<le> int (length (listed opts (searchReports L tr (engineMatcher L re opts) opts kb dss (en_dirty e)))))"
proof -
  let ?mat = "engineMatcher L re opts"
  let ?ms = "listed opts (concat (map (shardReports L tr (en_dirty e) ?mat opts kb) dss))"
  have lim: "so_Limit opts > 0" using assms(3) by (auto simp: unlimited_def)
  then obtain stop res' where res': "merge_loop opts (map (resultOf opts) (map (shardReports L tr (en_dirty e) ?mat opts kb) dss))
        \<lparr>sr_Matches = [], sr_FileCounts = [], sr_Truncated = False\<rparr> = (stop, res')"
    "stop \<longleftrightarrow> so_Limit opts \<le> int (length ?ms)"
    "sr_Matches res' = take (nat (so_Limit opts)) ?ms" "sr_Truncated res' \<longleftrightarrow> stop"
    using merge_limited [OF assms(3), of "\<lparr>sr_Matches = [], sr_FileCounts = [], sr_Truncated = False\<rparr>"
        "map (shardReports L tr (en_dirty e) ?mat opts kb) dss"] by auto
  show ?thesis
  proof (cases stop)
    case True
    then show ?thesis
      unfolding DiskSearch_run [OF assms(1,2)] res'(1)
      using res'(2-4) lim by (simp add: searchReports_def)
  next
    case False
    then have "int (length (sr_Matches res')) < so_Limit opts" using res'(2,3) by simp
    note dirty = dirty_limited [OF assms(3) this assms(4), of "sort (dirtyPathsOf (en_dirty e))"]
    have "take (nat (so_Limit opts)) ?ms = ?ms" using False res'(2) by simp
    with dirty False show ?thesis
      unfolding DiskSearch_run [OF assms(1,2)] res'(1)
      using res'(2-4) by (simp add: searchReports_def)
  qed
qed

subsection \<open>The engine reflects the tree\<close>

abbreviation docPath :: "document \<Rightarrow> gostring" where "docPath d \<equiv> fm_Path (fst d)"

text \<open>\<open>dss\<close> are the documents of the shards. A path that is not dirty is indexed as it is on
  disk; a text file is indexed or dirty, and not dirty as deleted.\<close>

definition doc_current :: "tree \<Rightarrow> document \<Rightarrow> bool" where
  "doc_current tr d \<longleftrightarrow>
     (case tr (docPath d) of
        None \<Rightarrow> False
      | Some f \<Rightarrow> doc_content d = decoded (tf_content f) \<and> \<not> isBinary (doc_content d) \<and>
          fm_Size (fst d) = tf_size f \<and> fm_MtimeNS (fst d) = tf_mtime f)"

definition engine_ok :: "tree \<Rightarrow> document list list \<Rightarrow> DiskEngine \<Rightarrow> bool" where
  "engine_ok tr dss e \<longleftrightarrow>
     list_all2 (shard_holds (en_fs e) (dc_InlineKB (en_cfg e))) (en_shards e) dss \<and>
     distinct (map docPath (concat dss)) \<and> distinct (map fst (en_dirty e)) \<and>
     (\<forall>d \<in> set (concat dss). map_of (en_dirty e) (docPath d) = None \<longrightarrow> doc_current tr d) \<and>
     (\<forall>p. loadText tr p \<noteq> None \<longrightarrow>
        (case map_of (en_dirty e) p of
           None \<Rightarrow> p \<in> docPath ` set (concat dss)
         | Some de \<Rightarrow> \<not> de_deleted de))"

text \<open>What the lines of a file are taken from. A file marked since it was indexed is read from disk as it is. Any other is found
  only when its text, decoded from UTF-16 if need be, is in the index and has the trigrams of the literal, and then the lines
  are those of the inlined text, or of the file as it is on disk, UTF-16 or not.\<close>

definition searchedText :: "int \<Rightarrow> gostring \<Rightarrow> bool \<Rightarrow> treefile \<Rightarrow> bytes option" where
  "searchedText kb lit marked f =
     (if marked then Some (tf_content f)
      else let t = decoded (tf_content f) in
        if isBinary t \<or> \<not> keys_of lit \<subseteq> keys_of t then None
        else Some (case inlineOf kb t of Some i \<Rightarrow> i | None \<Rightarrow> tf_content f))"

text \<open>What a search has to report for a path.\<close>

definition treeHits :: "'re regexlib \<Rightarrow> tree \<Rightarrow> DiskEngine \<Rightarrow> 're Matcher \<Rightarrow> SearchOpts \<Rightarrow> gostring \<Rightarrow> Match list" where
  "treeHits L tr e mat opts p =
     (case tr p of
        None \<Rightarrow> []
      | Some f \<Rightarrow>
          if \<not> admits opts \<lparr>fm_Path = p, fm_Size = tf_size f, fm_MtimeNS = tf_mtime f\<rparr> \<or>
            map_of (en_dirty e) p = Some \<lparr>de_deleted = True\<rparr> then []
          else case searchedText (dc_InlineKB (en_cfg e)) (so_Literal opts) (map_of (en_dirty e) p \<noteq> None) f of
            None \<Rightarrow> [] | Some c \<Rightarrow> matchContent L p c mat opts)"

lemma verifyFile_disk:
  "tr rel = Some f \<Longrightarrow> verifyFile L tr rel mat opts None = matchContent L rel (tf_content f) mat opts"
  by (rule verifyFile_eq) simp_all

lemma dirtyMatches_eq:
  "map_of (en_dirty e) p = Some de \<Longrightarrow> \<not> de_deleted de \<Longrightarrow> dirtyMatches L tr mat opts p = treeHits L tr e mat opts p"
  by (auto simp: dirtyMatches_def treeHits_def searchedText_def verifyFile_disk split: option.split)

lemma docMatches_eq:
  assumes "doc_current tr d" and "map_of (en_dirty e) (docPath d) = None" and "keys_of (so_Literal opts) \<subseteq> keys_of (doc_content d)"
  shows "docMatches L tr (en_dirty e) mat opts (dc_InlineKB (en_cfg e)) d = treeHits L tr e mat opts (docPath d)"
proof -
  obtain f where f: "tr (docPath d) = Some f" "doc_content d = decoded (tf_content f)" "\<not> isBinary (decoded (tf_content f))"
    "fst d = \<lparr>fm_Path = docPath d, fm_Size = tf_size f, fm_MtimeNS = tf_mtime f\<rparr>"
    using assms(1) by (cases "fst d") (auto simp: doc_current_def split: option.splits)
  let ?kb = "dc_InlineKB (en_cfg e)"
  have "verifyFile L tr (docPath d) mat opts (inlineOf ?kb (doc_content d)) =
      matchContent L (docPath d) (case inlineOf ?kb (doc_content d) of Some i \<Rightarrow> i | None \<Rightarrow> tf_content f) mat opts"
    by (cases "inlineOf ?kb (doc_content d)") (simp add: verifyFile_disk [where tr = tr, OF f(1)], simp add: verifyFile_def)
  with assms(2,3) f show ?thesis by (simp add: docMatches_def treeHits_def searchedText_def Let_def)
qed

text \<open>The reports of a search: one for every path with a hit, and nothing else.\<close>

lemma searchReports_ok:
  assumes "engine_ok tr dss e"
    and "rs = searchReports L tr (engineMatcher L re opts) opts (dc_InlineKB (en_cfg e)) dss (en_dirty e)"
  shows "ms \<noteq> [] \<Longrightarrow> (p, ms) \<in> set rs \<longleftrightarrow> ms = treeHits L tr e (engineMatcher L re opts) opts p"
proof -
  let ?mat = "engineMatcher L re opts" and ?kb = "dc_InlineKB (en_cfg e)"
  have ok: "distinct (map docPath (concat dss))" "distinct (map fst (en_dirty e))"
    "\<And>d. d \<in> set (concat dss) \<Longrightarrow> map_of (en_dirty e) (docPath d) = None \<Longrightarrow> doc_current tr d"
    "\<And>p. loadText tr p \<noteq> None \<Longrightarrow> case map_of (en_dirty e) p of
           None \<Rightarrow> p \<in> docPath ` set (concat dss) | Some de \<Rightarrow> \<not> de_deleted de"
    using assms(1) unfolding engine_ok_def by blast+
  have rs: "set rs = docReport L tr (en_dirty e) ?mat opts ?kb ` {d \<in> set (concat dss). keys_of (so_Literal opts) \<subseteq> keys_of (doc_content d)}
      \<union> dirtyReport L tr ?mat opts ` set (dirtyPathsOf (en_dirty e))"
    unfolding assms(2) searchReports_def shardReports_def by auto
  have dp: "p \<in> set (dirtyPathsOf (en_dirty e)) \<longleftrightarrow> (\<exists>de. map_of (en_dirty e) p = Some de \<and> \<not> de_deleted de)" for p
    using ok(2) by (force simp: dirtyPathsOf_def)
  assume ne: "ms \<noteq> []"
  show "(p, ms) \<in> set rs \<longleftrightarrow> ms = treeHits L tr e ?mat opts p"
  proof
    assume "(p, ms) \<in> set rs"
    then consider d where "d \<in> set (concat dss)" "keys_of (so_Literal opts) \<subseteq> keys_of (doc_content d)"
        "(p, ms) = docReport L tr (en_dirty e) ?mat opts ?kb d"
      | "p \<in> set (dirtyPathsOf (en_dirty e))" "(p, ms) = dirtyReport L tr ?mat opts p"
      unfolding rs by (auto simp: dirtyReport_def)
    then show "ms = treeHits L tr e ?mat opts p"
    proof cases
      case 1
      then have "map_of (en_dirty e) (docPath d) = None"
        using ne by (auto simp: docReport_def docMatches_def split: if_splits)
      with ok(3) [OF 1(1)] docMatches_eq [OF _ _ 1(2)] 1(3) show ?thesis by (simp add: docReport_def)
    next
      case 2
      then show ?thesis using dp dirtyMatches_eq by (auto simp: dirtyReport_def)
    qed
  next
    assume ms: "ms = treeHits L tr e ?mat opts p"
    then obtain f c where f: "tr p = Some f" "map_of (en_dirty e) p \<noteq> Some \<lparr>de_deleted = True\<rparr>"
      "searchedText ?kb (so_Literal opts) (map_of (en_dirty e) p \<noteq> None) f = Some c"
      using ne unfolding treeHits_def by (auto split: option.splits if_splits)
    show "(p, ms) \<in> set rs"
    proof (cases "map_of (en_dirty e) p")
      case None
      with f have t: "\<not> isBinary (decoded (tf_content f))" "keys_of (so_Literal opts) \<subseteq> keys_of (decoded (tf_content f))"
        by (auto simp: searchedText_def Let_def split: if_splits)
      then have "loadText tr p \<noteq> None" using f(1) by (simp add: loadText_def)
      with ok(4) None obtain d where d: "d \<in> set (concat dss)" "docPath d = p" by fastforce
      then have c: "doc_current tr d" using ok(3) None by blast
      then have k: "keys_of (so_Literal opts) \<subseteq> keys_of (doc_content d)" using d(2) f(1) t(2) by (simp add: doc_current_def)
      then have "docReport L tr (en_dirty e) ?mat opts ?kb d = (p, ms)"
        using docMatches_eq [OF c _ k] None d(2) ms by (simp add: docReport_def)
      with d(1) k show ?thesis unfolding rs by force
    next
      case (Some de)
      then have "\<not> de_deleted de" using f(2) by (cases de) auto
      with Some have "p \<in> set (dirtyPathsOf (en_dirty e))" "dirtyReport L tr ?mat opts p = (p, ms)"
        using dp dirtyMatches_eq [OF Some] by (simp_all add: dirtyReport_def ms)
      then show ?thesis unfolding rs by force
    qed
  qed
qed

lemma listed_ok:
  assumes "engine_ok tr dss e" and "\<not> so_FilesOnly opts"
  shows "set (listed opts (searchReports L tr (engineMatcher L re opts) opts (dc_InlineKB (en_cfg e)) dss (en_dirty e))) =
    (\<Union>p. set (treeHits L tr e (engineMatcher L re opts) opts p))"
  (is "set (listed opts ?rs) = _")
proof (intro equalityI subsetI)
  fix m assume "m \<in> set (listed opts ?rs)"
  then obtain p ms where "(p, ms) \<in> set ?rs" "m \<in> set ms" using assms(2) by (auto simp: listed_def)
  moreover from this have "ms = treeHits L tr e (engineMatcher L re opts) opts p"
    using searchReports_ok [OF assms(1) refl, of ms p] by fastforce
  ultimately show "m \<in> (\<Union>p. set (treeHits L tr e (engineMatcher L re opts) opts p))" by blast
next
  fix m assume "m \<in> (\<Union>p. set (treeHits L tr e (engineMatcher L re opts) opts p))"
  then obtain p where m: "m \<in> set (treeHits L tr e (engineMatcher L re opts) opts p)" by blast
  then have "(p, treeHits L tr e (engineMatcher L re opts) opts p) \<in> set ?rs"
    using searchReports_ok [OF assms(1) refl, of "treeHits L tr e (engineMatcher L re opts) opts p" p]
    by (metis list.set_cases list.distinct(1))
  with m assms(2) show "m \<in> set (listed opts ?rs)" by (force simp: listed_def)
qed

lemma count_ok:
  assumes "engine_ok tr dss e"
  shows "countMap (searchReports L tr (engineMatcher L re opts) opts (dc_InlineKB (en_cfg e)) dss (en_dirty e)) p =
    (let hs = treeHits L tr e (engineMatcher L re opts) opts p in if hs = [] then None else Some (length hs))"
  (is "countMap ?rs p = _")
proof -
  let ?hs = "treeHits L tr e (engineMatcher L re opts) opts"
  have rep: "snd r = ?hs (fst r)" if "r \<in> set (filter (\<lambda>r. snd r \<noteq> []) ?rs)" for r
    using that searchReports_ok [OF assms(1) refl, of "snd r" "fst r" L re opts] by simp
  define xs where "xs = rev (map (\<lambda>r. (fst r, length (snd r))) (filter (\<lambda>r. snd r \<noteq> []) ?rs))"
  have xs: "snd x = length (?hs (fst x)) \<and> ?hs (fst x) \<noteq> []" if "x \<in> set xs" for x
  proof -
    from that obtain r where r: "r \<in> set (filter (\<lambda>r. snd r \<noteq> []) ?rs)" "x = (fst r, length (snd r))"
      unfolding xs_def set_rev set_map by blast
    then have "snd r \<noteq> []" by simp
    with rep [OF r(1)] r(2) show ?thesis by simp
  qed
  have mem: "?hs p \<noteq> [] \<Longrightarrow> (p, length (?hs p)) \<in> set xs"
    using searchReports_ok [OF assms(1) refl, of "?hs p" p L re opts]
    unfolding xs_def set_rev set_map set_filter by (intro image_eqI [of _ _ "(p, ?hs p)"]) simp_all
  show ?thesis
  proof (cases "?hs p = []")
    case True
    then have "p \<notin> fst ` set xs" using xs by force
    with True show ?thesis by (simp add: countMap_def map_of_eq_None_iff flip: xs_def)
  next
    case False
    from imageI [OF mem [OF this], of fst] have "p \<in> fst ` set xs" by simp
    then obtain n where "map_of xs p = Some n" by (metis map_of_eq_None_iff not_None_eq)
    with xs [OF map_of_SomeD [OF this]] False show ?thesis by (simp add: countMap_def flip: xs_def)
  qed
qed

text \<open>The lines a file is reported for.\<close>

lemma allHits_set:
  "(p, l) \<in> (\<lambda>m. (mt_Path m, mt_Line m)) ` set (allHits L mat opts p n lns) \<longleftrightarrow>
     n < l \<and> l \<le> n + length lns \<and> FindFirst L mat (lns ! (l - Suc n)) \<noteq> None"
proof -
  have one: "(\<lambda>m. (mt_Path m, mt_Line m)) ` set (case FindFirst L mat ln of None \<Rightarrow> [] | Some loc \<Rightarrow> [lineHit p opts k loc ln]) =
      (if FindFirst L mat ln = None then {} else {(p, k)})" for k ln
    by (cases "FindFirst L mat ln") (auto simp: lineHit_def)
  have "(p, l) \<in> (\<lambda>m. (mt_Path m, mt_Line m)) ` set (allHits L mat opts p n lns) \<longleftrightarrow>
      (\<exists>x \<in> set (enumerate (Suc n) lns). (p, l) \<in> (if FindFirst L mat (snd x) = None then {} else {(p, fst x)}))"
    by (simp only: allHits_def set_concat set_map image_UN case_prod_beta UN_iff bex_simps one)
  also have "\<dots> \<longleftrightarrow> n < l \<and> l \<le> n + length lns \<and> FindFirst L mat (lns ! (l - Suc n)) \<noteq> None"
    unfolding Bex_def in_set_enumerate_eq
    by (auto split: if_splits) (rule exI [of _ l], simp)
  finally show ?thesis .
qed

end
