(* ===== verification/EngineSearch.thy ===== *)
theory EngineSearch
  imports EngineProps
begin

text \<open>
  The disk engine's search against the working tree. As long as the engine reflects the tree,
  a search reports the matching lines of the text it takes for each file; where that text is not the file's, it says so.
\<close>

subsection \<open>An example engine\<close>

text \<open>One indexed file and one that is only dirty.\<close>

definition exampleTree :: tree where
  "exampleTree = [str ''a.go'' \<mapsto> \<lparr>tf_content = str ''abc'', tf_size = 3, tf_mtime = 7\<rparr>,
     str ''b.go'' \<mapsto> \<lparr>tf_content = str ''x'' @ [10] @ str ''zabc'', tf_size = 6, tf_mtime = 8\<rparr>]"

definition exampleCfg :: DiskEngineConfig where
  "exampleCfg = \<lparr>dc_ShardSize = \<lparr>sc_TargetBytes = 4, sc_MinBytes = 1, sc_MaxBytes = 8\<rparr>, dc_RebuildThreshold = 5,
     dc_SearchWorkers = 2, dc_InlineKB = 1\<rparr>"

definition exampleEngine :: DiskEngine where
  "exampleEngine = (NewDiskEngine (str ''r'') (str ''d'') exampleCfg
       [str ''d/s'' \<mapsto> shardBytes (Build 1 [exampleDoc])] None)
     \<lparr>en_shards := [shardOf (str ''d/s'') 1 [exampleDoc]], en_dirty := [(str ''b.go'', \<lparr>de_deleted = False\<rparr>)]\<rparr>"

definition exampleOpts :: SearchOpts where
  "exampleOpts = \<lparr>so_Literal = str ''abc'', so_PathMatch = None, so_FilesOnly = False, so_Limit = 0,
     so_PlainLiteral = str ''abc'', so_FoldCase = False, so_MaxColumns = 0, so_MaxFileSize = 0\<rparr>"

definition exampleLib :: "gostring regexlib" where
  "exampleLib = \<lparr>re_Parse = (\<lambda>_. None), re_Compile = Inr, re_String = (\<lambda>re. re),
     re_FindIndex = (\<lambda>_ _. None), re_FindAllIndex = (\<lambda>_ _. [])\<rparr>"

lemma example_ok: "engine_ok exampleTree [[exampleDoc]] exampleEngine"
proof -
  have "str ''a.go'' \<noteq> str ''b.go''" by code_simp
  moreover have "loadText exampleTree p \<noteq> None \<Longrightarrow> p = str ''a.go'' \<or> p = str ''b.go''" for p
    by (auto simp: loadText_def exampleTree_def split: if_splits)
  moreover have "shard_holds [str ''d/s'' \<mapsto> shardBytes (Build 1 [exampleDoc])] 1 (shardOf (str ''d/s'') 1 [exampleDoc]) [exampleDoc]"
    by (simp add: shard_holds_def fits_example)
  moreover have "decoded (str ''abc'') = str ''abc''" "\<not> isBinary (str ''abc'')" by code_simp+
  ultimately show ?thesis
    by (auto simp: engine_ok_def exampleEngine_def NewDiskEngine_def exampleCfg_def doc_current_def exampleTree_def
        exampleDoc_def)
qed

lemma example_matcher:
  "engineMatcher exampleLib [] exampleOpts =
     \<lparr>m_Re = Some [], m_PlainLit = str ''abc'', m_Fold = False, m_rareByte = 0, m_hasRare = False\<rparr>"
  by (simp add: engineMatcher_def exampleLib_def exampleOpts_def MatcherFor_def PlainLiteral_def str_def)

lemma example_shards: "set [0] = {..<NumShards exampleEngine}"
  by (auto simp: NumShards_def exampleEngine_def)

subsection \<open>Limits\<close>

lemma take_concat_take: "take n (concat (map (take n) xss)) = take n (concat xss)"
proof (induction xss arbitrary: n)
  case (Cons xs xss)
  have "take (n - length xs) (concat (map (take n) xss)) = take (n - length xs) (concat xss)"
    using Cons [of n] by (metis take_take diff_le_self min.absorb1)
  then show ?case by (cases "n \<le> length xs") (simp_all add: min_def)
qed simp

lemma length_concat_take: "n \<le> length (concat (map (take n) xss)) \<longleftrightarrow> n \<le> length (concat xss)"
proof -
  have "length (take n (concat (map (take n) xss))) = length (take n (concat xss))" by (simp only: take_concat_take)
  then show ?thesis by (simp del: length_concat) linarith
qed

lemma matchContent_limit:
  assumes "so_Limit opts > 0" and "\<not> so_FilesOnly opts"
  shows "matchContent L rel c mat opts = take (nat (so_Limit opts)) (matchContent L rel c mat (opts\<lparr>so_Limit := 0\<rparr>))"
proof -
  have "lineHit rel (opts\<lparr>so_Limit := 0\<rparr>) = lineHit rel opts"
    by (intro ext) (simp add: lineHit_def)
  then have "allHits L mat (opts\<lparr>so_Limit := 0\<rparr>) rel n lns = allHits L mat opts rel n lns" for n lns
    unfolding allHits_def by (simp only:)
  then show ?thesis using assms by (simp add: matchContent_eq cutHits_def)
qed

lemma verifyFile_limit:
  assumes "so_Limit opts > 0" and "\<not> so_FilesOnly opts"
  shows "verifyFile L tr rel mat opts inline =
    take (nat (so_Limit opts)) (verifyFile L tr rel mat (opts\<lparr>so_Limit := 0\<rparr>) inline)"
proof (cases inline)
  case None
  show ?thesis
  proof (cases "tr rel")
    case (Some f)
    with matchContent_limit [OF assms, of L rel "tf_content f" mat] show ?thesis
      unfolding None by (simp only: verifyFile_disk [where tr = tr, OF Some])
  qed (simp add: None verifyFile_def)
qed (simp add: verifyFile_def matchContent_limit [OF assms])

lemma searchReports_limit:
  assumes "so_Limit opts > 0" and "\<not> so_FilesOnly opts"
  shows "searchReports L tr mat opts kb dss dirty =
    map (\<lambda>r. (fst r, take (nat (so_Limit opts)) (snd r))) (searchReports L tr mat (opts\<lparr>so_Limit := 0\<rparr>) kb dss dirty)"
proof -
  note verify = verifyFile_limit [OF assms]
  have adm: "admits (opts\<lparr>so_Limit := 0\<rparr>) = admits opts" by (simp add: admits_def fun_eq_iff)
  let ?cut = "\<lambda>r. (fst r, take (nat (so_Limit opts)) (snd r))"
  have "docReport L tr dirty mat opts kb d = ?cut (docReport L tr dirty mat (opts\<lparr>so_Limit := 0\<rparr>) kb d)" for d
    unfolding docReport_def docMatches_def adm by (subst verify) simp
  then have "shardReports L tr dirty mat opts kb = (\<lambda>docs. map ?cut (shardReports L tr dirty mat (opts\<lparr>so_Limit := 0\<rparr>) kb docs))"
    by (intro ext) (simp add: shardReports_def)
  moreover have "dirtyReport L tr mat opts = (\<lambda>rel. ?cut (dirtyReport L tr mat (opts\<lparr>so_Limit := 0\<rparr>) rel))"
    unfolding dirtyReport_def dirtyMatches_def adm by (intro ext, subst verify) (simp split: option.split)
  ultimately show ?thesis
    by (simp add: searchReports_def map_concat comp_def)
qed

lemma search_exact:
  assumes "engine_ok tr dss e" and "set sched = {..<NumShards e}" and "so_Limit opts \<le> 0" and "\<not> so_FilesOnly opts"
  shows "\<exists>res. DiskSearch L tr sched e re opts = Some res \<and> \<not> sr_Truncated res \<and>
    (\<forall>p l. (p, l) \<in> (\<lambda>m. (mt_Path m, mt_Line m)) ` set (sr_Matches res) \<longleftrightarrow>
      (\<exists>f c. tr p = Some f \<and> admits opts \<lparr>fm_Path = p, fm_Size = tf_size f, fm_MtimeNS = tf_mtime f\<rparr> \<and>
         map_of (en_dirty e) p \<noteq> Some \<lparr>de_deleted = True\<rparr> \<and>
         searchedText (dc_InlineKB (en_cfg e)) (so_Literal opts) (map_of (en_dirty e) p \<noteq> None) f = Some c \<and> \<not> isBinary c \<and>
         1 \<le> l \<and> l \<le> length (scanLines c) \<and> FindFirst L (engineMatcher L re opts) (scanLines c ! (l - 1)) \<noteq> None)) \<and>
    (\<forall>p. map_of (sr_FileCounts res) p =
      (let n = length (treeHits L tr e (engineMatcher L re opts) opts p) in if n = 0 then None else Some n))"
proof -
  let ?mat = "engineMatcher L re opts" and ?kb = "dc_InlineKB (en_cfg e)"
  have holds: "list_all2 (shard_holds (en_fs e) ?kb) (en_shards e) dss"
    using assms(1) by (simp add: engine_ok_def)
  have "unlimited opts" using assms(3) by (simp add: unlimited_def)
  from DiskSearch_unlimited [OF holds assms(2) this, of L tr re] obtain res where res:
    "DiskSearch L tr sched e re opts = Some res"
    "sr_Matches res = listed opts (searchReports L tr ?mat opts ?kb dss (en_dirty e))"
    "map_of (sr_FileCounts res) = countMap (searchReports L tr ?mat opts ?kb dss (en_dirty e))"
    "\<not> sr_Truncated res" by blast
  have content: "matchContent L p c ?mat opts = (if isBinary c then [] else allHits L ?mat opts p 0 (scanLines c))" for p c
    using assms(3,4) by (simp add: matchContent_eq cutHits_def)
  have "(p, l) \<in> (\<lambda>m. (mt_Path m, mt_Line m)) ` set (sr_Matches res) \<longleftrightarrow>
      (\<exists>q. (p, l) \<in> (\<lambda>m. (mt_Path m, mt_Line m)) ` set (treeHits L tr e ?mat opts q))" for p l
    unfolding res(2) listed_ok [OF assms(1,4)] image_UN by simp
  moreover have "(p, l) \<in> (\<lambda>m. (mt_Path m, mt_Line m)) ` set (treeHits L tr e ?mat opts q) \<Longrightarrow> q = p" for p q l
    unfolding treeHits_def content by (auto simp: allHits_def lineHit_def split: option.splits if_splits)
  ultimately have lines: "(p, l) \<in> (\<lambda>m. (mt_Path m, mt_Line m)) ` set (sr_Matches res) \<longleftrightarrow>
      (p, l) \<in> (\<lambda>m. (mt_Path m, mt_Line m)) ` set (treeHits L tr e ?mat opts p)" for p l by blast
  show ?thesis
  proof (intro exI conjI allI)
    fix p l
    show "(p, l) \<in> (\<lambda>m. (mt_Path m, mt_Line m)) ` set (sr_Matches res) \<longleftrightarrow>
      (\<exists>f c. tr p = Some f \<and> admits opts \<lparr>fm_Path = p, fm_Size = tf_size f, fm_MtimeNS = tf_mtime f\<rparr> \<and>
         map_of (en_dirty e) p \<noteq> Some \<lparr>de_deleted = True\<rparr> \<and>
         searchedText ?kb (so_Literal opts) (map_of (en_dirty e) p \<noteq> None) f = Some c \<and> \<not> isBinary c \<and>
         1 \<le> l \<and> l \<le> length (scanLines c) \<and> FindFirst L ?mat (scanLines c ! (l - 1)) \<noteq> None)"
    proof (cases "tr p")
      case (Some f)
      show ?thesis
        unfolding lines treeHits_def content Some
        by (cases "searchedText ?kb (so_Literal opts) (map_of (en_dirty e) p \<noteq> None) f") (auto simp: allHits_set Suc_le_eq)
    qed (simp add: lines treeHits_def)
    show "map_of (sr_FileCounts res) p =
      (let n = length (treeHits L tr e ?mat opts p) in if n = 0 then None else Some n)"
      unfolding res(3) count_ok [OF assms(1)] by (simp add: Let_def)
  qed (use res in simp_all)
qed

text \<open>A fixed ASCII pattern loses no file: a line it is found on has the trigrams of its literal, and so has the file.\<close>

definition fixed_ascii :: "(gostring \<Rightarrow> regexp option) \<Rightarrow> (rune \<Rightarrow> rune) \<Rightarrow> SearchOpts \<Rightarrow> bool" where
  "fixed_ascii parse uni opts \<longleftrightarrow> so_PlainLiteral opts \<noteq> [] \<and> \<not> HasNonASCII (so_PlainLiteral opts) \<and>
     so_Literal opts = ExtractLiteral parse uni (so_PlainLiteral opts) True"

lemma fixed_ascii_keeps:
  assumes "fixed_ascii parse uni opts" and "FindFirst L (engineMatcher L re opts) ln \<noteq> None" and "ln \<in> set (scanLines c)"
  shows "keys_of (so_Literal opts) \<subseteq> keys_of c"
proof -
  let ?lit = "so_PlainLiteral opts" and ?m = "engineMatcher L re opts"
  have lit: "m_PlainLit ?m = ?lit" "?lit \<noteq> []" using assms(1) by (simp_all add: engineMatcher_def fixed_ascii_def Let_def)
  then have "bytes_Index (case_norm (m_Fold ?m) ln) (case_norm (m_Fold ?m) ?lit) \<noteq> None"
    using assms(2) by (auto simp: FindFirst_def foldIndex_spec case_norm_def Let_def split: if_splits)
  then have "Contains (case_norm (m_Fold ?m) ln) (case_norm (m_Fold ?m) ?lit)" by (simp add: Contains_def)
  then have "sublist (map lower ?lit) (map lower ln)"
    by (auto simp: Contains_iff case_norm_def dest: map_mono_sublist split: if_splits)
  moreover have "sublist (map lower ln) (map lower c)" by (intro map_mono_sublist scanLines_sublist assms(3))
  ultimately have "sublist (map lower ?lit) (map lower c)" by (rule sublist_order.order_trans)
  then have "keys_of (map lower ?lit) \<subseteq> keys_of (map lower c)" by (rule keys_of_sublist)
  then have "keys_of ?lit \<subseteq> keys_of c" by (simp only: keys_of_lower)
  moreover have "keys_of (so_Literal opts) \<subseteq> keys_of ?lit"
    using assms(1) ExtractLiteral_fixed_keys [of ?lit parse uni] by (simp add: fixed_ascii_def)
  ultimately show ?thesis by blast
qed

lemma scanLines_at: "1 \<le> l \<Longrightarrow> l \<le> length (scanLines c) \<Longrightarrow> scanLines c ! (l - 1) \<in> set (scanLines c)"
  by (intro nth_mem) simp

text \<open>Without a byte order mark and for a fixed ASCII pattern, neither the index nor inlining shows.\<close>

lemma searchedText_plain:
  assumes "decodeUTF16_shard (tf_content f) = None" and "fixed_ascii parse uni opts" and "m = engineMatcher L re opts"
  shows "(\<exists>c. searchedText kb (so_Literal opts) marked f = Some c \<and> \<not> isBinary c \<and>
      1 \<le> l \<and> l \<le> length (scanLines c) \<and> FindFirst L m (scanLines c ! (l - 1)) \<noteq> None) \<longleftrightarrow>
    \<not> isBinary (tf_content f) \<and> 1 \<le> l \<and> l \<le> length (scanLines (tf_content f)) \<and>
      FindFirst L m (scanLines (tf_content f) ! (l - 1)) \<noteq> None"
proof -
  have "decoded (tf_content f) = tf_content f" using assms(1) by (simp add: decoded_def)
  moreover have "(case inlineOf kb (tf_content f) of Some i \<Rightarrow> i | None \<Rightarrow> tf_content f) = tf_content f"
    by (simp add: inlineOf_def)
  ultimately have "searchedText kb (so_Literal opts) marked f =
      (if marked \<or> \<not> isBinary (tf_content f) \<and> keys_of (so_Literal opts) \<subseteq> keys_of (tf_content f) then Some (tf_content f) else None)"
    by (simp add: searchedText_def)
  moreover have "keys_of (so_Literal opts) \<subseteq> keys_of (tf_content f)"
    if "1 \<le> l" "l \<le> length (scanLines (tf_content f))" "FindFirst L m (scanLines (tf_content f) ! (l - 1)) \<noteq> None"
    using that scanLines_at [OF that(1,2)] unfolding assms(3) by (intro fixed_ascii_keeps [OF assms(2)])
  ultimately show ?thesis by (cases "marked \<or> \<not> isBinary (tf_content f) \<and> keys_of (so_Literal opts) \<subseteq> keys_of (tf_content f)") auto
qed

lemma plain_line:
  assumes "engine_ok tr dss e" and "fixed_ascii parse uni opts" and "tr p = Some f" and "decodeUTF16_shard (tf_content f) = None"
  shows "(\<exists>f c. tr p = Some f \<and> admits opts \<lparr>fm_Path = p, fm_Size = tf_size f, fm_MtimeNS = tf_mtime f\<rparr> \<and>
      map_of (en_dirty e) p \<noteq> Some \<lparr>de_deleted = True\<rparr> \<and>
      searchedText kb (so_Literal opts) (map_of (en_dirty e) p \<noteq> None) f = Some c \<and> \<not> isBinary c \<and>
      1 \<le> l \<and> l \<le> length (scanLines c) \<and> FindFirst L (engineMatcher L re opts) (scanLines c ! (l - 1)) \<noteq> None) \<longleftrightarrow>
    \<not> isBinary (tf_content f) \<and> admits opts \<lparr>fm_Path = p, fm_Size = tf_size f, fm_MtimeNS = tf_mtime f\<rparr> \<and>
    1 \<le> l \<and> l \<le> length (scanLines (tf_content f)) \<and>
    FindFirst L (engineMatcher L re opts) (scanLines (tf_content f) ! (l - 1)) \<noteq> None"
proof -
  have "map_of (en_dirty e) p \<noteq> Some \<lparr>de_deleted = True\<rparr>" if "\<not> isBinary (tf_content f)"
  proof -
    have "loadText tr p \<noteq> None" using assms(3,4) that by (simp add: loadText_def decoded_def)
    then show ?thesis using assms(1) unfolding engine_ok_def by fastforce
  qed
  with assms(3) searchedText_plain [OF assms(4,2) refl, of kb "map_of (en_dirty e) p \<noteq> None" l L re]
  show ?thesis by (simp only: option.inject ex_simps simp_thms) blast
qed

lemma example_fixed: "fixed_ascii (\<lambda>_. None) (\<lambda>r. r) exampleOpts"
  by (simp add: fixed_ascii_def exampleOpts_def ExtractLiteral_def Let_def) code_simp

subsection \<open>Properties\<close>

text \<open>C6. What an unlimited search of an engine that reflects the tree reports, for any pattern: exactly the lines on which the matcher
  finds something in the text the engine takes for each admitted file. That text is, for a file marked since the last build, its bytes on
  disk; for any other file it is there only if the decoded text has the trigrams of the literal, and is the inlined text or the bytes on disk.
  So a literal that prunes too much, or a UTF-16 file that is decoded when inlined and not when read, shows in the answer. For
  a fixed ASCII pattern and files without a UTF-16 byte order mark neither does: the answer is what grep over the tree finds, in whatever
  order the workers finish. The count of a file is its number of matching lines.\<close>

theorem DiskSearch_exact:
  assumes "engine_ok tr dss e" and "set sched = {..<NumShards e}" and "so_Limit opts \<le> 0" and "\<not> so_FilesOnly opts"
  shows "\<exists>res. DiskSearch L tr sched e re opts = Some res \<and> \<not> sr_Truncated res \<and>
    (\<forall>p l. (p, l) \<in> (\<lambda>m. (mt_Path m, mt_Line m)) ` set (sr_Matches res) \<longleftrightarrow>
      (\<exists>f c. tr p = Some f \<and> admits opts \<lparr>fm_Path = p, fm_Size = tf_size f, fm_MtimeNS = tf_mtime f\<rparr> \<and>
         map_of (en_dirty e) p \<noteq> Some \<lparr>de_deleted = True\<rparr> \<and>
         searchedText (dc_InlineKB (en_cfg e)) (so_Literal opts) (map_of (en_dirty e) p \<noteq> None) f = Some c \<and> \<not> isBinary c \<and>
         1 \<le> l \<and> l \<le> length (scanLines c) \<and> FindFirst L (engineMatcher L re opts) (scanLines c ! (l - 1)) \<noteq> None)) \<and>
    (fixed_ascii parse uni opts \<longrightarrow> (\<forall>p l f. tr p = Some f \<longrightarrow> decodeUTF16_shard (tf_content f) = None \<longrightarrow>
      ((p, l) \<in> (\<lambda>m. (mt_Path m, mt_Line m)) ` set (sr_Matches res) \<longleftrightarrow>
         \<not> isBinary (tf_content f) \<and> admits opts \<lparr>fm_Path = p, fm_Size = tf_size f, fm_MtimeNS = tf_mtime f\<rparr> \<and>
         1 \<le> l \<and> l \<le> length (scanLines (tf_content f)) \<and>
         FindFirst L (engineMatcher L re opts) (scanLines (tf_content f) ! (l - 1)) \<noteq> None))) \<and>
    (\<forall>p. map_of (sr_FileCounts res) p =
      (let n = length (treeHits L tr e (engineMatcher L re opts) opts p) in if n = 0 then None else Some n))"
proof -
  let ?m = "engineMatcher L re opts"
  from search_exact [OF assms, of L re] obtain res where res: "DiskSearch L tr sched e re opts = Some res" "\<not> sr_Truncated res"
    "\<And>p l. (p, l) \<in> (\<lambda>m. (mt_Path m, mt_Line m)) ` set (sr_Matches res) \<longleftrightarrow>
      (\<exists>f c. tr p = Some f \<and> admits opts \<lparr>fm_Path = p, fm_Size = tf_size f, fm_MtimeNS = tf_mtime f\<rparr> \<and>
         map_of (en_dirty e) p \<noteq> Some \<lparr>de_deleted = True\<rparr> \<and>
         searchedText (dc_InlineKB (en_cfg e)) (so_Literal opts) (map_of (en_dirty e) p \<noteq> None) f = Some c \<and> \<not> isBinary c \<and>
         1 \<le> l \<and> l \<le> length (scanLines c) \<and> FindFirst L ?m (scanLines c ! (l - 1)) \<noteq> None)"
    "\<And>p. map_of (sr_FileCounts res) p = (let n = length (treeHits L tr e ?m opts p) in if n = 0 then None else Some n)" by blast
  show ?thesis
    by (intro exI [of _ res] conjI allI impI; (rule res | (rule trans [OF res(3) plain_line [OF assms(1)]]; assumption)))
qed

theorem DiskSearch_exact_witness:
  "\<exists>res. DiskSearch exampleLib exampleTree [0] exampleEngine [] exampleOpts = Some res \<and>
     (str ''a.go'', 1) \<in> (\<lambda>m. (mt_Path m, mt_Line m)) ` set (sr_Matches res) \<and>
     (str ''b.go'', 2) \<in> (\<lambda>m. (mt_Path m, mt_Line m)) ` set (sr_Matches res) \<and>
     (str ''b.go'', 1) \<notin> (\<lambda>m. (mt_Path m, mt_Line m)) ` set (sr_Matches res)"
proof -
  have o: "so_Limit exampleOpts \<le> 0" "\<not> so_FilesOnly exampleOpts" by (simp_all add: exampleOpts_def)
  obtain res where res: "DiskSearch exampleLib exampleTree [0] exampleEngine [] exampleOpts = Some res"
    and "fixed_ascii (\<lambda>_. None) (\<lambda>r. r) exampleOpts \<longrightarrow>
      (\<forall>p l f. exampleTree p = Some f \<longrightarrow> decodeUTF16_shard (tf_content f) = None \<longrightarrow>
        ((p, l) \<in> (\<lambda>m. (mt_Path m, mt_Line m)) ` set (sr_Matches res) \<longleftrightarrow>
           \<not> isBinary (tf_content f) \<and> admits exampleOpts \<lparr>fm_Path = p, fm_Size = tf_size f, fm_MtimeNS = tf_mtime f\<rparr> \<and>
           1 \<le> l \<and> l \<le> length (scanLines (tf_content f)) \<and>
           FindFirst exampleLib (engineMatcher exampleLib [] exampleOpts) (scanLines (tf_content f) ! (l - 1)) \<noteq> None))"
    using DiskSearch_exact [OF example_ok example_shards o, of exampleLib "[]" "\<lambda>_. None" "\<lambda>r. r"]
    by (elim exE conjE) (rule that; assumption)
  note found = this(2) [rule_format, OF example_fixed]
  let ?b = "str ''x'' @ [10] @ str ''zabc''"
  let ?m = "\<lparr>m_Re = Some [], m_PlainLit = str ''abc'', m_Fold = False, m_rareByte = 0, m_hasRare = False\<rparr>"
  have ev: "scanLines (str ''abc'') = [str ''abc'']" "scanLines ?b = [str ''x'', str ''zabc'']"
    "\<not> isBinary (str ''abc'')" "\<not> isBinary ?b" "decodeUTF16_shard (str ''abc'') = None" "decodeUTF16_shard ?b = None" by code_simp+
  have ff: "FindFirst exampleLib ?m (str ''abc'') \<noteq> None" "FindFirst exampleLib ?m (str ''x'') = None"
    "FindFirst exampleLib ?m (str ''zabc'') \<noteq> None" by code_simp+
  have adm: "admits exampleOpts meta" for meta by (simp add: admits_def exampleOpts_def pathOk_def)
  have tr: "exampleTree (str ''a.go'') = Some \<lparr>tf_content = str ''abc'', tf_size = 3, tf_mtime = 7\<rparr>"
    "exampleTree (str ''b.go'') = Some \<lparr>tf_content = ?b, tf_size = 6, tf_mtime = 8\<rparr>"
    by (simp_all add: exampleTree_def str_def)
  note a = found [OF tr(1), unfolded treefile.simps, OF ev(5)] and b = found [OF tr(2), unfolded treefile.simps, OF ev(6)]
  show ?thesis
    by (intro exI [of _ res] conjI) (simp_all only: res a b example_matcher ev adm simp_thms, simp_all add: ff)
qed

text \<open>C19. A UTF-16 file whose bytes hold a zero early on, as those of any text with an ASCII character do, is indexed by its decoded text but
  searched only where that text is inlined: when it is too large to be inlined, or was changed since the last build, the search reads
  its bytes, takes it for binary and reports no line of it.\<close>

theorem utf16_file_lost:
  assumes "engine_ok tr dss e" and "set sched = {..<NumShards e}" and "so_Limit opts \<le> 0" and "\<not> so_FilesOnly opts"
    and "tr p = Some f" and "decodeUTF16_shard (tf_content f) = Some t" and "0 \<in> set (take 8192 (tf_content f))"
    and "map_of (en_dirty e) p \<noteq> None \<or> inlineOf (dc_InlineKB (en_cfg e)) t = None"
  shows "\<exists>res. DiskSearch L tr sched e re opts = Some res \<and> p \<notin> mt_Path ` set (sr_Matches res)"
proof -
  let ?kb = "dc_InlineKB (en_cfg e)"
  from search_exact [OF assms(1-4), of L re] obtain res where res: "DiskSearch L tr sched e re opts = Some res"
    "\<And>p l. (p, l) \<in> (\<lambda>m. (mt_Path m, mt_Line m)) ` set (sr_Matches res) \<longleftrightarrow>
      (\<exists>f c. tr p = Some f \<and> admits opts \<lparr>fm_Path = p, fm_Size = tf_size f, fm_MtimeNS = tf_mtime f\<rparr> \<and>
         map_of (en_dirty e) p \<noteq> Some \<lparr>de_deleted = True\<rparr> \<and>
         searchedText ?kb (so_Literal opts) (map_of (en_dirty e) p \<noteq> None) f = Some c \<and> \<not> isBinary c \<and>
         1 \<le> l \<and> l \<le> length (scanLines c) \<and> FindFirst L (engineMatcher L re opts) (scanLines c ! (l - 1)) \<noteq> None)" by blast
  have "decoded (tf_content f) = t" using assms(6) by (simp add: decoded_def)
  then have "searchedText ?kb (so_Literal opts) (map_of (en_dirty e) p \<noteq> None) f = Some c \<Longrightarrow> c = tf_content f" for c
    using assms(8) by (auto simp: searchedText_def Let_def split: if_splits)
  moreover have "isBinary (tf_content f)" using assms(7) by (simp add: isBinary_iff)
  ultimately have "(p, l) \<notin> (\<lambda>m. (mt_Path m, mt_Line m)) ` set (sr_Matches res)" for l
    unfolding res(2) using assms(5) by auto
  then have "p \<notin> mt_Path ` set (sr_Matches res)" by force
  with res(1) show ?thesis by blast
qed

text \<open>The text abc in UTF-16, marked as changed.\<close>

definition utf16Tree :: tree where
  "utf16Tree = [str ''b.go'' \<mapsto> \<lparr>tf_content = [0xFF, 0xFE, 97, 0, 98, 0, 99, 0], tf_size = 8, tf_mtime = 8\<rparr>]"

definition utf16Engine :: DiskEngine where
  "utf16Engine = (NewDiskEngine (str ''r'') (str ''d'') exampleCfg Map.empty None)\<lparr>en_dirty := [(str ''b.go'', \<lparr>de_deleted = False\<rparr>)]\<rparr>"

theorem utf16_file_lost_witness:
  "loadText utf16Tree (str ''b.go'') = Some (str ''abc'') \<and>
   (\<exists>res. DiskSearch exampleLib utf16Tree [] utf16Engine [] exampleOpts = Some res \<and> str ''b.go'' \<notin> mt_Path ` set (sr_Matches res))"
proof -
  let ?c = "[0xFF, 0xFE, 97, 0, 98, 0, 99, 0] :: bytes"
  have d: "decodeUTF16_shard ?c = Some (str ''abc'')" "\<not> isBinary (str ''abc'')" "0 \<in> set (take 8192 ?c)" by code_simp+
  have ok: "engine_ok utf16Tree [] utf16Engine"
    by (auto simp: engine_ok_def utf16Engine_def NewDiskEngine_def loadText_def utf16Tree_def split: if_splits)
  have o: "so_Limit exampleOpts \<le> 0" "\<not> so_FilesOnly exampleOpts" by (simp_all add: exampleOpts_def)
  have "set [] = {..<NumShards utf16Engine}" by (simp add: NumShards_def utf16Engine_def NewDiskEngine_def)
  moreover have f: "utf16Tree (str ''b.go'') = Some \<lparr>tf_content = ?c, tf_size = 8, tf_mtime = 8\<rparr>" by (simp add: utf16Tree_def)
  moreover have "map_of (en_dirty utf16Engine) (str ''b.go'') \<noteq> None" by (simp add: utf16Engine_def)
  ultimately have "\<exists>res. DiskSearch exampleLib utf16Tree [] utf16Engine [] exampleOpts = Some res \<and> str ''b.go'' \<notin> mt_Path ` set (sr_Matches res)"
    using utf16_file_lost [OF ok _ o, of "[]" "str ''b.go''" _ "str ''abc''" exampleLib "[]"] d by simp
  moreover have "loadText utf16Tree (str ''b.go'') = Some (str ''abc'')" using f d by (simp add: loadText_def decoded_def)
  ultimately show ?thesis by blast
qed

text \<open>C27. A limited search returns, up to the limit, the same matches in the same order as the unlimited one, reports
  truncation exactly when the unlimited one has at least that many, and returns fewer than
  twice the limit: the loop over the dirty files stops without cutting its last file.\<close>

theorem DiskSearch_limit_prefix:
  assumes "engine_ok tr dss e" and "set sched = {..<NumShards e}" and "so_Limit opts > 0" and "\<not> so_FilesOnly opts"
  shows "\<exists>res full. DiskSearch L tr sched e re opts = Some res \<and>
    DiskSearch L tr sched e re (opts\<lparr>so_Limit := 0\<rparr>) = Some full \<and>
    take (nat (so_Limit opts)) (sr_Matches res) = take (nat (so_Limit opts)) (sr_Matches full) \<and>
    (sr_Truncated res \<longleftrightarrow> so_Limit opts \<le> int (length (sr_Matches full))) \<and>
    int (length (sr_Matches res)) < 2 * so_Limit opts"
proof -
  let ?mat = "engineMatcher L re opts" and ?n = "nat (so_Limit opts)" and ?kb = "dc_InlineKB (en_cfg e)"
  let ?opts0 = "opts\<lparr>so_Limit := 0\<rparr>"
  have holds: "list_all2 (shard_holds (en_fs e) ?kb) (en_shards e) dss"
    using assms(1) by (simp add: engine_ok_def)
  have lim: "\<not> unlimited opts" "unlimited ?opts0" using assms(3,4) by (simp_all add: unlimited_def)
  have mat: "engineMatcher L re ?opts0 = ?mat" by (simp add: engineMatcher_def Let_def)
  have cut: "int (length (dirtyMatches L tr ?mat opts rel)) \<le> so_Limit opts" for rel
    using assms(3,4) by (auto simp: dirtyMatches_def verifyFile_limit [OF assms(3,4)] split: option.split)
  let ?rs = "searchReports L tr ?mat ?opts0 ?kb dss (en_dirty e)"
  have ls: "listed opts (searchReports L tr ?mat opts ?kb dss (en_dirty e)) = concat (map (take ?n) (map snd ?rs))"
    "listed ?opts0 ?rs = concat (map snd ?rs)"
    using assms(4) by (simp_all add: listed_def searchReports_limit [OF assms(3,4)] comp_def)
  have "?n \<le> k \<longleftrightarrow> so_Limit opts \<le> int k" for k using assms(3) by linarith
  with DiskSearch_limited [OF holds assms(2) lim(1) cut] DiskSearch_unlimited [OF holds assms(2) lim(2), of L tr re]
  show ?thesis
    unfolding mat ls by (metis take_concat_take length_concat_take)
qed

theorem DiskSearch_limit_prefix_witness:
  "\<exists>res. DiskSearch exampleLib exampleTree [0] exampleEngine [] (exampleOpts\<lparr>so_Limit := 3\<rparr>) = Some res \<and>
     int (length (sr_Matches res)) < 6"
proof -
  let ?opts = "exampleOpts\<lparr>so_Limit := 3\<rparr>"
  have "so_Limit ?opts > 0" "\<not> so_FilesOnly ?opts" by (simp_all add: exampleOpts_def)
  from DiskSearch_limit_prefix [OF example_ok example_shards this, of exampleLib "[]"] show ?thesis by auto
qed

text \<open>The result of a search does not depend on how the shards are distributed over the workers
  or in which order they finish: any schedule that runs every job gives the same matches in the same
  order, and fails when any other would.\<close>

theorem DiskSearch_any_schedule:
  assumes "set sched = {..<NumShards e}"
  shows "DiskSearch L tr sched e re opts = DiskSearch L tr [0..<NumShards e] e re opts"
  using runJobs_all [of sched "NumShards e"] runJobs_all [of "[0..<NumShards e]" "NumShards e"] assms
  by (auto simp: DiskSearch_def NumShards_def atLeast0LessThan)

theorem DiskSearch_any_schedule_witness:
  "DiskSearch exampleLib exampleTree [0, 0] exampleEngine [] exampleOpts =
   DiskSearch exampleLib exampleTree [0] exampleEngine [] exampleOpts"
proof -
  have n: "NumShards exampleEngine = 1" by (simp add: NumShards_def exampleEngine_def)
  then have "set [0, 0] = {..<NumShards exampleEngine}" by auto
  from DiskSearch_any_schedule [OF this] show ?thesis by (simp add: n)
qed

text \<open>The two line scanners agree: for the same content, the file read from disk with a buffered reader
  and the content inlined in a shard give the same matches, which are the lines of the text
  on which the matcher finds something, cut at the first one when only files are wanted and at the
  limit otherwise.\<close>

theorem verifyFile_inline_same:
  assumes "tr rel = Some f"
  shows "verifyFile L tr rel mat opts None = verifyFile L tr rel mat opts (Some (tf_content f)) \<and>
    verifyFile L tr rel mat opts None =
      (if isBinary (tf_content f) then [] else cutHits opts 0 (allHits L mat opts rel 0 (scanLines (tf_content f))))"
proof -
  have "verifyFile L tr rel mat opts (Some (tf_content f)) = matchContent L rel (tf_content f) mat opts"
    by (simp add: verifyFile_def)
  then show ?thesis
    unfolding verifyFile_disk [where tr = tr, OF assms] by (simp add: matchContent_eq)
qed

theorem verifyFile_inline_same_witness:
  "verifyFile exampleLib exampleTree (str ''a.go'') (engineMatcher exampleLib [] exampleOpts) exampleOpts None =
   verifyFile exampleLib exampleTree (str ''a.go'') (engineMatcher exampleLib [] exampleOpts) exampleOpts (Some (str ''abc''))"
proof -
  have "exampleTree (str ''a.go'') = Some \<lparr>tf_content = str ''abc'', tf_size = 3, tf_mtime = 7\<rparr>"
    by (simp add: exampleTree_def str_def)
  from verifyFile_inline_same [where tr = exampleTree and L = exampleLib and opts = exampleOpts
      and mat = "engineMatcher exampleLib [] exampleOpts", OF this] show ?thesis by simp
qed

end
