(* ===== verification/EngineState.thy ===== *)
theory EngineState
  imports EngineSearch
begin

text \<open>
  The engine's state over its life: building, marking, reconciling and rebuilding keep the
  engine in step with the tree, in the sense of \<open>engine_ok\<close>.
\<close>

subsection \<open>Names of shard files\<close>

definition digits_value :: "gostring \<Rightarrow> nat" where
  "digits_value s = foldl (\<lambda>a d. a * 10 + (unat d - 48)) 0 s"

lemma digits_value_snoc: "digits_value (s @ [d]) = digits_value s * 10 + (unat d - 48)"
  by (simp add: digits_value_def)

lemma unat_digit: "n < 10 \<Longrightarrow> unat (of_nat (48 + n) :: byte) = 48 + n"
  by (simp only: unat_of_nat) simp

lemma digits_value_decimal: "digits_value (decimal n) = n"
proof (induction n rule: decimal.induct)
  case (1 n)
  show ?case
  proof (cases "n < 10")
    case True
    then show ?thesis using unat_digit [OF True] by (simp add: decimal.simps [of n] digits_value_def del: of_nat_add)
  next
    case False
    have "unat (of_nat (48 + n mod 10) :: byte) - 48 = n mod 10" using unat_digit [of "n mod 10"] by simp
    with False 1 show ?thesis
      by (subst decimal.simps) (simp add: digits_value_snoc del: of_nat_add)
  qed
qed

lemma digits_value_zeros: "digits_value (replicate k 48 @ s) = digits_value s"
  by (induction k) (simp_all add: digits_value_def)

lemma shardName_inj: "shardName m = shardName n \<longleftrightarrow> m = n"
proof
  assume "shardName m = shardName n"
  then have "(replicate (4 - length (decimal m)) 48 @ decimal m) @ str ''.idx'' =
      (replicate (4 - length (decimal n)) 48 @ decimal n) @ str ''.idx''" by (simp add: shardName_def)
  then have "replicate (4 - length (decimal m)) 48 @ decimal m = replicate (4 - length (decimal n)) 48 @ decimal n"
    by (simp only: append_same_eq)
  then show "m = n" by (metis digits_value_zeros digits_value_decimal)
qed simp

lemma shardPath_inj [simp]: "shardPath dir m = shardPath dir n \<longleftrightarrow> m = n"
  by (simp add: shardPath_def shardName_inj)

lemma shardPath_no_tmp [simp]: "shardPath dir m \<noteq> shardPath dir n @ str ''.tmp''"
proof
  assume "shardPath dir m = shardPath dir n @ str ''.tmp''"
  then have "List.last (shardPath dir m) = List.last (shardPath dir n @ str ''.tmp'')" by simp
  then show False by (simp add: shardPath_def shardName_def Join_def str_def)
qed

lemma decimal_digits: "b \<in> set (decimal n) \<Longrightarrow> 48 \<le> unat b \<and> unat b < 58"
proof (induction n rule: decimal.induct)
  case (1 n)
  then show ?case
    using unat_digit [of n] unat_digit [of "n mod 10"]
    by (subst (asm) decimal.simps) (auto split: if_splits simp del: of_nat_add)
qed

lemma shardName_no_slash: "slash \<notin> set (shardName n)"
  using decimal_digits [of slash n] by (auto simp: shardName_def str_def)

lemma pathBase_shardPath [simp]: "pathBase (shardPath dir n) = shardName n"
  by (simp add: shardPath_def pathBase_Join shardName_no_slash)

subsection \<open>Writing shards\<close>

definition names_ok :: "gostring \<Rightarrow> nat \<Rightarrow> Shard list \<Rightarrow> bool" where
  "names_ok dir seqNo shards \<longleftrightarrow> (\<forall>s \<in> set shards. \<exists>i < seqNo. sh_path s = shardPath dir i)"

lemma names_ok_append [simp]: "names_ok dir n (a @ b) \<longleftrightarrow> names_ok dir n a \<and> names_ok dir n b"
  by (auto simp: names_ok_def)

lemma names_ok_Suc: "names_ok dir n a \<Longrightarrow> names_ok dir (Suc n) a"
  by (auto simp: names_ok_def intro: less_SucI)

lemma shard_holds_keep:
  assumes "shard_holds fs kb s docs" and "sh_path s = shardPath dir i" and "i < n"
  shows "shard_holds (fs(shardPath dir n @ str ''.tmp'' := x, shardPath dir n := y)) kb s docs"
  using assms by (simp add: shard_holds_def)

lemma shards_hold_keep:
  assumes "list_all2 (shard_holds fs kb) ss dss" and "names_ok dir n ss"
  shows "list_all2 (shard_holds (fs(shardPath dir n @ str ''.tmp'' := x, shardPath dir n := y)) kb) ss dss"
  using assms
proof (induction rule: list_all2_induct)
  case (Cons s ss docs dss)
  then obtain i where "i < n" "sh_path s = shardPath dir i" by (auto simp: names_ok_def)
  with Cons.hyps(1) have "shard_holds (fs(shardPath dir n @ str ''.tmp'' := x, shardPath dir n := y)) kb s docs"
    by (intro shard_holds_keep)
  moreover have "names_ok dir n ss" using Cons.prems by (simp add: names_ok_def)
  ultimately show ?case using Cons.IH by (intro list.rel_intros)
qed simp

lemma Write_Open:
  assumes "fits (Build kb docs)" and "Write (Build kb docs) path io fs = (True, fs')"
  shows "fs' = fs(path @ str ''.tmp'' := None, path \<mapsto> shardBytes (Build kb docs))"
    "Open fs' path = Some (Inr (shardOf path kb docs))" "shard_holds fs' kb (shardOf path kb docs) docs"
proof -
  show fs': "fs' = fs(path @ str ''.tmp'' := None, path \<mapsto> shardBytes (Build kb docs))"
    using assms(2) by (cases io) (auto simp: Write_cases)
  then show "Open fs' path = Some (Inr (shardOf path kb docs))" "shard_holds fs' kb (shardOf path kb docs) docs"
    using Open_written [OF assms(1), of fs' path] assms(1) by (simp_all add: shardOf_def shard_holds_def)
      (simp_all add: imageOf_def)
qed

subsection \<open>Building\<close>

definition docsOf :: "symlib \<Rightarrow> tree \<Rightarrow> BuildFile list \<Rightarrow> document list" where
  "docsOf S tr files = concat (map (\<lambda>f.
     case loadText tr (bF_Rel f) of
       None \<Rightarrow> []
     | Some c \<Rightarrow> [(\<lparr>fm_Path = bF_Rel f, fm_Size = bF_Size f, fm_MtimeNS = bF_MtimeNS f\<rparr>, c, Extract S (bF_Rel f) c)]) files)"

lemma docsOf_simps [simp]:
  "docsOf S tr [] = []"
  "docsOf S tr (f # files) =
    (case loadText tr (bF_Rel f) of
       None \<Rightarrow> []
     | Some c \<Rightarrow> [(\<lparr>fm_Path = bF_Rel f, fm_Size = bF_Size f, fm_MtimeNS = bF_MtimeNS f\<rparr>, c, Extract S (bF_Rel f) c)]) @
    docsOf S tr files"
  by (simp_all add: docsOf_def)

lemma docsOf_append [simp]: "docsOf S tr (a @ b) = docsOf S tr a @ docsOf S tr b"
  by (simp add: docsOf_def)

lemma docsOf_concat: "docsOf S tr (concat bs) = concat (map (docsOf S tr) bs)"
  by (induction bs) (simp_all add: docsOf_def)

lemma buildBatch_eq:
  "buildBatch S tr files b tf tb =
     (foldl addDoc b (docsOf S tr files), tf + int (length (docsOf S tr files)),
      tb + sum_list (map (\<lambda>d. fm_Size (fst d)) (docsOf S tr files)))"
  by (induction files arbitrary: b tf tb) (simp_all add: addDoc_def split: option.split)

lemma Build_empty: "bd_files (Build kb docs) = [] \<longleftrightarrow> docs = []"
  using Build_props [of kb docs] by simp

declare buildBatches.simps(2) [simp del]

text \<open>Every batch is built and written, when the writes succeed.\<close>

lemma buildBatches_ok:
  assumes "\<And>n. io n = AllOk" and "\<forall>b \<in> set batches. fits (Build kb (docsOf S tr b))"
    and "list_all2 (shard_holds fs kb) shards dss" and "names_ok dir seqNo shards"
  shows "\<exists>shards' seqNo' fs'. buildBatches S tr io dir kb batches shards seqNo tf tb fs =
      Some (Inr (shards', seqNo', tf + int (length (docsOf S tr (concat batches))),
        tb + sum_list (map (\<lambda>d. fm_Size (fst d)) (docsOf S tr (concat batches))), fs')) \<and>
    list_all2 (shard_holds fs' kb) shards' (dss @ filter (\<lambda>ds. ds \<noteq> []) (map (docsOf S tr) batches)) \<and>
    names_ok dir seqNo' shards'"
  using assms(2-4)
proof (induction batches arbitrary: shards seqNo tf tb fs dss)
  case Nil
  then show ?case by simp
next
  case (Cons b bs)
  let ?docs = "docsOf S tr b"
  let ?tf = "tf + int (length ?docs)" and ?tb = "tb + sum_list (map (\<lambda>d. fm_Size (fst d)) ?docs)"
  have bb: "buildBatch S tr b (NewBuilder kb) tf tb = (Build kb ?docs, ?tf, ?tb)"
    by (simp add: buildBatch_eq Build_def)
  show ?case
  proof (cases "?docs = []")
    case True
    then have "buildBatches S tr io dir kb (b # bs) shards seqNo tf tb fs = buildBatches S tr io dir kb bs shards seqNo tf tb fs"
      using bb Build_empty [of kb ?docs] by (simp add: buildBatches.simps(2))
    with Cons.IH [of fs shards dss seqNo tf tb] Cons.prems True show ?thesis by simp
  next
    case False
    let ?path = "shardPath dir seqNo"
    obtain fs1 where w: "Write (Build kb ?docs) ?path AllOk fs = (True, fs1)" by (simp add: Write_cases)
    have fit: "fits (Build kb ?docs)" using Cons.prems(1) by simp
    note wo = Write_Open [OF fit w]
    have step: "buildBatches S tr io dir kb (b # bs) shards seqNo tf tb fs =
        buildBatches S tr io dir kb bs (shards @ [shardOf ?path kb ?docs]) (seqNo + 1) ?tf ?tb fs1"
      using bb False Build_empty [of kb ?docs] w wo(2) assms(1) by (simp add: buildBatches.simps(2) Let_def)
    have hold: "list_all2 (shard_holds fs1 kb) (shards @ [shardOf ?path kb ?docs]) (dss @ [?docs])"
      using shards_hold_keep [OF Cons.prems(2,3)] wo(1,3) by (simp add: list_all2_appendI)
    have names: "names_ok dir (seqNo + 1) (shards @ [shardOf ?path kb ?docs])"
      using names_ok_Suc [OF Cons.prems(3)] by (simp add: names_ok_def)
    from Cons.IH [OF _ hold names, of ?tf ?tb] Cons.prems(1) False show ?thesis
      unfolding step by (simp add: add.assoc)
  qed
qed

text \<open>What the walk of the tree hands to the engine.\<close>

definition listing :: "tree \<Rightarrow> BuildFile list \<Rightarrow> bool" where
  "listing tr files \<longleftrightarrow>
     distinct (map bF_Rel files) \<and>
     (\<forall>f \<in> set files. \<exists>t. tr (bF_Rel f) = Some t \<and> bF_Size f = tf_size t \<and> bF_MtimeNS f = tf_mtime t) \<and>
     (\<forall>p. loadText tr p \<noteq> None \<longrightarrow> p \<in> bF_Rel ` set files)"

text \<open>Documents in strict path order over all shards, none of which is empty.\<close>

definition ordered :: "document list list \<Rightarrow> bool" where
  "ordered dss \<longleftrightarrow> sorted_wrt (<) (map docPath (concat dss)) \<and> [] \<notin> set dss"

lemma docPath_docsOf: "map docPath (docsOf S tr files) = filter (\<lambda>p. loadText tr p \<noteq> None) (map bF_Rel files)"
  by (induction files) (auto split: option.split)

lemma docsOf_current:
  assumes "listing tr files" and "d \<in> set (docsOf S tr files)"
  shows "doc_current tr d"
proof -
  obtain f c where f: "f \<in> set files" "loadText tr (bF_Rel f) = Some c"
    "d = (\<lparr>fm_Path = bF_Rel f, fm_Size = bF_Size f, fm_MtimeNS = bF_MtimeNS f\<rparr>, c, Extract S (bF_Rel f) c)"
    using assms(2) by (auto simp: docsOf_def split: option.splits)
  with assms(1) obtain t where "tr (bF_Rel f) = Some t" "bF_Size f = tf_size t" "bF_MtimeNS f = tf_mtime t"
    by (auto simp: listing_def)
  with f(2,3) show ?thesis by (auto simp: doc_current_def loadText_def Let_def split: if_splits)
qed

lemma listing_sort: "listing tr (sort_key k files) \<longleftrightarrow> listing tr files"
  by (simp add: listing_def distinct_map)

lemma listing_docs:
  assumes "listing tr files"
  shows "distinct (map docPath (docsOf S tr files))"
    "loadText tr p \<noteq> None \<Longrightarrow> p \<in> docPath ` set (docsOf S tr files)"
proof -
  show "distinct (map docPath (docsOf S tr files))"
    using assms by (simp add: docPath_docsOf listing_def)
  have "docPath ` set (docsOf S tr files) = set (filter (\<lambda>p. loadText tr p \<noteq> None) (map bF_Rel files))"
    using arg_cong [OF docPath_docsOf, of set S tr files] by simp
  then show "loadText tr p \<noteq> None \<Longrightarrow> p \<in> docPath ` set (docsOf S tr files)"
    using assms by (auto simp: listing_def)
qed

lemma strict_sorted_docs:
  assumes "listing tr files"
  shows "sorted_wrt (<) (map docPath (docsOf S tr (sort_key bF_Rel files)))"
proof -
  have "sorted (filter (\<lambda>p. loadText tr p \<noteq> None) (map bF_Rel (sort_key bF_Rel files)))"
    by (rule sorted_wrt_filter) simp
  moreover have "distinct (map docPath (docsOf S tr (sort_key bF_Rel files)))"
    using listing_docs(1) assms listing_sort by blast
  ultimately show ?thesis by (simp add: strict_sorted_iff docPath_docsOf)
qed

lemma concat_filter_Nil: "concat (filter (\<lambda>ds. ds \<noteq> []) dss) = concat dss"
  by (induction dss) auto

lemma engine_ok_clean:
  assumes "list_all2 (shard_holds (en_fs e) (dc_InlineKB (en_cfg e))) (en_shards e) dss" and "en_dirty e = []"
    and "listing tr files" and "concat dss = docsOf S tr files"
  shows "engine_ok tr dss e"
  using assms(1,2) listing_docs [where S = S, OF assms(3)] docsOf_current [where S = S, OF assms(3)]
  unfolding engine_ok_def assms(4) by simp

lemma FullBuild_state:
  assumes "\<And>n. io n = AllOk" and "listing tr files" and "en_dirty e = []"
    and "\<forall>b \<in> set (GroupByDirBoundary files (dc_ShardSize (en_cfg e))). fits (Build (dc_InlineKB (en_cfg e)) (docsOf S tr b))"
  shows "\<exists>e' dss. FullBuild S tr io mio e files = Some (None, e') \<and> engine_ok tr dss e' \<and> ordered dss \<and>
    concat dss = docsOf S tr (sort_key bF_Rel files) \<and> names_ok (en_shardDir e') (en_seqNo e') (en_shards e') \<and>
    en_totalFiles e' = int (length (concat dss)) \<and> en_totalBytes e' = sum_list (map (\<lambda>d. fm_Size (fst d)) (concat dss)) \<and>
    en_dirty e' = [] \<and>
    en_manifest e' = snd (WriteManifest (ManifestFromShards (en_shards e') (en_seqNo e')) mio (en_manifest e))"
proof -
  let ?kb = "dc_InlineKB (en_cfg e)" and ?bs = "GroupByDirBoundary files (dc_ShardSize (en_cfg e))"
  let ?dss = "filter (\<lambda>ds. ds \<noteq> []) (map (docsOf S tr) ?bs)"
  have bs: "concat ?bs = sort_key bF_Rel files" by (simp add: GroupByDirBoundary_props)
  then have dss: "concat ?dss = docsOf S tr (sort_key bF_Rel files)"
    by (simp only: concat_filter_Nil flip: docsOf_concat)
  have "names_ok (en_shardDir e) 0 []" by (simp add: names_ok_def)
  from buildBatches_ok [where io = io and fs = "en_fs e" and tf = 0 and tb = 0, OF assms(1,4) list_all2_Nil [THEN iffD2, OF refl] this]
  obtain shards' seqNo' fs' where b: "buildBatches S tr io (en_shardDir e) ?kb ?bs [] 0 0 0 (en_fs e) =
      Some (Inr (shards', seqNo', int (length (concat ?dss)), sum_list (map (\<lambda>d. fm_Size (fst d)) (concat ?dss)), fs'))"
    "list_all2 (shard_holds fs' ?kb) shards' ?dss" "names_ok (en_shardDir e) seqNo' shards'"
    by (auto simp: bs dss)
  define e' where "e' = e\<lparr>en_shards := shards', en_seqNo := seqNo', en_totalFiles := int (length (concat ?dss)),
      en_totalBytes := sum_list (map (\<lambda>d. fm_Size (fst d)) (concat ?dss)), en_fs := fs',
      en_manifest := snd (WriteManifest (ManifestFromShards shards' seqNo') mio (en_manifest e))\<rparr>"
  have "listing tr (sort_key bF_Rel files)" using assms(2) by (simp add: listing_sort)
  then have "engine_ok tr ?dss e'"
    using b(2) assms(3) dss by (intro engine_ok_clean) (simp_all add: e'_def)
  moreover have "ordered ?dss" using strict_sorted_docs [OF assms(2)] by (simp add: ordered_def dss)
  moreover have "FullBuild S tr io mio e files = Some (None, e')"
    by (simp add: FullBuild_def b(1) e'_def del: length_concat)
  ultimately show ?thesis using dss b(3) assms(3) by (intro exI [of _ e'] exI [of _ ?dss]) (simp add: e'_def del: length_concat)
qed

subsection \<open>Marking\<close>

lemma doc_current_other: "docPath d \<noteq> p \<Longrightarrow> doc_current (tr(p := x)) d \<longleftrightarrow> doc_current tr d"
  by (simp add: doc_current_def)

lemma loadText_other: "q \<noteq> p \<Longrightarrow> loadText (tr(p := x)) q = loadText tr q"
  by (simp add: loadText_def)

lemma engine_ok_mark:
  assumes "engine_ok tr dss e" and "e' = e\<lparr>en_dirty := AList.update p de (en_dirty e)\<rparr>"
    and "loadText (tr(p := x)) p \<noteq> None \<Longrightarrow> \<not> de_deleted de"
  shows "engine_ok (tr(p := x)) dss e'"
  using assms(1,3) unfolding engine_ok_def assms(2)
  by (auto simp: distinct_update update_conv' doc_current_other loadText_other split: if_splits)

text \<open>One change of the tree, seen by the watcher.\<close>

datatype tree_change = Changed gostring treefile | Removed gostring

fun change_step :: "tree \<times> DiskEngine \<Rightarrow> tree_change \<Rightarrow> tree \<times> DiskEngine" where
  "change_step (tr, e) (Changed p f) = (tr(p \<mapsto> f), MarkDirty e p)"
| "change_step (tr, e) (Removed p) = (tr(p := None), MarkDeleted e p)"

lemma change_step_ok:
  assumes "engine_ok (fst st) dss (snd st)"
  shows "engine_ok (fst (change_step st c)) dss (snd (change_step st c))"
  using assms by (cases st; cases c)
    (auto simp: MarkDirty_def MarkDeleted_def loadText_def intro!: engine_ok_mark)

lemma changes_ok:
  "engine_ok (fst st) dss (snd st) \<Longrightarrow>
     engine_ok (fst (foldl change_step st cs)) dss (snd (foldl change_step st cs))"
  by (induction cs arbitrary: st) (simp_all add: change_step_ok)

lemma change_step_shards [simp]: "en_shards (snd (change_step st c)) = en_shards (snd st)"
  by (cases st; cases c) (simp_all add: MarkDirty_def MarkDeleted_def)

lemma changes_shards [simp]: "en_shards (snd (foldl change_step st cs)) = en_shards (snd st)"
  by (induction cs arbitrary: st) simp_all

subsection \<open>Ranges\<close>

lemma prefix_between:
  "(pre :: gostring) \<le> x \<Longrightarrow> x \<le> pre @ y \<Longrightarrow> prefix pre x"
proof (induction pre arbitrary: x)
  case (Cons a pre)
  then show ?case by (cases x) auto
qed simp

lemma prefix_le: "prefix pre (x :: gostring) \<Longrightarrow> pre \<le> x"
  by (induction pre x rule: list_induct2') auto

text \<open>What the descriptor of a shard says about its documents.\<close>

lemma shard_holds_range:
  assumes "shard_holds fs kb s docs" and "docs \<noteq> []"
  shows "sh_pathMin s = docPath (hd docs)" "sh_pathMax s = docPath (List.last docs)"
proof -
  from assms(1) obtain path where s: "s = shardOf path kb docs" by (rule shard_holdsE)
  have "bf_path (storedFile kb d) = docPath d" for d by (cases d) (simp add: storedFile_def)
  then show "sh_pathMin s = docPath (hd docs)" "sh_pathMax s = docPath (List.last docs)"
    using assms(2) Build_props [of kb docs] by (simp_all add: s shardOf_def imageOf_def hd_map last_map)
qed

lemma hd_last_bounds:
  assumes "sorted_wrt (<) (xs :: gostring list)" and "x \<in> set xs"
  shows "hd xs \<le> x" "x \<le> List.last xs"
proof -
  obtain i where i: "i < length xs" "xs ! i = x" using assms(2) by (auto simp: in_set_conv_nth)
  have s: "sorted xs" using assms(1) by (simp add: strict_sorted_imp_sorted)
  have ne: "xs \<noteq> []" using i by auto
  show "hd xs \<le> x" using sorted_nth_mono [OF s, of 0 i] i ne by (simp add: hd_conv_nth)
  show "x \<le> List.last xs" using sorted_nth_mono [OF s, of i "length xs - 1"] i ne by (simp add: last_conv_nth)
qed

lemma ordered_Cons:
  "ordered (docs # dss) \<Longrightarrow> docs \<noteq> [] \<and> ordered dss \<and> sorted_wrt (<) (map docPath docs) \<and>
     (\<forall>d \<in> set docs. \<forall>d' \<in> set (concat dss). docPath d < docPath d')"
  by (auto simp: ordered_def sorted_wrt_append)

lemma shardsForPrefix_complete:
  assumes "list_all2 (shard_holds fs kb) ss dss" and "ordered dss"
    and "j < length dss" and "d \<in> set (dss ! j)" and "HasPrefix (docPath d) pre"
  shows "n + j \<in> set (shardsForPrefix_loop ss n pre)"
  using assms
proof (induction ss dss arbitrary: n j rule: list_all2_induct)
  case (Cons s ss docs dss)
  note o = ordered_Cons [OF Cons.prems(1)]
  have ne: "docs \<noteq> []" and sd: "sorted_wrt (<) (map docPath docs)" using o by blast+
  note range = shard_holds_range [OF Cons.hyps(1) ne]
  have pre: "prefix pre (docPath d)" using Cons.prems(4) by (simp add: HasPrefix_def)
  then obtain y where y: "docPath d = pre @ y" by (auto simp: prefix_def)
  have le: "sh_pathMin s \<le> docPath d"
  proof (cases j)
    case 0
    then have "docPath d \<in> set (map docPath docs)" using Cons.prems(3) by simp
    from hd_last_bounds(1) [OF sd this] show ?thesis by (simp add: range hd_map ne)
  next
    case (Suc i)
    then have "d \<in> set (concat dss)" using Cons.prems(2,3) by auto
    moreover have "hd docs \<in> set docs" using ne by simp
    ultimately have "docPath (hd docs) < docPath d" using o by blast
    then show ?thesis by (simp add: range)
  qed
  have go: "HasPrefix (sh_pathMin s) pre \<or> sh_pathMin s \<le> pre"
  proof (cases "sh_pathMin s \<le> pre")
    case False
    then have "prefix pre (sh_pathMin s)" using prefix_between [of pre "sh_pathMin s" y] le y by simp
    then show ?thesis by (simp add: HasPrefix_def)
  qed simp
  show ?case
  proof (cases j)
    case 0
    then have "docPath d \<in> set (map docPath docs)" using Cons.prems(3) by simp
    from hd_last_bounds(2) [OF sd this] have "docPath d \<le> sh_pathMax s" by (simp add: range last_map ne)
    then have "\<not> sh_pathMax s < pre" using prefix_le [OF pre] by (meson leD order_trans)
    with go 0 show ?thesis by simp
  next
    case (Suc i)
    then have "Suc n + i \<in> set (shardsForPrefix_loop ss (Suc n) pre)"
      using Cons.IH [of i "Suc n"] Cons.prems o by simp
    with go Suc show ?thesis by simp
  qed
qed simp

lemma shardsForPrefix_bound: "i \<in> set (shardsForPrefix_loop ss n pre) \<Longrightarrow> n \<le> i \<and> i < n + length ss"
  by (induction ss arbitrary: n) (fastforce split: if_splits)+

lemma map_of_mark_many:
  "map_of (foldl (\<lambda>d p. AList.update p de d) dirty ps) p = (if p \<in> set ps then Some de else map_of dirty p)"
  by (induction ps arbitrary: dirty) (auto simp: update_conv')

lemma distinct_mark_many:
  "distinct (map fst dirty) \<Longrightarrow> distinct (map fst (foldl (\<lambda>d p. AList.update p de d) dirty ps))"
  by (induction ps arbitrary: dirty) (simp_all add: distinct_update)

text \<open>Removing a directory marks every indexed file below it.\<close>

lemma MarkDeletedPrefix_marks:
  assumes "engine_ok tr dss e" and "ordered dss"
  shows "\<exists>e' ps. MarkDeletedPrefix e dir = Some e' \<and>
    e' = e\<lparr>en_dirty := foldl (\<lambda>d p. AList.update p \<lparr>de_deleted = True\<rparr> d) (en_dirty e) ps\<rparr> \<and>
    (\<forall>p \<in> set ps. p = dir \<or> HasPrefix p (dir @ [slash])) \<and> set ps \<subseteq> docPath ` set (concat dss) \<and>
    (\<forall>d \<in> set (concat dss). HasPrefix (docPath d) (dir @ [slash]) \<longrightarrow> docPath d \<in> set ps)"
proof -
  let ?pre = "dir @ [slash]" and ?kb = "dc_InlineKB (en_cfg e)"
  let ?is = "shardsForPrefix (en_shards e) ?pre"
  have hold: "list_all2 (shard_holds (en_fs e) ?kb) (en_shards e) dss" using assms(1) by (simp add: engine_ok_def)
  then have len: "length (en_shards e) = length dss" by (rule list_all2_lengthD)
  have bound: "i \<in> set ?is \<Longrightarrow> i < length dss" for i
    using shardsForPrefix_bound [of i "en_shards e" 0 ?pre] len by (simp add: shardsForPrefix_def)
  have "list_all2 (shard_holds (en_fs e) ?kb) (map (\<lambda>i. en_shards e ! i) ?is) (map (\<lambda>i. dss ! i) ?is)"
    unfolding list_all2_map1 list_all2_map2 using bound list_all2_nthD2 [OF hold]
    by (auto intro!: list.rel_refl_strong)
  note entries = allEntries_holds [OF this]
  define ps where "ps = filter (\<lambda>p. p = dir \<or> HasPrefix p ?pre) (map docPath (concat (map (\<lambda>i. dss ! i) ?is)))"
  have "MarkDeletedPrefix e dir = Some (e\<lparr>en_dirty := foldl (\<lambda>d p. AList.update p \<lparr>de_deleted = True\<rparr> d) (en_dirty e) ps\<rparr>)"
  proof -
    have del: "filter (\<lambda>p. p = dir \<or> HasPrefix p ?pre) (map fm_Path (map fst (concat (map (\<lambda>i. dss ! i) ?is)))) = ps"
      by (simp add: ps_def comp_def)
    show ?thesis
      unfolding MarkDeletedPrefix_def Let_def entries bind.simps del by (cases "ps = []") simp_all
  qed
  moreover have "docPath d \<in> set ps" if d: "d \<in> set (concat dss)" "HasPrefix (docPath d) ?pre" for d
  proof -
    from d(1) obtain ds where "ds \<in> set dss" "d \<in> set ds" by auto
    then obtain j where j: "j < length dss" "d \<in> set (dss ! j)" by (metis in_set_conv_nth)
    then have "j \<in> set ?is"
      using shardsForPrefix_complete [OF hold assms(2) j d(2), of 0] by (simp add: shardsForPrefix_def)
    with j(2) d(2) show ?thesis by (auto simp: ps_def)
  qed
  moreover have "set ps \<subseteq> docPath ` set (concat dss)" using bound by (fastforce simp: ps_def)
  ultimately show ?thesis by (intro exI [of _ ps] exI conjI) (auto simp: ps_def)
qed

lemma engine_ok_remove_dir:
  assumes "engine_ok tr dss e" and "ordered dss" and "tr dir = None"
  shows "\<exists>e'. MarkDeletedPrefix e dir = Some e' \<and>
    engine_ok (\<lambda>p. if HasPrefix p (dir @ [slash]) then None else tr p) dss e'"
proof -
  obtain e' ps where e': "MarkDeletedPrefix e dir = Some e'"
    "e' = e\<lparr>en_dirty := foldl (\<lambda>d p. AList.update p \<lparr>de_deleted = True\<rparr> d) (en_dirty e) ps\<rparr>"
    "\<forall>p \<in> set ps. p = dir \<or> HasPrefix p (dir @ [slash])"
    "\<forall>d \<in> set (concat dss). HasPrefix (docPath d) (dir @ [slash]) \<longrightarrow> docPath d \<in> set ps"
    using MarkDeletedPrefix_marks [OF assms(1,2), of dir] by blast
  let ?tr = "\<lambda>p. if HasPrefix p (dir @ [slash]) then None else tr p"
  have ok: "distinct (map docPath (concat dss))" "distinct (map fst (en_dirty e))"
    "\<And>d. d \<in> set (concat dss) \<Longrightarrow> map_of (en_dirty e) (docPath d) = None \<Longrightarrow> doc_current tr d"
    "\<And>p. loadText tr p \<noteq> None \<Longrightarrow> case map_of (en_dirty e) p of
           None \<Rightarrow> p \<in> docPath ` set (concat dss) | Some de \<Rightarrow> \<not> de_deleted de"
    "list_all2 (shard_holds (en_fs e) (dc_InlineKB (en_cfg e))) (en_shards e) dss"
    using assms(1) unfolding engine_ok_def by blast+
  have dirty: "map_of (en_dirty e') p = (if p \<in> set ps then Some \<lparr>de_deleted = True\<rparr> else map_of (en_dirty e) p)" for p
    by (simp add: e'(2) map_of_mark_many)
  have "doc_current ?tr d" if d: "d \<in> set (concat dss)" "map_of (en_dirty e') (docPath d) = None" for d
  proof -
    have "docPath d \<notin> set ps" "map_of (en_dirty e) (docPath d) = None" using d(2) by (auto simp: dirty split: if_splits)
    with e'(4) ok(3) d(1) show ?thesis by (auto simp: doc_current_def)
  qed
  moreover have "case map_of (en_dirty e') p of None \<Rightarrow> p \<in> docPath ` set (concat dss) | Some de \<Rightarrow> \<not> de_deleted de"
    if p: "loadText ?tr p \<noteq> None" for p
  proof -
    have np: "\<not> HasPrefix p (dir @ [slash])" "loadText tr p \<noteq> None" using p by (auto simp: loadText_def split: if_splits)
    then have "p \<noteq> dir" using assms(3) by (auto simp: loadText_def)
    with np(1) e'(3) have "p \<notin> set ps" by blast
    with ok(4) [OF np(2)] show ?thesis by (simp add: dirty)
  qed
  moreover have "distinct (map fst (en_dirty e'))" using ok(2) by (simp add: e'(2) distinct_mark_many)
  ultimately have "engine_ok ?tr dss e'"
    using ok(1,5) unfolding engine_ok_def by (simp add: e'(2))
  with e'(1) show ?thesis by blast
qed

subsection \<open>Looking up the shard of a path\<close>

lemma ordered_nth:
  assumes "ordered dss" and "i < j" and "j < length dss" and "d \<in> set (dss ! i)" and "d' \<in> set (dss ! j)"
  shows "docPath d < docPath d'"
  using assms
proof (induction dss arbitrary: i j)
  case (Cons docs dss)
  note o = ordered_Cons [OF Cons.prems(1)]
  obtain j' where j: "j = Suc j'" using Cons.prems(2) by (cases j) auto
  show ?case
  proof (cases i)
    case 0
    with Cons.prems j have "d \<in> set docs" "d' \<in> set (concat dss)" by (auto intro: nth_mem)
    with o show ?thesis by blast
  next
    case (Suc i')
    with Cons.IH [of i' j'] Cons.prems j o show ?thesis by simp
  qed
qed simp

lemma ordered_nth_ne: "ordered dss \<Longrightarrow> i < length dss \<Longrightarrow> dss ! i \<noteq> []"
  by (metis ordered_def nth_mem)

lemma ordered_nth_sorted: "ordered dss \<Longrightarrow> i < length dss \<Longrightarrow> sorted_wrt (<) (map docPath (dss ! i))"
proof (induction dss arbitrary: i)
  case (Cons docs dss)
  with ordered_Cons [OF Cons.prems(1)] show ?case by (cases i) auto
qed simp

lemma shardForPath_holds:
  assumes "list_all2 (shard_holds fs kb) ss dss" and "ordered dss"
  shows "shardForPath ss p = Some i \<longleftrightarrow>
    i < length dss \<and> docPath (hd (dss ! i)) \<le> p \<and> p \<le> docPath (List.last (dss ! i))"
proof -
  have len: "length ss = length dss" using assms(1) by (rule list_all2_lengthD)
  have range: "sh_pathMin (ss ! j) = docPath (hd (dss ! j))" "sh_pathMax (ss ! j) = docPath (List.last (dss ! j))"
    if "j < length dss" for j
    using shard_holds_range [OF list_all2_nthD2 [OF assms(1) that] ordered_nth_ne [OF assms(2) that]] by simp_all
  have mem: "hd (dss ! j) \<in> set (dss ! j)" "List.last (dss ! j) \<in> set (dss ! j)" if "j < length dss" for j
    using ordered_nth_ne [OF assms(2) that] by simp_all
  let ?P = "\<lambda>j. sh_pathMin (ss ! j) > p"
  define k where "k = sort_Search (length ss) ?P"
  have mono: "?P b" if "a \<le> b" "b < length ss" "?P a" for a b
  proof (cases "a = b")
    case False
    then have "docPath (hd (dss ! a)) < docPath (hd (dss ! b))"
      using that len by (intro ordered_nth [OF assms(2), of a b] mem) auto
    moreover have "a < length dss" "b < length dss" using that len by simp_all
    ultimately show ?thesis using that(3) by (simp add: range)
  qed (use that in simp)
  have k: "k \<le> length ss" "\<And>j. j < k \<Longrightarrow> \<not> ?P j" "\<And>j. k \<le> j \<Longrightarrow> j < length ss \<Longrightarrow> ?P j"
    using sort_Search_correct [of "length ss" ?P] mono unfolding k_def by blast+
  have val: "shardForPath ss p =
      (if k = 0 then None else if sh_pathMin (ss ! (k - 1)) \<le> p \<and> p \<le> sh_pathMax (ss ! (k - 1)) then Some (k - 1) else None)"
    by (simp add: shardForPath_def k_def Let_def)
  show ?thesis
  proof
    assume "shardForPath ss p = Some i"
    then have "k \<noteq> 0" "i = k - 1" "sh_pathMin (ss ! i) \<le> p" "p \<le> sh_pathMax (ss ! i)"
      unfolding val by (auto split: if_splits)
    moreover from this have "i < length dss" using k(1) len by linarith
    ultimately show "i < length dss \<and> docPath (hd (dss ! i)) \<le> p \<and> p \<le> docPath (List.last (dss ! i))"
      using range by simp
  next
    assume r: "i < length dss \<and> docPath (hd (dss ! i)) \<le> p \<and> p \<le> docPath (List.last (dss ! i))"
    have "i < k"
    proof (rule ccontr)
      assume "\<not> i < k"
      then have "?P i" using k(3) [of i] r len by simp
      with range(1) [of i] r show False by (auto dest: leD)
    qed
    moreover have "k - 1 \<le> i"
    proof (rule ccontr)
      assume "\<not> k - 1 \<le> i"
      then have j: "i < k - 1" "k - 1 < length dss" using k(1) len by auto
      then have "docPath (List.last (dss ! i)) < docPath (hd (dss ! (k - 1)))"
        using r by (intro ordered_nth [OF assms(2), of i "k - 1"] mem) auto
      then have "?P (k - 1)" using r range(1) [of "k - 1"] j by (auto intro: le_less_trans)
      with k(2) [of "k - 1"] j show False by simp
    qed
    ultimately have "k \<noteq> 0" "k - 1 = i" by auto
    with r range show "shardForPath ss p = Some i" by (simp add: val)
  qed
qed

lemma shardForPath_doc:
  assumes "list_all2 (shard_holds fs kb) ss dss" and "ordered dss" and "i < length dss" and "d \<in> set (dss ! i)"
  shows "shardForPath ss (docPath d) = Some i"
proof -
  have "docPath d \<in> set (map docPath (dss ! i))" using assms(4) by simp
  from hd_last_bounds [OF ordered_nth_sorted [OF assms(2,3)] this] ordered_nth_ne [OF assms(2,3)]
  show ?thesis by (simp add: shardForPath_holds [OF assms(1,2)] assms(3) hd_map last_map)
qed

lemma find_doc:
  assumes "distinct (map docPath docs)" and "d \<in> set docs"
  shows "find (\<lambda>fm. fm_Path fm = docPath d) (map fst docs) = Some (fst d)"
  using assms by (induction docs) auto

subsection \<open>Reconcile\<close>

lemma openShards_listed:
  assumes "list_all2 (shard_holds fs kb) ss dss" and "names_ok dir n ss"
  shows "openShards fs dir (mf_Shards (ManifestFromShards ss seq)) = Some ss"
  using assms
proof (induction rule: list_all2_induct)
  case (Cons s ss docs dss)
  obtain path where s: "s = shardOf path kb docs" "fits (Build kb docs)" "fs path = Some (shardBytes (Build kb docs))"
    using Cons.hyps(1) by (rule shard_holdsE)
  obtain i where i: "path = shardPath dir i" using Cons.prems s(1) by (auto simp: names_ok_def)
  then have "Join dir (pathBase (sh_path s)) = path" by (simp add: s(1)) (simp add: shardPath_def)
  moreover have "Open fs path = Some (Inr s)"
    using Open_written [where fs = fs, OF s(2,3)] by (simp add: s(1) shardOf_def)
  moreover have "openShards fs dir (mf_Shards (ManifestFromShards ss seq)) = Some ss"
    using Cons by (simp add: names_ok_def)
  ultimately show ?case by (simp add: ManifestFromShards_def)
qed (simp add: ManifestFromShards_def)

lemma CleanOrphans_keeps:
  assumes "list_all2 (shard_holds fs kb) ss dss" and "names_ok dir n ss"
  shows "list_all2 (shard_holds (CleanOrphans dir (Some (ManifestFromShards ss seq)) entries fs) kb) ss dss"
proof -
  let ?fs = "CleanOrphans dir (Some (ManifestFromShards ss seq)) entries fs"
  have same: "?fs (sh_path s) = fs (sh_path s)" if s: "s \<in> set ss" for s
  proof (cases entries)
    case (Some names)
    obtain i where i: "sh_path s = Join dir (shardName i)"
      using assms(2) s by (auto simp: names_ok_def shardPath_def)
    have "shardName i = pathBase (sh_path s)" using i pathBase_shardPath [of dir i] by (simp add: shardPath_def)
    then have "keepEntry (Some (ManifestFromShards ss seq)) (shardName i)"
      using s by (auto simp: keepEntry_def ManifestFromShards_def)
    then show ?thesis unfolding Some CleanOrphans_apply i by auto
  qed (simp add: CleanOrphans_def)
  show ?thesis
    using assms(1) by (rule list.rel_mono_strong) (use same in \<open>auto simp: shard_holds_def\<close>)
qed

definition staleMark :: "(gostring \<rightharpoonup> BuildFile) \<Rightarrow> FileMeta \<Rightarrow> dirtyEntry option" where
  "staleMark onDisk fm =
     (case onDisk (fm_Path fm) of
        None \<Rightarrow> Some \<lparr>de_deleted = True\<rparr>
      | Some df \<Rightarrow> if bF_Size df \<noteq> fm_Size fm \<or> bF_MtimeNS df \<noteq> fm_MtimeNS fm then Some \<lparr>de_deleted = False\<rparr> else None)"

lemma reconcileEntries_dirty:
  assumes "distinct (map fm_Path fms)"
  shows "map_of (reconcileEntries onDisk fms dirty) p =
      (case map_of (map (\<lambda>fm. (fm_Path fm, staleMark onDisk fm)) fms) p of
         Some (Some de) \<Rightarrow> Some de | _ \<Rightarrow> map_of dirty p)"
    "distinct (map fst dirty) \<Longrightarrow> distinct (map fst (reconcileEntries onDisk fms dirty))"
  using assms
proof (induction fms arbitrary: dirty)
  case (Cons fm fms)
  have step: "reconcileEntries onDisk (fm # fms) dirty = reconcileEntries onDisk fms
      (case staleMark onDisk fm of None \<Rightarrow> dirty | Some de \<Rightarrow> AList.update (fm_Path fm) de dirty)" for dirty
    by (simp add: staleMark_def split: option.split)
  {
    case 1
    then have "map_of (map (\<lambda>fm. (fm_Path fm, staleMark onDisk fm)) fms) (fm_Path fm) = None"
      by (auto simp: map_of_eq_None_iff)
    with Cons.IH(1) 1 show ?case
      unfolding step by (auto simp: update_conv' split: option.splits)
  next
    case 2
    with Cons.IH(2) show ?case unfolding step by (auto simp: distinct_update split: option.splits)
  }
qed simp_all

lemma reconcileNew_dirty:
  "map_of (reconcileNew inShard files dirty) p =
     (if p \<in> bF_Rel ` set files \<and> p \<notin> inShard then Some \<lparr>de_deleted = False\<rparr> else map_of dirty p)"
  "distinct (map fst dirty) \<Longrightarrow> distinct (map fst (reconcileNew inShard files dirty))"
  by (induction files arbitrary: dirty) (auto simp: update_conv' distinct_update)

lemma onDiskOf_listing:
  assumes "distinct (map bF_Rel files)"
  shows "onDiskOf files p = Some f \<longleftrightarrow> f \<in> set files \<and> bF_Rel f = p"
proof -
  have "distinct (map fst (rev (map (\<lambda>f. (bF_Rel f, f)) files)))"
    using assms by (simp add: comp_def flip: rev_map)
  from map_of_eq_Some_iff [OF this] show ?thesis by (auto simp: onDiskOf_def)
qed

text \<open>The dirty list after a restart, in terms of what is indexed and what is on disk.\<close>

lemma Reconcile_state:
  assumes "en_manifest e = Some (Json (ManifestFromShards shards seqNo))" and "en_dirty e = []"
    and "list_all2 (shard_holds (en_fs e) (dc_InlineKB (en_cfg e))) shards dss" and "names_ok (en_shardDir e) seqNo shards"
    and "distinct (map docPath (concat dss))"
  shows "\<exists>e'. Reconcile entries e files = Some e' \<and> en_shards e' = shards \<and> en_seqNo e' = seqNo \<and> en_cfg e' = en_cfg e \<and>
    en_shardDir e' = en_shardDir e \<and>
    list_all2 (shard_holds (en_fs e') (dc_InlineKB (en_cfg e))) shards dss \<and> distinct (map fst (en_dirty e')) \<and>
    (\<forall>d \<in> set (concat dss). map_of (en_dirty e') (docPath d) = staleMark (onDiskOf files) (fst d)) \<and>
    (\<forall>p. p \<notin> docPath ` set (concat dss) \<longrightarrow>
      map_of (en_dirty e') p = (if p \<in> bF_Rel ` set files then Some \<lparr>de_deleted = False\<rparr> else None))"
proof -
  let ?fs = "CleanOrphans (en_shardDir e) (Some (ManifestFromShards shards seqNo)) entries (en_fs e)"
  let ?fms = "map fst (concat dss)"
  let ?dirty = "reconcileNew (fm_Path ` set ?fms) files (reconcileEntries (onDiskOf files) ?fms [])"
  let ?e = "e\<lparr>en_fs := ?fs, en_dirty := ?dirty, en_shards := shards, en_seqNo := seqNo,
      en_totalFiles := int (length (remdups (map bF_Rel files))), en_totalBytes := sum_list (map fm_Size ?fms)\<rparr>"
  note hold = CleanOrphans_keeps [OF assms(3,4), of seqNo entries]
  have "mf_SeqNo (ManifestFromShards shards seqNo) = seqNo" by (simp add: ManifestFromShards_def)
  then have run: "Reconcile entries e files = Some ?e"
    by (simp add: Reconcile_def ReadManifest_def assms(1,2) openShards_listed [OF assms(3,4)] allEntries_holds [OF hold] Let_def)
  have dist: "distinct (map fm_Path ?fms)" using assms(5) by (simp add: comp_def)
  have doc: "map_of (map (\<lambda>fm. (fm_Path fm, staleMark (onDiskOf files) fm)) ?fms) (docPath d) = Some (staleMark (onDiskOf files) (fst d))"
    if "d \<in> set (concat dss)" for d
    using that dist by (intro map_of_is_SomeI) (auto simp: comp_def)
  have paths: "fm_Path ` set ?fms = docPath ` set (concat dss)" by (simp only: set_map image_image)
  have "map_of ?dirty (docPath d) = staleMark (onDiskOf files) (fst d)" if d: "d \<in> set (concat dss)" for d
  proof -
    have "docPath d \<in> fm_Path ` set ?fms" unfolding paths using d by (rule imageI)
    then show ?thesis
      unfolding reconcileNew_dirty(1) reconcileEntries_dirty(1) [OF dist] doc [OF d] by (simp split: option.split)
  qed
  moreover have "map_of ?dirty p = (if p \<in> bF_Rel ` set files then Some \<lparr>de_deleted = False\<rparr> else None)"
    if p: "p \<notin> docPath ` set (concat dss)" for p
  proof -
    have "p \<notin> fst ` set (map (\<lambda>fm. (fm_Path fm, staleMark (onDiskOf files) fm)) ?fms)"
      using p unfolding paths [symmetric] by force
    then have "map_of (map (\<lambda>fm. (fm_Path fm, staleMark (onDiskOf files) fm)) ?fms) p = None"
      unfolding map_of_eq_None_iff .
    then show ?thesis
      unfolding reconcileNew_dirty(1) reconcileEntries_dirty(1) [OF dist] paths using p by simp
  qed
  moreover have "distinct (map fst ?dirty)"
    using reconcileNew_dirty(2) reconcileEntries_dirty(2) [OF dist] by simp
  ultimately show ?thesis using run hold by (intro exI [of _ ?e]) simp
qed

end
