(* ===== verification/EngineLife.thy ===== *)
theory EngineLife
  imports EngineState
begin

text \<open>
  Properties of the engine over its life: what a build indexes, that a search after any
  sequence of changes sees them, what a restart marks as dirty.
\<close>

subsection \<open>An example tree to build from\<close>

definition buildTree :: tree where
  "buildTree = [str ''a.txt'' \<mapsto> \<lparr>tf_content = str ''abc'', tf_size = 3, tf_mtime = 7\<rparr>]"

definition buildFiles :: "BuildFile list" where
  "buildFiles = [\<lparr>bF_Rel = str ''a.txt'', bF_Size = 3, bF_MtimeNS = 7\<rparr>]"

definition buildDoc :: document where
  "buildDoc = (\<lparr>fm_Path = str ''a.txt'', fm_Size = 3, fm_MtimeNS = 7\<rparr>, str ''abc'', [])"

lemma buildTree_load: "loadText buildTree (str ''a.txt'') = Some (str ''abc'')"
proof -
  have "decoded (str ''abc'') = str ''abc''" "\<not> isBinary (str ''abc'')" by code_simp+
  then show ?thesis by (simp add: loadText_def buildTree_def)
qed

lemma buildTree_listing: "listing buildTree buildFiles"
  by (auto simp: listing_def buildTree_def buildFiles_def loadText_def split: if_splits)

lemma Extract_txt: "Extract S (str ''a.txt'') c = []"
proof -
  have "\<not> HasNonASCII (Ext (str ''a.txt''))" "map lower (Ext (str ''a.txt'')) = str ''.txt''" by code_simp+
  then have "Language (unicode_ToLower S) (str ''a.txt'') = []"
    by (simp add: Language_def ToLower_ascii) (simp add: str_def)
  then show ?thesis by (simp add: Extract_def str_def)
qed

lemma buildTree_docs: "docsOf S buildTree buildFiles = [buildDoc]"
  by (simp add: docsOf_def buildFiles_def buildTree_load Extract_txt buildDoc_def)

lemma fits_buildDoc: "fits (Build 1 [buildDoc])"
  by (simp add: buildDoc_def fits_def file_fits_def def_ok_def Build_def addDoc_def NewBuilder_def AddWithDefs_def
      Let_def appendTri_def length_shardBytes postingParts_def triKeysOf_def pathBlobOf_def contentParts_def symDataOf_def
      encDefs_def encDef_def encString_def encPosting_def str_def KindFunc_def PutUvarint.simps)

definition buildEngine :: DiskEngine where
  "buildEngine = NewDiskEngine (str ''r'') (str ''d'') exampleCfg Map.empty None"

lemma buildEngine_simps [simp]: "en_dirty buildEngine = []" "en_cfg buildEngine = exampleCfg" "dc_InlineKB exampleCfg = 1"
  by (simp_all add: buildEngine_def NewDiskEngine_def exampleCfg_def)

lemma buildTree_fits:
  "\<forall>b \<in> set (GroupByDirBoundary buildFiles (dc_ShardSize (en_cfg buildEngine))).
     fits (Build (dc_InlineKB (en_cfg buildEngine)) (docsOf S buildTree b))"
proof -
  have "GroupByDirBoundary buildFiles (dc_ShardSize exampleCfg) = [buildFiles]"
    by (simp add: GroupByDirBoundary_def buildFiles_def exampleCfg_def)
  then show ?thesis by (simp add: buildTree_docs fits_buildDoc)
qed

subsection \<open>Properties\<close>

text \<open>A full build indexes every readable text file of the tree exactly once and nothing else: when no
  write fails it succeeds, the shards hold, in path order, one document per listed file that is
  readable and not binary, the engine reflects the tree, and the totals count these files.\<close>

theorem FullBuild_indexes_tree:
  assumes "\<And>n. io n = AllOk" and "listing tr files" and "en_dirty e = []"
    and "\<forall>b \<in> set (GroupByDirBoundary files (dc_ShardSize (en_cfg e))). fits (Build (dc_InlineKB (en_cfg e)) (docsOf S tr b))"
  shows "\<exists>e' dss. FullBuild S tr io mio e files = Some (None, e') \<and> engine_ok tr dss e' \<and> ordered dss \<and>
    docPath ` set (concat dss) = {p. loadText tr p \<noteq> None} \<and>
    en_totalFiles e' = int (card {p. loadText tr p \<noteq> None}) \<and>
    en_totalBytes e' = (\<Sum>p | loadText tr p \<noteq> None. tf_size (the (tr p)))"
proof -
  obtain e' dss where e': "FullBuild S tr io mio e files = Some (None, e')" "engine_ok tr dss e'" "ordered dss"
    "concat dss = docsOf S tr (sort_key bF_Rel files)" "en_totalFiles e' = int (length (concat dss))"
    "en_totalBytes e' = sum_list (map (\<lambda>d. fm_Size (fst d)) (concat dss))"
    using FullBuild_state [where io = io and mio = mio and S = S, OF assms] by blast
  have sorted: "listing tr (sort_key bF_Rel files)" using assms(2) by (simp add: listing_sort)
  have paths: "docPath ` set (concat dss) = {p. loadText tr p \<noteq> None}"
  proof (intro equalityI subsetI)
    fix p assume "p \<in> docPath ` set (concat dss)"
    then have "p \<in> set (map docPath (docsOf S tr (sort_key bF_Rel files)))" by (simp add: e'(4))
    then show "p \<in> {p. loadText tr p \<noteq> None}" by (simp add: docPath_docsOf)
  qed (use listing_docs(2) [OF sorted] e'(4) in simp)
  have inj: "inj_on docPath (set (concat dss))" "distinct (concat dss)"
    using listing_docs(1) [OF sorted, of S] by (simp_all add: e'(4) distinct_map)
  have "length (concat dss) = card {p. loadText tr p \<noteq> None}"
    using card_image [OF inj(1)] distinct_card [OF inj(2)] by (simp only: paths)
  moreover have "sum_list (map (\<lambda>d. fm_Size (fst d)) (concat dss)) = (\<Sum>p | loadText tr p \<noteq> None. tf_size (the (tr p)))"
  proof -
    have "sum_list (map (\<lambda>d. fm_Size (fst d)) (concat dss)) = (\<Sum>d \<in> set (concat dss). fm_Size (fst d))"
      using inj(2) by (rule sum_list_distinct_conv_sum_set)
    also have "\<dots> = (\<Sum>d \<in> set (concat dss). tf_size (the (tr (docPath d))))"
    proof (rule sum.cong [OF refl])
      fix d assume "d \<in> set (concat dss)"
      then have "doc_current tr d" using docsOf_current [OF sorted] by (simp add: e'(4))
      then show "fm_Size (fst d) = tf_size (the (tr (docPath d)))" by (auto simp: doc_current_def split: option.splits)
    qed
    also have "\<dots> = (\<Sum>p \<in> docPath ` set (concat dss). tf_size (the (tr p)))"
      by (rule sum.reindex_cong [OF inj(1) refl refl, symmetric])
    finally show ?thesis by (simp only: paths)
  qed
  ultimately show ?thesis using e' paths by metis
qed

theorem FullBuild_indexes_tree_witness:
  "\<forall>S. \<exists>e'. FullBuild S buildTree (\<lambda>_. AllOk) MOk buildEngine buildFiles = Some (None, e') \<and> en_totalFiles e' = 1"
proof
  fix S
  have "{p. loadText buildTree p \<noteq> None} = {str ''a.txt''}"
    using buildTree_load by (auto simp: loadText_def buildTree_def split: if_splits)
  with FullBuild_indexes_tree [where io = "\<lambda>_. AllOk" and mio = MOk and S = S,
      OF refl buildTree_listing buildEngine_simps(1) buildTree_fits]
  show "\<exists>e'. FullBuild S buildTree (\<lambda>_. AllOk) MOk buildEngine buildFiles = Some (None, e') \<and> en_totalFiles e' = 1" by auto
qed

text \<open>The paths of a sequence of changes: they are marked afterwards, and none of them as deleted that is there.\<close>

fun changedPath :: "tree_change \<Rightarrow> gostring" where
  "changedPath (Changed p f) = p"
| "changedPath (Removed p) = p"

lemma changes_dirty:
  "map_of (en_dirty (snd (foldl change_step st cs))) p \<noteq> None \<longleftrightarrow>
     map_of (en_dirty (snd st)) p \<noteq> None \<or> p \<in> changedPath ` set cs"
proof (induction cs arbitrary: st)
  case (Cons c cs)
  then show ?case by (cases st; cases c) (auto simp: MarkDirty_def MarkDeleted_def update_conv')
qed simp

lemma changes_deleted:
  "(\<forall>p. map_of (en_dirty (snd st)) p = Some \<lparr>de_deleted = True\<rparr> \<longrightarrow> fst st p = None) \<Longrightarrow>
     map_of (en_dirty (snd (foldl change_step st cs))) p = Some \<lparr>de_deleted = True\<rparr> \<Longrightarrow> fst (foldl change_step st cs) p = None"
proof (induction cs arbitrary: st)
  case (Cons c cs)
  have "\<forall>p. map_of (en_dirty (snd (change_step st c))) p = Some \<lparr>de_deleted = True\<rparr> \<longrightarrow> fst (change_step st c) p = None"
    using Cons(2) by (cases st; cases c) (auto simp: MarkDirty_def MarkDeleted_def update_conv')
  from Cons(1) [OF this] Cons(3) show ?case by simp
qed simp

text \<open>C2. Read your writes: after a full build of a tree, in which no write fails and every shard fits its offsets, and any sequence of later changes and removals of files, each marked by the
  watcher, an unlimited search reports exactly the lines on which the matcher finds something in the text the engine takes for each
  admitted file of the tree as it is then. For every file changed since the build that is its content on disk, whatever was indexed
  before; for every other it is there only if the literal does not prune the file, and is the inlined text or the content on disk. For a
  fixed ASCII pattern and the files without a UTF-16 byte order mark the answer is what grep over the tree as it is then finds; nothing
  stale, nothing missing.\<close>

theorem read_your_writes:
  assumes "\<And>n. io n = AllOk" and "listing tr files" and "en_dirty e = []"
    and "\<forall>b \<in> set (GroupByDirBoundary files (dc_ShardSize (en_cfg e))). fits (Build (dc_InlineKB (en_cfg e)) (docsOf S tr b))"
    and "FullBuild S tr io mio e files = Some (None, e0)"
    and "(tr', e') = foldl change_step (tr, e0) changes"
    and "so_Limit opts \<le> 0" and "\<not> so_FilesOnly opts"
    and "set sched = {..<NumShards e0}"
  shows "\<exists>res. DiskSearch L tr' sched e' re opts = Some res \<and>
    (\<forall>p l. (p, l) \<in> (\<lambda>m. (mt_Path m, mt_Line m)) ` set (sr_Matches res) \<longleftrightarrow>
      (\<exists>f c. tr' p = Some f \<and> admits opts \<lparr>fm_Path = p, fm_Size = tf_size f, fm_MtimeNS = tf_mtime f\<rparr> \<and>
         searchedText (dc_InlineKB (en_cfg e')) (so_Literal opts) (p \<in> changedPath ` set changes) f = Some c \<and> \<not> isBinary c \<and>
         1 \<le> l \<and> l \<le> length (scanLines c) \<and> FindFirst L (engineMatcher L re opts) (scanLines c ! (l - 1)) \<noteq> None)) \<and>
    (fixed_ascii parse uni opts \<longrightarrow> (\<forall>p l f. tr' p = Some f \<longrightarrow> decodeUTF16_shard (tf_content f) = None \<longrightarrow>
      ((p, l) \<in> (\<lambda>m. (mt_Path m, mt_Line m)) ` set (sr_Matches res) \<longleftrightarrow>
         \<not> isBinary (tf_content f) \<and> admits opts \<lparr>fm_Path = p, fm_Size = tf_size f, fm_MtimeNS = tf_mtime f\<rparr> \<and>
         1 \<le> l \<and> l \<le> length (scanLines (tf_content f)) \<and>
         FindFirst L (engineMatcher L re opts) (scanLines (tf_content f) ! (l - 1)) \<noteq> None)))"
proof -
  obtain dss where e0: "engine_ok tr dss e0" "en_dirty e0 = []"
    using FullBuild_state [where io = io and mio = mio and S = S, OF assms(1-4)] assms(5) by auto
  then have ok: "engine_ok tr' dss e'" using changes_ok [of "(tr, e0)" dss changes] assms(6) [symmetric] by simp
  have "en_shards e' = en_shards e0" using changes_shards [of "(tr, e0)" changes] assms(6) [symmetric] by simp
  then have "set sched = {..<NumShards e'}" using assms(9) by (simp add: NumShards_def)
  note exact = search_exact [OF ok this assms(7,8), of L re]
  have marked: "map_of (en_dirty e') p \<noteq> None \<longleftrightarrow> p \<in> changedPath ` set changes" for p
    using changes_dirty [of "(tr, e0)" changes p] e0(2) assms(6) [symmetric] by simp
  have "map_of (en_dirty e') p \<noteq> Some \<lparr>de_deleted = True\<rparr>" if "tr' p = Some f" for p f
    using changes_deleted [of "(tr, e0)" changes p] e0(2) assms(6) [symmetric] that by auto
  then have there: "tr' p = Some f \<and> A \<and> map_of (en_dirty e') p \<noteq> Some \<lparr>de_deleted = True\<rparr> \<and> B \<longleftrightarrow> tr' p = Some f \<and> A \<and> B" for p f A B
    by blast
  from exact obtain res where res: "DiskSearch L tr' sched e' re opts = Some res"
    and lines: "\<forall>p l. (p, l) \<in> (\<lambda>m. (mt_Path m, mt_Line m)) ` set (sr_Matches res) \<longleftrightarrow>
      (\<exists>f c. tr' p = Some f \<and> admits opts \<lparr>fm_Path = p, fm_Size = tf_size f, fm_MtimeNS = tf_mtime f\<rparr> \<and>
         map_of (en_dirty e') p \<noteq> Some \<lparr>de_deleted = True\<rparr> \<and>
         searchedText (dc_InlineKB (en_cfg e')) (so_Literal opts) (map_of (en_dirty e') p \<noteq> None) f = Some c \<and> \<not> isBinary c \<and>
         1 \<le> l \<and> l \<le> length (scanLines c) \<and> FindFirst L (engineMatcher L re opts) (scanLines c ! (l - 1)) \<noteq> None)"
    by (elim exE conjE) (rule that; assumption)
  show ?thesis
    by (intro exI [of _ res] conjI; (rule res | rule lines [unfolded there marked] |
          (intro allI impI, rule trans [OF lines [rule_format] plain_line [OF ok]]; assumption)))
qed

theorem read_your_writes_witness:
  "\<forall>S. \<exists>e0 res. FullBuild S buildTree (\<lambda>_. AllOk) MOk buildEngine buildFiles = Some (None, e0) \<and>
     DiskSearch exampleLib (buildTree(str ''b.txt'' \<mapsto> \<lparr>tf_content = str ''zabc'', tf_size = 4, tf_mtime = 9\<rparr>)) [0..<NumShards e0]
        (MarkDirty e0 (str ''b.txt'')) [] exampleOpts = Some res \<and>
     (str ''b.txt'', 1) \<in> (\<lambda>m. (mt_Path m, mt_Line m)) ` set (sr_Matches res)"
proof
  fix S
  let ?f = "\<lparr>tf_content = str ''zabc'', tf_size = 4, tf_mtime = 9\<rparr>"
  let ?tr = "buildTree(str ''b.txt'' \<mapsto> ?f)"
  obtain e0 where b: "FullBuild S buildTree (\<lambda>_. AllOk) MOk buildEngine buildFiles = Some (None, e0)"
    using FullBuild_state [where io = "\<lambda>_. AllOk" and mio = MOk and S = S, OF refl buildTree_listing buildEngine_simps(1) buildTree_fits]
    by blast
  have step: "(?tr, MarkDirty e0 (str ''b.txt'')) = foldl change_step (buildTree, e0) [Changed (str ''b.txt'') ?f]" by simp
  have bom: "decodeUTF16_shard (str ''zabc'') = None" by code_simp
  have opts: "so_Limit exampleOpts \<le> 0" "\<not> so_FilesOnly exampleOpts" by (simp_all add: exampleOpts_def)
  have sched: "set [0..<NumShards e0] = {..<NumShards e0}" by (simp add: atLeast0LessThan)
  obtain res where res: "DiskSearch exampleLib ?tr [0..<NumShards e0] (MarkDirty e0 (str ''b.txt'')) [] exampleOpts = Some res"
    and "fixed_ascii (\<lambda>_. None) (\<lambda>r. r) exampleOpts \<longrightarrow> (\<forall>p l f. ?tr p = Some f \<longrightarrow> decodeUTF16_shard (tf_content f) = None \<longrightarrow>
      ((p, l) \<in> (\<lambda>m. (mt_Path m, mt_Line m)) ` set (sr_Matches res) \<longleftrightarrow>
         \<not> isBinary (tf_content f) \<and> admits exampleOpts \<lparr>fm_Path = p, fm_Size = tf_size f, fm_MtimeNS = tf_mtime f\<rparr> \<and>
         1 \<le> l \<and> l \<le> length (scanLines (tf_content f)) \<and>
         FindFirst exampleLib (engineMatcher exampleLib [] exampleOpts) (scanLines (tf_content f) ! (l - 1)) \<noteq> None))"
    using read_your_writes [where io = "\<lambda>_. AllOk" and mio = MOk and S = S and parse = "\<lambda>_. None" and uni = "\<lambda>r. r"
        and L = exampleLib and re = "[]", OF refl buildTree_listing buildEngine_simps(1) buildTree_fits b step opts sched]
    by (elim exE conjE) (rule that; assumption)
  note found = this(2) [rule_format, OF example_fixed, of "str ''b.txt''" ?f 1]
  have ev: "scanLines (str ''zabc'') = [str ''zabc'']" "\<not> isBinary (str ''zabc'')"
    "FindFirst exampleLib \<lparr>m_Re = Some [], m_PlainLit = str ''abc'', m_Fold = False, m_rareByte = 0, m_hasRare = False\<rparr>
       (str ''zabc'') \<noteq> None" by code_simp+
  have "admits exampleOpts meta" for meta by (simp add: admits_def exampleOpts_def pathOk_def)
  with ev bom have "(str ''b.txt'', 1) \<in> (\<lambda>m. (mt_Path m, mt_Line m)) ` set (sr_Matches res)"
    using found unfolding example_matcher by simp
  with b res show "\<exists>e0 res. FullBuild S buildTree (\<lambda>_. AllOk) MOk buildEngine buildFiles = Some (None, e0) \<and>
      DiskSearch exampleLib ?tr [0..<NumShards e0] (MarkDirty e0 (str ''b.txt'')) [] exampleOpts = Some res \<and>
      (str ''b.txt'', 1) \<in> (\<lambda>m. (mt_Path m, mt_Line m)) ` set (sr_Matches res)" by blast
qed

text \<open>Removing a directory: every file below it disappears from the engine. After \<open>MarkDeletedPrefix\<close>
  the engine reflects the tree without the directory; the binary cut-off over the shard ranges
  skips no shard that has a file below it.\<close>

theorem MarkDeletedPrefix_reflects:
  assumes "engine_ok tr dss e" and "ordered dss" and "tr dir = None"
  shows "\<exists>e'. MarkDeletedPrefix e dir = Some e' \<and>
    engine_ok (\<lambda>p. if HasPrefix p (dir @ [slash]) then None else tr p) dss e' \<and>
    (\<forall>d \<in> set (concat dss). HasPrefix (docPath d) (dir @ [slash]) \<longrightarrow>
       map_of (en_dirty e') (docPath d) = Some \<lparr>de_deleted = True\<rparr>)"
proof -
  obtain e' where e': "MarkDeletedPrefix e dir = Some e'"
    "engine_ok (\<lambda>p. if HasPrefix p (dir @ [slash]) then None else tr p) dss e'"
    using engine_ok_remove_dir [OF assms] by blast
  obtain ps where "en_dirty e' = foldl (\<lambda>d p. AList.update p \<lparr>de_deleted = True\<rparr> d) (en_dirty e) ps"
    "\<forall>d \<in> set (concat dss). HasPrefix (docPath d) (dir @ [slash]) \<longrightarrow> docPath d \<in> set ps"
    using MarkDeletedPrefix_marks [OF assms(1,2), of dir] e'(1) by auto
  with e' show ?thesis by (auto simp: map_of_mark_many)
qed

theorem MarkDeletedPrefix_reflects_witness:
  "\<exists>e'. MarkDeletedPrefix exampleEngine (str ''d'') = Some e' \<and>
     engine_ok (\<lambda>p. if HasPrefix p (str ''d'' @ [slash]) then None else exampleTree p) [[exampleDoc]] e'"
proof -
  have "ordered [[exampleDoc]]" "exampleTree (str ''d'') = None"
    by (simp_all add: ordered_def exampleTree_def str_def)
  from MarkDeletedPrefix_reflects [OF example_ok this] show ?thesis by blast
qed

text \<open>Metadata lookup: with the shards in path order, the binary search finds the shard of every indexed
  path, and \<open>Meta\<close> returns exactly the stored size and time of an indexed path, nothing for any
  other path, and does not panic.\<close>

theorem DiskMeta_exact:
  assumes "engine_ok tr dss e" and "ordered dss"
  shows "DiskMeta e p \<noteq> None \<and>
    (DiskMeta e p = Some (Some meta) \<longleftrightarrow> fm_Path meta = p \<and> meta \<in> fst ` set (concat dss))"
proof -
  have hold: "list_all2 (shard_holds (en_fs e) (dc_InlineKB (en_cfg e))) (en_shards e) dss"
    and dist: "distinct (map docPath (concat dss))" using assms(1) by (simp_all add: engine_ok_def)
  show ?thesis
  proof (cases "p \<in> docPath ` set (concat dss)")
    case True
    then obtain d ds where d: "ds \<in> set dss" "d \<in> set ds" "docPath d = p" by auto
    then obtain i where i: "i < length dss" "dss ! i = ds" by (metis in_set_conv_nth)
    have look: "shardForPath (en_shards e) p = Some i"
      using shardForPath_doc [OF hold assms(2) i(1), of d] d(2,3) i(2) by simp
    have "shardEntries (en_fs e) (en_shards e ! i) = Some (map fst ds)"
      using shardEntries_holds [OF list_all2_nthD2 [OF hold i(1)]] i(2) by simp
    moreover have "distinct (map docPath ds)"
      using strict_sorted_iff ordered_nth_sorted [OF assms(2) i(1)] i(2) by blast
    ultimately have meta: "DiskMeta e p = Some (Some (fst d))"
      using find_doc [OF _ d(2)] d(3) by (simp add: DiskMeta_def look)
    have "d' = d" if "d' \<in> set (concat dss)" "docPath d' = p" for d'
      using dist d that by (auto simp: distinct_map inj_on_def)
    then have "fm_Path meta = p \<and> meta \<in> fst ` set (concat dss) \<longleftrightarrow> meta = fst d" using d by auto
    with meta show ?thesis by auto
  next
    case False
    have "DiskMeta e p = Some None"
    proof (cases "shardForPath (en_shards e) p")
      case (Some i)
      then have i: "i < length dss" by (simp add: shardForPath_holds [OF hold assms(2)])
      have "fm_Path fm \<noteq> p" if fm: "fm \<in> set (map fst (dss ! i))" for fm
      proof
        assume p: "fm_Path fm = p"
        obtain d where d: "d \<in> set (dss ! i)" "fm = fst d" using fm unfolding set_map by blast
        have "d \<in> set (concat dss)" using d(1) i by auto
        with False p d(2) show False by (metis imageI)
      qed
      then have "find (\<lambda>fm. fm_Path fm = p) (map fst (dss ! i)) = None"
        unfolding find_None_iff by blast
      with Some shardEntries_holds [OF list_all2_nthD2 [OF hold i]] show ?thesis by (simp add: DiskMeta_def)
    qed (simp add: DiskMeta_def)
    with False show ?thesis by auto
  qed
qed

theorem DiskMeta_exact_witness:
  "DiskMeta exampleEngine (str ''a.go'') = Some (Some (fst exampleDoc))"
proof -
  have "ordered [[exampleDoc]]" by (simp add: ordered_def)
  from DiskMeta_exact [OF example_ok this, of "str ''a.go''" "fst exampleDoc"]
  show ?thesis by (simp add: exampleDoc_def)
qed

text \<open>C26. After a restart \<open>Reconcile\<close> marks exactly what changed: an indexed path is marked deleted when it is no longer
  listed and dirty when its size or time differs, an unindexed listed path is marked dirty, and nothing else is marked.
  When equal size and time mean equal content, the engine reflects the tree again.\<close>

theorem Reconcile_exact:
  assumes "en_manifest e = Some (Json (ManifestFromShards shards seqNo))" and "en_dirty e = []"
    and "list_all2 (shard_holds (en_fs e) (dc_InlineKB (en_cfg e))) shards dss" and "names_ok (en_shardDir e) seqNo shards"
    and "distinct (map docPath (concat dss))" and "listing tr files"
    and "\<And>d t. d \<in> set (concat dss) \<Longrightarrow> tr (docPath d) = Some t \<Longrightarrow> tf_size t = fm_Size (fst d) \<Longrightarrow> tf_mtime t = fm_MtimeNS (fst d) \<Longrightarrow>
      doc_content d = decoded (tf_content t) \<and> \<not> isBinary (doc_content d)"
  shows "\<exists>e'. Reconcile entries e files = Some e' \<and> en_shards e' = shards \<and> engine_ok tr dss e' \<and>
    (\<forall>d \<in> set (concat dss). map_of (en_dirty e') (docPath d) =
       (if docPath d \<notin> bF_Rel ` set files then Some \<lparr>de_deleted = True\<rparr>
        else if tf_size (the (tr (docPath d))) \<noteq> fm_Size (fst d) \<or> tf_mtime (the (tr (docPath d))) \<noteq> fm_MtimeNS (fst d)
        then Some \<lparr>de_deleted = False\<rparr> else None)) \<and>
    (\<forall>p. p \<notin> docPath ` set (concat dss) \<longrightarrow>
       map_of (en_dirty e') p = (if p \<in> bF_Rel ` set files then Some \<lparr>de_deleted = False\<rparr> else None))"
proof -
  obtain e' where e': "Reconcile entries e files = Some e'" "en_shards e' = shards" "en_cfg e' = en_cfg e"
    "list_all2 (shard_holds (en_fs e') (dc_InlineKB (en_cfg e))) shards dss" "distinct (map fst (en_dirty e'))"
    "\<forall>d \<in> set (concat dss). map_of (en_dirty e') (docPath d) = staleMark (onDiskOf files) (fst d)"
    "\<forall>p. p \<notin> docPath ` set (concat dss) \<longrightarrow>
      map_of (en_dirty e') p = (if p \<in> bF_Rel ` set files then Some \<lparr>de_deleted = False\<rparr> else None)"
    using Reconcile_state [OF assms(1-5), of entries files] by blast
  have l: "distinct (map bF_Rel files)"
    "\<And>f. f \<in> set files \<Longrightarrow> \<exists>t. tr (bF_Rel f) = Some t \<and> bF_Size f = tf_size t \<and> bF_MtimeNS f = tf_mtime t"
    "\<And>p. loadText tr p \<noteq> None \<Longrightarrow> p \<in> bF_Rel ` set files"
    using assms(6) unfolding listing_def by blast+
  have mark: "staleMark (onDiskOf files) fm =
      (if fm_Path fm \<notin> bF_Rel ` set files then Some \<lparr>de_deleted = True\<rparr>
       else if tf_size (the (tr (fm_Path fm))) \<noteq> fm_Size fm \<or> tf_mtime (the (tr (fm_Path fm))) \<noteq> fm_MtimeNS fm
       then Some \<lparr>de_deleted = False\<rparr> else None)" for fm
  proof (cases "onDiskOf files (fm_Path fm)")
    case None
    then have "f \<in> set files \<Longrightarrow> bF_Rel f \<noteq> fm_Path fm" for f
      using onDiskOf_listing [OF l(1), of "fm_Path fm" f] by simp
    then have "fm_Path fm \<notin> bF_Rel ` set files" by force
    with None show ?thesis by (simp add: staleMark_def)
  next
    case (Some f)
    then have f: "f \<in> set files" "bF_Rel f = fm_Path fm" by (simp_all add: onDiskOf_listing [OF l(1)])
    from l(2) [OF f(1)] obtain t where "tr (fm_Path fm) = Some t" "bF_Size f = tf_size t" "bF_MtimeNS f = tf_mtime t"
      by (auto simp: f(2))
    moreover have "fm_Path fm \<in> bF_Rel ` set files" using f by (metis imageI)
    ultimately show ?thesis using Some by (simp add: staleMark_def)
  qed
  have "doc_current tr d" if d: "d \<in> set (concat dss)" "map_of (en_dirty e') (docPath d) = None" for d
  proof -
    have none: "staleMark (onDiskOf files) (fst d) = None" using e'(6) d by metis
    then have "docPath d \<in> bF_Rel ` set files" by (auto simp: mark split: if_splits)
    then obtain t where t: "tr (docPath d) = Some t" using l(2) by force
    then have "tf_size t = fm_Size (fst d)" "tf_mtime t = fm_MtimeNS (fst d)"
      using none by (auto simp: mark split: if_splits)
    with assms(7) [OF d(1) t] t show ?thesis by (auto simp: doc_current_def)
  qed
  moreover have "case map_of (en_dirty e') p of None \<Rightarrow> p \<in> docPath ` set (concat dss) | Some de \<Rightarrow> \<not> de_deleted de"
    if "loadText tr p \<noteq> None" for p
  proof (cases "p \<in> docPath ` set (concat dss)")
    case True
    then obtain d where d: "d \<in> set (concat dss)" "docPath d = p" by blast
    with e'(6) have "map_of (en_dirty e') p = staleMark (onDiskOf files) (fst d)" by blast
    with True l(3) [OF that] d(2) show ?thesis by (auto simp: mark)
  next
    case False
    with e'(7) l(3) [OF that] show ?thesis by simp
  qed
  ultimately have "engine_ok tr dss e'"
    unfolding engine_ok_def using e'(2-5) assms(5) by simp
  with e' mark show ?thesis by auto
qed

theorem Reconcile_exact_witness:
  "\<exists>e'. Reconcile None
      (buildEngine\<lparr>en_fs := [shardPath (str ''d'') 0 \<mapsto> shardBytes (Build 1 [buildDoc])],
         en_manifest := Some (Json (ManifestFromShards [shardOf (shardPath (str ''d'') 0) 1 [buildDoc]] 1))\<rparr>)
      buildFiles = Some e' \<and> engine_ok buildTree [[buildDoc]] e' \<and> map_of (en_dirty e') (str ''a.txt'') = None"
proof -
  let ?ss = "[shardOf (shardPath (str ''d'') 0) 1 [buildDoc]]"
  let ?e = "buildEngine\<lparr>en_fs := [shardPath (str ''d'') 0 \<mapsto> shardBytes (Build 1 [buildDoc])],
         en_manifest := Some (Json (ManifestFromShards ?ss 1))\<rparr>"
  have man: "en_manifest ?e = Some (Json (ManifestFromShards ?ss 1))" "en_dirty ?e = []" by simp_all
  have hold: "list_all2 (shard_holds (en_fs ?e) (dc_InlineKB (en_cfg ?e))) ?ss [[buildDoc]]"
    using fits_buildDoc by (simp add: shard_holds_def)
  have names: "names_ok (en_shardDir ?e) 1 ?ss" by (simp add: names_ok_def buildEngine_def NewDiskEngine_def)
  have dist: "distinct (map docPath (concat [[buildDoc]]))" by simp
  have p: "docPath buildDoc = str ''a.txt''" by (simp add: buildDoc_def)
  have same: "doc_content d = decoded (tf_content t) \<and> \<not> isBinary (doc_content d)"
    if "d \<in> set (concat [[buildDoc]])" "buildTree (docPath d) = Some t" for d t
  proof -
    have "decoded (str ''abc'') = str ''abc''" "\<not> isBinary (str ''abc'')" by code_simp+
    then show ?thesis using that by (auto simp: buildDoc_def buildTree_def)
  qed
  from Reconcile_exact [OF man hold names dist buildTree_listing same, of None] p
  show ?thesis by (auto simp: buildFiles_def buildTree_def buildDoc_def)
qed

end
