(* ===== verification/EngineRefresh.thy ===== *)
theory EngineRefresh
  imports EngineLife
begin

text \<open>
  The background rebuild: what it writes, when it keeps the engine in step with the tree, and
  the two ways in which it loses a change.
\<close>

subsection \<open>One shard\<close>

text \<open>The documents of a rebuilt shard.\<close>

definition rebuiltDoc :: "symlib \<Rightarrow> tree \<Rightarrow> dirtyMap \<Rightarrow> document \<Rightarrow> document list" where
  "rebuiltDoc S tr snap d =
     (case map_of snap (docPath d) of
        None \<Rightarrow> (case tr (docPath d) of None \<Rightarrow> [] | Some f \<Rightarrow> [(fst d, decoded (tf_content f), snd (snd d))])
      | Some de \<Rightarrow>
          if de_deleted de then []
          else case tr (docPath d) of
            None \<Rightarrow> []
          | Some f \<Rightarrow>
              let c = decoded (tf_content f) in
              if isBinary c then []
              else [(\<lparr>fm_Path = docPath d, fm_Size = tf_size f, fm_MtimeNS = tf_mtime f\<rparr>, c, Extract S (docPath d) c)])"

definition rebuiltDocs :: "symlib \<Rightarrow> tree \<Rightarrow> dirtyMap \<Rightarrow> document list \<Rightarrow> document list" where
  "rebuiltDocs S tr snap docs = concat (map (rebuiltDoc S tr snap) docs)"

lemma rebuiltDocs_simps [simp]:
  "rebuiltDocs S tr snap [] = []"
  "rebuiltDocs S tr snap (d # ds) = rebuiltDoc S tr snap d @ rebuiltDocs S tr snap ds"
  by (simp_all add: rebuiltDocs_def)

lemma docPath_rebuiltDoc: "d' \<in> set (rebuiltDoc S tr snap d) \<Longrightarrow> docPath d' = docPath d"
  by (auto simp: rebuiltDoc_def Let_def split: option.splits if_splits)

lemma rebuiltDoc_length: "rebuiltDoc S tr snap d = [] \<or> (\<exists>d'. rebuiltDoc S tr snap d = [d'] \<and> docPath d' = docPath d)"
  by (auto simp: rebuiltDoc_def Let_def split: option.splits if_splits)

lemma rebuiltDocs_paths: "docPath ` set (rebuiltDocs S tr snap docs) \<subseteq> docPath ` set docs"
  by (auto simp: rebuiltDocs_def dest: docPath_rebuiltDoc)

lemma rebuiltDocs_distinct:
  "distinct (map docPath docs) \<Longrightarrow> distinct (map docPath (rebuiltDocs S tr snap docs))"
proof (induction docs)
  case (Cons d ds)
  have "docPath d \<notin> docPath ` set (rebuiltDocs S tr snap ds)"
    using Cons.prems rebuiltDocs_paths [of S tr snap ds] by auto
  moreover have "distinct (map docPath (rebuiltDocs S tr snap ds))" using Cons by simp
  ultimately have new: "docPath d \<notin> docPath ` set (rebuiltDocs S tr snap ds)" "distinct (map docPath (rebuiltDocs S tr snap ds))" .
  from rebuiltDoc_length [of S tr snap d] show ?case
  proof
    assume "\<exists>d'. rebuiltDoc S tr snap d = [d'] \<and> docPath d' = docPath d"
    then obtain d' where "rebuiltDoc S tr snap d = [d']" "docPath d' = docPath d" by blast
    with new show ?thesis by simp
  qed (use new in simp)
qed simp

lemma rebuildFiles_eq:
  assumes "fits (Build kb docs)" and "\<forall>i \<in> set is. i < length docs"
  shows "rebuildFiles S tr snap (imageOf path (Build kb docs)) is b tb =
    (let ds = rebuiltDocs S tr snap (map (\<lambda>i. docs ! i) is) in
     Some (foldl addDoc b ds, tb + sum_list (map (\<lambda>d. fm_Size (fst d)) ds)))"
  using assms(2)
proof (induction "is" arbitrary: b tb)
  case (Cons i "is")
  let ?d = "docs ! i"
  have i: "i < length docs" using Cons.prems by simp
  have "rebuildFiles S tr snap (imageOf path (Build kb docs)) (i # is) b tb =
      rebuildFiles S tr snap (imageOf path (Build kb docs)) is (foldl addDoc b (rebuiltDoc S tr snap ?d))
        (tb + sum_list (map (\<lambda>d. fm_Size (fst d)) (rebuiltDoc S tr snap ?d)))"
    by (cases "fst ?d") (auto simp: docs_nth [OF assms(1) i] rebuiltDoc_def addDoc_def Let_def split: option.splits)
  with Cons show ?case by (simp add: Let_def add.assoc)
qed simp

declare rebuildFiles.simps [simp del]

subsection \<open>All shards\<close>

text \<open>A slot of the new snapshot and its documents.\<close>

definition slot_ok :: "filesystem \<Rightarrow> int \<Rightarrow> Shard option \<Rightarrow> document list \<Rightarrow> bool" where
  "slot_ok fs kb so docs \<longleftrightarrow> (case so of None \<Rightarrow> docs = [] | Some s \<Rightarrow> shard_holds fs kb s docs)"

definition slots_named :: "gostring \<Rightarrow> nat \<Rightarrow> Shard option list \<Rightarrow> bool" where
  "slots_named dir n slots \<longleftrightarrow> (\<forall>s. Some s \<in> set slots \<longrightarrow> (\<exists>i < n. sh_path s = shardPath dir i))"

lemma slots_keep:
  assumes "list_all2 (slot_ok fs kb) slots dss" and "slots_named dir n slots"
  shows "list_all2 (slot_ok (fs(shardPath dir n @ str ''.tmp'' := x, shardPath dir n := y)) kb) slots dss"
  using assms
proof (induction rule: list_all2_induct)
  case (Cons so slots docs dss)
  have "slot_ok (fs(shardPath dir n @ str ''.tmp'' := x, shardPath dir n := y)) kb so docs"
  proof (cases so)
    case None
    with Cons.hyps(1) show ?thesis by (simp add: slot_ok_def)
  next
    case (Some s)
    then obtain i where "i < n" "sh_path s = shardPath dir i" using Cons.prems by (auto simp: slots_named_def)
    with Some Cons.hyps(1) show ?thesis by (auto simp: slot_ok_def intro: shard_holds_keep)
  qed
  moreover have "slots_named dir n slots" using Cons.prems by (simp add: slots_named_def)
  ultimately show ?case using Cons.IH by (intro list.rel_intros)
qed simp

text \<open>The state between two rounds of the loop: \<open>dss\<close> are the documents of the new slots.\<close>

definition slotPaths :: "Shard option list \<Rightarrow> gostring list" where
  "slotPaths slots = concat (map (\<lambda>so. case so of None \<Rightarrow> [] | Some s \<Rightarrow> [sh_path s]) slots)"

lemma slotPaths_simps [simp]:
  "slotPaths [] = []" "slotPaths (None # xs) = slotPaths xs" "slotPaths (Some s # xs) = sh_path s # slotPaths xs"
  "slotPaths (xs @ ys) = slotPaths xs @ slotPaths ys"
  by (simp_all add: slotPaths_def)

lemma slotPaths_mem: "p \<in> set (slotPaths slots) \<longleftrightarrow> (\<exists>s. Some s \<in> set slots \<and> p = sh_path s)"
  by (induction slots) (auto simp: slotPaths_def split: option.splits)

lemma slotPaths_filter: "map sh_path (List.map_filter (\<lambda>s. s) slots) = slotPaths slots"
  by (induction slots) (auto simp: slotPaths_def map_filter_simps split: option.split)

lemma slotPaths_Some [simp]: "slotPaths (map Some ss) = map sh_path ss"
  by (induction ss) simp_all

lemma slotPaths_update:
  assumes "distinct (slotPaths slots)" and "si < length slots"
    and "\<And>s. so = Some s \<Longrightarrow> sh_path s \<notin> set (slotPaths slots)"
  shows "distinct (slotPaths (slots[si := so]))"
proof -
  have slots: "slots = take si slots @ slots ! si # drop (Suc si) slots" using assms(2) by (rule id_take_nth_drop)
  have upd: "slots[si := so] = take si slots @ so # drop (Suc si) slots" using assms(2) by (rule upd_conv_take_nth_drop)
  have "slotPaths slots = slotPaths (take si slots) @ slotPaths [slots ! si] @ slotPaths (drop (Suc si) slots)"
    by (subst slots) (simp add: slotPaths_def)
  moreover have "slotPaths (slots[si := so]) = slotPaths (take si slots) @ slotPaths [so] @ slotPaths (drop (Suc si) slots)"
    unfolding upd by (simp add: slotPaths_def)
  ultimately show ?thesis using assms(1,3) by (cases so) auto
qed

lemma fresh_path:
  assumes "slots_named dir n slots" shows "shardPath dir n \<notin> set (slotPaths slots)"
  using assms by (auto simp: slotPaths_mem slots_named_def)

definition rebuild_inv :: "DiskEngine \<Rightarrow> document list list \<Rightarrow> rebuildState \<Rightarrow> bool" where
  "rebuild_inv e dss st \<longleftrightarrow>
     list_all2 (slot_ok (rs_fs st) (dc_InlineKB (en_cfg e))) (rs_newShards st) dss \<and>
     slots_named (en_shardDir e) (rs_seqNo st) (rs_newShards st) \<and> distinct (slotPaths (rs_newShards st))"

lemma rebuild_inv_length: "rebuild_inv e dss st \<Longrightarrow> length (rs_newShards st) = length dss"
  by (auto simp: rebuild_inv_def dest: list_all2_lengthD)

lemma rebuildShard_ok:
  assumes "\<And>n. io n = AllOk" and "rebuild_inv e dss st" and "si < length dss"
    and "rs_newShards st ! si = Some s" and "fits (Build (dc_InlineKB (en_cfg e)) (rebuiltDocs S tr snap (dss ! si)))"
  shows "\<exists>st' so. rebuildShard S tr io e snap si s st = Some st' \<and>
    rebuild_inv e (dss[si := rebuiltDocs S tr snap (dss ! si)]) st' \<and>
    rs_oldFiles st' = rs_oldFiles st @ [sh_path s] \<and> rs_newShards st' = (rs_newShards st)[si := so] \<and>
    rs_seqNo st \<le> rs_seqNo st' \<and>
    (\<forall>s'. so = Some s' \<longrightarrow> (\<exists>i \<ge> rs_seqNo st. sh_path s' = shardPath (en_shardDir e) i))"
proof -
  let ?kb = "dc_InlineKB (en_cfg e)" and ?dir = "en_shardDir e" and ?new = "rebuiltDocs S tr snap (dss ! si)"
  have inv: "list_all2 (slot_ok (rs_fs st) ?kb) (rs_newShards st) dss" "slots_named ?dir (rs_seqNo st) (rs_newShards st)"
    and dist: "distinct (slotPaths (rs_newShards st))" and len: "length (rs_newShards st) = length dss"
    using assms(2) rebuild_inv_length [OF assms(2)] by (simp_all add: rebuild_inv_def)
  note fresh = fresh_path [OF inv(2)]
  have hold: "shard_holds (rs_fs st) ?kb s (dss ! si)"
    using list_all2_nthD2 [OF inv(1) assms(3)] assms(4) by (simp add: slot_ok_def)
  then have fit: "fits (Build ?kb (dss ! si))" by (simp add: shard_holds_def)
  have "rebuildFiles S tr snap (imageOf (sh_path s) (Build ?kb (dss ! si))) [0..<length (dss ! si)] (NewBuilder ?kb) (rs_totalBytes st) =
      Some (Build ?kb ?new, rs_totalBytes st + sum_list (map (\<lambda>d. fm_Size (fst d)) ?new))"
    using rebuildFiles_eq [OF fit, of "[0..<length (dss ! si)]"] by (simp add: map_nth Build_def Let_def)
  then have files: "rebuildFiles S tr snap (imageOf (sh_path s) (Build ?kb (dss ! si)))
        [0..<unat (sh_numFiles (imageOf (sh_path s) (Build ?kb (dss ! si))))] (NewBuilder ?kb) (rs_totalBytes st) =
      Some (Build ?kb ?new, rs_totalBytes st + sum_list (map (\<lambda>d. fm_Size (fst d)) ?new))"
    by (simp add: numFiles_image [OF fit])
  show ?thesis
  proof (cases "?new = []")
    case True
    let ?st = "st\<lparr>rs_totalBytes := rs_totalBytes st + sum_list (map (\<lambda>d. fm_Size (fst d)) ?new),
        rs_newShards := (rs_newShards st)[si := None], rs_oldFiles := rs_oldFiles st @ [sh_path s]\<rparr>"
    have "rebuildShard S tr io e snap si s st = Some ?st"
      using True by (simp add: rebuildShard_def mapShard_holds [OF hold] files Build_empty)
    moreover have "list_all2 (slot_ok (rs_fs st) ?kb) ((rs_newShards st)[si := None]) (dss[si := ?new])"
      using inv(1) True by (intro list_all2_update_cong) (simp_all add: slot_ok_def)
    moreover have "slots_named ?dir (rs_seqNo st) ((rs_newShards st)[si := None])"
      using inv(2) by (auto simp: slots_named_def dest!: subsetD [OF set_update_subset_insert])
    moreover have "distinct (slotPaths ((rs_newShards st)[si := None]))"
      using slotPaths_update [OF dist, of si None] assms(3) len by simp
    ultimately show ?thesis by (intro exI [of _ ?st] exI [of _ None]) (simp add: rebuild_inv_def)
  next
    case False
    let ?path = "shardPath ?dir (rs_seqNo st)"
    obtain fs where w: "Write (Build ?kb ?new) ?path AllOk (rs_fs st) = (True, fs)" by (simp add: Write_cases)
    note wo = Write_Open [OF assms(5) w]
    let ?st = "st\<lparr>rs_totalBytes := rs_totalBytes st + sum_list (map (\<lambda>d. fm_Size (fst d)) ?new), rs_seqNo := rs_seqNo st + 1,
        rs_fs := fs, rs_newShards := (rs_newShards st)[si := Some (shardOf ?path ?kb ?new)], rs_oldFiles := rs_oldFiles st @ [sh_path s]\<rparr>"
    have "rebuildShard S tr io e snap si s st = Some ?st"
      using False by (simp add: rebuildShard_def mapShard_holds [OF hold] files Build_empty w wo(2) assms(1) Let_def)
    moreover have "list_all2 (slot_ok fs ?kb) ((rs_newShards st)[si := Some (shardOf ?path ?kb ?new)]) (dss[si := ?new])"
      using slots_keep [OF inv] wo(1,3) by (intro list_all2_update_cong) (simp_all add: slot_ok_def)
    moreover have "slots_named ?dir (rs_seqNo st + 1) ((rs_newShards st)[si := Some (shardOf ?path ?kb ?new)])"
      using inv(2) by (fastforce simp: slots_named_def dest!: subsetD [OF set_update_subset_insert] intro: less_SucI)
    moreover have "distinct (slotPaths ((rs_newShards st)[si := Some (shardOf ?path ?kb ?new)]))"
      using slotPaths_update [OF dist, of si "Some (shardOf ?path ?kb ?new)"] assms(3) len fresh by simp
    ultimately show ?thesis
      by (intro exI [of _ ?st] exI [of _ "Some (shardOf ?path ?kb ?new)"]) (auto simp: rebuild_inv_def)
  qed
qed

fun newDocs :: "symlib \<Rightarrow> tree \<Rightarrow> dirtyMap \<Rightarrow> (nat \<Rightarrow> bool) \<Rightarrow> nat \<Rightarrow> document list list \<Rightarrow> document list list" where
  "newDocs S tr snap aff si [] = []"
| "newDocs S tr snap aff si (docs # dss) =
     (if aff si then rebuiltDocs S tr snap docs else docs) # newDocs S tr snap aff (Suc si) dss"

lemma newDocs_nth:
  "length (newDocs S tr snap aff si dss) = length dss"
  "j < length dss \<Longrightarrow> newDocs S tr snap aff si dss ! j = (if aff (si + j) then rebuiltDocs S tr snap (dss ! j) else dss ! j)"
proof (induction dss arbitrary: si j)
  case (Cons docs dss)
  case 2
  then show ?case using Cons.IH(2) [of "j - 1" "Suc si"] by (cases j) auto
qed simp_all

abbreviation chosen :: "(nat \<Rightarrow> bool) \<Rightarrow> nat \<Rightarrow> 'a list \<Rightarrow> 'a list" where
  "chosen P si xs \<equiv> map snd (filter (\<lambda>(i, x). P i) (enumerate si xs))"

lemma rebuildShards_ok:
  assumes "\<And>n. io n = AllOk" and "aff = affected (en_shards e) snap (dc_RebuildThreshold (en_cfg e))"
    and "rebuild_inv e (dd @ dss) st" and "rs_newShards st = dn @ map Some ss" and "length dd = length dn" and "si = length dn"
    and "\<forall>docs \<in> set (chosen aff si dss). fits (Build (dc_InlineKB (en_cfg e)) (rebuiltDocs S tr snap docs))"
  shows "\<exists>st' new. rebuildShards S tr io e snap si ss st = Some st' \<and>
    rebuild_inv e (dd @ newDocs S tr snap aff si dss) st' \<and> rs_newShards st' = dn @ new \<and>
    rs_oldFiles st' = rs_oldFiles st @ map sh_path (chosen aff si ss) \<and> rs_seqNo st \<le> rs_seqNo st' \<and>
    (\<forall>s. Some s \<in> set new \<longrightarrow> s \<in> set (chosen (\<lambda>i. \<not> aff i) si ss) \<or> (\<exists>i \<ge> rs_seqNo st. sh_path s = shardPath (en_shardDir e) i))"
  using assms(3-)
proof (induction ss arbitrary: si st dd dn dss)
  case Nil
  have "length (rs_newShards st) = length (dd @ dss)"
    using Nil.prems(1) by (rule rebuild_inv_length)
  then have "dss = []" using Nil.prems by simp
  with Nil.prems show ?case by simp
next
  case (Cons s ss)
  have len: "length (rs_newShards st) = length (dd @ dss)"
    using Cons.prems(1) by (rule rebuild_inv_length)
  then obtain docs dss' where dss: "dss = docs # dss'" using Cons.prems by (cases dss) auto
  show ?case
  proof (cases "aff si")
    case False
    have "rebuild_inv e ((dd @ [docs]) @ dss') st" "rs_newShards st = (dn @ [Some s]) @ map Some ss"
      "length (dd @ [docs]) = length (dn @ [Some s])" "Suc si = length (dn @ [Some s])"
      using Cons.prems dss by simp_all
    note IH = Cons.IH [OF this]
    have "\<forall>docs \<in> set (chosen aff (Suc si) dss'). fits (Build (dc_InlineKB (en_cfg e)) (rebuiltDocs S tr snap docs))"
      using Cons.prems(5) by (simp add: dss False)
    from IH [OF this] obtain st' new where st': "rebuildShards S tr io e snap (Suc si) ss st = Some st'"
      "rebuild_inv e ((dd @ [docs]) @ newDocs S tr snap aff (Suc si) dss') st'" "rs_newShards st' = (dn @ [Some s]) @ new"
      "rs_oldFiles st' = rs_oldFiles st @ map sh_path (chosen aff (Suc si) ss)" "rs_seqNo st \<le> rs_seqNo st'"
      "\<forall>s. Some s \<in> set new \<longrightarrow> s \<in> set (chosen (\<lambda>i. \<not> aff i) (Suc si) ss) \<or>
         (\<exists>i \<ge> rs_seqNo st. sh_path s = shardPath (en_shardDir e) i)" by blast
    then show ?thesis
      using False assms(2) by (intro exI [of _ st'] exI [of _ "Some s # new"]) (auto simp: dss)
  next
    case True
    have si: "si < length (dd @ dss)" "rs_newShards st ! si = Some s" "(dd @ dss) ! si = docs"
      using Cons.prems by (simp_all add: dss nth_append)
    have fit: "fits (Build (dc_InlineKB (en_cfg e)) (rebuiltDocs S tr snap docs))"
      using Cons.prems(5) by (simp add: dss True)
    obtain st1 so where st1: "rebuildShard S tr io e snap si s st = Some st1"
      "rebuild_inv e ((dd @ dss)[si := rebuiltDocs S tr snap docs]) st1" "rs_oldFiles st1 = rs_oldFiles st @ [sh_path s]"
      "rs_newShards st1 = (rs_newShards st)[si := so]" "rs_seqNo st \<le> rs_seqNo st1"
      "\<forall>s'. so = Some s' \<longrightarrow> (\<exists>i \<ge> rs_seqNo st. sh_path s' = shardPath (en_shardDir e) i)"
      using rebuildShard_ok [where io = io, OF assms(1) Cons.prems(1) si(1,2), of S tr snap] fit unfolding si(3) by blast
    have "rebuild_inv e ((dd @ [rebuiltDocs S tr snap docs]) @ dss') st1" "rs_newShards st1 = (dn @ [so]) @ map Some ss"
      "length (dd @ [rebuiltDocs S tr snap docs]) = length (dn @ [so])" "Suc si = length (dn @ [so])"
      using st1(2,4) Cons.prems by (simp_all add: dss list_update_append)
    note IH = Cons.IH [OF this]
    have "\<forall>docs \<in> set (chosen aff (Suc si) dss'). fits (Build (dc_InlineKB (en_cfg e)) (rebuiltDocs S tr snap docs))"
      using Cons.prems(5) by (simp add: dss True)
    from IH [OF this] obtain st' new where st': "rebuildShards S tr io e snap (Suc si) ss st1 = Some st'"
      "rebuild_inv e ((dd @ [rebuiltDocs S tr snap docs]) @ newDocs S tr snap aff (Suc si) dss') st'" "rs_newShards st' = (dn @ [so]) @ new"
      "rs_oldFiles st' = rs_oldFiles st1 @ map sh_path (chosen aff (Suc si) ss)" "rs_seqNo st1 \<le> rs_seqNo st'"
      "\<forall>s. Some s \<in> set new \<longrightarrow> s \<in> set (chosen (\<lambda>i. \<not> aff i) (Suc si) ss) \<or>
         (\<exists>i \<ge> rs_seqNo st1. sh_path s = shardPath (en_shardDir e) i)" by blast
    have "\<forall>s'. Some s' \<in> set (so # new) \<longrightarrow> s' \<in> set (chosen (\<lambda>i. \<not> aff i) si (s # ss)) \<or>
         (\<exists>i \<ge> rs_seqNo st. sh_path s' = shardPath (en_shardDir e) i)"
    proof (intro allI impI)
      fix s' assume "Some s' \<in> set (so # new)"
      then consider "so = Some s'" | "Some s' \<in> set new" by auto
      then show "s' \<in> set (chosen (\<lambda>i. \<not> aff i) si (s # ss)) \<or> (\<exists>i \<ge> rs_seqNo st. sh_path s' = shardPath (en_shardDir e) i)"
      proof cases
        case 1
        with st1(6) show ?thesis by blast
      next
        case 2
        with st'(6) consider "s' \<in> set (chosen (\<lambda>i. \<not> aff i) (Suc si) ss)"
          | i where "rs_seqNo st1 \<le> i" "sh_path s' = shardPath (en_shardDir e) i" by blast
        then show ?thesis
        proof cases
          case 1
          with True show ?thesis by simp
        next
          case 2
          with st1(5) show ?thesis by (meson order_trans)
        qed
      qed
    qed
    with st' st1 True assms(2) show ?thesis
      by (intro exI [of _ st'] exI [of _ "so # new"]) (simp add: dss)
  qed
qed

lemma newFilesShard_ok:
  assumes "\<And>n. io n = AllOk" and "rebuild_inv e dss st"
    and "fits (Build (dc_InlineKB (en_cfg e)) (docsOf S tr files))"
  shows "\<exists>st' new. newFilesShard S tr io e files st = Some st' \<and>
    rebuild_inv e (dss @ (if docsOf S tr files = [] then [] else [docsOf S tr files])) st' \<and>
    rs_newShards st' = rs_newShards st @ new \<and> rs_oldFiles st' = rs_oldFiles st \<and> rs_seqNo st \<le> rs_seqNo st' \<and>
    (\<forall>s. Some s \<in> set new \<longrightarrow> sh_path s = shardPath (en_shardDir e) (rs_seqNo st))"
proof -
  let ?kb = "dc_InlineKB (en_cfg e)" and ?dir = "en_shardDir e" and ?docs = "docsOf S tr files"
  have inv: "list_all2 (slot_ok (rs_fs st) ?kb) (rs_newShards st) dss" "slots_named ?dir (rs_seqNo st) (rs_newShards st)"
    and dist: "distinct (slotPaths (rs_newShards st))" and len: "length (rs_newShards st) = length dss"
    using assms(2) rebuild_inv_length [OF assms(2)] by (simp_all add: rebuild_inv_def)
  note fresh = fresh_path [OF inv(2)]
  let ?tb = "rs_totalBytes st + sum_list (map (\<lambda>d. fm_Size (fst d)) ?docs)"
  have bb: "buildBatch S tr files (NewBuilder ?kb) 0 (rs_totalBytes st) = (Build ?kb ?docs, int (length ?docs), ?tb)"
    by (simp add: buildBatch_eq Build_def)
  show ?thesis
  proof (cases "?docs = []")
    case True
    then have "newFilesShard S tr io e files st = Some (if files = [] then st else st\<lparr>rs_totalBytes := ?tb\<rparr>)"
      using Build_empty [of ?kb ?docs] by (simp add: newFilesShard_def bb)
    with True assms(2) show ?thesis by (auto simp: rebuild_inv_def)
  next
    case False
    let ?path = "shardPath ?dir (rs_seqNo st)"
    obtain fs where w: "Write (Build ?kb ?docs) ?path AllOk (rs_fs st) = (True, fs)" by (simp add: Write_cases)
    note wo = Write_Open [OF assms(3) w]
    let ?st = "st\<lparr>rs_totalBytes := ?tb, rs_seqNo := rs_seqNo st + 1, rs_fs := fs,
        rs_newShards := rs_newShards st @ [Some (shardOf ?path ?kb ?docs)]\<rparr>"
    have "files \<noteq> []" using False by auto
    then have "newFilesShard S tr io e files st = Some ?st"
      using False Build_empty [of ?kb ?docs] by (simp add: newFilesShard_def bb w wo(2) assms(1) Let_def)
    moreover have "list_all2 (slot_ok fs ?kb) (rs_newShards st @ [Some (shardOf ?path ?kb ?docs)]) (dss @ [?docs])"
      using slots_keep [OF inv] wo(1,3) by (intro list_all2_appendI) (simp_all add: slot_ok_def)
    moreover have "slots_named ?dir (rs_seqNo st + 1) (rs_newShards st @ [Some (shardOf ?path ?kb ?docs)])"
      using inv(2) by (fastforce simp: slots_named_def intro: less_SucI)
    moreover have "distinct (slotPaths (rs_newShards st @ [Some (shardOf ?path ?kb ?docs)]))"
      using dist fresh by simp
    ultimately show ?thesis
      using False by (intro exI [of _ ?st] exI [of _ "[Some (shardOf ?path ?kb ?docs)]"]) (simp add: rebuild_inv_def)
  qed
qed

text \<open>Compaction and sorting of the slots.\<close>

lemma slots_filter:
  "list_all2 (slot_ok fs kb) slots dss \<Longrightarrow>
     \<exists>dss'. list_all2 (shard_holds fs kb) (List.map_filter (\<lambda>s. s) slots) dss' \<and> concat dss' = concat dss"
proof (induction rule: list_all2_induct)
  case (Cons so slots docs dss)
  then obtain dss' where "list_all2 (shard_holds fs kb) (List.map_filter (\<lambda>s. s) slots) dss'" "concat dss' = concat dss" by blast
  then show ?case
    using Cons.hyps(1)
    by (cases so) (auto simp: slot_ok_def map_filter_simps intro: exI [of _ dss'] exI [of _ "docs # dss'"])
qed (simp add: map_filter_simps)

lemma slots_compact:
  assumes "list_all2 (slot_ok fs kb) slots dss"
  shows "\<exists>dss'. list_all2 (shard_holds fs kb) (sort_key sh_pathMin (List.map_filter (\<lambda>s. s) slots)) dss' \<and>
    mset (concat dss') = mset (concat dss)"
proof -
  let ?ss = "List.map_filter (\<lambda>s. s) slots"
  obtain ds where ds: "list_all2 (shard_holds fs kb) ?ss ds" "concat ds = concat dss"
    using slots_filter [OF assms] by blast
  have "mset (sort_key sh_pathMin ?ss) = mset ?ss" by simp
  from list_all2_reorder_left_invariance [OF ds(1) this] obtain dss'
    where dss': "list_all2 (shard_holds fs kb) (sort_key sh_pathMin ?ss) dss'" "mset dss' = mset ds" by blast
  have "mset (concat dss') = mset (concat ds)"
    using arg_cong [OF dss'(2), of "\<lambda>M. sum_mset (image_mset mset M)"] by (simp add: mset_concat sum_mset_sum_list flip: mset_map)
  with dss'(1) ds(2) show ?thesis by metis
qed

subsection \<open>The rebuild keeps the engine in step\<close>

text \<open>Files of the shard directory: the shards' own files are distinct, numbered below the next number
  and not among the files that are to be deleted.\<close>

definition files_ok :: "DiskEngine \<Rightarrow> bool" where
  "files_ok e \<longleftrightarrow> names_ok (en_shardDir e) (en_seqNo e) (en_shards e) \<and> distinct (map sh_path (en_shards e)) \<and>
     (\<forall>p \<in> set (en_pending e). p \<notin> sh_path ` set (en_shards e) \<and> (\<exists>i < en_seqNo e. p = shardPath (en_shardDir e) i))"

text \<open>No dirty text file lies inside the range of a shard that does not hold it.\<close>

definition no_strays :: "tree \<Rightarrow> document list list \<Rightarrow> DiskEngine \<Rightarrow> bool" where
  "no_strays tr dss e \<longleftrightarrow>
     (\<forall>p si. map_of (en_dirty e) p \<noteq> None \<longrightarrow> loadText tr p \<noteq> None \<longrightarrow> shardForPath (en_shards e) p = Some si \<longrightarrow>
        p \<in> docPath ` set (dss ! si))"

definition newFileOf :: "tree \<Rightarrow> Shard list \<Rightarrow> gostring \<times> dirtyEntry \<Rightarrow> BuildFile list" where
  "newFileOf tr shards x =
     (if shardForPath shards (fst x) = None \<and> \<not> de_deleted (snd x)
      then case tr (fst x) of
             None \<Rightarrow> []
           | Some f \<Rightarrow> [\<lparr>bF_Rel = fst x, bF_Size = tf_size f, bF_MtimeNS = tf_mtime f\<rparr>]
      else [])"

lemma newFilesOf_eq: "newFilesOf tr shards snap = sort_key bF_Rel (concat (map (newFileOf tr shards) snap))"
  by (simp add: newFilesOf_def newFileOf_def [abs_def] case_prod_beta')

lemma newFileOf_iff:
  "f \<in> set (newFileOf tr shards x) \<longleftrightarrow>
     bF_Rel f = fst x \<and> shardForPath shards (fst x) = None \<and> \<not> de_deleted (snd x) \<and>
     tr (fst x) \<noteq> None \<and> bF_Size f = tf_size (the (tr (fst x))) \<and> bF_MtimeNS f = tf_mtime (the (tr (fst x)))"
proof -
  have eq: "f = \<lparr>bF_Rel = a, bF_Size = b, bF_MtimeNS = c\<rparr> \<longleftrightarrow> bF_Rel f = a \<and> bF_Size f = b \<and> bF_MtimeNS f = c" for a b c
    by (cases f) simp
  show ?thesis
  proof (cases "tr (fst x)")
    case None
    then show ?thesis
      by (simp only: newFileOf_def option.case if_cancel list.set empty_iff simp_thms)
  next
    case (Some t)
    then have "newFileOf tr shards x = (if shardForPath shards (fst x) = None \<and> \<not> de_deleted (snd x)
        then [\<lparr>bF_Rel = fst x, bF_Size = tf_size t, bF_MtimeNS = tf_mtime t\<rparr>] else [])"
      unfolding newFileOf_def by (simp only: option.case)
    then show ?thesis unfolding Some by (simp only: if_split eq list.set option.sel option.simps) (auto simp: eq)
  qed
qed

lemma newFilesOf_iff:
  "f \<in> set (newFilesOf tr shards snap) \<longleftrightarrow> (\<exists>x \<in> set snap. f \<in> set (newFileOf tr shards x))"
  by (simp add: newFilesOf_eq)

lemma newFilesOf_distinct:
  assumes "distinct (map fst snap)"
  shows "distinct (map bF_Rel (newFilesOf tr shards snap))"
proof -
  have "distinct (map bF_Rel (concat (map (newFileOf tr shards) snap))) \<and>
      set (map bF_Rel (concat (map (newFileOf tr shards) snap))) \<subseteq> fst ` set snap"
    using assms
  proof (induction snap)
    case (Cons x snap)
    have "map bF_Rel (newFileOf tr shards x) = [] \<or> map bF_Rel (newFileOf tr shards x) = [fst x]"
      by (simp add: newFileOf_def split: option.split)
    moreover have "distinct (map bF_Rel (concat (map (newFileOf tr shards) snap)))"
      "set (map bF_Rel (concat (map (newFileOf tr shards) snap))) \<subseteq> fst ` set snap" "fst x \<notin> fst ` set snap"
      using Cons by simp_all
    ultimately show ?case by (elim disjE) (simp_all only: list.map concat.simps map_append distinct_append set_append, auto)
  qed simp
  then show ?thesis by (simp add: newFilesOf_eq distinct_map)
qed

lemma rebuiltDoc_current:
  assumes "d' \<in> set (rebuiltDoc S tr snap d)" and "map_of snap (docPath d) = None \<Longrightarrow> doc_current tr d"
  shows "doc_current tr d'"
  using assms by (cases "map_of snap (docPath d)")
    (auto simp: rebuiltDoc_def doc_current_def Let_def split: option.splits if_splits)

lemma rebuiltDoc_keeps:
  assumes "loadText tr (docPath d) \<noteq> None" and "\<And>de. map_of snap (docPath d) = Some de \<Longrightarrow> \<not> de_deleted de"
  shows "rebuiltDoc S tr snap d \<noteq> []"
  using assms by (auto simp: rebuiltDoc_def loadText_def Let_def split: option.splits if_splits)

lemma dirtyPerShard_pos:
  assumes "(p, de) \<in> set snap" and "shardForPath shards p = Some si"
  shows "dirtyPerShard shards snap si > 0"
proof -
  have "(p, de) \<in> set (filter (\<lambda>(p, de). shardForPath shards p = Some si) snap)" using assms by simp
  then have "filter (\<lambda>(p, de). shardForPath shards p = Some si) snap \<noteq> []" by force
  then show ?thesis by (simp add: dirtyPerShard_def)
qed

lemma affected_or_deferred:
  assumes "map_of snap p \<noteq> None" and "shardForPath shards p = Some si"
  shows "affected shards snap th si \<longleftrightarrow> \<not> deferred shards snap th p"
proof -
  obtain de where "(p, de) \<in> set snap" using assms(1) by (auto dest: map_of_SomeD)
  from dirtyPerShard_pos [OF this assms(2)] assms(2) show ?thesis
    by (auto simp: affected_def deferred_def)
qed

lemma map_of_clearProcessed:
  assumes "distinct (map fst dirty)"
  shows "map_of (clearProcessed isDef snap dirty) p =
     (if map_of snap p \<noteq> None \<and> \<not> isDef p \<and> map_of snap p = map_of dirty p then None else map_of dirty p)"
  using assms
proof (induction dirty)
  case (Cons x dirty)
  obtain q de where x: "x = (q, de)" by (cases x)
  have step: "clearProcessed isDef snap (x # dirty) =
      (if map_of snap q = Some de \<and> \<not> isDef q then [] else [x]) @ clearProcessed isDef snap dirty"
    by (auto simp: clearProcessed_def x)
  have "map_of dirty q = None" using Cons.prems x by (simp add: map_of_eq_None_iff)
  with Cons show ?case unfolding step by (auto simp: x)
qed (simp add: clearProcessed_def)


lemma chosen_all2:
  "list_all2 P xs ys \<Longrightarrow> list_all2 P (chosen Q si xs) (chosen Q si ys)"
  by (induction arbitrary: si rule: list_all2_induct) simp_all

lemma chosen_subset: "set (chosen P si xs) \<subseteq> set xs"
  by (induction xs arbitrary: si) auto

lemma chosen_mem: "x \<in> set (chosen P si xs) \<Longrightarrow> x \<in> set xs"
  by (rule subsetD [OF chosen_subset])

lemma chosen_disjoint:
  assumes "distinct (map f xs)" and "x \<in> set (chosen Q si xs)" and "y \<in> set (chosen (\<lambda>i. \<not> Q i) si xs)"
  shows "f x \<noteq> f y"
proof -
  show ?thesis
    using assms
  proof (induction xs arbitrary: si)
    case (Cons a xs)
    have "f a \<notin> f ` set xs" using Cons.prems(1) by simp
    then have new: "f a \<noteq> f z" if z: "z \<in> set (chosen P (Suc si) xs)" for z P
    proof -
      have "z \<in> set xs" using chosen_subset [of P "Suc si" xs] z by (rule subsetD)
      then have "f z \<in> f ` set xs" by (rule imageI)
      with \<open>f a \<notin> f ` set xs\<close> show ?thesis by auto
    qed
    have IH: "x \<in> set (chosen Q (Suc si) xs) \<Longrightarrow> y \<in> set (chosen (\<lambda>i. \<not> Q i) (Suc si) xs) \<Longrightarrow> f x \<noteq> f y"
      using Cons.IH Cons.prems(1) by simp
    show ?case
    proof (cases "Q si")
      case True
      then have "x = a \<or> x \<in> set (chosen Q (Suc si) xs)" "y \<in> set (chosen (\<lambda>i. \<not> Q i) (Suc si) xs)"
        using Cons.prems(2,3) by simp_all
      moreover have "f a \<noteq> f y" by (rule new [where P = "\<lambda>i. \<not> Q i"]) (use calculation(2) in simp)
      ultimately show ?thesis using IH by (elim disjE) blast+
    next
      case False
      then have "x \<in> set (chosen Q (Suc si) xs)" "y = a \<or> y \<in> set (chosen (\<lambda>i. \<not> Q i) (Suc si) xs)"
        using Cons.prems(2,3) by simp_all
      moreover have "f a \<noteq> f x" by (rule new [where P = Q]) (use calculation(1) in simp)
      ultimately show ?thesis using IH by (elim disjE) (metis, blast)
    qed
  qed simp
qed

lemma chosen_map:
  assumes "q \<in> set (map f (chosen P si xs))" and "\<And>x. x \<in> set xs \<Longrightarrow> R (f x)"
  shows "R q"
proof -
  from assms(1) obtain x where "x \<in> set (chosen P si xs)" "q = f x" unfolding set_map by (rule imageE)
  with assms(2) [OF chosen_mem] show ?thesis by simp
qed

lemma chosen_apart:
  assumes "distinct (map f xs)" and "y \<in> set (chosen (\<lambda>i. \<not> Q i) si xs)"
  shows "f y \<notin> set (map f (chosen Q si xs))"
proof
  assume "f y \<in> set (map f (chosen Q si xs))"
  then obtain x where "x \<in> set (chosen Q si xs)" "f x = f y" unfolding set_map by (metis imageE)
  with chosen_disjoint [OF assms(1) this(1) assms(2)] show False by simp
qed

lemma in_concat_nth: "d \<in> set (concat xs) \<longleftrightarrow> (\<exists>j < length xs. d \<in> set (xs ! j))"
  by (auto simp: set_conv_nth [of xs])

lemma newDocs_concat:
  "d \<in> set (concat (newDocs S tr snap aff si dss)) \<longleftrightarrow>
     (\<exists>j < length dss. d \<in> set (if aff (si + j) then rebuiltDocs S tr snap (dss ! j) else dss ! j))"
proof -
  have "j < length dss \<and> d \<in> set (newDocs S tr snap aff si dss ! j) \<longleftrightarrow>
      j < length dss \<and> d \<in> set (if aff (si + j) then rebuiltDocs S tr snap (dss ! j) else dss ! j)" for j
    using newDocs_nth(2) [of j dss S tr snap aff si] by (cases "j < length dss") simp_all
  then show ?thesis unfolding in_concat_nth newDocs_nth(1) by (simp only:)
qed

lemma newDocs_paths: "docPath ` set (concat (newDocs S tr snap aff si dss)) \<subseteq> docPath ` set (concat dss)"
proof (induction dss arbitrary: si)
  case (Cons docs dss)
  have "docPath ` set (if aff si then rebuiltDocs S tr snap docs else docs) \<subseteq> docPath ` set docs"
    using rebuiltDocs_paths [of S tr snap docs] by simp
  with Cons.IH [of "Suc si"] show ?case
    by (simp only: newDocs.simps concat.simps set_append image_Un) (rule Un_mono)
qed simp

lemma newDocs_distinct:
  "distinct (map docPath (concat dss)) \<Longrightarrow> distinct (map docPath (concat (newDocs S tr snap aff si dss)))"
proof (induction dss arbitrary: si)
  case (Cons docs dss)
  let ?ds = "if aff si then rebuiltDocs S tr snap docs else docs"
  have "distinct (map docPath ?ds)" using Cons.prems rebuiltDocs_distinct [of docs S tr snap] by simp
  moreover have "docPath ` set ?ds \<subseteq> docPath ` set docs" using rebuiltDocs_paths [of S tr snap docs] by simp
  moreover have "docPath ` set docs \<inter> docPath ` set (concat dss) = {}" using Cons.prems by simp
  moreover note newDocs_paths [of S tr snap aff "Suc si" dss]
  ultimately have "docPath ` set ?ds \<inter> docPath ` set (concat (newDocs S tr snap aff (Suc si) dss)) = {}" by blast
  moreover have "distinct (map docPath (concat (newDocs S tr snap aff (Suc si) dss)))" using Cons by simp
  ultimately show ?case
    using \<open>distinct (map docPath ?ds)\<close> by (simp only: newDocs.simps concat.simps map_append distinct_append set_map)
qed simp

end
