(* ===== verification/EngineCycle.thy ===== *)
theory EngineCycle
  imports EngineRefresh
begin

text \<open>
  A whole rebuild cycle: with working writes and no strays it keeps the engine in step with the
  tree and empties the dirty list of what it processed; the theorems at the end show how it loses
  a change otherwise.
\<close>

subsection \<open>The documents of the new snapshot\<close>

lemma newFiles_docs:
  assumes "distinct (map fst snap)"
  shows "distinct (map docPath (docsOf S tr (newFilesOf tr shards snap)))"
    "d \<in> set (docsOf S tr (newFilesOf tr shards snap)) \<Longrightarrow>
       doc_current tr d \<and> shardForPath shards (docPath d) = None \<and> map_of snap (docPath d) \<noteq> None"
    "map_of snap p = Some de \<Longrightarrow> \<not> de_deleted de \<Longrightarrow> shardForPath shards p = None \<Longrightarrow> loadText tr p \<noteq> None \<Longrightarrow>
       p \<in> docPath ` set (docsOf S tr (newFilesOf tr shards snap))"
proof -
  let ?fs = "newFilesOf tr shards snap"
  show "distinct (map docPath (docsOf S tr ?fs))"
    using newFilesOf_distinct [OF assms] by (simp add: docPath_docsOf)
  {
    assume d: "d \<in> set (docsOf S tr ?fs)"
    obtain f c where f: "f \<in> set ?fs" "loadText tr (bF_Rel f) = Some c"
      "d = (\<lparr>fm_Path = bF_Rel f, fm_Size = bF_Size f, fm_MtimeNS = bF_MtimeNS f\<rparr>, c, Extract S (bF_Rel f) c)"
      using d by (auto simp: docsOf_def split: option.splits)
    then obtain x where x: "x \<in> set snap" "f \<in> set (newFileOf tr shards x)" by (auto simp: newFilesOf_iff)
    then have fx: "bF_Rel f = fst x" "shardForPath shards (fst x) = None" "tr (fst x) \<noteq> None"
      "bF_Size f = tf_size (the (tr (fst x)))" "bF_MtimeNS f = tf_mtime (the (tr (fst x)))"
      unfolding newFileOf_iff by blast+
    then obtain t where t: "tr (bF_Rel f) = Some t" "bF_Size f = tf_size t" "bF_MtimeNS f = tf_mtime t" by auto
    then have "doc_current tr d"
      using f(2,3) by (auto simp: doc_current_def loadText_def Let_def split: if_splits)
    moreover have "docPath d = fst x" using f(3) fx(1) by simp
    moreover have "fst x \<in> fst ` set snap" using x(1) by (rule imageI)
    ultimately show "doc_current tr d \<and> shardForPath shards (docPath d) = None \<and> map_of snap (docPath d) \<noteq> None"
      using fx(2) by (simp add: map_of_eq_None_iff)
  }
  {
    assume p: "map_of snap p = Some de" "\<not> de_deleted de" "shardForPath shards p = None" "loadText tr p \<noteq> None"
    then obtain t where t: "tr p = Some t" by (auto simp: loadText_def split: option.splits)
    let ?f = "\<lparr>bF_Rel = p, bF_Size = tf_size t, bF_MtimeNS = tf_mtime t\<rparr>"
    have "?f \<in> set (newFileOf tr shards (p, de))" using p t by (simp add: newFileOf_iff)
    then have "?f \<in> set ?fs" using map_of_SomeD [OF p(1)] by (auto simp: newFilesOf_iff)
    then have "p \<in> set (filter (\<lambda>p. loadText tr p \<noteq> None) (map bF_Rel ?fs))" using p(4) by force
    then have "p \<in> set (map docPath (docsOf S tr ?fs))" by (simp only: docPath_docsOf)
    then show "p \<in> docPath ` set (docsOf S tr ?fs)" by (simp only: set_map)
  }
qed

text \<open>The engine reflects the tree with the documents of the rebuilt snapshot and the deferred
  part of the dirty list.\<close>

lemma rebuilt_current:
  assumes "engine_ok tr dss e" and "ordered dss" and "no_strays tr dss e"
    and "shards = en_shards e" and "snap = en_dirty e"
    and "aff = affected shards snap th" and "isDef = deferred shards snap th"
    and "docs = concat (newDocs S tr snap aff 0 dss) @ docsOf S tr (newFilesOf tr shards snap)"
    and "dirty' = clearProcessed isDef snap snap"
  shows "distinct (map docPath docs)" "distinct (map fst dirty')"
    "\<And>p. map_of dirty' p = (if isDef p then map_of snap p else None)"
    "\<And>d. d \<in> set docs \<Longrightarrow> map_of dirty' (docPath d) = None \<Longrightarrow> doc_current tr d"
    "\<And>p. loadText tr p \<noteq> None \<Longrightarrow>
       case map_of dirty' p of None \<Rightarrow> p \<in> docPath ` set docs | Some de \<Rightarrow> \<not> de_deleted de"
proof -
  have ok: "list_all2 (shard_holds (en_fs e) (dc_InlineKB (en_cfg e))) shards dss"
    "distinct (map docPath (concat dss))" "distinct (map fst snap)"
    "\<And>d. d \<in> set (concat dss) \<Longrightarrow> map_of snap (docPath d) = None \<Longrightarrow> doc_current tr d"
    "\<And>p. loadText tr p \<noteq> None \<Longrightarrow> case map_of snap p of
           None \<Rightarrow> p \<in> docPath ` set (concat dss) | Some de \<Rightarrow> \<not> de_deleted de"
    using assms(1) unfolding engine_ok_def assms(4,5) by blast+
  let ?new = "docsOf S tr (newFilesOf tr shards snap)"
  note newd = newFiles_docs [OF ok(3)]
  have where_doc: "shardForPath shards (docPath d) = Some j" if "j < length dss" "d \<in> set (dss ! j)" for j d
    using shardForPath_doc [OF ok(1) assms(2) that] .
  have disj: "docPath ` set (concat dss) \<inter> docPath ` set ?new = {}"
  proof (rule ccontr)
    assume "docPath ` set (concat dss) \<inter> docPath ` set ?new \<noteq> {}"
    then obtain d d' where d: "d \<in> set (concat dss)" "d' \<in> set ?new" "docPath d = docPath d'" by blast
    then obtain j where "j < length dss" "d \<in> set (dss ! j)" unfolding in_concat_nth by blast
    with where_doc newd(2) [OF d(2)] d(3) show False by fastforce
  qed
  have "docPath ` set (concat (newDocs S tr snap aff 0 dss)) \<inter> docPath ` set ?new = {}"
    using disj newDocs_paths [of S tr snap aff 0 dss] by blast
  then show "distinct (map docPath docs)"
    unfolding assms(8) map_append distinct_append set_map using newDocs_distinct [OF ok(2)] newd(1) by (intro conjI)
  show dm: "map_of dirty' p = (if isDef p then map_of snap p else None)" for p
    unfolding assms(9) by (cases "map_of snap p") (simp_all add: map_of_clearProcessed [OF ok(3)])
  show "distinct (map fst dirty')"
    using ok(3) unfolding assms(9) clearProcessed_def by (rule distinct_map_filter)
  show "doc_current tr d" if d: "d \<in> set docs" "map_of dirty' (docPath d) = None" for d
  proof (cases "d \<in> set ?new")
    case True
    with newd(2) show ?thesis by blast
  next
    case False
    with d(1) have "d \<in> set (concat (newDocs S tr snap aff 0 dss))" unfolding assms(8) by simp
    then obtain j where j: "j < length dss" "d \<in> set (if aff j then rebuiltDocs S tr snap (dss ! j) else dss ! j)"
      unfolding newDocs_concat by (simp only: add_0) blast
    show ?thesis
    proof (cases "aff j")
      case True
      then obtain d0 where d0: "d0 \<in> set (dss ! j)" "d \<in> set (rebuiltDoc S tr snap d0)"
        using j(2) unfolding rebuiltDocs_def by (simp only: True if_True set_concat set_map) blast
      have m0: "d0 \<in> set (concat dss)" using d0(1) j(1) unfolding in_concat_nth by blast
      show ?thesis using d0(2) ok(4) [OF m0] by (rule rebuiltDoc_current)
    next
      case False
      then have dj: "d \<in> set (dss ! j)" using j(2) by simp
      have "map_of snap (docPath d) = None"
      proof (rule ccontr)
        assume n: "map_of snap (docPath d) \<noteq> None"
        then have "isDef (docPath d)"
          using affected_or_deferred [OF n where_doc [OF j(1) dj], of th] False assms(6,7) by simp
        with n d(2) show False by (simp add: dm)
      qed
      moreover have "d \<in> set (concat dss)" using dj j(1) unfolding in_concat_nth by blast
      ultimately show ?thesis using ok(4) by blast
    qed
  qed
  show "case map_of dirty' p of None \<Rightarrow> p \<in> docPath ` set docs | Some de \<Rightarrow> \<not> de_deleted de"
    if p: "loadText tr p \<noteq> None" for p
  proof -
    note cur = ok(5) [OF p]
    have keep: "p \<in> docPath ` set docs"
      if j: "j < length dss" "d \<in> set (dss ! j)" "docPath d = p" "aff j \<or> map_of snap p = None" for j d
    proof -
      have "p \<in> docPath ` set (concat (newDocs S tr snap aff 0 dss))"
      proof (cases "aff j")
        case True
        have "rebuiltDoc S tr snap d \<noteq> []"
        proof (rule rebuiltDoc_keeps)
          show "loadText tr (docPath d) \<noteq> None" using p j(3) by simp
          show "\<not> de_deleted de" if "map_of snap (docPath d) = Some de" for de
            using that cur j(3) by simp
        qed
        with rebuiltDoc_length [of S tr snap d] obtain d' where d': "rebuiltDoc S tr snap d = [d']" "docPath d' = docPath d"
          by blast
        then have "d' \<in> set (rebuiltDocs S tr snap (dss ! j))" using j(2) unfolding rebuiltDocs_def by force
        with True j(1) have "d' \<in> set (concat (newDocs S tr snap aff 0 dss))" unfolding newDocs_concat by auto
        with d'(2) j(3) show ?thesis by (metis imageI)
      next
        case False
        with j have "d \<in> set (concat (newDocs S tr snap aff 0 dss))" unfolding newDocs_concat by auto
        with j(3) show ?thesis by (metis imageI)
      qed
      then show ?thesis unfolding assms(8) by (simp only: set_append image_Un) blast
    qed
    show ?thesis
    proof (cases "map_of snap p")
      case None
      with cur have "p \<in> docPath ` set (concat dss)" by simp
      then obtain d where d: "d \<in> set (concat dss)" "docPath d = p" by blast
      from d(1) obtain j where "j < length dss" "d \<in> set (dss ! j)" unfolding in_concat_nth by blast
      with keep d(2) None show ?thesis by (simp add: dm)
    next
      case (Some de)
      with cur have nd: "\<not> de_deleted de" by simp
      show ?thesis
      proof (cases "isDef p")
        case True
        with Some nd show ?thesis by (simp add: dm)
      next
        case False
        have "p \<in> docPath ` set docs"
        proof (cases "shardForPath shards p")
          case None
          from newd(3) [OF Some nd None p] show ?thesis
            unfolding assms(8) by (simp only: set_append image_Un) blast
        next
          case si: (Some si)
          have si': "si < length dss" using si by (simp add: shardForPath_holds [OF ok(1) assms(2)])
          have "p \<in> docPath ` set (dss ! si)"
            using assms(3) Some p si unfolding no_strays_def assms(4,5) by blast
          then obtain d where "d \<in> set (dss ! si)" "docPath d = p" by blast
          moreover have "aff si"
            using affected_or_deferred [OF _ si, of snap th] Some False assms(6,7) by simp
          ultimately show ?thesis using keep [OF si'] by blast
        qed
        with False show ?thesis by (simp add: dm)
      qed
    qed
  qed
qed

subsection \<open>The rebuild\<close>

lemma slots_mem: "s \<in> set (List.map_filter (\<lambda>s. s) slots) \<longleftrightarrow> Some s \<in> set slots"
  by (induction slots) (auto simp: map_filter_simps split: option.split)

lemma unaffectedBytes_ok:
  assumes "list_all2 (shard_holds fs kb) ss dss"
  shows "\<exists>tb. unaffectedBytes fs ss aff = Some tb"
proof -
  have "map snd (filter (\<lambda>(si, s). \<not> aff si) (zip [0..<length ss] ss)) = chosen (\<lambda>i. \<not> aff i) 0 ss"
    by (simp add: enumerate_eq_zip)
  then have "allEntries fs (map snd (filter (\<lambda>(si, s). \<not> aff si) (zip [0..<length ss] ss))) =
      Some (map fst (concat (chosen (\<lambda>i. \<not> aff i) 0 dss)))"
    using allEntries_holds [OF chosen_all2 [OF assms]] by simp
  then show ?thesis unfolding unaffectedBytes_def by (simp only: bind.bind_lunit option.inject ex_simps) blast
qed

text \<open>What the shards of a rebuild cycle are, before the old files are cleaned up.\<close>

lemma rebuild_slots:
  assumes "\<And>n. io n = AllOk" and "list_all2 (shard_holds (en_fs e) (dc_InlineKB (en_cfg e))) (en_shards e) dss"
    and "files_ok e" and "aff = affected (en_shards e) snap (dc_RebuildThreshold (en_cfg e))"
    and "\<forall>docs \<in> set dss. fits (Build (dc_InlineKB (en_cfg e)) (rebuiltDocs S tr snap docs))"
    and "fits (Build (dc_InlineKB (en_cfg e)) (docsOf S tr files))"
  shows "\<exists>st1 st2 dss2 dss'.
    rebuildShards S tr io e snap 0 (en_shards e)
      \<lparr>rs_newShards = map Some (en_shards e), rs_seqNo = en_seqNo e, rs_totalBytes = tb, rs_oldFiles = [], rs_fs = en_fs e\<rparr> = Some st1 \<and>
    newFilesShard S tr io e files st1 = Some st2 \<and>
    rebuild_inv e dss2 st2 \<and> concat dss2 = concat (newDocs S tr snap aff 0 dss) @ docsOf S tr files \<and>
    rs_oldFiles st2 = map sh_path (chosen aff 0 (en_shards e)) \<and> en_seqNo e \<le> rs_seqNo st2 \<and>
    (\<forall>s. Some s \<in> set (rs_newShards st2) \<longrightarrow> s \<in> set (chosen (\<lambda>i. \<not> aff i) 0 (en_shards e)) \<or>
       (\<exists>i \<ge> en_seqNo e. sh_path s = shardPath (en_shardDir e) i))"
proof -
  let ?st = "\<lparr>rs_newShards = map Some (en_shards e), rs_seqNo = en_seqNo e, rs_totalBytes = tb, rs_oldFiles = [], rs_fs = en_fs e\<rparr>"
  have "list_all2 (slot_ok (en_fs e) (dc_InlineKB (en_cfg e))) (map Some (en_shards e)) dss"
    using assms(2) by (simp add: list_all2_map1 slot_ok_def)
  moreover have "slots_named (en_shardDir e) (en_seqNo e) (map Some (en_shards e))"
    using assms(3) by (auto simp: files_ok_def names_ok_def slots_named_def)
  moreover have "distinct (slotPaths (map Some (en_shards e)))" using assms(3) by (simp add: files_ok_def)
  ultimately have inv: "rebuild_inv e ([] @ dss) ?st" by (simp add: rebuild_inv_def)
  have "rs_newShards ?st = [] @ map Some (en_shards e)" "length ([] :: document list list) = length ([] :: Shard option list)"
    "0 = length ([] :: Shard option list)" by simp_all
  moreover have "\<forall>docs \<in> set (chosen aff 0 dss). fits (Build (dc_InlineKB (en_cfg e)) (rebuiltDocs S tr snap docs))"
    using assms(5) chosen_subset [of aff 0 dss] by blast
  ultimately obtain st1 new where st1: "rebuildShards S tr io e snap 0 (en_shards e) ?st = Some st1"
    "rebuild_inv e ([] @ newDocs S tr snap aff 0 dss) st1" "rs_newShards st1 = [] @ new"
    "rs_oldFiles st1 = rs_oldFiles ?st @ map sh_path (chosen aff 0 (en_shards e))" "rs_seqNo ?st \<le> rs_seqNo st1"
    "\<forall>s. Some s \<in> set new \<longrightarrow> s \<in> set (chosen (\<lambda>i. \<not> aff i) 0 (en_shards e)) \<or>
       (\<exists>i \<ge> rs_seqNo ?st. sh_path s = shardPath (en_shardDir e) i)"
    using rebuildShards_ok [where io = io and S = S and tr = tr, OF assms(1,4) inv] by blast
  obtain st2 new2 where st2: "newFilesShard S tr io e files st1 = Some st2"
    "rebuild_inv e (([] @ newDocs S tr snap aff 0 dss) @ (if docsOf S tr files = [] then [] else [docsOf S tr files])) st2"
    "rs_newShards st2 = rs_newShards st1 @ new2" "rs_oldFiles st2 = rs_oldFiles st1" "rs_seqNo st1 \<le> rs_seqNo st2"
    "\<forall>s. Some s \<in> set new2 \<longrightarrow> sh_path s = shardPath (en_shardDir e) (rs_seqNo st1)"
    using newFilesShard_ok [where io = io, OF assms(1) st1(2) assms(6)] by blast
  have "\<forall>s. Some s \<in> set (rs_newShards st2) \<longrightarrow> s \<in> set (chosen (\<lambda>i. \<not> aff i) 0 (en_shards e)) \<or>
       (\<exists>i \<ge> en_seqNo e. sh_path s = shardPath (en_shardDir e) i)"
    using st1(3,5,6) st2(3,6) by auto
  with st1 st2 show ?thesis
    by (intro exI [of _ st1] exI [of _ st2]
        exI [of _ "newDocs S tr snap aff 0 dss @ (if docsOf S tr files = [] then [] else [docsOf S tr files])"]) auto
qed

lemma rebuild_docs:
  assumes "\<And>n. io n = AllOk" and hold: "list_all2 (shard_holds (en_fs e) (dc_InlineKB (en_cfg e))) (en_shards e) dss"
    and "files_ok e"
    and "\<forall>docs \<in> set dss. fits (Build (dc_InlineKB (en_cfg e)) (rebuiltDocs S tr (en_dirty e) docs))"
    and "fits (Build (dc_InlineKB (en_cfg e)) (docsOf S tr (newFilesOf tr (en_shards e) (en_dirty e))))"
    and "en_dirty e \<noteq> []"
  shows "\<exists>e' dss'. rebuild S tr io mio rm during e = Some e' \<and>
    list_all2 (shard_holds (en_fs e') (dc_InlineKB (en_cfg e'))) (en_shards e') dss' \<and>
    mset (concat dss') =
      mset (concat (newDocs S tr (en_dirty e) (affected (en_shards e) (en_dirty e) (dc_RebuildThreshold (en_cfg e))) 0 dss) @
            docsOf S tr (newFilesOf tr (en_shards e) (en_dirty e))) \<and>
    files_ok e' \<and>
    en_dirty e' = clearProcessed (deferred (en_shards e) (en_dirty e) (dc_RebuildThreshold (en_cfg e))) (en_dirty e)
      (foldl mark (en_dirty e) during)"
proof -
  let ?snap = "en_dirty e" and ?th = "dc_RebuildThreshold (en_cfg e)" and ?kb = "dc_InlineKB (en_cfg e)"
  let ?files = "newFilesOf tr (en_shards e) ?snap" and ?aff = "affected (en_shards e) ?snap ?th"
  let ?isDef = "deferred (en_shards e) ?snap ?th"
  obtain tb where tb: "unaffectedBytes (en_fs e) (en_shards e) ?aff = Some tb" using unaffectedBytes_ok [OF hold] by blast
  obtain st1 st2 dss2 where st: "rebuildShards S tr io e ?snap 0 (en_shards e)
      \<lparr>rs_newShards = map Some (en_shards e), rs_seqNo = en_seqNo e, rs_totalBytes = tb, rs_oldFiles = [], rs_fs = en_fs e\<rparr> = Some st1"
    "newFilesShard S tr io e ?files st1 = Some st2"
    "rebuild_inv e dss2 st2" "concat dss2 = concat (newDocs S tr ?snap ?aff 0 dss) @ docsOf S tr ?files"
    "rs_oldFiles st2 = map sh_path (chosen ?aff 0 (en_shards e))" "en_seqNo e \<le> rs_seqNo st2"
    "\<forall>s. Some s \<in> set (rs_newShards st2) \<longrightarrow> s \<in> set (chosen (\<lambda>i. \<not> ?aff i) 0 (en_shards e)) \<or>
       (\<exists>i \<ge> en_seqNo e. sh_path s = shardPath (en_shardDir e) i)"
    using rebuild_slots [where io = io and S = S and tr = tr and tb = tb, OF assms(1) hold assms(3) refl assms(4,5)] by metis
  let ?new = "List.map_filter (\<lambda>s. s) (rs_newShards st2)"
  define comp where "comp = sort_key sh_pathMin ?new"
  obtain dss' where dss': "list_all2 (shard_holds (rs_fs st2) ?kb) comp dss'" "mset (concat dss') = mset (concat dss2)"
    using slots_compact st(3) unfolding rebuild_inv_def comp_def by blast
  have comp: "s \<in> set comp \<longleftrightarrow> Some s \<in> set (rs_newShards st2)" for s
    by (simp add: comp_def slots_mem)
  define dirty' where "dirty' = clearProcessed ?isDef ?snap (foldl mark ?snap during)"
  define fs' where "fs' = (\<lambda>p. if p \<in> set (en_pending e) \<and> rm p then None else rs_fs st2 p)"
  define pending' where "pending' = filter (\<lambda>p. \<not> rm p) (en_pending e) @ rs_oldFiles st2"
  define e' where "e' = e\<lparr>en_shards := comp, en_seqNo := rs_seqNo st2, en_fs := fs',
      en_totalFiles := int (sum_list (map ShardNumFiles comp)), en_totalBytes := rs_totalBytes st2,
      en_manifest := snd (WriteManifest (ManifestFromShards comp (rs_seqNo st2)) mio (en_manifest e)),
      en_pending := pending', en_dirty := dirty'\<rparr>"
  have run: "rebuild S tr io mio rm during e = Some e'"
    using assms(6) by (simp add: rebuild_def tb st(1,2) cleanPending_def Let_def e'_def comp_def dirty'_def fs'_def pending'_def
        cong: if_cong)
  have pend: "p \<in> set (en_pending e) \<Longrightarrow> p \<notin> sh_path ` set (en_shards e) \<and> (\<exists>i < en_seqNo e. p = shardPath (en_shardDir e) i)" for p
    using assms(3) unfolding files_ok_def by blast
  have old: "\<exists>i < en_seqNo e. sh_path s = shardPath (en_shardDir e) i" if "s \<in> set (en_shards e)" for s
    using assms(3) that by (auto simp: files_ok_def names_ok_def)
  have oldFile: "\<exists>i < en_seqNo e. q = shardPath (en_shardDir e) i" if "q \<in> set (rs_oldFiles st2)" for q
    using that unfolding st(5) by (rule chosen_map [where R = "\<lambda>q. \<exists>i < en_seqNo e. q = shardPath (en_shardDir e) i"]) (rule old)
  have path: "sh_path s \<notin> set (en_pending e)" "sh_path s \<notin> set (rs_oldFiles st2)" if s: "s \<in> set comp" for s
  proof -
    from st(7) s consider "s \<in> set (chosen (\<lambda>i. \<not> ?aff i) 0 (en_shards e))"
      | i where "en_seqNo e \<le> i" "sh_path s = shardPath (en_shardDir e) i" unfolding comp by blast
    then have "sh_path s \<notin> set (en_pending e) \<and> sh_path s \<notin> set (rs_oldFiles st2)"
    proof cases
      case 1
      then have "s \<in> set (en_shards e)" by (rule chosen_mem)
      then have "sh_path s \<notin> set (en_pending e)" using pend by blast
      moreover have "distinct (map sh_path (en_shards e))" using assms(3) by (simp add: files_ok_def)
      then have "sh_path s \<notin> set (rs_oldFiles st2)" unfolding st(5) using 1 by (rule chosen_apart)
      ultimately show ?thesis by blast
    next
      case 2
      have "sh_path s \<noteq> shardPath (en_shardDir e) j" if "j < en_seqNo e" for j using 2 that by simp
      then have "sh_path s \<notin> set (en_pending e)" "sh_path s \<notin> set (rs_oldFiles st2)"
        using pend oldFile by metis+
      then show ?thesis by blast
    qed
    then show "sh_path s \<notin> set (en_pending e)" "sh_path s \<notin> set (rs_oldFiles st2)" by blast+
  qed
  have hold': "list_all2 (shard_holds fs' ?kb) comp dss'"
    using dss'(1) by (rule list.rel_mono_strong) (use path(1) in \<open>auto simp: shard_holds_def fs'_def\<close>)
  then have "list_all2 (shard_holds (en_fs e') (dc_InlineKB (en_cfg e'))) (en_shards e') dss'"
    by (simp add: e'_def)
  moreover have "files_ok e'"
  proof -
    have "names_ok (en_shardDir e) (rs_seqNo st2) comp"
      using st(3) unfolding rebuild_inv_def slots_named_def names_ok_def Ball_def comp by blast
    moreover have "distinct (map sh_path comp)"
    proof -
      have "mset (map sh_path comp) = mset (slotPaths (rs_newShards st2))"
        unfolding comp_def slotPaths_filter [symmetric] mset_map by simp
      moreover have "distinct (slotPaths (rs_newShards st2))" using st(3) by (simp add: rebuild_inv_def)
      ultimately show ?thesis by (metis mset_eq_imp_distinct_iff)
    qed
    moreover have "\<exists>i < rs_seqNo st2. p = shardPath (en_shardDir e) i" if p: "p \<in> set pending'" for p
    proof -
      have "p \<in> set (en_pending e) \<or> p \<in> set (rs_oldFiles st2)" using p by (auto simp: pending'_def)
      then obtain i where "i < en_seqNo e" "p = shardPath (en_shardDir e) i" using pend oldFile by blast
      with st(6) show ?thesis by (intro exI [of _ i]) simp
    qed
    moreover have "p \<notin> sh_path ` set comp" if "p \<in> set pending'" for p
      using path that unfolding pending'_def by auto
    ultimately show ?thesis by (simp add: files_ok_def e'_def)
  qed
  moreover have "en_dirty e' = dirty'" by (simp add: e'_def)
  ultimately show ?thesis using run dss'(2) unfolding st(4) dirty'_def by metis
qed

lemma rebuild_state:
  assumes "\<And>n. io n = AllOk" and "engine_ok tr dss e" and "ordered dss" and "files_ok e" and "no_strays tr dss e"
    and "\<forall>docs \<in> set dss. fits (Build (dc_InlineKB (en_cfg e)) (rebuiltDocs S tr (en_dirty e) docs))"
    and "fits (Build (dc_InlineKB (en_cfg e)) (docsOf S tr (newFilesOf tr (en_shards e) (en_dirty e))))"
  shows "\<exists>e' dss'. rebuild S tr io mio rm [] e = Some e' \<and> engine_ok tr dss' e' \<and> files_ok e' \<and>
    (\<forall>p. map_of (en_dirty e') p =
       (if deferred (en_shards e) (en_dirty e) (dc_RebuildThreshold (en_cfg e)) p then map_of (en_dirty e) p else None))"
proof (cases "en_dirty e = []")
  case True
  then have "rebuild S tr io mio rm [] e = Some e" by (simp add: rebuild_def)
  with assms(2,4) True show ?thesis by (intro exI [of _ e] exI [of _ dss]) simp
next
  case False
  let ?snap = "en_dirty e" and ?th = "dc_RebuildThreshold (en_cfg e)"
  let ?docs = "concat (newDocs S tr ?snap (affected (en_shards e) ?snap ?th) 0 dss) @ docsOf S tr (newFilesOf tr (en_shards e) ?snap)"
  have "list_all2 (shard_holds (en_fs e) (dc_InlineKB (en_cfg e))) (en_shards e) dss" using assms(2) by (simp add: engine_ok_def)
  from rebuild_docs [where io = io and mio = mio and rm = rm and during = "[]" and S = S and tr = tr,
      OF assms(1) this assms(4,6,7) False]
  obtain e' dss' where e': "rebuild S tr io mio rm [] e = Some e'"
    "list_all2 (shard_holds (en_fs e') (dc_InlineKB (en_cfg e'))) (en_shards e') dss'"
    "mset (concat dss') = mset ?docs" "files_ok e'"
    "en_dirty e' = clearProcessed (deferred (en_shards e) ?snap ?th) ?snap (foldl mark ?snap [])" by metis
  have dirty: "en_dirty e' = clearProcessed (deferred (en_shards e) ?snap ?th) ?snap ?snap" using e'(5) by simp
  note cur = rebuilt_current [where th = ?th and S = S, OF assms(2,3,5) refl refl refl refl refl refl]
  have docs: "set (concat dss') = set ?docs" using e'(3) by (rule mset_eq_setD)
  have "mset (map docPath (concat dss')) = mset (map docPath ?docs)" using e'(3) unfolding mset_map by simp
  then have "distinct (map docPath (concat dss'))" using cur(1) by (metis mset_eq_imp_distinct_iff)
  then have "engine_ok tr dss' e'"
    unfolding engine_ok_def dirty docs using e'(2) cur(2,4,5) by blast
  moreover have "map_of (en_dirty e') p = (if deferred (en_shards e) ?snap ?th p then map_of ?snap p else None)" for p
    unfolding dirty using cur(3) by simp
  ultimately show ?thesis using e'(1,4) by blast
qed

lemma update_same: "map_of al k = Some v \<Longrightarrow> AList.update k v al = al"
  by (induction al) auto

subsection \<open>An example\<close>

text \<open>One shard with the files \<open>a.txt\<close> and \<open>c.txt\<close>.\<close>

definition lastDoc :: document where
  "lastDoc = (\<lparr>fm_Path = str ''c.txt'', fm_Size = 3, fm_MtimeNS = 7\<rparr>, str ''abc'', [])"

definition cycleTree :: tree where
  "cycleTree = buildTree(str ''c.txt'' \<mapsto> \<lparr>tf_content = str ''abc'', tf_size = 3, tf_mtime = 7\<rparr>)"

definition cycleDocs :: "document list" where "cycleDocs = [buildDoc, lastDoc]"

definition cycleEngine :: "dirtyMap \<Rightarrow> DiskEngine" where
  "cycleEngine dirty = buildEngine\<lparr>en_shards := [shardOf (shardPath (str ''d'') 0) 1 cycleDocs], en_seqNo := 1,
     en_fs := [shardPath (str ''d'') 0 \<mapsto> shardBytes (Build 1 cycleDocs)], en_dirty := dirty\<rparr>"

lemma cycleEngine_simps [simp]:
  "en_dirty (cycleEngine dirty) = dirty" "en_cfg (cycleEngine dirty) = exampleCfg" "dc_RebuildThreshold exampleCfg = 5"
  "en_shards (cycleEngine dirty) = [shardOf (shardPath (str ''d'') 0) 1 cycleDocs]"
  by (simp_all add: cycleEngine_def exampleCfg_def)

lemma fits_cycleDocs: "fits (Build 1 cycleDocs)"
  by (simp add: cycleDocs_def buildDoc_def lastDoc_def fits_def file_fits_def def_ok_def Build_def addDoc_def NewBuilder_def
      AddWithDefs_def Let_def appendTri_def length_shardBytes postingParts_def triKeysOf_def pathBlobOf_def contentParts_def
      symDataOf_def encDefs_def encDef_def encString_def encPosting_def str_def KindFunc_def PutUvarint.simps)

lemma cycle_holds:
  "list_all2 (shard_holds (en_fs (cycleEngine dirty)) (dc_InlineKB (en_cfg (cycleEngine dirty))))
     (en_shards (cycleEngine dirty)) [cycleDocs]"
  using fits_cycleDocs by (simp add: shard_holds_def cycleEngine_def)

lemma cycle_files: "files_ok (cycleEngine dirty)"
  by (simp add: files_ok_def names_ok_def cycleEngine_def buildEngine_def NewDiskEngine_def)

lemma cycle_ordered: "ordered [cycleDocs]"
  by (simp add: ordered_def cycleDocs_def buildDoc_def lastDoc_def str_def list_less_def lexordp_simps)

lemma cycle_lookup:
  "shardForPath (en_shards (cycleEngine dirty)) p = Some i \<longleftrightarrow> i = 0 \<and> str ''a.txt'' \<le> p \<and> p \<le> str ''c.txt''"
  using shardForPath_holds [OF cycle_holds cycle_ordered, of dirty p i]
  by (auto simp: cycleDocs_def buildDoc_def lastDoc_def)

lemma cycleTree_load:
  "loadText cycleTree (str ''a.txt'') = Some (str ''abc'')" "loadText cycleTree (str ''c.txt'') = Some (str ''abc'')"
  "loadText cycleTree p \<noteq> None \<Longrightarrow> p = str ''a.txt'' \<or> p = str ''c.txt''"
proof -
  have "decoded (str ''abc'') = str ''abc''" "\<not> isBinary (str ''abc'')" by code_simp+
  then show "loadText cycleTree (str ''a.txt'') = Some (str ''abc'')" "loadText cycleTree (str ''c.txt'') = Some (str ''abc'')"
    "loadText cycleTree p \<noteq> None \<Longrightarrow> p = str ''a.txt'' \<or> p = str ''c.txt''"
    by (auto simp: loadText_def cycleTree_def buildTree_def split: if_splits)
qed

lemma cycle_paths: "map docPath cycleDocs = [str ''a.txt'', str ''c.txt'']" "str ''a.txt'' \<noteq> str ''c.txt''"
  "str ''a.txt'' \<le> str ''c.txt''"
  by (simp add: cycleDocs_def buildDoc_def lastDoc_def, simp add: str_def, code_simp)

lemma cycle_ok:
  assumes "distinct (map fst dirty)" and "\<forall>(p, de) \<in> set dirty. \<not> de_deleted de"
  shows "engine_ok cycleTree [cycleDocs] (cycleEngine dirty)"
proof -
  have "decoded (str ''abc'') = str ''abc''" "\<not> isBinary (str ''abc'')" by code_simp+
  then have cur: "doc_current cycleTree d" if "d \<in> set cycleDocs" for d
    using that by (auto simp: cycleDocs_def buildDoc_def lastDoc_def doc_current_def cycleTree_def buildTree_def)
  have "p \<in> docPath ` set cycleDocs" if "loadText cycleTree p \<noteq> None" for p
    using cycleTree_load(3) [OF that] arg_cong [OF cycle_paths(1), of set] by auto
  moreover have "map_of dirty p = Some de \<Longrightarrow> \<not> de_deleted de" for p de
    using assms(2) by (auto dest: map_of_SomeD)
  ultimately have dirt: "case map_of dirty p of None \<Rightarrow> p \<in> docPath ` set (concat [cycleDocs]) | Some de \<Rightarrow> \<not> de_deleted de"
    if "loadText cycleTree p \<noteq> None" for p
    using that by (cases "map_of dirty p") simp_all
  have "distinct (map docPath (concat [cycleDocs]))" using cycle_paths by simp
  moreover have "doc_current cycleTree d" if "d \<in> set (concat [cycleDocs])" for d
    using cur that by simp
  ultimately show ?thesis
    unfolding engine_ok_def cycleEngine_simps(1) using cycle_holds [of dirty] assms(1) dirt by blast
qed

lemma cycle_rebuilt:
  assumes "\<And>d. d \<in> set cycleDocs \<Longrightarrow> tr (docPath d) = cycleTree (docPath d)"
  shows "rebuiltDocs S tr [(p, \<lparr>de_deleted = False\<rparr>)] cycleDocs = cycleDocs"
proof -
  have dec: "decoded (str ''abc'') = str ''abc''" "\<not> isBinary (str ''abc'')" by code_simp+
  have "Extract S (str ''c.txt'') c = []" for c
  proof -
    have "\<not> HasNonASCII (Ext (str ''c.txt''))" "map lower (Ext (str ''c.txt'')) = str ''.txt''" by code_simp+
    then have "Language (unicode_ToLower S) (str ''c.txt'') = []"
      by (simp add: Language_def ToLower_ascii) (simp add: str_def)
    then show ?thesis by (simp add: Extract_def str_def)
  qed
  moreover have "tr (str ''a.txt'') = cycleTree (str ''a.txt'')" "tr (str ''c.txt'') = cycleTree (str ''c.txt'')"
    using assms [of buildDoc] assms [of lastDoc] by (simp_all add: cycleDocs_def buildDoc_def lastDoc_def)
  ultimately show ?thesis using dec
    by (auto simp: cycleDocs_def rebuiltDoc_def buildDoc_def lastDoc_def cycleTree_def buildTree_def Extract_txt Let_def
        simp del: fun_upd_apply simp: fun_upd_def)
qed

lemma cycle_fits:
  assumes "str ''a.txt'' \<le> p" and "p \<le> str ''c.txt''"
    and "\<And>d. d \<in> set cycleDocs \<Longrightarrow> tr (docPath d) = cycleTree (docPath d)"
  shows "\<forall>docs \<in> set [cycleDocs].
      fits (Build (dc_InlineKB (en_cfg (cycleEngine dirty))) (rebuiltDocs S tr [(p, \<lparr>de_deleted = False\<rparr>)] docs))"
    "newFilesOf tr (en_shards (cycleEngine dirty)) [(p, \<lparr>de_deleted = False\<rparr>)] = []"
    "fits (Build (dc_InlineKB (en_cfg (cycleEngine dirty))) (docsOf S tr []))"
    "\<not> deferred (en_shards (cycleEngine dirty)) [(p, \<lparr>de_deleted = False\<rparr>)] (dc_RebuildThreshold (en_cfg (cycleEngine dirty))) p"
proof -
  show "\<forall>docs \<in> set [cycleDocs].
      fits (Build (dc_InlineKB (en_cfg (cycleEngine dirty))) (rebuiltDocs S tr [(p, \<lparr>de_deleted = False\<rparr>)] docs))"
    using fits_cycleDocs by (simp add: cycle_rebuilt [OF assms(3)])
  have "shardForPath (en_shards (cycleEngine dirty)) p = Some 0" using assms(1,2) by (simp only: cycle_lookup simp_thms)
  then show "newFilesOf tr (en_shards (cycleEngine dirty)) [(p, \<lparr>de_deleted = False\<rparr>)] = []"
    by (simp add: newFilesOf_def)
  show "fits (Build (dc_InlineKB (en_cfg (cycleEngine dirty))) (docsOf S tr []))"
    by (simp add: fits_def file_fits_def Build_def NewBuilder_def length_shardBytes postingParts_def triKeysOf_def
        pathBlobOf_def contentParts_def symDataOf_def docsOf_def)
  show "\<not> deferred (en_shards (cycleEngine dirty)) [(p, \<lparr>de_deleted = False\<rparr>)] (dc_RebuildThreshold (en_cfg (cycleEngine dirty))) p"
    by (simp add: deferred_def)
qed

subsection \<open>Properties\<close>

text \<open>C14. The background rebuild, when nothing is marked while it runs: when no write fails and every dirty text file inside a shard's range is one
  that the shard holds, a rebuild keeps the engine in step with the tree, keeps the shard directory
  consistent (distinct numbered files, none of them among those to be deleted), and takes
  exactly the paths it does not defer off the dirty list.\<close>

theorem rebuild_reflects:
  assumes "\<And>n. io n = AllOk" and "engine_ok tr dss e" and "ordered dss" and "files_ok e" and "no_strays tr dss e"
    and "\<forall>docs \<in> set dss. fits (Build (dc_InlineKB (en_cfg e)) (rebuiltDocs S tr (en_dirty e) docs))"
    and "fits (Build (dc_InlineKB (en_cfg e)) (docsOf S tr (newFilesOf tr (en_shards e) (en_dirty e))))"
  shows "\<exists>e' dss'. rebuild S tr io mio rm [] e = Some e' \<and> engine_ok tr dss' e' \<and> files_ok e' \<and>
    (\<forall>p. map_of (en_dirty e') p =
       (if deferred (en_shards e) (en_dirty e) (dc_RebuildThreshold (en_cfg e)) p then map_of (en_dirty e) p else None))"
  using assms by (rule rebuild_state)

theorem rebuild_reflects_witness:
  "\<forall>S. \<exists>e' dss'. rebuild S cycleTree (\<lambda>_. AllOk) MOk (\<lambda>_. True) [] (cycleEngine [(str ''a.txt'', \<lparr>de_deleted = False\<rparr>)]) = Some e' \<and>
     engine_ok cycleTree dss' e' \<and> map_of (en_dirty e') (str ''a.txt'') = None"
proof
  fix S
  let ?d = "[(str ''a.txt'', \<lparr>de_deleted = False\<rparr>)]"
  have "no_strays cycleTree [cycleDocs] (cycleEngine ?d)"
    unfolding no_strays_def
  proof (intro allI impI)
    fix p si
    assume p: "map_of (en_dirty (cycleEngine ?d)) p \<noteq> None" and si: "shardForPath (en_shards (cycleEngine ?d)) p = Some si"
    from p have "p = str ''a.txt''" by (simp split: if_splits)
    moreover from si have "si = 0" unfolding cycle_lookup by blast
    ultimately show "p \<in> docPath ` set ([cycleDocs] ! si)" by (simp add: cycleDocs_def buildDoc_def)
  qed
  moreover have "engine_ok cycleTree [cycleDocs] (cycleEngine ?d)" by (rule cycle_ok) simp_all
  moreover note fit = cycle_fits [where tr = cycleTree and dirty = ?d, OF order.refl cycle_paths(3) refl]
  moreover have "fits (Build (dc_InlineKB (en_cfg (cycleEngine ?d)))
      (docsOf S cycleTree (newFilesOf cycleTree (en_shards (cycleEngine ?d)) (en_dirty (cycleEngine ?d)))))"
    using fit(2,3) by (simp only: cycleEngine_simps(1))
  ultimately obtain e' dss' where e': "rebuild S cycleTree (\<lambda>_. AllOk) MOk (\<lambda>_. True) [] (cycleEngine ?d) = Some e'"
    "engine_ok cycleTree dss' e'"
    "\<forall>p. map_of (en_dirty e') p =
       (if deferred (en_shards (cycleEngine ?d)) (en_dirty (cycleEngine ?d)) (dc_RebuildThreshold (en_cfg (cycleEngine ?d))) p
        then map_of (en_dirty (cycleEngine ?d)) p else None)"
    using rebuild_reflects [where io = "\<lambda>_. AllOk" and mio = MOk and rm = "\<lambda>_. True" and S = S and tr = cycleTree
        and dss = "[cycleDocs]" and e = "cycleEngine ?d", OF refl _ cycle_ordered cycle_files] unfolding cycleEngine_simps(1)
    by blast
  from e'(3) fit(4) have "map_of (en_dirty e') (str ''a.txt'') = None" unfolding cycleEngine_simps(1) by simp
  with e'(1,2) show "\<exists>e' dss'. rebuild S cycleTree (\<lambda>_. AllOk) MOk (\<lambda>_. True) [] (cycleEngine ?d) = Some e' \<and>
     engine_ok cycleTree dss' e' \<and> map_of (en_dirty e') (str ''a.txt'') = None" by blast
qed

text \<open>C28. A new file that sorts between the first and the last path of a shard is lost by a rebuild that does not defer it: the rebuild takes it for one
  of the shard's files, rebuilds the shard from its old files, and clears the dirty entry.
  Afterwards the file is in no shard and not dirty, so no search finds it until it changes again.\<close>

theorem rebuild_drops_stray:
  assumes "\<And>n. io n = AllOk" and "list_all2 (shard_holds (en_fs e) (dc_InlineKB (en_cfg e))) (en_shards e) dss"
    and "files_ok e" and "distinct (map fst (en_dirty e))"
    and "\<forall>docs \<in> set dss. fits (Build (dc_InlineKB (en_cfg e)) (rebuiltDocs S tr (en_dirty e) docs))"
    and "fits (Build (dc_InlineKB (en_cfg e)) (docsOf S tr (newFilesOf tr (en_shards e) (en_dirty e))))"
    and "map_of (en_dirty e) p = Some de" and "shardForPath (en_shards e) p = Some si"
    and "p \<notin> docPath ` set (concat dss)"
    and "\<not> deferred (en_shards e) (en_dirty e) (dc_RebuildThreshold (en_cfg e)) p"
  shows "\<exists>e' ps. rebuild S tr io mio rm [] e = Some e' \<and> map_of (en_dirty e') p = None \<and>
    DiskPaths e' = Some ps \<and> p \<notin> set ps"
proof -
  let ?new = "newDocs S tr (en_dirty e) (affected (en_shards e) (en_dirty e) (dc_RebuildThreshold (en_cfg e))) 0 dss"
    and ?docs = "docsOf S tr (newFilesOf tr (en_shards e) (en_dirty e))"
  have "en_dirty e \<noteq> []" using assms(7) by auto
  from rebuild_docs [where io = io and mio = mio and rm = rm and during = "[]" and S = S and tr = tr, OF assms(1,2,3,5,6) this]
  obtain e' dss' where e': "rebuild S tr io mio rm [] e = Some e'"
    "list_all2 (shard_holds (en_fs e') (dc_InlineKB (en_cfg e'))) (en_shards e') dss'"
    "mset (concat dss') = mset (concat ?new @ ?docs)"
    "en_dirty e' = clearProcessed (deferred (en_shards e) (en_dirty e) (dc_RebuildThreshold (en_cfg e))) (en_dirty e)
       (foldl mark (en_dirty e) [])" by metis
  have "map_of (en_dirty e') p = None"
    using assms(7,10) by (simp add: e'(4) map_of_clearProcessed [OF assms(4)])
  moreover have "DiskPaths e' = Some (map docPath (concat dss'))"
    by (simp add: DiskPaths_def allEntries_holds [OF e'(2)] del: map_concat)
  moreover have "p \<notin> docPath ` set (concat ?new)"
    using newDocs_paths [of S tr "en_dirty e" "affected (en_shards e) (en_dirty e) (dc_RebuildThreshold (en_cfg e))" 0 dss] assms(9)
    by (rule contra_subsetD)
  moreover have "p \<notin> docPath ` set ?docs"
  proof
    assume "p \<in> docPath ` set ?docs"
    then obtain d where d: "d \<in> set ?docs" "p = docPath d" by (rule imageE)
    from newFiles_docs(2) [OF assms(4) d(1)] d(2) assms(8) show False by simp
  qed
  moreover have "set (concat dss') = set (concat ?new @ ?docs)" using e'(3) by (rule mset_eq_setD)
  then have "set (map docPath (concat dss')) = docPath ` set (concat ?new) \<union> docPath ` set ?docs"
    by (simp only: set_map set_append image_Un)
  ultimately show ?thesis using e'(1) by (metis UnE)
qed

theorem rebuild_drops_stray_witness:
  "\<forall>S. \<exists>e' ps.
     rebuild S (cycleTree(str ''b.txt'' \<mapsto> \<lparr>tf_content = str ''xyz'', tf_size = 3, tf_mtime = 8\<rparr>)) (\<lambda>_. AllOk) MOk (\<lambda>_. True) []
       (cycleEngine [(str ''b.txt'', \<lparr>de_deleted = False\<rparr>)]) = Some e' \<and>
     DiskPaths e' = Some ps \<and> str ''b.txt'' \<notin> set ps \<and> map_of (en_dirty e') (str ''b.txt'') = None"
proof
  fix S
  let ?d = "[(str ''b.txt'', \<lparr>de_deleted = False\<rparr>)]" and ?e = "cycleEngine [(str ''b.txt'', \<lparr>de_deleted = False\<rparr>)]"
  let ?tr = "cycleTree(str ''b.txt'' \<mapsto> \<lparr>tf_content = str ''xyz'', tf_size = 3, tf_mtime = 8\<rparr>)"
  have ord: "str ''a.txt'' \<le> str ''b.txt''" "str ''b.txt'' \<le> str ''c.txt''" by code_simp+
  have new: "str ''b.txt'' \<noteq> str ''a.txt''" "str ''b.txt'' \<noteq> str ''c.txt''" by (simp_all add: str_def)
  have paths: "docPath ` set cycleDocs = {str ''a.txt'', str ''c.txt''}"
    using arg_cong [OF cycle_paths(1), of set] by simp
  have tr: "?tr (docPath d) = cycleTree (docPath d)" if "d \<in> set cycleDocs" for d
  proof -
    have "docPath d \<in> {str ''a.txt'', str ''c.txt''}" using imageI [OF that, of docPath] unfolding paths .
    with new show ?thesis by auto
  qed
  note fit = cycle_fits [where tr = ?tr and dirty = ?d, OF ord tr]
  have "fits (Build (dc_InlineKB (en_cfg ?e)) (docsOf S ?tr (newFilesOf ?tr (en_shards ?e) (en_dirty ?e))))"
    using fit(2,3) by (simp only: cycleEngine_simps(1))
  moreover have "map_of (en_dirty ?e) (str ''b.txt'') = Some \<lparr>de_deleted = False\<rparr>" "distinct (map fst (en_dirty ?e))" by simp_all
  moreover have "shardForPath (en_shards ?e) (str ''b.txt'') = Some 0" unfolding cycle_lookup using ord by blast
  moreover have "str ''b.txt'' \<notin> docPath ` set (concat [cycleDocs])" using new paths by simp
  ultimately show "\<exists>e' ps. rebuild S ?tr (\<lambda>_. AllOk) MOk (\<lambda>_. True) [] ?e = Some e' \<and>
     DiskPaths e' = Some ps \<and> str ''b.txt'' \<notin> set ps \<and> map_of (en_dirty e') (str ''b.txt'') = None"
    using rebuild_drops_stray [where io = "\<lambda>_. AllOk" and mio = MOk and rm = "\<lambda>_. True" and S = S and tr = ?tr
        and dss = "[cycleDocs]" and e = ?e and p = "str ''b.txt''", OF refl cycle_holds cycle_files] fit(1,4)
    unfolding cycleEngine_simps(1) by blast
qed

text \<open>A mark that repeats one of the snapshot's entries while a rebuild is running has no effect: the clean-up
  compares only the deleted flag, so the entry is taken off the list although the file may have
  changed after the rebuild read it. The same clean-up runs when writing the new shard failed.\<close>

theorem rebuild_loses_remark:
  assumes "distinct (map fst (en_dirty e))" and "map_of (en_dirty e) p = Some de"
    and "\<not> deferred (en_shards e) (en_dirty e) (dc_RebuildThreshold (en_cfg e)) p"
    and "rebuild S tr io mio rm [(p, de)] e = Some e'"
  shows "rebuild S tr io mio rm [] e = Some e' \<and> map_of (en_dirty e') p = None"
proof -
  let ?isDef = "deferred (en_shards e) (en_dirty e) (dc_RebuildThreshold (en_cfg e))"
  have same: "foldl mark (en_dirty e) [(p, de)] = en_dirty e"
    using update_same [OF assms(2)] by (simp add: mark_def)
  have ne: "en_dirty e \<noteq> []" using assms(2) by auto
  have eq: "rebuild S tr io mio rm [(p, de)] e = rebuild S tr io mio rm [] e"
    using same by (simp add: rebuild_def cleanPending_def Let_def cong: if_cong)
  have "en_dirty e' = clearProcessed ?isDef (en_dirty e) (foldl mark (en_dirty e) [(p, de)])"
    using assms(4) ne
    by (auto simp: rebuild_def cleanPending_def Let_def split: Option.bind_splits cong: if_cong)
  then have "en_dirty e' = clearProcessed ?isDef (en_dirty e) (en_dirty e)" unfolding same .
  then have "map_of (en_dirty e') p = None" using assms(2,3) by (simp add: map_of_clearProcessed [OF assms(1)])
  with eq assms(4) show ?thesis by simp
qed

theorem rebuild_loses_remark_witness:
  "\<forall>S. \<exists>e'. rebuild S cycleTree (\<lambda>_. AllOk) MOk (\<lambda>_. True) [(str ''a.txt'', \<lparr>de_deleted = False\<rparr>)]
       (cycleEngine [(str ''a.txt'', \<lparr>de_deleted = False\<rparr>)]) = Some e' \<and> map_of (en_dirty e') (str ''a.txt'') = None"
proof
  fix S
  let ?d = "[(str ''a.txt'', \<lparr>de_deleted = False\<rparr>)]" and ?e = "cycleEngine [(str ''a.txt'', \<lparr>de_deleted = False\<rparr>)]"
  note fit = cycle_fits [where tr = cycleTree and dirty = ?d, OF order.refl cycle_paths(3) refl]
  have "fits (Build (dc_InlineKB (en_cfg ?e)) (docsOf S cycleTree (newFilesOf cycleTree (en_shards ?e) (en_dirty ?e))))"
    using fit(2,3) by (simp only: cycleEngine_simps(1))
  then obtain e' where e': "rebuild S cycleTree (\<lambda>_. AllOk) MOk (\<lambda>_. True) ?d ?e = Some e'"
    using rebuild_docs [where io = "\<lambda>_. AllOk" and mio = MOk and rm = "\<lambda>_. True" and during = ?d and S = S and tr = cycleTree
        and dss = "[cycleDocs]" and e = ?e, OF refl cycle_holds cycle_files] fit(1)
    unfolding cycleEngine_simps(1) by blast
  have "distinct (map fst (en_dirty ?e))" "map_of (en_dirty ?e) (str ''a.txt'') = Some \<lparr>de_deleted = False\<rparr>" by simp_all
  moreover have "\<not> deferred (en_shards ?e) (en_dirty ?e) (dc_RebuildThreshold (en_cfg ?e)) (str ''a.txt'')"
    using fit(4) by (simp only: cycleEngine_simps(1) not_False_eq_True)
  ultimately have "map_of (en_dirty e') (str ''a.txt'') = None" using rebuild_loses_remark [OF _ _ _ e'] by blast
  with e' show "\<exists>e'. rebuild S cycleTree (\<lambda>_. AllOk) MOk (\<lambda>_. True) ?d ?e = Some e' \<and> map_of (en_dirty e') (str ''a.txt'') = None"
    by blast
qed

end
