(* ===== verification/Ignore.thy ===== *)
theory Ignore
  imports Symbol
begin

text \<open>
  \<open>internal/ignore\<close>: the exclusion rules of \<open>.gcgrepignore\<close> (\<open>ignore.go\<close>) and of nested
  \<open>.gitignore\<close> files (\<open>gitignore.go\<close>). A rule is a glob that is translated into two regular
  expressions. The translation only ever writes nine kinds of fragments, so a compiled expression is
  the list of the fragments written, and \<open>MatchString\<close> is Go's meaning of them: an unanchored
  search over the runes of the string. Everything the translation writes compiles.
\<close>

subsection \<open>Regular expression fragments\<close>

datatype rtok =
    Bol          \<comment> \<open>\<^verbatim>\<open>^\<close>\<close>
  | BolOrDirs    \<comment> \<open>\<^verbatim>\<open>(?:^|.*/)\<close>\<close>
  | OptDirs      \<comment> \<open>\<^verbatim>\<open>(?:.*/)?\<close>\<close>
  | AnyRun       \<comment> \<open>\<^verbatim>\<open>.*\<close>\<close>
  | SegRun       \<comment> \<open>\<^verbatim>\<open>[^/]*\<close>\<close>
  | SegOne       \<comment> \<open>\<^verbatim>\<open>[^/]\<close>\<close>
  | LitRune rune
  | Eol          \<comment> \<open>\<^verbatim>\<open>$\<close>\<close>

text \<open>A match of the fragments that starts at the head of the runes; \<open>b\<close> tells that this is the
  beginning of the text.\<close>

fun rtok_weight :: "rtok \<Rightarrow> nat" where
  "rtok_weight BolOrDirs = 4"
| "rtok_weight OptDirs = 4"
| "rtok_weight _ = 1"

function (sequential) rmatch :: "rtok list \<Rightarrow> bool \<Rightarrow> rune list \<Rightarrow> bool" where
  "rmatch [] b s = True"
| "rmatch (Bol # ts) b s = (b \<and> rmatch ts b s)"
| "rmatch (Eol # ts) b s = (s = [] \<and> rmatch ts b s)"
| "rmatch (LitRune c # ts) b s = (case s of [] \<Rightarrow> False | x # s' \<Rightarrow> x = c \<and> rmatch ts False s')"
| "rmatch (SegOne # ts) b s = (case s of [] \<Rightarrow> False | x # s' \<Rightarrow> x \<noteq> 47 \<and> rmatch ts False s')"
| "rmatch (SegRun # ts) b s =
     (rmatch ts b s \<or> (case s of [] \<Rightarrow> False | x # s' \<Rightarrow> x \<noteq> 47 \<and> rmatch (SegRun # ts) False s'))"
| "rmatch (AnyRun # ts) b s =
     (rmatch ts b s \<or> (case s of [] \<Rightarrow> False | x # s' \<Rightarrow> x \<noteq> 10 \<and> rmatch (AnyRun # ts) False s'))"
| "rmatch (BolOrDirs # ts) b s = (b \<and> rmatch ts b s \<or> rmatch (AnyRun # LitRune 47 # ts) b s)"
| "rmatch (OptDirs # ts) b s = (rmatch ts b s \<or> rmatch (AnyRun # LitRune 47 # ts) b s)"
  by pat_completeness auto
termination
  by (relation "measures [\<lambda>(ts, b, s). sum_list (map rtok_weight ts), \<lambda>(ts, b, s). length s]") auto

lemma rmatch_SegRun:
  "rmatch (SegRun # ts) b [] = rmatch ts b []"
  "rmatch (SegRun # ts) b (x # s) = (rmatch ts b (x # s) \<or> x \<noteq> 47 \<and> rmatch (SegRun # ts) False s)"
  by (subst rmatch.simps, simp)+

lemma rmatch_AnyRun:
  "rmatch (AnyRun # ts) b [] = rmatch ts b []"
  "rmatch (AnyRun # ts) b (x # s) = (rmatch ts b (x # s) \<or> x \<noteq> 10 \<and> rmatch (AnyRun # ts) False s)"
  by (subst rmatch.simps, simp)+

declare rmatch.simps(6,7) [simp del] and rmatch_SegRun [simp] and rmatch_AnyRun [simp]

fun rsearch :: "rtok list \<Rightarrow> bool \<Rightarrow> rune list \<Rightarrow> bool" where
  "rsearch ts b [] = rmatch ts b []"
| "rsearch ts b (x # s) = (rmatch ts b (x # s) \<or> rsearch ts False s)"

definition MatchString :: "rtok list \<Rightarrow> gostring \<Rightarrow> bool" where
  "MatchString ts s = rsearch ts True (runes s)"

subsection \<open>ignore.go\<close>

record rule =
  ru_exact :: "rtok list"
  ru_prefix :: "rtok list"
  ru_dirOnly :: bool

text \<open>The loop over the pattern. A byte is quoted as the rune of its value.\<close>

fun patternBody :: "bytes \<Rightarrow> rtok list" where
  "patternBody [] = []"
| "patternBody (c # cs) =
     (if c = 42 then
        (case cs of
           d # ds \<Rightarrow>
             if d = 42 then
               (case ds of
                  e # es \<Rightarrow> if e = slash then OptDirs # patternBody es else AnyRun # patternBody ds
                | [] \<Rightarrow> AnyRun # patternBody ds)
             else SegRun # patternBody cs
         | [] \<Rightarrow> SegRun # patternBody cs)
      else if c = 63 then SegOne # patternBody cs
      else LitRune (unat c) # patternBody cs)"

definition compile :: "gostring \<Rightarrow> rule option" where
  "compile pat =
     (let dirOnly = HasSuffix pat (str ''/'');
          pat = (if dirOnly then TrimSuffix pat (str ''/'') else pat);
          anchored = HasPrefix pat (str ''/'') \<or> Contains pat (str ''/'');
          pat = TrimPrefix pat (str ''/'');
          body = (if anchored then Bol else BolOrDirs) # patternBody pat
      in Some \<lparr>ru_exact = body @ [Eol], ru_prefix = body @ [LitRune 47], ru_dirOnly = dirOnly\<rparr>)"

text \<open>\<open>strings.TrimSpace\<close>: the runes of \<open>unicode.IsSpace\<close> at either end are dropped.\<close>

definition spaceRunes :: "rune list" where
  "spaceRunes = [9, 10, 11, 12, 13, 32, 0x85, 0xA0, 0x1680, 0x2000, 0x2001, 0x2002, 0x2003, 0x2004, 0x2005,
     0x2006, 0x2007, 0x2008, 0x2009, 0x200A, 0x2028, 0x2029, 0x202F, 0x205F, 0x3000]"

lemma EncodeRune_ne [simp]: "EncodeRune r \<noteq> []"
  by (simp add: EncodeRune_def)

function trimLeft :: "gostring \<Rightarrow> gostring" where
  "trimLeft s =
     (case find (\<lambda>r. prefix (EncodeRune r) s) spaceRunes of
        None \<Rightarrow> s
      | Some r \<Rightarrow> trimLeft (drop (length (EncodeRune r)) s))"
  by pat_completeness auto
termination
  by (relation "measure length")
    (auto simp: find_Some_iff dest!: prefix_length_le intro!: diff_less)

function trimRight :: "gostring \<Rightarrow> gostring" where
  "trimRight s =
     (case find (\<lambda>r. suffix (EncodeRune r) s) spaceRunes of
        None \<Rightarrow> s
      | Some r \<Rightarrow> trimRight (take (length s - length (EncodeRune r)) s))"
  by pat_completeness auto
termination
  by (relation "measure length")
    (auto simp: find_Some_iff dest!: suffix_length_le intro!: diff_less)

declare trimLeft.simps [simp del] trimRight.simps [simp del]

definition TrimSpace :: "gostring \<Rightarrow> gostring" where
  "TrimSpace s = trimRight (trimLeft s)"

lemma TrimSpace_id:
  assumes "find (\<lambda>r. prefix (EncodeRune r) s) spaceRunes = None" and "find (\<lambda>r. suffix (EncodeRune r) s) spaceRunes = None"
  shows "TrimSpace s = s"
  by (simp add: TrimSpace_def trimLeft.simps [of s] trimRight.simps [of s] assms)

text \<open>The lines of a \<open>bufio.Scanner\<close>: an empty last line is dropped, as is a carriage return at the end
  of a line; the scan stops at a line that does not fit the 64 KiB buffer.\<close>

definition maxToken :: nat where "maxToken = 65536"

definition scannerLines :: "bytes \<Rightarrow> bytes list" where
  "scannerLines content =
     (let ls = splitLines content;
          ls = (if List.last ls = [] then butlast ls else ls)
      in map (\<lambda>l. TrimSuffix l [13]) (takeWhile (\<lambda>l. length l < maxToken) ls))"

definition skipLine :: "gostring \<Rightarrow> bool" where
  "skipLine l \<longleftrightarrow> l = [] \<or> HasPrefix l (str ''#'') \<or> HasPrefix l (str ''!'')"

fun addPattern :: "rule list \<Rightarrow> gostring \<Rightarrow> rule list" where
  "addPattern rules pat =
     (let pat = TrimSpace pat in
      if skipLine pat then rules else case compile pat of Some r \<Rightarrow> rules @ [r] | None \<Rightarrow> rules)"

definition AddPatterns :: "rule list \<Rightarrow> gostring list \<Rightarrow> rule list" where
  "AddPatterns rules patterns = foldl addPattern rules patterns"

text \<open>\<open>Load\<close>: the control file's content, \<open>None\<close> when it cannot be opened.\<close>

definition LoadRules :: "bytes option \<Rightarrow> rule list" where
  "LoadRules f = (case f of None \<Rightarrow> [] | Some content \<Rightarrow> foldl addPattern [] (scannerLines content))"

definition ruleIgnores :: "rule \<Rightarrow> gostring \<Rightarrow> bool \<Rightarrow> bool" where
  "ruleIgnores r rel isDir \<longleftrightarrow>
     MatchString (ru_prefix r) rel \<or> MatchString (ru_exact r) rel \<and> (isDir \<or> \<not> ru_dirOnly r)"

definition isGitPath :: "gostring \<Rightarrow> bool" where
  "isGitPath rel \<longleftrightarrow> rel = str ''.git'' \<or> HasPrefix rel (str ''.git/'') \<or> Contains rel (str ''/.git/'') \<or>
     HasSuffix rel (str ''/.git'')"

definition Ignored :: "rule list \<Rightarrow> gostring \<Rightarrow> bool \<Rightarrow> bool" where
  "Ignored rules rel isDir = (if isGitPath rel then True else \<exists>r \<in> set rules. ruleIgnores r rel isDir)"

subsection \<open>gitignore.go\<close>

fun splitSlash :: "gostring \<Rightarrow> gostring list" where
  "splitSlash [] = [[]]"
| "splitSlash (c # s) =
     (if c = slash then [] # splitSlash s
      else case splitSlash s of [] \<Rightarrow> [[c]] | p # ps \<Rightarrow> (c # p) # ps)"

fun joinSlash :: "gostring list \<Rightarrow> gostring" where
  "joinSlash [] = []"
| "joinSlash [p] = p"
| "joinSlash (p # q # ps) = p @ slash # joinSlash (q # ps)"

text \<open>The tree caches the rules of the directories it has read. \<open>gi dir\<close> is the content of
  \<open>dir/.gitignore\<close>, \<open>None\<close> when it cannot be opened.\<close>

record GitignoreTree =
  gt_root :: gostring
  gt_dirs :: "gostring \<rightharpoonup> rule list"

definition NewGitignoreTree :: "gostring \<Rightarrow> GitignoreTree" where
  "NewGitignoreTree root = \<lparr>gt_root = root, gt_dirs = Map.empty\<rparr>"

definition loadGitignoreFile :: "bytes option \<Rightarrow> rule list" where
  "loadGitignoreFile f = (case f of None \<Rightarrow> [] | Some content \<Rightarrow> foldl addPattern [] (scannerLines content))"

definition loadDir :: "(gostring \<Rightarrow> bytes option) \<Rightarrow> GitignoreTree \<Rightarrow> gostring \<Rightarrow> rule list \<times> GitignoreTree" where
  "loadDir gi g dir =
     (case gt_dirs g dir of
        Some rules \<Rightarrow> (rules, g)
      | None \<Rightarrow> let rules = loadGitignoreFile (gi dir) in (rules, g\<lparr>gt_dirs := (gt_dirs g)(dir \<mapsto> rules)\<rparr>))"

definition gitDir :: "gostring list \<Rightarrow> nat \<Rightarrow> gostring" where
  "gitDir parts i = (if i = 0 then str ''.'' else joinSlash (take i parts))"

fun gitIgnored_loop ::
    "(gostring \<Rightarrow> bytes option) \<Rightarrow> gostring list \<Rightarrow> bool \<Rightarrow> nat list \<Rightarrow> GitignoreTree \<Rightarrow> bool \<times> GitignoreTree" where
  "gitIgnored_loop gi parts isDir [] g = (False, g)"
| "gitIgnored_loop gi parts isDir (i # is) g =
     (let (rules, g) = loadDir gi g (gitDir parts i);
          sub = joinSlash (drop i parts)
      in if \<exists>r \<in> set rules. ruleIgnores r sub isDir then (True, g)
         else gitIgnored_loop gi parts isDir is g)"

definition gitIgnored :: "(gostring \<Rightarrow> bytes option) \<Rightarrow> GitignoreTree \<Rightarrow> gostring \<Rightarrow> bool \<Rightarrow> bool \<times> GitignoreTree" where
  "gitIgnored gi g rel isDir =
     (let parts = splitSlash rel in gitIgnored_loop gi parts isDir [0..<length parts] g)"

subsection \<open>Everything below an ignored directory is ignored\<close>

lemma DecodeRune_length: "p \<noteq> [] \<Longrightarrow> snd (DecodeRune p) \<le> length p"
  by (auto simp: DecodeRune_def split: list.split)

lemma DecodeRune_slash:
  assumes "p \<noteq> []"
  shows "DecodeRune (p @ slash # q) = DecodeRune p"
proof -
  have c: "\<not> cont slash" by (simp add: cont_def)
  obtain b0 p1 where p: "p = b0 # p1" using assms by (cases p) auto
  show ?thesis
  proof (cases p1)
    case Nil
    with c p show ?thesis by (auto simp: DecodeRune_def split: list.split)
  next
    case p1: (Cons b1 p2)
    show ?thesis
    proof (cases p2)
      case Nil
      with c p p1 show ?thesis by (auto simp: DecodeRune_def split: list.split)
    next
      case p2: (Cons b2 p3)
      show ?thesis
      proof (cases p3)
        case Nil
        have "(if P then x else (if Q \<and> cont slash \<and> Q' then y else z)) = (if P then x else z)" for P Q Q' and x y z :: "rune \<times> nat"
          using c by simp
        with Nil p p1 p2 show ?thesis by (simp only: DecodeRune_def append_Cons append_Nil list.case c simp_thms if_False)
      next
        case (Cons b3 p4)
        with p p1 p2 show ?thesis by (simp only: DecodeRune_def append_Cons list.case)
      qed
    qed
  qed
qed

lemma runes_slash: "runes (p @ slash # q) = runes p @ 47 # runes q"
proof (induction p rule: runes.induct)
  case (1 p)
  show ?case
  proof (cases "p = []")
    case True
    have "DecodeRune (slash # q) = (47, 1)" by (simp add: DecodeRune_def)
    with True show ?thesis by (simp add: runes.simps [of "slash # q"] runes.simps [of "[]"])
  next
    case False
    let ?n = "snd (DecodeRune p)"
    have "?n \<le> length p" using False by (rule DecodeRune_length)
    then have "drop ?n (p @ slash # q) = drop ?n p @ slash # q" by simp
    with False 1 show ?thesis
      by (simp add: runes.simps [of "p @ slash # q"] runes.simps [of p] DecodeRune_slash)
  qed
qed

lemma rmatch_skip: "rmatch ts b s \<Longrightarrow> rmatch (SegRun # ts) b s" "rmatch ts b s \<Longrightarrow> rmatch (AnyRun # ts) b s"
  by (cases s; simp)+

lemma rmatch_extend:
  "Eol \<notin> set ts \<Longrightarrow> rmatch (ts @ [Eol]) b s \<Longrightarrow> (\<And>b. rmatch us b t) \<Longrightarrow> rmatch (ts @ us) b (s @ t)"
proof (induction ts b s rule: rmatch.induct)
  case (4 c ts b s)
  then show ?case by (cases s) auto
next
  case (5 ts b s)
  then show ?case by (cases s) auto
next
  case (6 ts b s)
  then show ?case by (cases s) (auto intro: rmatch_skip)
next
  case (7 ts b s)
  then show ?case by (cases s) (auto intro: rmatch_skip)
qed auto

lemma rmatch_append: "Eol \<notin> set ts \<Longrightarrow> rmatch ts b s \<Longrightarrow> rmatch ts b (s @ t)"
proof (induction ts b s rule: rmatch.induct)
  case (4 c ts b s)
  then show ?case by (cases s) auto
next
  case (5 ts b s)
  then show ?case by (cases s) auto
next
  case (6 ts b s)
  then show ?case by (cases s) (auto intro: rmatch_skip)
next
  case (7 ts b s)
  then show ?case by (cases s) (auto intro: rmatch_skip)
qed auto

lemma rsearch_extend:
  assumes "Eol \<notin> set ts" and "\<And>b. rmatch us b t"
  shows "rsearch (ts @ [Eol]) b s \<Longrightarrow> rsearch (ts @ us) b (s @ t)"
proof (induction s arbitrary: b)
  case Nil
  then have "rmatch (ts @ us) b t" using rmatch_extend [OF assms(1) _ assms(2), of b "[]"] by simp
  then show ?case by (cases t) auto
next
  case (Cons x s)
  then show ?case using rmatch_extend [OF assms(1) _ assms(2), of b "x # s"] by auto
qed

lemma rsearch_append:
  assumes "Eol \<notin> set ts"
  shows "rsearch ts b s \<Longrightarrow> rsearch ts b (s @ t)"
proof (induction s arbitrary: b)
  case Nil
  then show ?case using rmatch_append [OF assms, of b "[]" t] by (cases t) auto
next
  case (Cons x s)
  then show ?case using rmatch_append [OF assms, of b "x # s" t] by auto
qed

text \<open>What the translation guarantees of a rule.\<close>

definition rule_ok :: "rule \<Rightarrow> bool" where
  "rule_ok r \<longleftrightarrow> (\<exists>body. Eol \<notin> set body \<and> ru_exact r = body @ [Eol] \<and> ru_prefix r = body @ [LitRune 47])"

lemma patternBody_no_Eol: "Eol \<notin> set (patternBody p)"
  by (induction p rule: patternBody.induct) (auto split: list.splits)

lemma compile_ok: "compile pat = Some r \<Longrightarrow> rule_ok r"
  unfolding rule_ok_def
  by (intro exI [of _ "butlast (ru_exact r)"]) (auto simp: compile_def Let_def patternBody_no_Eol butlast_append split: if_splits)

lemma addPattern_ok: "\<forall>r \<in> set rules. rule_ok r \<Longrightarrow> \<forall>r \<in> set (addPattern rules pat). rule_ok r"
  by (auto simp: Let_def split: option.splits dest: compile_ok)

lemma addPatterns_ok: "\<forall>r \<in> set rules. rule_ok r \<Longrightarrow> \<forall>r \<in> set (foldl addPattern rules pats). rule_ok r"
proof (induction pats arbitrary: rules)
  case (Cons p pats)
  show ?case using Cons.IH [OF addPattern_ok [OF Cons.prems]] by (simp del: addPattern.simps)
qed simp

lemma LoadRules_ok: "\<forall>r \<in> set (LoadRules f). rule_ok r"
  using addPatterns_ok [of "[]"] by (cases f) (simp_all add: LoadRules_def del: addPattern.simps)

lemma ruleIgnores_below:
  assumes "rule_ok r" and "ruleIgnores r dir True"
  shows "ruleIgnores r (dir @ slash # sub) isDir"
proof -
  obtain body where body: "Eol \<notin> set body" "ru_exact r = body @ [Eol]" "ru_prefix r = body @ [LitRune 47]"
    using assms(1) by (auto simp: rule_ok_def)
  have "rsearch (body @ [LitRune 47]) True (runes dir @ 47 # runes sub)"
    using assms(2) rsearch_extend [OF body(1), of "[LitRune 47]" "47 # runes sub" True "runes dir"]
      rsearch_append [of "body @ [LitRune 47]" True "runes dir" "47 # runes sub"]
    by (auto simp: ruleIgnores_def MatchString_def body)
  then show ?thesis by (simp add: ruleIgnores_def MatchString_def body runes_slash)
qed

lemma isGitPath_below:
  assumes "isGitPath dir"
  shows "isGitPath (dir @ slash # sub)"
proof -
  have s: "str ''.git/'' = str ''.git'' @ [slash]" "str ''/.git/'' = str ''/.git'' @ [slash]" by (simp_all add: str_def)
  from assms consider "dir = str ''.git''" | "prefix (str ''.git/'') dir" | "sublist (str ''/.git/'') dir"
    | "suffix (str ''/.git'') dir"
    by (auto simp: isGitPath_def HasPrefix_def HasSuffix_def Contains_iff)
  then have "prefix (str ''.git/'') (dir @ slash # sub) \<or> sublist (str ''/.git/'') (dir @ slash # sub)"
  proof cases
    case 1
    then show ?thesis by (simp add: s)
  next
    case 3
    then show ?thesis by (auto simp: sublist_append)
  next
    case 4
    then obtain z where "dir = z @ str ''/.git''" by (auto simp: suffix_def)
    then have "dir @ slash # sub = z @ str ''/.git/'' @ sub" by (simp add: s)
    then show ?thesis by (metis sublist_appendI)
  qed simp
  then show ?thesis by (auto simp: isGitPath_def HasPrefix_def Contains_iff)
qed

lemma Ignored_below:
  assumes "\<forall>r \<in> set rules. rule_ok r" and "Ignored rules dir True"
  shows "Ignored rules (dir @ slash # sub) isDir"
proof (cases "isGitPath dir")
  case True
  then show ?thesis by (simp add: Ignored_def isGitPath_below)
next
  case False
  then obtain r where "r \<in> set rules" "ruleIgnores r dir True" using assms(2) by (auto simp: Ignored_def)
  moreover from this have "ruleIgnores r (dir @ slash # sub) isDir" using assms(1) by (intro ruleIgnores_below) auto
  ultimately show ?thesis by (auto simp: Ignored_def)
qed

subsection \<open>The tree of .gitignore files\<close>

text \<open>What the tree answers when its cache agrees with the files.\<close>

definition gitRules :: "(gostring \<Rightarrow> bytes option) \<Rightarrow> gostring list \<Rightarrow> nat \<Rightarrow> rule list" where
  "gitRules gi parts i = loadGitignoreFile (gi (gitDir parts i))"

definition gitMatches :: "(gostring \<Rightarrow> bytes option) \<Rightarrow> gostring \<Rightarrow> bool \<Rightarrow> bool" where
  "gitMatches gi rel isDir \<longleftrightarrow>
     (\<exists>i < length (splitSlash rel). \<exists>r \<in> set (gitRules gi (splitSlash rel) i).
        ruleIgnores r (joinSlash (drop i (splitSlash rel))) isDir)"

definition cache_ok :: "(gostring \<Rightarrow> bytes option) \<Rightarrow> GitignoreTree \<Rightarrow> bool" where
  "cache_ok gi g \<longleftrightarrow> (\<forall>dir rules. gt_dirs g dir = Some rules \<longrightarrow> rules = loadGitignoreFile (gi dir))"

lemma cache_ok_New [simp]: "cache_ok gi (NewGitignoreTree root)"
  by (simp add: cache_ok_def NewGitignoreTree_def)

lemma loadDir_ok:
  assumes "cache_ok gi g"
  shows "fst (loadDir gi g dir) = loadGitignoreFile (gi dir) \<and> cache_ok gi (snd (loadDir gi g dir))"
  using assms by (auto simp: loadDir_def cache_ok_def Let_def split: option.splits)

lemma gitIgnored_loop_ok:
  "cache_ok gi g \<Longrightarrow>
     fst (gitIgnored_loop gi parts isDir is g) \<longleftrightarrow>
       (\<exists>i \<in> set is. \<exists>r \<in> set (gitRules gi parts i). ruleIgnores r (joinSlash (drop i parts)) isDir)"
  "cache_ok gi g \<Longrightarrow> cache_ok gi (snd (gitIgnored_loop gi parts isDir is g))"
proof (induction "is" arbitrary: g)
  case (Cons i "is")
  let ?dir = "gitDir parts i"
  {
    case 1
    obtain rules g' where l: "loadDir gi g ?dir = (rules, g')" by (cases "loadDir gi g ?dir")
    from loadDir_ok [OF \<open>cache_ok gi g\<close>, of ?dir] have "rules = gitRules gi parts i" "cache_ok gi g'"
      unfolding l gitRules_def by simp_all
    with Cons.IH(1) [of g'] l show ?case by auto
  next
    case 2
    obtain rules g' where l: "loadDir gi g ?dir = (rules, g')" by (cases "loadDir gi g ?dir")
    from loadDir_ok [OF \<open>cache_ok gi g\<close>, of ?dir] have "cache_ok gi g'" unfolding l by simp
    with Cons.IH(2) [of g'] l show ?case by auto
  }
qed simp_all

lemma gitIgnored_ok:
  assumes "cache_ok gi g"
  shows "fst (gitIgnored gi g rel isDir) \<longleftrightarrow> gitMatches gi rel isDir" "cache_ok gi (snd (gitIgnored gi g rel isDir))"
  using gitIgnored_loop_ok [OF assms] by (auto simp: gitIgnored_def gitMatches_def Let_def)

lemma splitSlash_ne [simp]: "splitSlash s \<noteq> []"
  by (induction s) (auto split: list.splits)

lemma splitSlash_append: "splitSlash (p @ slash # q) = splitSlash p @ splitSlash q"
  by (induction p) (auto split: list.splits)

lemma joinSlash_append: "ps \<noteq> [] \<Longrightarrow> qs \<noteq> [] \<Longrightarrow> joinSlash (ps @ qs) = joinSlash ps @ slash # joinSlash qs"
  by (induction ps rule: joinSlash.induct) (auto simp: neq_Nil_conv)

lemma joinSlash_split [simp]: "joinSlash (splitSlash s) = s"
proof (induction s)
  case (Cons c s)
  obtain p ps where "splitSlash s = p # ps" using splitSlash_ne [of s] by (cases "splitSlash s") auto
  with Cons show ?case by (cases ps) auto
qed simp

lemma gitMatches_below:
  assumes "gitMatches gi dir True"
  shows "gitMatches gi (dir @ slash # sub) isDir"
proof -
  let ?ps = "splitSlash dir"
  obtain i r where i: "i < length ?ps" "r \<in> set (gitRules gi ?ps i)" "ruleIgnores r (joinSlash (drop i ?ps)) True"
    using assms by (auto simp: gitMatches_def)
  have "gitRules gi (?ps @ splitSlash sub) i = gitRules gi ?ps i" using i(1) by (simp add: gitRules_def gitDir_def)
  moreover have "joinSlash (drop i (?ps @ splitSlash sub)) = joinSlash (drop i ?ps) @ slash # sub"
    using i(1) by (simp add: joinSlash_append)
  moreover have "rule_ok r"
    using i(2) LoadRules_ok unfolding gitRules_def loadGitignoreFile_def LoadRules_def by blast
  ultimately show ?thesis
    unfolding gitMatches_def splitSlash_append
    using i ruleIgnores_below [of r "joinSlash (drop i ?ps)" sub isDir] by (intro exI [of _ i]) auto
qed

subsection \<open>Rules that name a file or a directory\<close>

lemma LitRunes_match:
  "rmatch (map LitRune cs @ ts) b s \<longleftrightarrow> (\<exists>s'. s = cs @ s' \<and> rmatch ts (b \<and> cs = []) s')"
proof (induction cs arbitrary: b s)
  case (Cons c cs)
  then show ?case by (cases s) auto
qed simp

lemma AnyRun_slash:
  "10 \<notin> set s \<Longrightarrow> rmatch (AnyRun # LitRune 47 # ts) b s \<longleftrightarrow> (\<exists>u v. s = u @ 47 # v \<and> rmatch ts False v)"
proof (induction s arbitrary: b)
  case (Cons x s)
  have "(\<exists>u v. x # s = u @ 47 # v \<and> rmatch ts False v) \<longleftrightarrow>
      x = 47 \<and> rmatch ts False s \<or> (\<exists>u v. s = u @ 47 # v \<and> rmatch ts False v)"
    by (auto simp: Cons_eq_append_conv)
  with Cons show ?case by auto
qed simp

text \<open>A rule that starts at a directory boundary matches at the beginning or behind some slash.\<close>

lemma rsearch_BolOrDirs:
  assumes "10 \<notin> set s" and "\<And>b b' s. rmatch ts b s = rmatch ts b' s"
  shows "rsearch (BolOrDirs # ts) b s \<longleftrightarrow> b \<and> rmatch ts False s \<or> (\<exists>u v. s = u @ 47 # v \<and> rmatch ts False v)"
  using assms(1)
proof (induction s arbitrary: b)
  case Nil
  then show ?case using assms(2) by auto
next
  case (Cons x s)
  have "10 \<notin> set s" using Cons.prems by simp
  note IH = Cons.IH [OF this, of False]
  have "rmatch (BolOrDirs # ts) b (x # s) \<longleftrightarrow> b \<and> rmatch ts False (x # s) \<or> (\<exists>u v. x # s = u @ 47 # v \<and> rmatch ts False v)"
    using AnyRun_slash [OF Cons.prems, of ts b] assms(2) [of b _ False] by (simp del: rmatch_AnyRun)
  moreover have "\<exists>u v. x # s = u @ 47 # v \<and> rmatch ts False v" if "\<exists>u v. s = u @ 47 # v \<and> rmatch ts False v"
    using that by (metis append_Cons)
  ultimately show ?case using IH by auto
qed

lemma rune_bounds:
  fixes b0 b1 :: byte
  shows "0xC2 \<le> b0 \<Longrightarrow> 0x80 \<le> (unat b0 - 0xC0) * 64 + x"
    and "0xE0 \<le> b0 \<Longrightarrow> (b0 = 0xE0 \<longrightarrow> 0xA0 \<le> b1) \<Longrightarrow> 0x80 \<le> (unat b0 - 0xE0) * 4096 + (unat b1 - 0x80) * 64 + x"
    and "0xF0 \<le> b0 \<Longrightarrow> (b0 = 0xF0 \<longrightarrow> 0x90 \<le> b1) \<Longrightarrow>
      0x80 \<le> (unat b0 - 0xF0) * 262144 + (unat b1 - 0x80) * 4096 + y + x"
proof -
  show "0xC2 \<le> b0 \<Longrightarrow> 0x80 \<le> (unat b0 - 0xC0) * 64 + x"
  proof -
    assume "0xC2 \<le> b0"
    then have "2 \<le> unat b0 - 0xC0" by (simp add: word_le_nat_alt)
    then have "2 * 64 \<le> (unat b0 - 0xC0) * 64" by (rule mult_le_mono1)
    then show ?thesis by linarith
  qed
  show "0x80 \<le> (unat b0 - 0xE0) * 4096 + (unat b1 - 0x80) * 64 + x"
    if "0xE0 \<le> b0" "b0 = 0xE0 \<longrightarrow> 0xA0 \<le> b1"
  proof (cases "b0 = 0xE0")
    case True
    with that have "0x20 \<le> unat b1 - 0x80" by (simp add: word_le_nat_alt)
    then have "0x20 * 64 \<le> (unat b1 - 0x80) * 64" by (rule mult_le_mono1)
    then show ?thesis by linarith
  next
    case False
    with that(1) have "unat b0 \<noteq> 0xE0" "0xE0 \<le> unat b0" by (simp_all add: word_unat_eq_iff word_le_nat_alt)
    then have "1 \<le> unat b0 - 0xE0" by linarith
    then have "1 * 4096 \<le> (unat b0 - 0xE0) * 4096" by (rule mult_le_mono1)
    then show ?thesis by linarith
  qed
  show "0x80 \<le> (unat b0 - 0xF0) * 262144 + (unat b1 - 0x80) * 4096 + y + x"
    if "0xF0 \<le> b0" "b0 = 0xF0 \<longrightarrow> 0x90 \<le> b1"
  proof (cases "b0 = 0xF0")
    case True
    with that have "0x10 \<le> unat b1 - 0x80" by (simp add: word_le_nat_alt)
    then have "0x10 * 4096 \<le> (unat b1 - 0x80) * 4096" by (rule mult_le_mono1)
    then show ?thesis by linarith
  next
    case False
    with that(1) have "unat b0 \<noteq> 0xF0" "0xF0 \<le> unat b0" by (simp_all add: word_unat_eq_iff word_le_nat_alt)
    then have "1 \<le> unat b0 - 0xF0" by linarith
    then have "1 * 262144 \<le> (unat b0 - 0xF0) * 262144" by (rule mult_le_mono1)
    then show ?thesis by linarith
  qed
qed

lemma DecodeRune_ascii:
  assumes "p \<noteq> []" and "fst (DecodeRune p) < 0x80"
  shows "DecodeRune p = (unat (hd p), 1)" and "hd p < 0x80"
proof -
  obtain b0 q where p: "p = b0 # q" using assms(1) by (cases p) auto
  have "b0 < 0x80"
  proof (rule ccontr)
    assume n: "\<not> b0 < 0x80"
    have "0x80 \<le> fst (DecodeRune (b0 # q))"
    proof (cases q)
      case (Cons b1 q1)
      show ?thesis
      proof (cases q1)
        case q1: (Cons b2 q2)
        show ?thesis
          using n rune_bounds [of b0] by (cases q2) (simp_all only: DecodeRune_def Cons q1 list.case if_False, auto)
      qed (use n rune_bounds [of b0] Cons in \<open>auto simp: DecodeRune_def\<close>)
    qed (use n in \<open>simp add: DecodeRune_def\<close>)
    with assms(2) show False by (simp add: p)
  qed
  then show "hd p < 0x80" "DecodeRune p = (unat (hd p), 1)"
    using p by (simp_all add: DecodeRune_def)
qed

lemma runes_Nil_iff [simp]: "runes s = [] \<longleftrightarrow> s = []"
  by (subst runes.simps) simp

lemma runes_Nil [simp]: "runes [] = []"
  by simp

lemma runes_Cons_ascii:
  assumes "runes s = c # v" and "c < 0x80"
  shows "\<exists>b s'. s = b # s' \<and> unat b = c \<and> runes s' = v"
proof -
  have ne: "s \<noteq> []" using assms(1) by (metis list.distinct(1) runes_Nil_iff)
  with assms(1) have "fst (DecodeRune s) = c" "runes (drop (snd (DecodeRune s)) s) = v"
    by (simp_all add: runes.simps [of s])
  moreover from this(1) assms(2) have "DecodeRune s = (unat (hd s), 1)" using DecodeRune_ascii(1) [OF ne] by simp
  ultimately show ?thesis using ne by (cases s) auto
qed

lemma runes_split:
  "runes s = u @ 47 # v \<Longrightarrow> \<exists>s1 s2. s = s1 @ slash # s2 \<and> runes s1 = u \<and> runes s2 = v"
proof (induction u arbitrary: s)
  case Nil
  then obtain b s' where "s = b # s'" "unat b = 47" "runes s' = v" using runes_Cons_ascii [of s 47 v] by auto
  moreover have "b = slash" using \<open>unat b = 47\<close> by (simp add: word_unat_eq_iff)
  ultimately show ?case by (intro exI [of _ "[]"] exI [of _ s']) simp
next
  case (Cons r u)
  let ?w = "snd (DecodeRune s)"
  have ne: "s \<noteq> []" using Cons.prems by auto
  with Cons.prems have r: "fst (DecodeRune s) = r" "runes (drop ?w s) = u @ 47 # v" by (simp_all add: runes.simps [of s])
  then obtain s1 s2 where s: "drop ?w s = s1 @ slash # s2" "runes s1 = u" "runes s2 = v" using Cons.IH by blast
  have eq: "s = (take ?w s @ s1) @ slash # s2" using s(1) append_take_drop_id [of ?w s] by simp
  have w: "0 < ?w" "?w \<le> length s" using DecodeRune_width DecodeRune_length ne by simp_all
  then have ne': "take ?w s @ s1 \<noteq> []" using ne by simp
  have "DecodeRune (take ?w s @ s1) = DecodeRune s" using DecodeRune_slash [OF ne', of s2] eq by simp
  then have "runes (take ?w s @ s1) = r # u" using ne' r(1) w s(2) by (simp add: runes.simps [of "take ?w s @ s1"])
  with eq s(3) show ?case by blast
qed

lemma runes_ascii_inj:
  "\<forall>c \<in> set name. c < 0x80 \<Longrightarrow> runes s = map unat name \<longleftrightarrow> s = name"
proof (induction name arbitrary: s)
  case (Cons c name)
  have c: "unat c < 0x80" using Cons.prems by (simp add: word_less_nat_alt)
  have "DecodeRune (c # s) = (unat c, 1)" for s using Cons.prems by (simp add: DecodeRune_def)
  then have "runes (c # s) = unat c # runes s" for s by (simp add: runes.simps [of "c # s"])
  then show ?case using Cons runes_Cons_ascii [of s "unat c" "map unat name"] c
    by (auto simp: word_unat_eq_iff)
qed simp

lemma runes_component:
  assumes "\<forall>c \<in> set name. c < 0x80"
  shows "(\<exists>u. runes s = u @ 47 # map unat name) \<longleftrightarrow> (\<exists>p. s = p @ slash # name)"
    and "(\<exists>v. runes s = map unat name @ 47 # v) \<longleftrightarrow> (\<exists>q. s = name @ slash # q)"
    and "(\<exists>u v. runes s = u @ 47 # map unat name @ 47 # v) \<longleftrightarrow> (\<exists>p q. s = p @ slash # name @ slash # q)"
proof -
  note inj = runes_ascii_inj [OF assms]
  have self: "runes name = map unat name" using inj [of name] by blast
  show "(\<exists>u. runes s = u @ 47 # map unat name) \<longleftrightarrow> (\<exists>p. s = p @ slash # name)"
  proof
    assume "\<exists>u. runes s = u @ 47 # map unat name"
    then obtain s1 s2 where "s = s1 @ slash # s2" "runes s2 = map unat name" using runes_split by blast
    with inj show "\<exists>p. s = p @ slash # name" by blast
  qed (auto simp: runes_slash self)
  show two: "(\<exists>v. runes s = map unat name @ 47 # v) \<longleftrightarrow> (\<exists>q. s = name @ slash # q)" for s
  proof
    assume "\<exists>v. runes s = map unat name @ 47 # v"
    then obtain s1 s2 where "s = s1 @ slash # s2" "runes s1 = map unat name" using runes_split by blast
    with inj show "\<exists>q. s = name @ slash # q" by blast
  qed (auto simp: runes_slash self)
  show "(\<exists>u v. runes s = u @ 47 # map unat name @ 47 # v) \<longleftrightarrow> (\<exists>p q. s = p @ slash # name @ slash # q)"
  proof
    assume "\<exists>u v. runes s = u @ 47 # map unat name @ 47 # v"
    then obtain s1 s2 v where s: "s = s1 @ slash # s2" "runes s2 = map unat name @ 47 # v" using runes_split by blast
    then obtain q where "s2 = name @ slash # q" using two [of s2] by blast
    with s(1) show "\<exists>p q. s = p @ slash # name @ slash # q" by blast
  next
    assume "\<exists>p q. s = p @ slash # name @ slash # q"
    then obtain p q where "runes s = runes p @ 47 # map unat name @ 47 # runes q" by (auto simp: runes_slash self)
    then show "\<exists>u v. runes s = u @ 47 # map unat name @ 47 # v" by blast
  qed
qed

lemma runes_newline: "10 \<in> set (runes s) \<Longrightarrow> newline \<in> set s"
proof (induction s rule: runes.induct)
  case (1 s)
  show ?case
  proof (cases "s = []")
    case False
    with 1(2) consider "fst (DecodeRune s) = 10" | "10 \<in> set (runes (drop (snd (DecodeRune s)) s))"
      by (auto simp: runes.simps [of s])
    then show ?thesis
    proof cases
      case 1
      with DecodeRune_ascii(1) [OF False] have "unat (hd s) = 10" by simp
      then have "hd s = newline" by (simp add: word_unat_eq_iff)
      with False show ?thesis by (metis hd_in_set)
    next
      case 2
      with 1(1) [OF False] show ?thesis by (meson in_set_dropD)
    qed
  qed (use 1(2) in simp)
qed

lemma splitSlash_plain: "slash \<notin> set name \<Longrightarrow> splitSlash name = [name]"
  by (induction name) auto

lemma splitSlash_name:
  assumes "slash \<notin> set name"
  shows "List.last (splitSlash s) = name \<longleftrightarrow> s = name \<or> (\<exists>p. s = p @ slash # name)"
    and "name \<in> set (butlast (splitSlash s)) \<longleftrightarrow>
      (\<exists>q. s = name @ slash # q) \<or> (\<exists>p q. s = p @ slash # name @ slash # q)"
proof -
  note one = splitSlash_plain [OF assms]
  let ?ps = "splitSlash s"
  have s: "s = joinSlash (butlast ?ps @ [List.last ?ps])" by simp
  show "List.last ?ps = name \<longleftrightarrow> s = name \<or> (\<exists>p. s = p @ slash # name)"
  proof
    assume l: "List.last ?ps = name"
    show "s = name \<or> (\<exists>p. s = p @ slash # name)"
    proof (cases "butlast ?ps = []")
      case True
      with s l show ?thesis by (metis append_Nil joinSlash.simps(2))
    next
      case False
      then have "s = joinSlash (butlast ?ps) @ slash # name"
        using s l joinSlash_append [of "butlast ?ps" "[name]"] by simp
      then show ?thesis by blast
    qed
  qed (auto simp: splitSlash_append one)
  show "name \<in> set (butlast ?ps) \<longleftrightarrow> (\<exists>q. s = name @ slash # q) \<or> (\<exists>p q. s = p @ slash # name @ slash # q)"
  proof
    assume "name \<in> set (butlast ?ps)"
    then obtain as bs where b: "butlast ?ps = as @ name # bs" by (meson split_list)
    let ?rest = "bs @ [List.last ?ps]"
    have "s = joinSlash (as @ [name] @ ?rest)" using s b by simp
    moreover have "joinSlash ([name] @ ?rest) = name @ slash # joinSlash ?rest"
      using joinSlash_append [of "[name]" ?rest] by simp
    moreover have "as \<noteq> [] \<Longrightarrow> joinSlash (as @ [name] @ ?rest) = joinSlash as @ slash # joinSlash ([name] @ ?rest)"
      by (rule joinSlash_append) simp_all
    ultimately show "(\<exists>q. s = name @ slash # q) \<or> (\<exists>p q. s = p @ slash # name @ slash # q)"
      by (cases "as = []") auto
  next
    assume "(\<exists>q. s = name @ slash # q) \<or> (\<exists>p q. s = p @ slash # name @ slash # q)"
    then show "name \<in> set (butlast ?ps)"
      by (auto simp: splitSlash_append one butlast_append)
  qed
qed

lemma patternBody_plain: "42 \<notin> set name \<Longrightarrow> 63 \<notin> set name \<Longrightarrow> patternBody name = map LitRune (map unat name)"
  by (induction name) auto

lemma compile_plain:
  assumes "slash \<notin> set name" and "42 \<notin> set name" and "63 \<notin> set name"
  shows "compile (name @ (if dirOnly then [slash] else [])) =
    Some \<lparr>ru_exact = BolOrDirs # map LitRune (map unat name) @ [Eol],
          ru_prefix = BolOrDirs # map LitRune (map unat name) @ [LitRune 47], ru_dirOnly = dirOnly\<rparr>"
proof -
  have n: "\<not> HasPrefix name [slash]" "\<not> Contains name [slash]" "\<not> suffix [slash] name"
    using assms(1) by (auto simp: HasPrefix_def Contains_iff sublist_def suffix_def prefix_def)
  then show ?thesis
    by (cases dirOnly) (simp_all add: compile_def str_def HasSuffix_def TrimSuffix_def TrimPrefix_def Let_def
        patternBody_plain [OF assms(2,3)])
qed

subsection \<open>Properties\<close>

text \<open>C33. A rule that is an ASCII name without wildcards and slashes, with or without a slash at its end, excludes exactly those of the
  paths without a newline that have a component of that name: a directory above the file, or the last component, which a
  rule with a slash at its end excludes only when it is a directory. (A rule with a byte above 0x7F is quoted byte by byte and matches
  no path of its name; a dot in the regular expression does not match a newline.)\<close>

theorem plain_rule_exact:
  assumes "name \<noteq> []" and "\<forall>c \<in> set name. c < 0x80 \<and> c \<noteq> slash \<and> c \<noteq> 42 \<and> c \<noteq> 63" and "newline \<notin> set rel"
    and "compile (name @ (if dirOnly then [slash] else [])) = Some r"
  shows "ruleIgnores r rel isDir \<longleftrightarrow>
    name \<in> set (butlast (splitSlash rel)) \<or> List.last (splitSlash rel) = name \<and> (isDir \<or> \<not> dirOnly)"
proof -
  let ?n = "map LitRune (map unat name)"
  have plain: "slash \<notin> set name" "42 \<notin> set name" "63 \<notin> set name" "\<forall>c \<in> set name. c < 0x80" using assms(2) by auto
  have r: "r = \<lparr>ru_exact = BolOrDirs # ?n @ [Eol], ru_prefix = BolOrDirs # ?n @ [LitRune 47], ru_dirOnly = dirOnly\<rparr>"
    using assms(4) compile_plain [OF plain(1-3), of dirOnly] by simp
  have nl: "10 \<notin> set (runes rel)" using assms(3) runes_newline by blast
  have free: "rmatch (?n @ [t]) b s = rmatch (?n @ [t]) b' s" for t b b' s
    using assms(1) by (simp add: LitRunes_match del: map_map)
  have e: "rmatch [LitRune 47] b s \<longleftrightarrow> (\<exists>v. s = 47 # v)" "rmatch [Eol] b s \<longleftrightarrow> s = []" for b s
    by (cases s; simp)+
  have m: "rmatch (?n @ [Eol]) False s \<longleftrightarrow> s = map unat name"
    "rmatch (?n @ [LitRune 47]) False s \<longleftrightarrow> (\<exists>v. s = map unat name @ 47 # v)" for s
    by (auto simp: LitRunes_match e simp del: map_map rmatch.simps)
  note c = runes_component [OF plain(4)]
  have "MatchString (ru_exact r) rel \<longleftrightarrow> rel = name \<or> (\<exists>p. rel = p @ slash # name)"
    unfolding r MatchString_def using rsearch_BolOrDirs [OF nl free, of Eol True]
    by (simp add: m runes_ascii_inj [OF plain(4)] c del: map_map)
  moreover have "MatchString (ru_prefix r) rel \<longleftrightarrow>
      (\<exists>q. rel = name @ slash # q) \<or> (\<exists>p q. rel = p @ slash # name @ slash # q)"
    unfolding r MatchString_def using rsearch_BolOrDirs [OF nl free, of "LitRune 47" True]
    by (simp add: m c(2,3) [symmetric] del: map_map) blast
  moreover have "ru_dirOnly r = dirOnly" by (simp add: r)
  ultimately show ?thesis
    unfolding ruleIgnores_def splitSlash_name [OF plain(1)] by auto
qed

theorem plain_rule_exact_witness:
  "\<exists>r. compile (str ''node_modules/'') = Some r \<and> \<not> ruleIgnores r (str ''node_modules'') False \<and>
     ruleIgnores r (str ''a/node_modules/x.js'') False"
proof -
  have n: "str ''node_modules'' \<noteq> []" "\<forall>c \<in> set (str ''node_modules''). c < 0x80 \<and> c \<noteq> slash \<and> c \<noteq> 42 \<and> c \<noteq> 63"
    by code_simp+
  obtain r where r: "compile (str ''node_modules'' @ (if True then [slash] else [])) = Some r"
    by (simp only: compile_def Let_def)
  have eq: "str ''node_modules/'' = str ''node_modules'' @ (if True then [slash] else [])" by (simp add: str_def)
  have "newline \<notin> set (str ''node_modules'')" "newline \<notin> set (str ''a/node_modules/x.js'')" by code_simp+
  note ex = plain_rule_exact [OF n this(1) r, of False] plain_rule_exact [OF n this(2) r, of False]
  have "str ''node_modules'' \<in> set (butlast (splitSlash (str ''a/node_modules/x.js'')))"
    "str ''node_modules'' \<notin> set (butlast (splitSlash (str ''node_modules'')))" by code_simp+
  with ex r show ?thesis unfolding eq by auto
qed

end
