(* ===== verification/Walk.thy ===== *)
theory Walk
  imports Ignore Manifest
begin

text \<open>
  \<open>internal/walkdir\<close>: the directory walker of the indexer and the watcher, and what its two users in
  the daemon collect with it (\<open>listFiles\<close> and \<open>listUnder\<close> of \<open>daemon/store.go\<close>). What the operating system
  answers during one walk is the record \<open>osview\<close>. The walk is given fuel, since a view in which
  directories contain each other without end would be walked forever; it returns \<open>None\<close> when the
  fuel runs out, and \<open>Walk_terminates\<close> gives fuel that is always enough.
\<close>

subsection \<open>What the operating system answers\<close>

record fileinfo =
  fi_isDir :: bool
  fi_regular :: bool
  fi_size :: int
  fi_mtime :: int

text \<open>An entry that \<open>os.ReadDir\<close> returns; \<open>dn_info\<close> is what \<open>Info()\<close> returns, \<open>None\<close> for an error.\<close>

record dirent =
  dn_name :: gostring
  dn_isLink :: bool
  dn_info :: "fileinfo option"

record osview =
  os_ReadDir :: "gostring \<Rightarrow> dirent list option"
  os_Stat :: "gostring \<Rightarrow> fileinfo option"
  os_EvalSymlinks :: "gostring \<Rightarrow> gostring option"

text \<open>What the callback returns: \<open>nil\<close>, \<open>fs.SkipDir\<close> or another error.\<close>

datatype verdict = Continue | SkipDir | Failed

subsection \<open>walkdir.go\<close>

text \<open>The callback threads a state. The result is the set of link targets seen, the state and
  whether the walk ended with an error.\<close>

function (sequential)
  walk :: "nat \<Rightarrow> osview \<Rightarrow> bool \<Rightarrow> ('st \<Rightarrow> gostring \<Rightarrow> bool \<Rightarrow> fileinfo \<Rightarrow> 'st \<times> verdict) \<Rightarrow> gostring \<Rightarrow>
      gostring set \<Rightarrow> 'st \<Rightarrow> (gostring set \<times> 'st \<times> bool) option"
  and walkEntries :: "nat \<Rightarrow> osview \<Rightarrow> bool \<Rightarrow> ('st \<Rightarrow> gostring \<Rightarrow> bool \<Rightarrow> fileinfo \<Rightarrow> 'st \<times> verdict) \<Rightarrow> gostring \<Rightarrow>
      dirent list \<Rightarrow> gostring set \<Rightarrow> 'st \<Rightarrow> (gostring set \<times> 'st \<times> bool) option"
where
  "walk 0 os follow fn dir seen st = None"
| "walk (Suc n) os follow fn dir seen st =
     (case os_ReadDir os dir of
        None \<Rightarrow> Some (seen, st, False)
      | Some entries \<Rightarrow> walkEntries n os follow fn dir entries seen st)"
| "walkEntries n os follow fn dir [] seen st = Some (seen, st, False)"
| "walkEntries n os follow fn dir (e # es) seen st =
     (let path = Join dir (dn_name e) in
      if dn_isLink e \<and> \<not> follow then walkEntries n os follow fn dir es seen st
      else case (if dn_isLink e then os_Stat os path else dn_info e) of
        None \<Rightarrow> walkEntries n os follow fn dir es seen st
      | Some fi \<Rightarrow>
          if fi_isDir fi then
            (case (if dn_isLink e then
                     (case os_EvalSymlinks os path of
                        None \<Rightarrow> None
                      | Some real \<Rightarrow> if real \<in> seen then None else Some (insert real seen))
                   else Some seen) of
               None \<Rightarrow> walkEntries n os follow fn dir es seen st
             | Some seen' \<Rightarrow>
                 (case fn st path True fi of
                    (st', SkipDir) \<Rightarrow> walkEntries n os follow fn dir es seen' st'
                  | (st', _) \<Rightarrow>
                      (case walk n os follow fn path seen' st' of
                         None \<Rightarrow> None
                       | Some (seen'', st'', True) \<Rightarrow> Some (seen'', st'', True)
                       | Some (seen'', st'', False) \<Rightarrow> walkEntries n os follow fn dir es seen'' st'')))
          else if fi_regular fi then
            (case fn st path False fi of
               (st', Failed) \<Rightarrow> Some (seen, st', True)
             | (st', _) \<Rightarrow> walkEntries n os follow fn dir es seen st')
          else walkEntries n os follow fn dir es seen st)"
  by pat_completeness auto
termination
  by (relation "measures [\<lambda>x. case x of Inl (n, _) \<Rightarrow> 2 * n | Inr (n, _) \<Rightarrow> 2 * n + 1,
      \<lambda>x. case x of Inl _ \<Rightarrow> 0 | Inr (n, os, follow, fn, dir, es, _) \<Rightarrow> length es]") auto

lemma walkEntries_other:
  assumes "dn_isLink e \<or> dn_info e = None \<or> (\<exists>fi. dn_info e = Some fi \<and> \<not> fi_isDir fi \<and> \<not> fi_regular fi)"
  shows "walkEntries n os False fn dir (e # es) seen st = walkEntries n os False fn dir es seen st"
  using assms by (cases "dn_info e") (auto simp: Let_def)

lemma walkEntries_regular:
  assumes "\<not> dn_isLink e" and "dn_info e = Some fi" and "\<not> fi_isDir fi" and "fi_regular fi"
    and "fn st (Join dir (dn_name e)) False fi = (st', v)" and "v \<noteq> Failed"
  shows "walkEntries n os follow fn dir (e # es) seen st = walkEntries n os follow fn dir es seen st'"
  using assms by (cases v) (simp_all add: Let_def)

lemma walkEntries_skipped:
  assumes "\<not> dn_isLink e" and "dn_info e = Some fi" and "fi_isDir fi"
    and "fn st (Join dir (dn_name e)) True fi = (st', SkipDir)"
  shows "walkEntries n os follow fn dir (e # es) seen st = walkEntries n os follow fn dir es seen st'"
  using assms by (simp add: Let_def)

lemma walkEntries_entered:
  assumes "\<not> dn_isLink e" and "dn_info e = Some fi" and "fi_isDir fi"
    and "fn st (Join dir (dn_name e)) True fi = (st', Continue)"
  shows "walkEntries n os follow fn dir (e # es) seen st =
    (case walk n os follow fn (Join dir (dn_name e)) seen st' of
       None \<Rightarrow> None
     | Some (seen'', st'', err) \<Rightarrow> if err then Some (seen'', st'', True) else walkEntries n os follow fn dir es seen'' st'')"
  using assms by (auto simp: Let_def split: option.split)

declare walkEntries.simps(2) [simp del]

definition Walk :: "nat \<Rightarrow> osview \<Rightarrow> bool \<Rightarrow> ('st \<Rightarrow> gostring \<Rightarrow> bool \<Rightarrow> fileinfo \<Rightarrow> 'st \<times> verdict) \<Rightarrow> gostring \<Rightarrow>
    'st \<Rightarrow> (gostring set \<times> 'st \<times> bool) option" where
  "Walk n os follow fn root st =
     (let seen = (if follow then (case os_EvalSymlinks os root of None \<Rightarrow> {} | Some real \<Rightarrow> {real}) else {})
      in walk n os follow fn root seen st)"

subsection \<open>The daemon's listings\<close>

text \<open>\<open>filepath.Rel\<close> for a path of the walk, which is the root or lies below it.\<close>

definition Rel :: "gostring \<Rightarrow> gostring \<Rightarrow> gostring option" where
  "Rel root path =
     (if path = root then Some (str ''.'')
      else if HasPrefix path (root @ [slash]) then Some (drop (length root + 1) path) else None)"

lemma Rel_below [simp]: "Rel root (root @ slash # rel) = Some rel"
  by (simp add: Rel_def HasPrefix_def)

definition CookiePrefix :: gostring where "CookiePrefix = str ''.gcgrep-cookie-''"

definition afterSlash :: "gostring \<Rightarrow> gostring" where
  "afterSlash rel = (case LastIndexByte rel slash of None \<Rightarrow> rel | Some i \<Rightarrow> drop (i + 1) rel)"

definition isCookie :: "gostring \<Rightarrow> bool" where
  "isCookie rel \<longleftrightarrow> HasPrefix (afterSlash rel) CookiePrefix"

record fileStat =
  fs_rel :: gostring
  fs_size :: int
  fs_mtimeNS :: int

definition listFilesFn ::
    "(gostring \<Rightarrow> bool \<Rightarrow> bool) \<Rightarrow> gostring \<Rightarrow> fileStat list \<Rightarrow> gostring \<Rightarrow> bool \<Rightarrow> fileinfo \<Rightarrow> fileStat list \<times> verdict" where
  "listFilesFn ign root out path isDir fi =
     (case Rel root path of
        None \<Rightarrow> (out, Continue)
      | Some rel \<Rightarrow>
          if rel = str ''.'' then (out, Continue)
          else if isDir then (out, if ign rel True then SkipDir else Continue)
          else if ign rel False \<or> isCookie rel then (out, Continue)
          else (out @ [\<lparr>fs_rel = rel, fs_size = fi_size fi, fs_mtimeNS = fi_mtime fi\<rparr>], Continue))"

definition listFiles ::
    "nat \<Rightarrow> osview \<Rightarrow> bool \<Rightarrow> (gostring \<Rightarrow> bool \<Rightarrow> bool) \<Rightarrow> gostring \<Rightarrow> fileStat list option" where
  "listFiles n os follow ign root = map_option (\<lambda>(_, out, _). out) (Walk n os follow (listFilesFn ign root) root [])"

definition listUnderFn ::
    "(gostring \<Rightarrow> bool \<Rightarrow> bool) \<Rightarrow> gostring \<Rightarrow> gostring \<Rightarrow> gostring list \<Rightarrow> gostring \<Rightarrow> bool \<Rightarrow> fileinfo \<Rightarrow>
       gostring list \<times> verdict" where
  "listUnderFn ign root relDir out path isDir fi =
     (case Rel root path of
        None \<Rightarrow> (out, Continue)
      | Some rel \<Rightarrow>
          if isDir then (out, if rel \<noteq> relDir \<and> ign rel True then SkipDir else Continue)
          else (if \<not> ign rel False then out @ [rel] else out, Continue))"

definition listUnder ::
    "nat \<Rightarrow> osview \<Rightarrow> bool \<Rightarrow> (gostring \<Rightarrow> bool \<Rightarrow> bool) \<Rightarrow> gostring \<Rightarrow> gostring \<Rightarrow> gostring list option" where
  "listUnder n os follow ign root relDir =
     map_option (\<lambda>(_, out, _). out) (Walk n os follow (listUnderFn ign root relDir) (Join root relDir) [])"

text \<open>The callback that collects every regular file.\<close>

definition collect :: "(gostring \<times> fileinfo) list \<Rightarrow> gostring \<Rightarrow> bool \<Rightarrow> fileinfo \<Rightarrow> (gostring \<times> fileinfo) list \<times> verdict" where
  "collect out path isDir fi = (if isDir then out else out @ [(path, fi)], Continue)"

subsection \<open>Pruning an ignored directory loses nothing\<close>

definition keepFile :: "(gostring \<Rightarrow> bool \<Rightarrow> bool) \<Rightarrow> gostring \<Rightarrow> gostring \<times> fileinfo \<Rightarrow> bool" where
  "keepFile ign root d \<longleftrightarrow>
     (case Rel root (fst d) of None \<Rightarrow> False | Some rel \<Rightarrow> rel \<noteq> str ''.'' \<and> \<not> ign rel False \<and> \<not> isCookie rel)"

definition statOf :: "gostring \<Rightarrow> gostring \<times> fileinfo \<Rightarrow> fileStat" where
  "statOf root d = \<lparr>fs_rel = the (Rel root (fst d)), fs_size = fi_size (snd d), fs_mtimeNS = fi_mtime (snd d)\<rparr>"

locale pruning =
  fixes ign :: "gostring \<Rightarrow> bool \<Rightarrow> bool"
  assumes below: "ign dir True \<Longrightarrow> ign (dir @ slash # sub) isDir"
begin

text \<open>\<open>A\<close> walks below \<open>dir\<close> without exclusions and \<open>B\<close> with them.\<close>

definition agrees where
  "agrees root dir A B \<longleftrightarrow>
     (\<forall>seen all r. A seen all = Some r \<longrightarrow>
        (\<exists>ds. r = (seen, all @ ds, False) \<and> (\<forall>d \<in> set ds. prefix (dir @ [slash]) (fst d)) \<and>
           (\<forall>out. B seen out = Some (seen, out @ map (statOf root) (filter (keepFile ign root) ds), False))))"

lemma agreesD:
  assumes "agrees root dir A B" and "A seen all = Some r"
  obtains ds where "r = (seen, all @ ds, False)" "\<forall>d \<in> set ds. prefix (dir @ [slash]) (fst d)"
    "\<And>out. B seen out = Some (seen, out @ map (statOf root) (filter (keepFile ign root) ds), False)"
  using assms unfolding agrees_def by blast

lemma ignored_dir_empty:
  assumes "Rel root path = Some rel" and "prefix (root @ [slash]) path" and "ign rel True"
    and "\<forall>d \<in> set ds. prefix (path @ [slash]) (fst d)"
  shows "filter (keepFile ign root) ds = []"
proof -
  have p: "path = root @ slash # rel" using assms(1,2) by (auto simp: Rel_def prefix_def HasPrefix_def split: if_splits)
  have "\<not> keepFile ign root d" if "d \<in> set ds" for d
  proof -
    have "prefix (path @ [slash]) (fst d)" using assms(4) that by blast
    then obtain sub where "fst d = root @ slash # (rel @ slash # sub)" using p by (auto simp: prefix_def)
    with below [OF assms(3)] show ?thesis by (simp add: keepFile_def)
  qed
  then show ?thesis by (simp add: filter_empty_conv)
qed

lemma entries_agree:
  assumes walk: "\<And>dir. prefix (root @ [slash]) dir \<Longrightarrow>
      agrees root dir (walk n os False collect dir) (walk n os False (listFilesFn ign root) dir)"
    and "dir = root \<or> prefix (root @ [slash]) dir"
  shows "agrees root dir (walkEntries n os False collect dir es) (walkEntries n os False (listFilesFn ign root) dir es)"
proof (induction es)
  case Nil
  show ?case by (simp add: agrees_def)
next
  case (Cons e es)
  let ?path = "Join dir (dn_name e)"
  obtain rel where path: "?path = root @ slash # rel" using assms(2) by (auto simp: Join_def prefix_def)
  have rel: "Rel root ?path = Some rel" and pre: "prefix (root @ [slash]) ?path" using path by simp_all
  have below_dir: "prefix (dir @ [slash]) p" if "prefix (?path @ [slash]) p" for p
    using that by (auto simp: Join_def prefix_def)
  show ?case
    unfolding agrees_def
  proof (intro allI impI)
    fix seen all r
    assume r: "walkEntries n os False collect dir (e # es) seen all = Some r"
    consider (other) "dn_isLink e \<or> dn_info e = None \<or> (\<exists>fi. dn_info e = Some fi \<and> \<not> fi_isDir fi \<and> \<not> fi_regular fi)"
      | (directory) fi where "\<not> dn_isLink e" "dn_info e = Some fi" "fi_isDir fi"
      | (regular) fi where "\<not> dn_isLink e" "dn_info e = Some fi" "\<not> fi_isDir fi" "fi_regular fi"
      by (cases "dn_info e") auto
    then show "\<exists>ds. r = (seen, all @ ds, False) \<and> (\<forall>d \<in> set ds. prefix (dir @ [slash]) (fst d)) \<and>
        (\<forall>out. walkEntries n os False (listFilesFn ign root) dir (e # es) seen out =
           Some (seen, out @ map (statOf root) (filter (keepFile ign root) ds), False))"
    proof cases
      case other
      note step = walkEntries_other [OF other]
      show ?thesis using r Cons.IH unfolding agrees_def step by blast
    next
      case (regular fi)
      from r regular have "walkEntries n os False collect dir es seen (all @ [(?path, fi)]) = Some r"
        using walkEntries_regular [where fn = collect and dir = dir and st = all, OF regular] by (simp add: collect_def)
      then obtain ds where ds: "r = (seen, (all @ [(?path, fi)]) @ ds, False)" "\<forall>d \<in> set ds. prefix (dir @ [slash]) (fst d)"
        "\<And>out. walkEntries n os False (listFilesFn ign root) dir es seen out =
           Some (seen, out @ map (statOf root) (filter (keepFile ign root) ds), False)"
        using agreesD [OF Cons.IH] by blast
      have "prefix (dir @ [slash]) ?path" by (simp add: Join_def)
      moreover have "walkEntries n os False (listFilesFn ign root) dir (e # es) seen out =
           Some (seen, out @ map (statOf root) (filter (keepFile ign root) ((?path, fi) # ds)), False)" for out
      proof -
        let ?k = "keepFile ign root (?path, fi)"
        have "listFilesFn ign root out ?path False fi = (out @ (if ?k then [statOf root (?path, fi)] else []), Continue)"
          by (auto simp: listFilesFn_def keepFile_def statOf_def rel)
        from walkEntries_regular [where fn = "listFilesFn ign root", OF regular this] ds(3) show ?thesis by simp
      qed
      ultimately show ?thesis using ds(1,2) by (intro exI [of _ "(?path, fi) # ds"]) auto
    next
      case (directory fi)
      from r directory obtain r1 where r1: "walk n os False collect ?path seen all = Some r1"
        using walkEntries_entered [where fn = collect and dir = dir and st = all, OF directory] by (auto simp: collect_def split: option.splits)
      obtain ds1 where ds1: "r1 = (seen, all @ ds1, False)" "\<forall>d \<in> set ds1. prefix (?path @ [slash]) (fst d)"
        "\<And>out. walk n os False (listFilesFn ign root) ?path seen out =
           Some (seen, out @ map (statOf root) (filter (keepFile ign root) ds1), False)"
        using agreesD [OF walk [OF pre] r1] by blast
      from r directory r1 ds1(1) have "walkEntries n os False collect dir es seen (all @ ds1) = Some r"
        using walkEntries_entered [where fn = collect and dir = dir and st = all, OF directory] by (simp add: collect_def)
      then obtain ds2 where ds2: "r = (seen, (all @ ds1) @ ds2, False)" "\<forall>d \<in> set ds2. prefix (dir @ [slash]) (fst d)"
        "\<And>out. walkEntries n os False (listFilesFn ign root) dir es seen out =
           Some (seen, out @ map (statOf root) (filter (keepFile ign root) ds2), False)"
        using agreesD [OF Cons.IH] by blast
      have "walkEntries n os False (listFilesFn ign root) dir (e # es) seen out =
           Some (seen, out @ map (statOf root) (filter (keepFile ign root) (ds1 @ ds2)), False)" for out
      proof (cases "rel \<noteq> str ''.'' \<and> ign rel True")
        case True
        then have "filter (keepFile ign root) ds1 = []" using ignored_dir_empty [OF rel pre _ ds1(2)] by blast
        moreover have "listFilesFn ign root out ?path True fi = (out, SkipDir)" using True rel by (simp add: listFilesFn_def)
        from walkEntries_skipped [where fn = "listFilesFn ign root", OF directory this] ds2(3) calculation show ?thesis by simp
      next
        case False
        then have "listFilesFn ign root out ?path True fi = (out, Continue)" using rel by (auto simp: listFilesFn_def)
        from walkEntries_entered [where fn = "listFilesFn ign root", OF directory this] ds1(3) ds2(3) show ?thesis by simp
      qed
      with ds1(2) ds2(1,2) below_dir show ?thesis by (intro exI [of _ "ds1 @ ds2"]) auto
    qed
  qed
qed

lemma walk_agrees:
  "dir = root \<or> prefix (root @ [slash]) dir \<Longrightarrow>
     agrees root dir (walk n os False collect dir) (walk n os False (listFilesFn ign root) dir)"
proof (induction n arbitrary: dir)
  case 0
  show ?case by (simp add: agrees_def)
next
  case (Suc n)
  show ?case
  proof (cases "os_ReadDir os dir")
    case None
    then show ?thesis by (simp add: agrees_def)
  next
    case (Some entries)
    have "agrees root dir (walkEntries n os False collect dir entries) (walkEntries n os False (listFilesFn ign root) dir entries)"
      using Suc.IH by (intro entries_agree Suc.prems) blast
    moreover have "walk (Suc n) os False fn dir = walkEntries n os False fn dir entries" for fn :: "'a \<Rightarrow> _"
      using Some by (intro ext) simp
    ultimately show ?thesis using Some unfolding agrees_def by simp
  qed
qed

lemma listFiles_filters:
  assumes "Walk n os False collect root [] = Some (seen, all, err)"
  shows "listFiles n os False ign root = Some (map (statOf root) (filter (keepFile ign root) all))"
proof -
  have "walk n os False collect root {} [] = Some (seen, all, err)" using assms by (simp add: Walk_def)
  then obtain ds where "(seen, all, err) = ({}, [] @ ds, False)"
    "\<And>out. walk n os False (listFilesFn ign root) root {} out =
       Some ({}, out @ map (statOf root) (filter (keepFile ign root) ds), False)"
    using agreesD [OF walk_agrees [of root root]] by blast
  then show ?thesis by (simp add: listFiles_def Walk_def)
qed

end

text \<open>The exclusions of the root's control file and of the configuration, and those of the
  \<open>.gitignore\<close> files, prune soundly.\<close>

interpretation rules: pruning "Ignored (AddPatterns (LoadRules f) pats)" for f pats
proof unfold_locales
  fix dir sub isDir
  assume "Ignored (AddPatterns (LoadRules f) pats) dir True"
  moreover have "\<forall>r \<in> set (AddPatterns (LoadRules f) pats). rule_ok r"
    unfolding AddPatterns_def using LoadRules_ok by (rule addPatterns_ok)
  ultimately show "Ignored (AddPatterns (LoadRules f) pats) (dir @ slash # sub) isDir" by (intro Ignored_below)
qed

interpretation git: pruning "gitMatches gi" for gi
  by unfold_locales (rule gitMatches_below)

text \<open>\<open>s.ignored\<close> of \<open>daemon/store.go\<close>, whose second part is asked only when the store has a tree of
  \<open>.gitignore\<close> files. The first answer that excludes the path is returned.\<close>

definition storeIgnored ::
    "(gostring \<Rightarrow> bytes option) \<Rightarrow> rule list \<Rightarrow> GitignoreTree option \<Rightarrow> gostring \<Rightarrow> bool \<Rightarrow> bool \<times> GitignoreTree option" where
  "storeIgnored gi rules g rel isDir =
     (if Ignored rules rel isDir then (True, g)
      else case g of
        None \<Rightarrow> (False, None)
      | Some t \<Rightarrow> (case gitIgnored gi t rel isDir of (r, t') \<Rightarrow> (r, Some t')))"

text \<open>What it answers, whatever it has cached.\<close>

definition excluded :: "(gostring \<Rightarrow> bytes option) option \<Rightarrow> rule list \<Rightarrow> gostring \<Rightarrow> bool \<Rightarrow> bool" where
  "excluded gi rules rel isDir \<longleftrightarrow>
     Ignored rules rel isDir \<or> (case gi of None \<Rightarrow> False | Some gi \<Rightarrow> gitMatches gi rel isDir)"

lemma storeIgnored_excluded:
  assumes "\<And>t. g = Some t \<Longrightarrow> cache_ok gi t"
  shows "fst (storeIgnored gi rules g rel isDir) = excluded (if g = None then None else Some gi) rules rel isDir"
    and "snd (storeIgnored gi rules g rel isDir) = Some t' \<Longrightarrow> cache_ok gi t'"
    and "snd (storeIgnored gi rules g rel isDir) = None \<longleftrightarrow> g = None"
proof -
  show "fst (storeIgnored gi rules g rel isDir) = excluded (if g = None then None else Some gi) rules rel isDir"
    using assms gitIgnored_ok(1) [of gi _ rel isDir]
    by (cases g) (simp_all add: storeIgnored_def excluded_def split_beta)
  show "snd (storeIgnored gi rules g rel isDir) = Some t' \<Longrightarrow> cache_ok gi t'"
    using assms gitIgnored_ok(2) [of gi _ rel isDir]
    by (cases g) (auto simp: storeIgnored_def split_beta split: if_splits)
  show "snd (storeIgnored gi rules g rel isDir) = None \<longleftrightarrow> g = None"
    by (cases g) (simp_all add: storeIgnored_def split_beta)
qed

interpretation store: pruning "excluded gi (AddPatterns (LoadRules f) pats)" for gi f pats
proof unfold_locales
  fix dir sub isDir
  assume "excluded gi (AddPatterns (LoadRules f) pats) dir True"
  then consider "Ignored (AddPatterns (LoadRules f) pats) dir True" | g where "gi = Some g" "gitMatches g dir True"
    by (auto simp: excluded_def split: option.splits)
  then show "excluded gi (AddPatterns (LoadRules f) pats) (dir @ slash # sub) isDir"
    using rules.below git.below by cases (auto simp: excluded_def)
qed

subsection \<open>The walk ends\<close>

text \<open>A view with finitely many directories behind links, in which directories are not nested
  deeper than \<open>K\<close> without a link in between.\<close>

definition finite_view :: "osview \<Rightarrow> gostring set \<Rightarrow> (gostring \<Rightarrow> nat) \<Rightarrow> nat \<Rightarrow> bool" where
  "finite_view os R rk K \<longleftrightarrow>
     finite R \<and> (\<forall>p r. os_EvalSymlinks os p = Some r \<longrightarrow> r \<in> R) \<and> (\<forall>p. rk p \<le> K) \<and>
     (\<forall>dir es e fi. os_ReadDir os dir = Some es \<longrightarrow> e \<in> set es \<longrightarrow> \<not> dn_isLink e \<longrightarrow> dn_info e = Some fi \<longrightarrow>
        fi_isDir fi \<longrightarrow> rk (Join dir (dn_name e)) < rk dir)"

definition fuel_for :: "gostring set \<Rightarrow> (gostring \<Rightarrow> nat) \<Rightarrow> nat \<Rightarrow> gostring \<Rightarrow> gostring set \<Rightarrow> nat" where
  "fuel_for R rk K dir seen = card (R - seen) * (K + 1) + rk dir"

definition ends :: "gostring set \<Rightarrow> (gostring set \<times> 'st \<times> bool) option \<Rightarrow> bool" where
  "ends seen r \<longleftrightarrow> (case r of None \<Rightarrow> False | Some (seen', _, _) \<Rightarrow> seen \<subseteq> seen')"

lemma ends_trans: "seen \<subseteq> seen' \<Longrightarrow> ends seen' r \<Longrightarrow> ends seen r"
  by (auto simp: ends_def split: option.splits)

lemma fuel_mono: "finite R \<Longrightarrow> seen \<subseteq> seen' \<Longrightarrow> fuel_for R rk K dir seen' \<le> fuel_for R rk K dir seen"
  unfolding fuel_for_def by (intro add_mono mult_le_mono1 card_mono) auto

lemma fuel_link:
  assumes "finite R" and "real \<in> R" and "real \<notin> seen" and "rk p \<le> K"
  shows "fuel_for R rk K p (insert real seen) < fuel_for R rk K dir seen"
proof -
  have "R - insert real seen = (R - seen) - {real}" by auto
  then have "Suc (card (R - insert real seen)) = card (R - seen)"
    using assms card_Suc_Diff1 [of "R - seen" real] by simp
  then have "card (R - seen) * (K + 1) = card (R - insert real seen) * (K + 1) + (K + 1)" by (metis add.commute mult_Suc)
  with assms(4) show ?thesis unfolding fuel_for_def by linarith
qed

lemma entries_end:
  assumes fin: "finite_view os R rk K"
    and walk: "\<And>path seen st. fuel_for R rk K path seen < n \<Longrightarrow> ends seen (walk n os follow fn path seen st)"
    and "os_ReadDir os dir = Some es0" and "set es \<subseteq> set es0" and "fuel_for R rk K dir seen \<le> n"
  shows "ends seen (walkEntries n os follow fn dir es seen st)"
  using assms(4,5)
proof (induction es arbitrary: seen st)
  case Nil
  show ?case by (simp add: ends_def)
next
  case (Cons e es)
  let ?path = "Join dir (dn_name e)"
  have fR: "finite R" using fin by (simp add: finite_view_def)
  have IH: "ends seen' (walkEntries n os follow fn dir es seen' st')" if "seen \<subseteq> seen'" for seen' st'
    using Cons.IH [of seen' st'] Cons.prems fuel_mono [OF fR that, of rk K dir] by simp
  have rest: "ends seen (walkEntries n os follow fn dir es seen' st')" if "seen \<subseteq> seen'" for seen' st'
    using that IH [OF that] by (rule ends_trans)
  have into: "ends seen (case walk n os follow fn ?path seen' st' of None \<Rightarrow> None
       | Some (seen'', st'', True) \<Rightarrow> Some (seen'', st'', True)
       | Some (seen'', st'', False) \<Rightarrow> walkEntries n os follow fn dir es seen'' st'')"
    if "seen \<subseteq> seen'" "fuel_for R rk K ?path seen' < n" for seen' st'
  proof -
    from walk [OF that(2), of st'] obtain seen'' st'' b where
      w: "walk n os follow fn ?path seen' st' = Some (seen'', st'', b)" "seen' \<subseteq> seen''" by (auto simp: ends_def split: option.splits)
    from that(1) w(2) have "seen \<subseteq> seen''" by blast
    with rest [OF this, of st''] w(1) show ?thesis by (cases b) (auto simp: ends_def)
  qed
  have dir: "ends seen (case fn st ?path True fi of
        (st', SkipDir) \<Rightarrow> walkEntries n os follow fn dir es seen' st'
      | (st', _) \<Rightarrow> (case walk n os follow fn ?path seen' st' of None \<Rightarrow> None
          | Some (seen'', st'', True) \<Rightarrow> Some (seen'', st'', True)
          | Some (seen'', st'', False) \<Rightarrow> walkEntries n os follow fn dir es seen'' st''))"
    if "seen \<subseteq> seen'" "fuel_for R rk K ?path seen' < n" for seen' fi
    using into [OF that] rest [OF that(1)] by (cases "fn st ?path True fi"; cases "snd (fn st ?path True fi)") simp_all
  consider (skip) "dn_isLink e \<and> \<not> follow" | (none) "\<not> (dn_isLink e \<and> \<not> follow)" "(if dn_isLink e then os_Stat os ?path else dn_info e) = None"
    | (info) fi where "\<not> (dn_isLink e \<and> \<not> follow)" "(if dn_isLink e then os_Stat os ?path else dn_info e) = Some fi"
    by (cases "if dn_isLink e then os_Stat os ?path else dn_info e") auto
  then show ?case
  proof cases
    case skip
    then show ?thesis using rest [of seen] by (simp add: walkEntries.simps(2) Let_def)
  next
    case none
    then show ?thesis using rest [of seen] by (cases "dn_isLink e"; cases follow) (simp_all add: walkEntries.simps(2) Let_def)
  next
    case (info fi)
    show ?thesis
    proof (cases "fi_isDir fi")
      case notdir: False
      have "ends seen (case fn st ?path False fi of (st', Failed) \<Rightarrow> Some (seen, st', True)
          | (st', _) \<Rightarrow> walkEntries n os follow fn dir es seen st')"
        using rest [of seen] by (cases "fn st ?path False fi"; cases "snd (fn st ?path False fi)") (simp_all add: ends_def)
      with info notdir rest [of seen] show ?thesis
        by (cases "dn_isLink e"; cases follow) (simp_all add: walkEntries.simps(2) Let_def)
    next
      case isdir: True
      show ?thesis
      proof (cases "dn_isLink e")
        case link: True
        show ?thesis
        proof (cases "os_EvalSymlinks os ?path")
          case None
          with info isdir link rest [of seen] show ?thesis by (simp add: walkEntries.simps(2) Let_def)
        next
          case (Some real)
          show ?thesis
          proof (cases "real \<in> seen")
            case True
            with Some info isdir link rest [of seen] show ?thesis by (simp add: walkEntries.simps(2) Let_def)
          next
            case False
            have "fuel_for R rk K ?path (insert real seen) < fuel_for R rk K dir seen"
              using fin Some False by (intro fuel_link) (auto simp: finite_view_def)
            then have "fuel_for R rk K ?path (insert real seen) < n" using Cons.prems(2) by linarith
            note d = dir [OF subset_insertI this, of fi]
            have f: "follow = True" using info(1) link by simp
            from d False Some info isdir link show ?thesis
              unfolding f by (simp add: walkEntries.simps(2) Let_def)
          qed
        qed
      next
        case False
        then have "dn_info e = Some fi" using info(2) by simp
        then have "rk ?path < rk dir" using fin assms(3) Cons.prems(1) False isdir unfolding finite_view_def by auto
        then have "fuel_for R rk K ?path seen < n" using Cons.prems(2) unfolding fuel_for_def by linarith
        from dir [OF order.refl this, of fi] False info isdir show ?thesis by (simp add: walkEntries.simps(2) Let_def)
      qed
    qed
  qed
qed

lemma walk_ends:
  assumes "finite_view os R rk K"
  shows "fuel_for R rk K dir seen < n \<Longrightarrow> ends seen (walk n os follow fn dir seen st)"
proof (induction n arbitrary: dir seen st)
  case (Suc n)
  show ?case
  proof (cases "os_ReadDir os dir")
    case None
    then show ?thesis by (simp add: ends_def)
  next
    case (Some es)
    with entries_end [OF assms Suc.IH Some order.refl] Suc.prems show ?thesis by simp
  qed
qed simp

text \<open>More fuel does not change the result.\<close>

lemma entries_fuel:
  assumes "\<And>path seen st r. walk n os follow fn path seen st = Some r \<Longrightarrow> walk (Suc n) os follow fn path seen st = Some r"
  shows "walkEntries n os follow fn dir es seen st = Some r \<Longrightarrow> walkEntries (Suc n) os follow fn dir es seen st = Some r"
proof (induction es arbitrary: seen st)
  case (Cons e es)
  have into: "(case walk (Suc n) os follow fn path seen' st' of None \<Rightarrow> None
       | Some (seen'', st'', True) \<Rightarrow> Some (seen'', st'', True)
       | Some (seen'', st'', False) \<Rightarrow> walkEntries (Suc n) os follow fn dir es seen'' st'') = Some r"
    if "(case walk n os follow fn path seen' st' of None \<Rightarrow> None
       | Some (seen'', st'', True) \<Rightarrow> Some (seen'', st'', True)
       | Some (seen'', st'', False) \<Rightarrow> walkEntries n os follow fn dir es seen'' st'') = Some r" for path seen' st'
  proof (cases "walk n os follow fn path seen' st'")
    case (Some w)
    obtain seen'' st'' b where w: "w = (seen'', st'', b)" by (cases w)
    from assms [OF Some] w have s: "walk (Suc n) os follow fn path seen' st' = Some (seen'', st'', b)" by (simp only:)
    show ?thesis using that Some w Cons.IH unfolding s by (cases b) (auto simp del: walk.simps)
  qed (use that in simp)
  note facts = Cons.prems Cons.IH
  show ?case
  proof (cases follow)
    case True
    then have f: "follow = True" by simp
    show ?thesis using facts into unfolding f walkEntries.simps(2) Let_def
      by (auto simp del: walk.simps split: if_split_asm option.split_asm prod.split_asm verdict.split_asm bool.split_asm dest: assms [unfolded f])
  next
    case False
    then have f: "follow = False" by simp
    show ?thesis using facts into unfolding f walkEntries.simps(2) Let_def
      by (auto simp del: walk.simps split: if_split_asm option.split_asm prod.split_asm verdict.split_asm bool.split_asm dest: assms [unfolded f])
  qed
qed simp

lemma walk_fuel: "walk n os follow fn dir seen st = Some r \<Longrightarrow> walk (Suc n) os follow fn dir seen st = Some r"
proof (induction n arbitrary: dir seen st r)
  case (Suc n)
  show ?case
  proof (cases "os_ReadDir os dir")
    case (Some es)
    with Suc.prems have "walkEntries n os follow fn dir es seen st = Some r" by simp
    from entries_fuel [OF Suc.IH this] Some show ?thesis by (simp only: walk.simps option.case)
  qed (use Suc.prems in simp)
qed simp

lemma walk_fuel_le: "n \<le> m \<Longrightarrow> walk n os follow fn dir seen st = Some r \<Longrightarrow> walk m os follow fn dir seen st = Some r"
  by (induction m rule: dec_induct) (auto intro: walk_fuel simp del: walk.simps)

subsection \<open>Properties\<close>

definition loopView :: osview where
  "loopView = \<lparr>
     os_ReadDir = (\<lambda>d. if d = str ''r'' \<or> d = str ''r/l''
        then Some [\<lparr>dn_name = str ''l'', dn_isLink = True, dn_info = None\<rparr>,
                   \<lparr>dn_name = str ''f'', dn_isLink = False,
                    dn_info = Some \<lparr>fi_isDir = False, fi_regular = True, fi_size = 3, fi_mtime = 7\<rparr>\<rparr>]
        else None),
     os_Stat = (\<lambda>p. Some \<lparr>fi_isDir = True, fi_regular = False, fi_size = 0, fi_mtime = 0\<rparr>),
     os_EvalSymlinks = (\<lambda>p. Some (str ''r''))\<rparr>"

lemma loopView_simps [simp]:
  "os_ReadDir loopView (str ''r'') = Some [\<lparr>dn_name = str ''l'', dn_isLink = True, dn_info = None\<rparr>,
     \<lparr>dn_name = str ''f'', dn_isLink = False,
      dn_info = Some \<lparr>fi_isDir = False, fi_regular = True, fi_size = 3, fi_mtime = 7\<rparr>\<rparr>]"
  "os_Stat loopView p = Some \<lparr>fi_isDir = True, fi_regular = False, fi_size = 0, fi_mtime = 0\<rparr>"
  "os_EvalSymlinks loopView p = Some (str ''r'')"
  by (simp_all add: loopView_def)

text \<open>C32. A walk ends even when it follows links and the links form cycles: every link target is
  entered at most once, so \<open>(card R + 1) * (K + 1)\<close> nested calls are enough for a view with the link
  targets \<open>R\<close> and directories nested at most \<open>K\<close> deep between links, and more fuel gives the same result.\<close>

theorem Walk_terminates:
  assumes "finite_view os R rk K" and "(card R + 1) * (K + 1) \<le> n"
  shows "\<exists>r. \<forall>m \<ge> n. Walk m os follow fn root st = Some r"
proof -
  have "fuel_for R rk K root seen < n" for seen
  proof -
    have "finite R" "rk root \<le> K" using assms(1) by (simp_all add: finite_view_def)
    then have "card (R - seen) * (K + 1) \<le> card R * (K + 1)" by (intro mult_le_mono1 card_mono) auto
    moreover have "(card R + 1) * (K + 1) = card R * (K + 1) + (K + 1)" by simp
    ultimately show ?thesis using assms(2) \<open>rk root \<le> K\<close> unfolding fuel_for_def by linarith
  qed
  note fuel = this
  let ?seen = "if follow then (case os_EvalSymlinks os root of None \<Rightarrow> {} | Some real \<Rightarrow> {real}) else {}"
  have "ends ?seen (walk n os follow fn root ?seen st)" by (rule walk_ends [OF assms(1) fuel])
  then obtain r where r: "walk n os follow fn root ?seen st = Some r"
    by (cases "walk n os follow fn root ?seen st") (auto simp: ends_def)
  have "Walk m os follow fn root st = Some r" if "n \<le> m" for m
    using walk_fuel_le [OF that r] by (simp only: Walk_def Let_def)
  then show ?thesis by blast
qed

theorem Walk_terminates_witness:
  "Walk 2 loopView True collect (str ''r'') [] =
     Some ({str ''r''}, [(str ''r/f'', \<lparr>fi_isDir = False, fi_regular = True, fi_size = 3, fi_mtime = 7\<rparr>)], False) \<and>
   Walk 99 loopView True collect (str ''r'') [] = Walk 2 loopView True collect (str ''r'') []"
proof -
  have "finite_view loopView {str ''r''} (\<lambda>_. 0) 0"
  proof -
    have "\<not> fi_isDir fi" if "os_ReadDir loopView dir = Some es" "e \<in> set es" "\<not> dn_isLink e" "dn_info e = Some fi" for dir es e fi
    proof -
      have "es = [\<lparr>dn_name = str ''l'', dn_isLink = True, dn_info = None\<rparr>,
         \<lparr>dn_name = str ''f'', dn_isLink = False,
          dn_info = Some \<lparr>fi_isDir = False, fi_regular = True, fi_size = 3, fi_mtime = 7\<rparr>\<rparr>]"
        using that(1) by (simp add: loopView_def split: if_splits)
      with that(2-4) show ?thesis by auto
    qed
    then show ?thesis unfolding finite_view_def by (auto simp del: loopView_simps(1))
  qed
  from Walk_terminates [OF this, of 2 True collect "str ''r''" "[]"] obtain r where
    r: "\<And>m. 2 \<le> m \<Longrightarrow> Walk m loopView True collect (str ''r'') [] = Some r" by auto
  have "Walk 2 loopView True collect (str ''r'') [] =
     Some ({str ''r''}, [(str ''r/f'', \<lparr>fi_isDir = False, fi_regular = True, fi_size = 3, fi_mtime = 7\<rparr>)], False)"
    by (simp add: Walk_def numeral_2_eq_2 walkEntries.simps(2) collect_def Let_def) (simp add: Join_def str_def)
  with r [of 2] r [of 99] show ?thesis by simp
qed

text \<open>C31. Skipping the subtree of an ignored directory loses nothing: without following links the daemon's listing is
  the listing of all regular files without the ignored ones and the barrier cookies,
  in the same order.\<close>

theorem listFiles_exact:
  assumes "Walk n os False collect root [] = Some (seen, all, err)"
  shows "listFiles n os False (excluded gi (AddPatterns (LoadRules f) pats)) root =
    Some (map (statOf root) (filter (\<lambda>d. \<exists>rel. Rel root (fst d) = Some rel \<and> rel \<noteq> str ''.'' \<and>
      \<not> excluded gi (AddPatterns (LoadRules f) pats) rel False \<and> \<not> isCookie rel) all))"
proof -
  have "keepFile ign root = (\<lambda>d. \<exists>rel. Rel root (fst d) = Some rel \<and> rel \<noteq> str ''.'' \<and> \<not> ign rel False \<and> \<not> isCookie rel)" for ign
    by (auto simp: keepFile_def fun_eq_iff split: option.splits)
  with store.listFiles_filters [OF assms] show ?thesis by simp
qed

definition dirView :: osview where
  "dirView = \<lparr>
     os_ReadDir = [str ''r'' \<mapsto> [\<lparr>dn_name = str ''d'', dn_isLink = False,
                     dn_info = Some \<lparr>fi_isDir = True, fi_regular = False, fi_size = 0, fi_mtime = 0\<rparr>\<rparr>,
                   \<lparr>dn_name = str ''g'', dn_isLink = False,
                     dn_info = Some \<lparr>fi_isDir = False, fi_regular = True, fi_size = 4, fi_mtime = 8\<rparr>\<rparr>],
                   str ''r/d'' \<mapsto> [\<lparr>dn_name = str ''f'', dn_isLink = False,
                     dn_info = Some \<lparr>fi_isDir = False, fi_regular = True, fi_size = 3, fi_mtime = 7\<rparr>\<rparr>]],
     os_Stat = (\<lambda>p. None), os_EvalSymlinks = (\<lambda>p. None)\<rparr>"

theorem listFiles_exact_witness:
  "listFiles 3 dirView False (excluded None (AddPatterns (LoadRules None) [str ''d/''])) (str ''r'') =
     Some [\<lparr>fs_rel = str ''g'', fs_size = 4, fs_mtimeNS = 8\<rparr>]"
proof -
  let ?file = "\<lambda>s m. \<lparr>fi_isDir = False, fi_regular = True, fi_size = s, fi_mtime = m\<rparr>"
  let ?dir = "\<lparr>fi_isDir = True, fi_regular = False, fi_size = 0, fi_mtime = 0\<rparr>"
  have ne: "Join (str ''r'') (str ''d'') = str ''r/d''" "str ''r/d'' \<noteq> str ''r''" by (simp_all add: str_def Join_def)
  then have v: "os_ReadDir dirView (str ''r'') = Some [\<lparr>dn_name = str ''d'', dn_isLink = False, dn_info = Some ?dir\<rparr>,
      \<lparr>dn_name = str ''g'', dn_isLink = False, dn_info = Some (?file 4 8)\<rparr>]"
    "os_ReadDir dirView (str ''r/d'') = Some [\<lparr>dn_name = str ''f'', dn_isLink = False, dn_info = Some (?file 3 7)\<rparr>]"
    by (simp_all add: dirView_def)
  have all: "Walk 3 dirView False collect (str ''r'') [] = Some ({}, [(str ''r/d/f'', ?file 3 7), (str ''r/g'', ?file 4 8)], False)"
    by (simp add: Walk_def numeral_3_eq_3 walkEntries.simps(2) collect_def Let_def v ne(1)) (simp add: Join_def str_def)
  have "TrimSpace (str ''d/'') = str ''d/''"
    by (rule TrimSpace_id) (simp_all add: spaceRunes_def EncodeRune_def str_def suffix_to_prefix)
  moreover have "skipLine (str ''d/'') = False" by code_simp
  moreover have "compile (str ''d/'') = Some \<lparr>ru_exact = [BolOrDirs, LitRune 100, Eol],
      ru_prefix = [BolOrDirs, LitRune 100, LitRune 47], ru_dirOnly = True\<rparr>" by code_simp
  ultimately have rules: "AddPatterns (LoadRules None) [str ''d/''] =
      [\<lparr>ru_exact = [BolOrDirs, LitRune 100, Eol], ru_prefix = [BolOrDirs, LitRune 100, LitRune 47], ru_dirOnly = True\<rparr>]"
    by (simp add: AddPatterns_def LoadRules_def)
  have "MatchString [BolOrDirs, LitRune 100, LitRune 47] (str ''d/f'')" "\<not> MatchString [BolOrDirs, LitRune 100, LitRune 47] (str ''g'')"
    "\<not> isGitPath (str ''g'')" "\<not> MatchString [BolOrDirs, LitRune 100, Eol] (str ''g'')" by code_simp+
  then have e: "excluded None (AddPatterns (LoadRules None) [str ''d/'']) (str ''d/f'') False"
    "\<not> excluded None (AddPatterns (LoadRules None) [str ''d/'']) (str ''g'') False"
    unfolding rules by (simp_all add: excluded_def Ignored_def ruleIgnores_def)
  have c: "\<not> isCookie (str ''g'')" by code_simp
  have r: "Rel (str ''r'') (str ''r/d/f'') = Some (str ''d/f'')" "Rel (str ''r'') (str ''r/g'') = Some (str ''g'')"
    "str ''g'' \<noteq> str ''.''" by code_simp+
  show ?thesis unfolding listFiles_exact [OF all] by (simp add: e c r statOf_def)
qed

end
