(* ===== verification/Watch.thy ===== *)
theory Watch
  imports Walk "HOL-Library.Monad_Syntax"
begin

text \<open>
  \<open>internal/watch/watch.go\<close>: the watcher that batches file system events. Its goroutine is the record
  \<open>Watcher\<close> (the local variables of \<open>loop\<close> and the channels) with one function per case of the
  \<open>select\<close>. A timer is \<open>None\<close> when \<open>fire\<close> is nil, otherwise it tells whether it has expired. \<open>emit\<close> blocks while the
  channel of batches is full, so it is a mode of its own.
\<close>

subsection \<open>State\<close>

record Batch =
  ba_Paths :: "gostring list"
  ba_Rescan :: bool
  ba_Done :: "nat option"

datatype loopMode = Selecting | Emitting "nat option" | Exited

record Watcher =
  wt_root :: gostring
  wt_follow :: bool
  wt_pending :: "gostring list"
  wt_rescan :: bool
  wt_timer :: "bool option"
  wt_out :: "Batch list"
  wt_cookies :: "gostring list"
  wt_dirs :: "gostring list"
  wt_done :: bool
  wt_mode :: loopMode

definition outCap :: nat where "outCap = 16"
definition cookieCap :: nat where "cookieCap = 16"

subsection \<open>Registration\<close>

text \<open>The directories handed to \<open>fw.Add\<close>, whose errors are ignored.\<close>

definition watchFn ::
    "(gostring \<Rightarrow> bool \<Rightarrow> bool) \<Rightarrow> gostring \<Rightarrow> gostring list \<Rightarrow> gostring \<Rightarrow> bool \<Rightarrow> fileinfo \<Rightarrow> gostring list \<times> verdict" where
  "watchFn ign root dirs path isDir fi =
     (if \<not> isDir then (dirs, Continue)
      else case Rel root path of
        None \<Rightarrow> (dirs @ [path], Continue)
      | Some rel \<Rightarrow> if rel \<noteq> str ''.'' \<and> ign rel True then (dirs, SkipDir) else (dirs @ [path], Continue))"

definition addRecursive ::
    "nat \<Rightarrow> osview \<Rightarrow> (gostring \<Rightarrow> bool \<Rightarrow> bool) \<Rightarrow> gostring \<Rightarrow> Watcher \<Rightarrow> Watcher option" where
  "addRecursive n os ign dir w =
     (case Walk n os (wt_follow w) (watchFn ign (wt_root w)) dir (wt_dirs w @ [dir]) of
        None \<Rightarrow> None
      | Some (_, dirs, _) \<Rightarrow> Some (w\<lparr>wt_dirs := dirs\<rparr>))"

definition NewWatcher ::
    "nat \<Rightarrow> osview \<Rightarrow> (gostring \<Rightarrow> bool \<Rightarrow> bool) \<Rightarrow> gostring \<Rightarrow> bool \<Rightarrow> Watcher option" where
  "NewWatcher n os ign root follow =
     addRecursive n os ign root
       \<lparr>wt_root = root, wt_follow = follow, wt_pending = [], wt_rescan = False, wt_timer = None, wt_out = [],
        wt_cookies = [], wt_dirs = [], wt_done = False, wt_mode = Selecting\<rparr>"

definition CloseWatcher :: "Watcher \<Rightarrow> Watcher" where
  "CloseWatcher w = w\<lparr>wt_done := True\<rparr>"

subsection \<open>The cases of the select\<close>

definition resetTimer :: "Watcher \<Rightarrow> Watcher" where
  "resetTimer w = w\<lparr>wt_timer := Some False\<rparr>"

definition isCookieEvent :: "gostring \<Rightarrow> bool" where
  "isCookieEvent name \<longleftrightarrow>
     (let base = pathBase name in
      length base > length CookiePrefix \<and> take (length CookiePrefix) base = CookiePrefix)"

text \<open>\<open>isDirNow\<close> is the answer of \<open>os.Lstat\<close> for the name.\<close>

definition onEvent ::
    "nat \<Rightarrow> osview \<Rightarrow> (gostring \<Rightarrow> bool \<Rightarrow> bool) \<Rightarrow> bool \<Rightarrow> gostring \<Rightarrow> bool \<Rightarrow> Watcher \<Rightarrow> Watcher option" where
  "onEvent n os ign isDirNow name create w =
     (if isCookieEvent name then
        Some (if create \<and> length (wt_cookies w) < cookieCap then w\<lparr>wt_cookies := wt_cookies w @ [pathBase name]\<rparr> else w)
      else do {
        let w = w\<lparr>wt_pending := List.insert name (wt_pending w)\<rparr>;
        w \<leftarrow> (if create \<and> isDirNow \<and> (case Rel (wt_root w) name of None \<Rightarrow> True | Some rel \<Rightarrow> \<not> ign rel True)
              then addRecursive n os ign name w else Some w);
        Some (resetTimer w)
      })"

definition onError :: "bool \<Rightarrow> Watcher \<Rightarrow> Watcher" where
  "onError overflow w = (if overflow then resetTimer (w\<lparr>wt_rescan := True\<rparr>) else w)"

text \<open>\<open>emit\<close> has sent the batch; \<open>paths\<close> is the pending set in the order Go ranges over it.\<close>

definition emitted :: "gostring list \<Rightarrow> nat option \<Rightarrow> Watcher \<Rightarrow> Watcher" where
  "emitted paths ch w =
     w\<lparr>wt_out := wt_out w @ [\<lparr>ba_Paths = paths, ba_Rescan = wt_rescan w, ba_Done = ch\<rparr>],
       wt_pending := [], wt_rescan := False, wt_timer := None, wt_mode := Selecting\<rparr>"

lemma emitted_simps [simp]:
  "wt_out (emitted ps d w) = wt_out w @ [\<lparr>ba_Paths = ps, ba_Rescan = wt_rescan w, ba_Done = d\<rparr>]"
  "wt_pending (emitted ps d w) = []" "wt_rescan (emitted ps d w) = False" "wt_timer (emitted ps d w) = None"
  "wt_mode (emitted ps d w) = Selecting" "wt_cookies (emitted ps d w) = wt_cookies w" "wt_done (emitted ps d w) = wt_done w"
  by (simp_all add: emitted_def)

lemma addRecursive_frame:
  assumes "addRecursive n os ign dir w = Some w'"
  shows "wt_pending w' = wt_pending w" "wt_rescan w' = wt_rescan w" "wt_timer w' = wt_timer w" "wt_out w' = wt_out w"
    "wt_cookies w' = wt_cookies w" "wt_mode w' = wt_mode w" "wt_done w' = wt_done w"
  using assms by (auto simp: addRecursive_def split: option.splits)

text \<open>What an event does to the fields the batches depend on.\<close>

lemma onEvent_cases:
  assumes "onEvent n os ign isDirNow name create w = Some w'"
  shows "wt_out w' = wt_out w" "wt_rescan w' = wt_rescan w" "wt_mode w' = wt_mode w" "wt_done w' = wt_done w"
    and "isCookieEvent name \<Longrightarrow> wt_pending w' = wt_pending w" "isCookieEvent name \<Longrightarrow> wt_timer w' = wt_timer w"
    and "\<not> isCookieEvent name \<Longrightarrow> set (wt_pending w') = insert name (set (wt_pending w))"
      "\<not> isCookieEvent name \<Longrightarrow> wt_timer w' = Some False"
    and "wt_cookies w' = wt_cookies w @
      (if isCookieEvent name \<and> create \<and> length (wt_cookies w) < cookieCap then [pathBase name] else [])"
proof -
  let ?w = "w\<lparr>wt_pending := List.insert name (wt_pending w)\<rparr>"
  consider "isCookieEvent name" "w' = (if create \<and> length (wt_cookies w) < cookieCap then w\<lparr>wt_cookies := wt_cookies w @ [pathBase name]\<rparr> else w)"
    | "\<not> isCookieEvent name" "w' = resetTimer ?w"
    | w1 where "\<not> isCookieEvent name" "addRecursive n os ign name ?w = Some w1" "w' = resetTimer w1"
    using assms by (auto simp: onEvent_def Let_def split: if_splits Option.bind_splits)
  then have "wt_out w' = wt_out w \<and> wt_rescan w' = wt_rescan w \<and> wt_mode w' = wt_mode w \<and> wt_done w' = wt_done w \<and>
    (isCookieEvent name \<longrightarrow> wt_pending w' = wt_pending w \<and> wt_timer w' = wt_timer w) \<and>
    (\<not> isCookieEvent name \<longrightarrow> set (wt_pending w') = insert name (set (wt_pending w)) \<and> wt_timer w' = Some False) \<and>
    wt_cookies w' = wt_cookies w @
      (if isCookieEvent name \<and> create \<and> length (wt_cookies w) < cookieCap then [pathBase name] else [])"
  proof cases
    case 3
    note f = addRecursive_frame [OF 3(2)]
    show ?thesis using 3(1) f unfolding 3(3) by (simp add: resetTimer_def)
  qed (simp_all add: resetTimer_def)
  then show "wt_out w' = wt_out w" "wt_rescan w' = wt_rescan w" "wt_mode w' = wt_mode w" "wt_done w' = wt_done w"
    "isCookieEvent name \<Longrightarrow> wt_pending w' = wt_pending w" "isCookieEvent name \<Longrightarrow> wt_timer w' = wt_timer w"
    "\<not> isCookieEvent name \<Longrightarrow> set (wt_pending w') = insert name (set (wt_pending w))"
    "\<not> isCookieEvent name \<Longrightarrow> wt_timer w' = Some False"
    "wt_cookies w' = wt_cookies w @
      (if isCookieEvent name \<and> create \<and> length (wt_cookies w) < cookieCap then [pathBase name] else [])"
    by blast+
qed

end
