(* ===== verification/Barrier.thy ===== *)
theory Barrier
  imports Watch EngineState
begin

text \<open>
  Read-after-write: \<open>Barrier\<close> and \<open>watchLoop\<close> of \<open>internal/daemon/store.go\<close> together with the watcher's goroutine and
  the operating system's event queue, as one transition system.

  A file's content is a version number: \<open>sy_ver p\<close> is the version on disk and \<open>sy_app p\<close> the one the
  index was last brought to. A change of a tracked path queues an event for it, or an overflow marker when
  the queue is full; moving or removing a directory changes what is below it with the one event. What is written below a
  directory whose creation the watcher has not read yet, so that it has no watch there, queues nothing. The consumer
  applies the paths of a batch in any order and in any portions, each with all that is below it (\<open>applyChange\<close> of a directory
  lists it, of a missing path drops the subtree), reading the current versions; a rescan is the batch of all paths. Writes,
  time-outs and all goroutines interleave freely.

  Tracked are the paths below the root for which \<open>applyChange\<close> touches the index. The control file is not one of them: a change of it
  only starts a reconcile in a goroutine of its own, which no barrier waits for, and the rules in force are a parameter here.
\<close>

subsection \<open>State\<close>

datatype qitem = QEvent gostring bool | QOverflow

record hand =
  hd_todo :: "gostring set"
  hd_done :: "nat option"

text \<open>Where the goroutine that runs \<open>Barrier\<close> is. \<open>Finished synced flushed v\<close>: it has returned; \<open>synced\<close> tells
  whether its cookie was seen, \<open>flushed\<close> what \<open>Flush\<close> returned, \<open>v\<close> the versions when it was called.\<close>

datatype barrierPc =
    Idle
  | Draining "gostring \<Rightarrow> nat"
  | Waiting gostring "gostring \<Rightarrow> nat"
  | FlushSend bool "gostring \<Rightarrow> nat"
  | FlushWait nat bool "gostring \<Rightarrow> nat"
  | Finished bool bool "gostring \<Rightarrow> nat"

record sys =
  sy_queue :: "qitem list"
  sy_w :: Watcher
  sy_hand :: "hand option"
  sy_closed :: "nat set"
  sy_pc :: barrierPc
  sy_seq :: nat
  sy_flushes :: nat
  sy_ver :: "gostring \<Rightarrow> nat"
  sy_app :: "gostring \<Rightarrow> nat"

record syscfg =
  sc_root :: gostring
  sc_pid :: nat
  sc_os :: osview
  sc_fuel :: nat
  sc_ign :: "gostring \<Rightarrow> bool \<Rightarrow> bool"
  sc_shared :: bool

definition cookieName :: "nat \<Rightarrow> nat \<Rightarrow> gostring" where
  "cookieName pid n = CookiePrefix @ decimal pid @ str ''-'' @ decimal n"

definition cookiePath :: "syscfg \<Rightarrow> nat \<Rightarrow> gostring" where
  "cookiePath c n = Join (sc_root c) (cookieName (sc_pid c) n)"

text \<open>The guards of \<open>applyChange\<close> and of the watcher's loop.\<close>

definition tracked :: "syscfg \<Rightarrow> gostring \<Rightarrow> bool" where
  "tracked c p \<longleftrightarrow> \<not> isCookieEvent p \<and>
     (case Rel (sc_root c) p of None \<Rightarrow> False | Some rel \<Rightarrow> rel \<noteq> str ''.'' \<and> rel \<noteq> str ''.gcgrepignore'')"

text \<open>Some paths and everything below them.\<close>

definition below :: "gostring \<Rightarrow> gostring set" where
  "below p = {q. q = p \<or> HasPrefix q (p @ [slash])}"

definition under :: "gostring set \<Rightarrow> gostring set" where
  "under X = (\<Union>p \<in> X. below p)"

lemma under_simps [simp]: "under {} = {}" "under (insert p X) = below p \<union> under X" "under (X \<union> Y) = under X \<union> under Y"
  by (auto simp: under_def)

lemma below_self [simp]: "p \<in> below p"
  by (simp add: below_def)


definition bump :: "gostring set \<Rightarrow> (gostring \<Rightarrow> nat) \<Rightarrow> gostring \<Rightarrow> nat" where
  "bump X v = (\<lambda>p. if p \<in> X then v p + 1 else v p)"


subsection \<open>The goroutines\<close>

text \<open>One round of the loop over the batches: what it has to do, and its end, where the channel of a flush is closed.\<close>

definition takeBatch :: "Batch \<Rightarrow> hand" where
  "takeBatch b = \<lparr>hd_todo = (if ba_Rescan b then UNIV else under (set (ba_Paths b))), hd_done = ba_Done b\<rparr>"

definition closeBatch :: "hand \<Rightarrow> sys \<Rightarrow> sys" where
  "closeBatch h s = s\<lparr>sy_hand := None, sy_closed := sy_closed s \<union> set_option (hd_done h)\<rparr>"

lemmas batch_simps [simp] = takeBatch_def closeBatch_def

text \<open>The watcher's loop and the consumer of its batches. These steps need nobody else to act.\<close>

inductive loop_step :: "syscfg \<Rightarrow> sys \<Rightarrow> sys \<Rightarrow> bool" for c where
  LoopEvent: "sy_queue s = QEvent p create # q \<Longrightarrow> wt_mode (sy_w s) = Selecting \<Longrightarrow>
     onEvent (sc_fuel c) (sc_os c) (sc_ign c) isDirNow p create (sy_w s) = Some w' \<Longrightarrow>
     loop_step c s (s\<lparr>sy_queue := q, sy_w := w'\<rparr>)"
| LoopOverflow: "sy_queue s = QOverflow # q \<Longrightarrow> wt_mode (sy_w s) = Selecting \<Longrightarrow>
     loop_step c s (s\<lparr>sy_queue := q, sy_w := onError True (sy_w s)\<rparr>)"
| LoopExpire: "wt_timer (sy_w s) = Some False \<Longrightarrow>
     loop_step c s (s\<lparr>sy_w := (sy_w s)\<lparr>wt_timer := Some True\<rparr>\<rparr>)"
| LoopFire: "wt_timer (sy_w s) = Some True \<Longrightarrow> wt_mode (sy_w s) = Selecting \<Longrightarrow>
     loop_step c s (s\<lparr>sy_w := (sy_w s)\<lparr>wt_mode := Emitting None\<rparr>\<rparr>)"
| LoopEmit: "wt_mode (sy_w s) = Emitting d \<Longrightarrow> length (wt_out (sy_w s)) < outCap \<Longrightarrow>
     mset ps = mset (wt_pending (sy_w s)) \<Longrightarrow>
     loop_step c s (s\<lparr>sy_w := emitted ps d (sy_w s)\<rparr>)"
| Take: "sy_hand s = None \<Longrightarrow> wt_out (sy_w s) = b # bs \<Longrightarrow>
     loop_step c s (s\<lparr>sy_hand := Some (takeBatch b), sy_w := (sy_w s)\<lparr>wt_out := bs\<rparr>\<rparr>)"
| Apply: "sy_hand s = Some h \<Longrightarrow> P \<subseteq> hd_todo h \<Longrightarrow>
     loop_step c s (s\<lparr>sy_app := (\<lambda>p. if p \<in> P then sy_ver s p else sy_app s p),
       sy_hand := Some (h\<lparr>hd_todo := hd_todo h - P\<rparr>)\<rparr>)"
| Finish: "sy_hand s = Some h \<Longrightarrow> hd_todo h = {} \<Longrightarrow>
     loop_step c s (closeBatch h s)"

text \<open>The program that writes files, the operating system and, when \<open>sc_shared\<close>, another store whose
  cookies land in this store's tree.\<close>

inductive env_step :: "syscfg \<Rightarrow> sys \<Rightarrow> sys \<Rightarrow> bool" for c where
  Write: "tracked c p \<Longrightarrow> X \<subseteq> below p \<Longrightarrow>
     env_step c s (s\<lparr>sy_ver := bump X (sy_ver s), sy_queue := sy_queue s @ [QEvent p create]\<rparr>)"
| WriteLost: "tracked c p \<Longrightarrow> X \<subseteq> below p \<Longrightarrow>
     env_step c s (s\<lparr>sy_ver := bump X (sy_ver s), sy_queue := sy_queue s @ [QOverflow]\<rparr>)"
| WriteUnwatched: "QEvent d True \<in> set (sy_queue s) \<Longrightarrow> tracked c d \<Longrightarrow> X \<subseteq> below d \<Longrightarrow>
     env_step c s (s\<lparr>sy_ver := bump X (sy_ver s)\<rparr>)"
| CookieRemoved: "env_step c s (s\<lparr>sy_queue := sy_queue s @ [QEvent (cookiePath c n) False]\<rparr>)"
| ForeignCookie: "sc_shared c \<Longrightarrow>
     env_step c s (s\<lparr>sy_queue := sy_queue s @ [QEvent (cookiePath c n) True]\<rparr>)"
| CloseStore: "env_step c s (s\<lparr>sy_w := CloseWatcher (sy_w s)\<rparr>)"
| LoopExit: "wt_done (sy_w s) \<Longrightarrow> env_step c s (s\<lparr>sy_w := (sy_w s)\<lparr>wt_mode := Exited\<rparr>\<rparr>)"

text \<open>\<open>Barrier\<close> and the \<open>Flush\<close> it ends with.\<close>

inductive barrier_step :: "syscfg \<Rightarrow> sys \<Rightarrow> sys \<Rightarrow> bool" for c where
  Start: "sy_pc s = Idle \<Longrightarrow> barrier_step c s (s\<lparr>sy_pc := Draining (sy_ver s)\<rparr>)"
| Drain: "sy_pc s = Draining v \<Longrightarrow> wt_cookies (sy_w s) = x # xs \<Longrightarrow>
     barrier_step c s (s\<lparr>sy_w := (sy_w s)\<lparr>wt_cookies := xs\<rparr>\<rparr>)"
| Create: "sy_pc s = Draining v \<Longrightarrow> wt_cookies (sy_w s) = [] \<Longrightarrow>
     item = QEvent (cookiePath c (sy_seq s + 1)) True \<or> item = QOverflow \<Longrightarrow>
     barrier_step c s (s\<lparr>sy_seq := sy_seq s + 1, sy_queue := sy_queue s @ [item],
       sy_pc := Waiting (cookieName (sc_pid c) (sy_seq s + 1)) v\<rparr>)"
| CreateFails: "sy_pc s = Draining v \<Longrightarrow> wt_cookies (sy_w s) = [] \<Longrightarrow>
     barrier_step c s (s\<lparr>sy_seq := sy_seq s + 1, sy_pc := FlushSend False v\<rparr>)"
| Got: "sy_pc s = Waiting name v \<Longrightarrow> wt_cookies (sy_w s) = x # xs \<Longrightarrow>
     barrier_step c s (s\<lparr>sy_w := (sy_w s)\<lparr>wt_cookies := xs\<rparr>,
       sy_pc := (if x = name then FlushSend True v else Waiting name v)\<rparr>)"
| Timeout: "sy_pc s = Waiting name v \<Longrightarrow> barrier_step c s (s\<lparr>sy_pc := FlushSend False v\<rparr>)"
| WaitClosed: "sy_pc s = Waiting name v \<Longrightarrow> wt_done (sy_w s) \<Longrightarrow> barrier_step c s (s\<lparr>sy_pc := Finished False False v\<rparr>)"
| FlushRecv: "sy_pc s = FlushSend b v \<Longrightarrow> wt_mode (sy_w s) = Selecting \<Longrightarrow>
     barrier_step c s (s\<lparr>sy_w := (sy_w s)\<lparr>wt_mode := Emitting (Some (sy_flushes s))\<rparr>,
       sy_pc := FlushWait (sy_flushes s) b v, sy_flushes := sy_flushes s + 1\<rparr>)"
| FlushNotSent: "sy_pc s = FlushSend b v \<Longrightarrow> barrier_step c s (s\<lparr>sy_pc := Finished b False v\<rparr>)"
| FlushDone: "sy_pc s = FlushWait f b v \<Longrightarrow> f \<in> sy_closed s \<Longrightarrow> barrier_step c s (s\<lparr>sy_pc := Finished b True v\<rparr>)"
| FlushTimeout: "sy_pc s = FlushWait f b v \<Longrightarrow> barrier_step c s (s\<lparr>sy_pc := Finished b False v\<rparr>)"
| Again: "sy_pc s = Finished b r v \<Longrightarrow> barrier_step c s (s\<lparr>sy_pc := Idle\<rparr>)"

definition sys_step :: "syscfg \<Rightarrow> sys \<Rightarrow> sys \<Rightarrow> bool" where
  "sys_step c s s' \<longleftrightarrow> loop_step c s s' \<or> env_step c s s' \<or> barrier_step c s s'"

definition initSys :: "Watcher \<Rightarrow> (gostring \<Rightarrow> nat) \<Rightarrow> sys" where
  "initSys w ver = \<lparr>sy_queue = [], sy_w = w, sy_hand = None, sy_closed = {}, sy_pc = Idle, sy_seq = 0, sy_flushes = 0,
     sy_ver = ver, sy_app = ver\<rparr>"

text \<open>A watcher as \<open>New\<close> returns it.\<close>

definition fresh_watcher :: "Watcher \<Rightarrow> bool" where
  "fresh_watcher w \<longleftrightarrow> wt_pending w = [] \<and> \<not> wt_rescan w \<and> wt_timer w = None \<and> wt_out w = [] \<and> wt_cookies w = [] \<and>
     wt_mode w = Selecting"

inductive reachable :: "syscfg \<Rightarrow> sys \<Rightarrow> bool" for c where
  init: "fresh_watcher w \<Longrightarrow> reachable c (initSys w ver)"
| step: "reachable c s \<Longrightarrow> sys_step c s s' \<Longrightarrow> reachable c s'"

subsection \<open>The pipeline\<close>

text \<open>What is on its way to the index behind the queue, oldest first: the rest of the batch in the
  consumer's hands, the channel of batches, and the watcher's pending set.\<close>

type_synonym seg = "gostring set \<times> nat option"

definition handSegs :: "sys \<Rightarrow> seg list" where
  "handSegs s = (case sy_hand s of None \<Rightarrow> [] | Some h \<Rightarrow> [(hd_todo h, hd_done h)])"

definition batchSeg :: "Batch \<Rightarrow> seg" where
  "batchSeg b = (if ba_Rescan b then UNIV else under (set (ba_Paths b)), ba_Done b)"

definition pendingSeg :: "Watcher \<Rightarrow> seg" where
  "pendingSeg w = (if wt_rescan w then UNIV else under (set (wt_pending w)),
     case wt_mode w of Emitting d \<Rightarrow> d | _ \<Rightarrow> None)"

definition segs :: "sys \<Rightarrow> seg list" where
  "segs s = handSegs s @ map batchSeg (wt_out (sy_w s)) @ [pendingSeg (sy_w s)]"

definition covered :: "seg list \<Rightarrow> gostring set" where
  "covered ss = \<Union> (fst ` set ss)"

lemma covered_simps [simp]: "covered [] = {}" "covered (x # ss) = fst x \<union> covered ss" "covered (a @ b) = covered a \<union> covered b"
  by (simp_all add: covered_def)

definition queueSet :: "qitem list \<Rightarrow> gostring set" where
  "queueSet q = (if QOverflow \<in> set q then UNIV else under {p. \<not> isCookieEvent p \<and> (\<exists>create. QEvent p create \<in> set q)})"


text \<open>Every path whose applied version is older than \<open>v\<close> is in \<open>X\<close>.\<close>

definition late_in :: "(gostring \<Rightarrow> nat) \<Rightarrow> gostring set \<Rightarrow> sys \<Rightarrow> bool" where
  "late_in v X s \<longleftrightarrow> (\<forall>p. sy_app s p < v p \<longrightarrow> p \<in> X)"

text \<open>The part of the queue in front of a cookie.\<close>

definition before :: "gostring \<Rightarrow> qitem list \<Rightarrow> qitem list" where
  "before name q = takeWhile (\<lambda>i. \<forall>p. i = QEvent p True \<longrightarrow> pathBase p \<noteq> name) q"




subsection \<open>How the steps move the pipeline\<close>






lemma pendingSeg_simps [simp]:
  "fst (pendingSeg w) = (if wt_rescan w then UNIV else under (set (wt_pending w)))"
  "wt_mode w = Selecting \<Longrightarrow> snd (pendingSeg w) = None" "wt_mode w = Emitting d \<Longrightarrow> snd (pendingSeg w) = d"
  "wt_mode w = Exited \<Longrightarrow> snd (pendingSeg w) = None"
  by (simp_all add: pendingSeg_def)


subsection \<open>Cookies\<close>

lemma decimal_eq_iff [simp]: "decimal m = decimal n \<longleftrightarrow> m = n"
  by (metis digits_value_decimal)

lemma cookieName_inj [simp]: "cookieName pid m = cookieName pid n \<longleftrightarrow> m = n"
  by (simp add: cookieName_def)

lemma slash_decimal: "slash \<notin> set (decimal n)"
  using decimal_digits [of slash n] by auto

lemma slash_cookieName: "slash \<notin> set (cookieName pid n)"
  using slash_decimal by (auto simp: cookieName_def CookiePrefix_def str_def)

lemma pathBase_cookiePath [simp]: "pathBase (cookiePath c n) = cookieName (sc_pid c) n"
  by (simp add: cookiePath_def pathBase_Join slash_cookieName)

lemma isCookieEvent_base: "pathBase p = cookieName pid n \<Longrightarrow> isCookieEvent p"
  by (simp add: isCookieEvent_def cookieName_def str_def)

lemma isCookieEvent_cookiePath [simp]: "isCookieEvent (cookiePath c n)"
  by (rule isCookieEvent_base [OF pathBase_cookiePath])

subsection \<open>The invariant\<close>

lemma queueSet_simps [simp]:
  "queueSet [] = {}" "queueSet (QOverflow # q) = UNIV"
  "queueSet (QEvent p create # q) = (if isCookieEvent p then {} else below p) \<union> queueSet q"
  "queueSet (a @ b) = queueSet a \<union> queueSet b"
  by (auto simp: queueSet_def under_def)

lemma before_simps [simp]:
  "before name [] = []" "before name (QOverflow # q) = QOverflow # before name q"
  "before name (QEvent p False # q) = QEvent p False # before name q"
  "before name (QEvent p True # q) = (if pathBase p = name then [] else QEvent p True # before name q)"
  by (simp_all add: before_def)

















lemma segs_frame [simp]:
  "segs (s\<lparr>sy_pc := pc\<rparr>) = segs s" "segs (s\<lparr>sy_seq := n\<rparr>) = segs s" "segs (s\<lparr>sy_queue := q\<rparr>) = segs s"
  "segs (s\<lparr>sy_w := (sy_w s)\<lparr>wt_cookies := xs\<rparr>\<rparr>) = segs s"
  by (simp_all add: segs_def handSegs_def pendingSeg_def)

lemma segs_pc_frame [simp]:
  "segs (s\<lparr>sy_w := w, sy_pc := pc\<rparr>) = segs (s\<lparr>sy_w := w\<rparr>)" "segs (s\<lparr>sy_seq := n, sy_pc := pc\<rparr>) = segs s"
  "segs (s\<lparr>sy_queue := q, sy_pc := pc, sy_seq := n\<rparr>) = segs s" "segs (s\<lparr>sy_pc := pc, sy_seq := n\<rparr>) = segs s"
  by (simp_all add: segs_def handSegs_def pendingSeg_def)






lemma late_in_cong: "sy_app s' = sy_app s \<Longrightarrow> late_in v X s' = late_in v X s"
  by (simp add: late_in_def)




subsection \<open>Runs\<close>


lemma reachable_loop: "reachable c s \<Longrightarrow> loop_step c s s' \<Longrightarrow> reachable c s'"
  by (erule reachable.step) (simp add: sys_step_def)

lemma reachable_env: "reachable c s \<Longrightarrow> env_step c s s' \<Longrightarrow> reachable c s'"
  by (erule reachable.step) (simp add: sys_step_def)

lemma reachable_barrier: "reachable c s \<Longrightarrow> barrier_step c s s' \<Longrightarrow> reachable c s'"
  by (erule reachable.step) (simp add: sys_step_def)



subsection \<open>The pipeline drains\<close>








subsection \<open>Two runs\<close>

text \<open>A store of one file \<open>f\<close>, alone or beside another store of the same tree.\<close>

definition exCfg :: "bool \<Rightarrow> syscfg" where
  "exCfg shared = \<lparr>sc_root = str ''r'', sc_pid = 7, sc_os = \<lparr>os_ReadDir = (\<lambda>_. None), os_Stat = (\<lambda>_. None), os_EvalSymlinks = Some\<rparr>,
     sc_fuel = 0, sc_ign = (\<lambda>_ _. False), sc_shared = shared\<rparr>"

definition exWatcher :: Watcher where
  "exWatcher = \<lparr>wt_root = str ''r'', wt_follow = False, wt_pending = [], wt_rescan = False, wt_timer = None, wt_out = [],
     wt_cookies = [], wt_dirs = [str ''r''], wt_done = False, wt_mode = Selecting\<rparr>"

definition exVer :: "nat \<Rightarrow> gostring \<Rightarrow> nat" where
  "exVer n p = (if p = str ''r/f'' then n else 0)"

lemma ex_not_cookie [simp]: "\<not> isCookieEvent (str ''r/f'')"
  by code_simp

lemma ex_tracked: "tracked (exCfg b) (str ''r/f'')"
proof -
  have "Rel (str ''r'') (str ''r/f'') = Some (str ''f'')" "str ''f'' \<noteq> str ''.''" "str ''f'' \<noteq> str ''.gcgrepignore''" by code_simp+
  then show ?thesis by (simp add: tracked_def exCfg_def)
qed

lemma exVer_write [simp]: "bump {str ''r/f''} (exVer n) = exVer (Suc n)"
  by (auto simp: exVer_def bump_def)

lemma exVer_apply [simp]: "(\<lambda>p. if p \<in> below (str ''r/f'') then exVer n p else exVer m p) = exVer n"
  by (auto simp: exVer_def)

lemma exCfg_simps [simp]: "sc_shared (exCfg b) = b" "sc_pid (exCfg b) = 7" by (simp_all add: exCfg_def)

abbreviation exSt :: "qitem list \<Rightarrow> Watcher \<Rightarrow> hand option \<Rightarrow> nat set \<Rightarrow> barrierPc \<Rightarrow> nat \<Rightarrow> nat \<Rightarrow> nat \<Rightarrow> nat \<Rightarrow> sys" where
  "exSt q w h cl pc n fl v a \<equiv> \<lparr>sy_queue = q, sy_w = w, sy_hand = h, sy_closed = cl, sy_pc = pc, sy_seq = n, sy_flushes = fl,
     sy_ver = exVer v, sy_app = exVer a\<rparr>"

lemma ex_init: "reachable (exCfg b) (exSt [] exWatcher None {} Idle 0 0 0 0)"
  using reachable.init [of exWatcher "exCfg b" "exVer 0"] by (simp add: initSys_def fresh_watcher_def exWatcher_def)

lemma ex_write: "reachable (exCfg b) (exSt q w h cl pc n fl v a) \<Longrightarrow>
    reachable (exCfg b) (exSt (q @ [QEvent (str ''r/f'') False]) w h cl pc n fl (Suc v) a)"
  using env_step.Write [OF ex_tracked, of "{str ''r/f''}" b "exSt q w h cl pc n fl v a" False] by (auto dest: reachable_env)

lemma ex_start: "reachable c (exSt q w h cl Idle n fl v a) \<Longrightarrow> reachable c (exSt q w h cl (Draining (exVer v)) n fl v a)"
  using barrier_step.Start [of "exSt q w h cl Idle n fl v a" c] by (auto dest: reachable_barrier)

lemma ex_create: "reachable c (exSt q w h cl (Draining u) n fl v a) \<Longrightarrow> wt_cookies w = [] \<Longrightarrow>
    reachable c (exSt (q @ [QEvent (cookiePath c (Suc n)) True]) w h cl (Waiting (cookieName (sc_pid c) (Suc n)) u) (Suc n) fl v a)"
  using barrier_step.Create [of "exSt q w h cl (Draining u) n fl v a" u _ c] by (auto dest: reachable_barrier)

lemma ex_cookie: "reachable c (exSt (QEvent (cookiePath c k) True # q) w h cl pc n fl v a) \<Longrightarrow> wt_cookies w = [] \<Longrightarrow>
    wt_mode w = Selecting \<Longrightarrow> reachable c (exSt q (w\<lparr>wt_cookies := [cookieName (sc_pid c) k]\<rparr>) h cl pc n fl v a)"
  using loop_step.LoopEvent [of "exSt (QEvent (cookiePath c k) True # q) w h cl pc n fl v a" "cookiePath c k" True q c False]
  by (auto simp: onEvent_def cookieCap_def dest: reachable_loop)

lemma ex_got: "reachable c (exSt q w h cl (Waiting name u) n fl v a) \<Longrightarrow> wt_cookies w = [name] \<Longrightarrow>
    reachable c (exSt q (w\<lparr>wt_cookies := []\<rparr>) h cl (FlushSend True u) n fl v a)"
  using barrier_step.Got [of "exSt q w h cl (Waiting name u) n fl v a" name u name "[]" c] by (auto dest: reachable_barrier)

text \<open>From the request of a flush to the end of the barrier, when nothing else moves.\<close>

lemma ex_flush:
  assumes "reachable c (exSt q w None {} (FlushSend True u) n 0 v a)" and "wt_mode w = Selecting" and "wt_out w = []"
    and "wt_rescan w = False" and "wt_pending w = (if fresh then [str ''r/f''] else [])"
  shows "\<exists>s. reachable c s \<and> sy_pc s = Finished True True u \<and> sy_app s = exVer (if fresh then v else a)"
proof -
  let ?s0 = "exSt q w None {} (FlushSend True u) n 0 v a"
  let ?b = "\<lparr>ba_Paths = wt_pending w, ba_Rescan = False, ba_Done = Some 0\<rparr>"
  let ?w1 = "w\<lparr>wt_mode := Emitting (Some 0)\<rparr>"
  let ?s1 = "exSt q ?w1 None {} (FlushWait 0 True u) n 1 v a"
  let ?w2 = "emitted (wt_pending w) (Some 0) ?w1"
  let ?s2 = "exSt q ?w2 None {} (FlushWait 0 True u) n 1 v a"
  let ?w3 = "?w2\<lparr>wt_out := []\<rparr>"
  let ?s3 = "exSt q ?w3 (Some \<lparr>hd_todo = under (set (wt_pending w)), hd_done = Some 0\<rparr>) {} (FlushWait 0 True u) n 1 v a"
  let ?s4 = "exSt q ?w3 (Some \<lparr>hd_todo = {}, hd_done = Some 0\<rparr>) {} (FlushWait 0 True u) n 1 v (if fresh then v else a)"
  let ?s5 = "exSt q ?w3 None {0} (FlushWait 0 True u) n 1 v (if fresh then v else a)"
  have "barrier_step c ?s0 ?s1"
    using barrier_step.FlushRecv [of ?s0 True u c] assms(2) by simp
  then have 1: "reachable c ?s1" by (rule reachable_barrier [OF assms(1)])
  have "loop_step c ?s1 ?s2"
    using loop_step.LoopEmit [of ?s1 "Some 0" "wt_pending w" c] assms(3) by (simp add: outCap_def)
  then have 2: "reachable c ?s2" by (rule reachable_loop [OF 1])
  have "loop_step c ?s2 ?s3"
    using loop_step.Take [of ?s2 ?b "[]" c] assms(3,4) by simp
  then have 3: "reachable c ?s3" by (rule reachable_loop [OF 2])
  have "loop_step c ?s3 ?s4"
    using loop_step.Apply [of ?s3 "\<lparr>hd_todo = under (set (wt_pending w)), hd_done = Some 0\<rparr>" "under (set (wt_pending w))" c] assms(5)
    by (cases fresh) (simp_all cong: if_cong)
  then have 4: "reachable c ?s4" by (rule reachable_loop [OF 3])
  have "loop_step c ?s4 ?s5"
    using loop_step.Finish [of ?s4 "\<lparr>hd_todo = {}, hd_done = Some 0\<rparr>" c] by simp
  then have 5: "reachable c ?s5" by (rule reachable_loop [OF 4])
  have "barrier_step c ?s5 (exSt q ?w3 None {0} (Finished True True u) n 1 v (if fresh then v else a))"
    using barrier_step.FlushDone [of ?s5 0 True u c] by simp
  then have "reachable c (exSt q ?w3 None {0} (Finished True True u) n 1 v (if fresh then v else a))"
    by (rule reachable_barrier [OF 5])
  then show ?thesis by (intro exI conjI) (assumption, simp_all)
qed

subsection \<open>Properties\<close>






text \<open>C29. Two stores of one tree, the following and the non-following one of a root or those of nested roots, number their
  cookies alike and each watcher reports the other's: a barrier takes the other store's cookie for its own and
  returns before the event of an earlier write has been read.\<close>

theorem shared_cookies_break_barrier:
  "\<exists>s. reachable (exCfg True) s \<and> sy_pc s = Finished True True (exVer 1) \<and> sy_app s (str ''r/f'') < exVer 1 (str ''r/f'')"
proof -
  let ?c = "exCfg True"
  have "reachable ?c (exSt [QEvent (cookiePath ?c 1) True] exWatcher None {} Idle 0 0 0 0)"
    using env_step.ForeignCookie [of ?c "exSt [] exWatcher None {} Idle 0 0 0 0" 1] ex_init by (auto dest: reachable_env)
  from ex_create [OF ex_start [OF ex_write [OF this]]]
  have "reachable ?c (exSt (QEvent (cookiePath ?c 1) True # [QEvent (str ''r/f'') False, QEvent (cookiePath ?c 1) True]) exWatcher
     None {} (Waiting (cookieName 7 1) (exVer 1)) 1 0 1 0)"
    by (simp add: exWatcher_def)
  from ex_got [OF ex_cookie [OF this, simplified]] obtain s where
    "reachable ?c s" "sy_pc s = Finished True True (exVer 1)" "sy_app s = exVer 0"
    using ex_flush [of ?c _ _ "exVer 1" 1 1 0 False] by (fastforce simp: exWatcher_def)
  then show ?thesis by (intro exI [of _ s]) (simp add: exVer_def)
qed

end
