(* ===== verification/Glob.thy ===== *)
theory Glob
  imports Walk
begin

text \<open>
  The glob patterns of a query. \<open>filepath.Match\<close> of the standard library, as \<open>internal/daemon/server.go\<close> uses it on Unix, and
  the path filters of the server: \<open>hiddenPath\<close>, \<open>globMatcher\<close>, \<open>globMatchAny\<close>, \<open>buildIncludeMatcher\<close> and
  \<open>excludeIncludeMatcher\<close>. A malformed pattern is \<open>None\<close>.
\<close>

subsection \<open>filepath.Match\<close>

abbreviation star :: byte where "star \<equiv> 42"
abbreviation query :: byte where "query \<equiv> 63"
abbreviation lbracket :: byte where "lbracket \<equiv> 91"
abbreviation backslash :: byte where "backslash \<equiv> 92"
abbreviation rbracket :: byte where "rbracket \<equiv> 93"
abbreviation caret :: byte where "caret \<equiv> 94"
abbreviation dash :: byte where "dash \<equiv> 45"

text \<open>One rune of a character class, with the rest of the pattern, which must not be empty.\<close>

definition getRune :: "gostring \<Rightarrow> (rune \<times> gostring) option" where
  "getRune chunk =
     (let (r, n) = DecodeRune chunk in
      if r = 0xFFFD \<and> n = 1 \<or> drop n chunk = [] then None else Some (r, drop n chunk))"

fun getEsc :: "gostring \<Rightarrow> (rune \<times> gostring) option" where
  "getEsc [] = None"
| "getEsc (c # cs) =
     (if c = dash \<or> c = rbracket then None
      else if c = backslash then if cs = [] then None else getRune cs
      else getRune (c # cs))"

lemma DecodeRune_pos: "p \<noteq> [] \<Longrightarrow> 0 < snd (DecodeRune p)"
  by (cases p) (auto simp: DecodeRune_def split: list.split)

lemma getRune_shorter: "getRune p = Some (r, p') \<Longrightarrow> length p' < length p"
  using DecodeRune_pos [of p] by (cases "p = []") (auto simp: getRune_def Let_def split: prod.splits if_splits)

lemma getEsc_shorter: "getEsc p = Some (r, p') \<Longrightarrow> length p' < length p"
  by (cases p) (auto split: if_splits dest: getRune_shorter)

text \<open>The ranges of a class up to its closing bracket; \<open>some\<close> tells whether one has been read.\<close>

function classLoop :: "bool \<Rightarrow> rune \<Rightarrow> gostring \<Rightarrow> bool \<Rightarrow> (bool \<times> gostring) option" where
  "classLoop some r chunk match =
     (if chunk \<noteq> [] \<and> hd chunk = rbracket \<and> some then Some (match, tl chunk)
      else case getEsc chunk of
        None \<Rightarrow> None
      | Some (lo, chunk1) \<Rightarrow>
          (case (if hd chunk1 = dash then getEsc (tl chunk1) else Some (lo, chunk1)) of
             None \<Rightarrow> None
           | Some (hi, chunk2) \<Rightarrow> classLoop True r chunk2 (match \<or> lo \<le> r \<and> r \<le> hi)))"
  by pat_completeness auto
termination
  by (relation "measure (\<lambda>(some, r, chunk, match). length chunk)")
    (auto dest!: getEsc_shorter split: if_splits)

declare classLoop.simps [simp del]

lemma classLoop_shorter: "classLoop some r p m = Some (m', p') \<Longrightarrow> length p' < length p"
proof (induction some r p m arbitrary: m' p' rule: classLoop.induct)
  case (1 some r p m)
  show ?case
  proof (cases "p \<noteq> [] \<and> hd p = rbracket \<and> some")
    case True
    then have "classLoop some r p m = Some (m, tl p)" by (subst classLoop.simps) simp
    with "1.prems" True show ?thesis by simp
  next
    case False
    with "1.prems" obtain lo p1 hi p2 where s: "getEsc p = Some (lo, p1)"
      "(if hd p1 = dash then getEsc (tl p1) else Some (lo, p1)) = Some (hi, p2)"
      "classLoop True r p2 (m \<or> lo \<le> r \<and> r \<le> hi) = Some (m', p')"
      by (auto simp: classLoop.simps [of some r p m] split: option.splits if_splits)
    have "length p1 < length p" using s(1) by (rule getEsc_shorter)
    moreover have "length p2 \<le> length p1"
    proof (cases "hd p1 = dash")
      case True
      with s(2) have "getEsc (tl p1) = Some (hi, p2)" by simp
      from getEsc_shorter [OF this] show ?thesis by simp
    next
      case out: False
      with s(2) show ?thesis by simp
    qed
    moreover have "length p' < length p2" using "1.IH" [OF False s(1) refl s(2) refl s(3)] .
    ultimately show ?thesis by linarith
  qed
qed

text \<open>A chunk without a star against a prefix of the name: the rest of the name when it matches. After a failure the
  chunk is still checked for its form.\<close>

function matchChunk :: "gostring \<Rightarrow> gostring \<Rightarrow> bool \<Rightarrow> gostring option option" where
  "matchChunk [] s failed = Some (if failed then None else Some s)"
| "matchChunk (c # cs) s failed0 =
     (let failed = failed0 \<or> s = [] in
      if c = lbracket then
        let r = (if failed then 0 else fst (DecodeRune s));
            s = (if failed then s else drop (snd (DecodeRune s)) s);
            negated = (cs \<noteq> [] \<and> hd cs = caret);
            cs = (if negated then tl cs else cs)
        in case classLoop False r cs False of
             None \<Rightarrow> None
           | Some (match, cs) \<Rightarrow> matchChunk cs s (failed \<or> match = negated)
      else if c = query then
        if failed then matchChunk cs s True
        else matchChunk cs (drop (snd (DecodeRune s)) s) (hd s = slash)
      else if c = backslash \<and> cs = [] then None
      else
        let d = (if c = backslash then hd cs else c);
            cs = (if c = backslash then tl cs else cs)
        in if failed then matchChunk cs s True else matchChunk cs (tl s) (d \<noteq> hd s))"
  by pat_completeness auto
termination
  by (relation "measure (\<lambda>(chunk, s, failed). length chunk)") (auto dest!: classLoop_shorter split: if_splits)

declare matchChunk.simps(2) [simp del]

text \<open>Leading stars, the chunk up to the next star outside a class, and the rest.\<close>

fun scan_loop :: "bool \<Rightarrow> gostring \<Rightarrow> gostring \<times> gostring" where
  "scan_loop inrange [] = ([], [])"
| "scan_loop inrange [c] = (if c = star \<and> \<not> inrange then ([], [c]) else ([c], []))"
| "scan_loop inrange (c # d # cs) =
     (if c = backslash then (case scan_loop inrange cs of (a, b) \<Rightarrow> (c # d # a, b))
      else if c = star \<and> \<not> inrange then ([], c # d # cs)
      else case scan_loop (if c = lbracket then True else if c = rbracket then False else inrange) (d # cs) of
             (a, b) \<Rightarrow> (c # a, b))"

definition scanChunk :: "gostring \<Rightarrow> bool \<times> gostring \<times> gostring" where
  "scanChunk pattern =
     (let rest = dropWhile (\<lambda>c. c = star) pattern in (pattern \<noteq> [] \<and> hd pattern = star, scan_loop False rest))"

lemma scan_loop_append: "scan_loop r p = (a, b) \<Longrightarrow> p = a @ b"
  by (induction r p arbitrary: a b rule: scan_loop.induct) (auto split: if_splits prod.splits)

lemma scan_loop_nonempty: "scan_loop r (c # cs) = (a, b) \<Longrightarrow> c \<noteq> star \<Longrightarrow> a \<noteq> []"
  by (cases cs) (auto split: if_splits prod.splits)

lemma scanChunk_shorter:
  assumes "scanChunk p = (st, chunk, rest)" and "p \<noteq> []"
  shows "length rest < length p"
proof (cases "hd p = star")
  case True
  then have "length (dropWhile (\<lambda>c. c = star) p) < length p"
    using assms(2) by (cases p) (auto simp: le_imp_less_Suc length_dropWhile_le)
  moreover have "scan_loop False (dropWhile (\<lambda>c. c = star) p) = (chunk, rest)"
    using assms(1) by (simp add: scanChunk_def Let_def)
  then have "dropWhile (\<lambda>c. c = star) p = chunk @ rest" by (rule scan_loop_append)
  then have "length (dropWhile (\<lambda>c. c = star) p) = length (chunk @ rest)" by (rule arg_cong)
  ultimately show ?thesis by simp
next
  case False
  obtain c cs where p: "p = c # cs" using assms(2) by (cases p) auto
  with False assms(1) have s: "scan_loop False p = (chunk, rest)" by (simp add: scanChunk_def Let_def)
  from scan_loop_nonempty [OF s [unfolded p]] False p have "chunk \<noteq> []" by simp
  moreover have "p = chunk @ rest" by (rule scan_loop_append [OF s])
  ultimately show ?thesis by simp
qed

fun skipMatch :: "gostring \<Rightarrow> bool \<Rightarrow> gostring \<Rightarrow> gostring option option" where
  "skipMatch chunk lst [] = Some None"
| "skipMatch chunk lst (c # name) =
     (if c = slash then Some None
      else case matchChunk chunk name False of
          None \<Rightarrow> None
        | Some None \<Rightarrow> skipMatch chunk lst name
        | Some (Some t) \<Rightarrow> if lst \<and> t \<noteq> [] then skipMatch chunk lst name else Some (Some t))"

function checkRest :: "gostring \<Rightarrow> bool option" where
  "checkRest pattern =
     (if pattern = [] then Some False
      else case scanChunk pattern of (_, chunk, rest) \<Rightarrow>
        if matchChunk chunk [] False = None then None else checkRest rest)"
  by pat_completeness auto
termination
  by (relation "measure length") (auto dest: scanChunk_shorter [OF sym])

declare checkRest.simps [simp del]

function Match_loop :: "gostring \<Rightarrow> gostring \<Rightarrow> bool option" where
  "Match_loop pattern name =
     (if pattern = [] then Some (name = [])
      else case scanChunk pattern of (st, chunk, rest) \<Rightarrow>
        if st \<and> chunk = [] then Some (slash \<notin> set name)
        else case matchChunk chunk name False of
            None \<Rightarrow> None
          | Some m \<Rightarrow>
              if m \<noteq> None \<and> (the m = [] \<or> rest \<noteq> []) then Match_loop rest (the m)
              else case (if st then skipMatch chunk (rest = []) name else Some None) of
                  None \<Rightarrow> None
                | Some None \<Rightarrow> checkRest rest
                | Some (Some t) \<Rightarrow> Match_loop rest t)"
  by pat_completeness auto
termination
  by (relation "measure (\<lambda>(pattern, name). length pattern)") (auto dest: scanChunk_shorter [OF sym])

declare Match_loop.simps [simp del]

text \<open>\<open>filepath.Match\<close>\<close>

definition filepathMatch :: "gostring \<Rightarrow> gostring \<Rightarrow> bool option" where
  "filepathMatch pattern name = Match_loop pattern name"

subsection \<open>The server's filters\<close>

function hiddenPath :: "gostring \<Rightarrow> bool" where
  "hiddenPath rel =
     (if rel = [] then False
      else if hd rel = 46 then True
      else case IndexByte rel slash of None \<Rightarrow> False | Some i \<Rightarrow> hiddenPath (drop (i + 1) rel))"
  by pat_completeness auto
termination
  by (relation "measure length") auto

declare hiddenPath.simps [simp del]

definition badGlob :: "gostring list \<Rightarrow> bool" where
  "badGlob globs \<longleftrightarrow> (\<exists>g \<in> set globs. filepathMatch g (str ''x'') = None)"

definition globMatcher :: "gostring list \<Rightarrow> unit + (gostring \<Rightarrow> bool) option" where
  "globMatcher globs =
     (if length globs = 0 then Inr None
      else if badGlob globs then Inl ()
      else Inr (Some (\<lambda>p. \<exists>g \<in> set globs. filepathMatch g p = Some True \<or> filepathMatch g (afterSlash p) = Some True)))"

definition globMatchAny :: "gostring list \<Rightarrow> gostring \<Rightarrow> bool" where
  "globMatchAny globs p \<longleftrightarrow>
     (\<exists>g \<in> set globs. filepathMatch g p = Some True \<or> filepathMatch g (afterSlash p) = Some True \<or>
        HasSuffix g (str ''/*'') \<and> HasPrefix p (take (length g - 1) g))"

definition buildIncludeMatcher :: "gostring list \<Rightarrow> gostring \<Rightarrow> bool" where
  "buildIncludeMatcher globs = (if length globs = 0 then (\<lambda>_. False) else globMatchAny globs)"

definition excludeIncludeMatcher :: "gostring list \<Rightarrow> gostring list \<Rightarrow> unit + (gostring \<Rightarrow> bool) option" where
  "excludeIncludeMatcher exclude incl =
     (if length exclude = 0 \<and> length incl = 0 then Inr None
      else if badGlob exclude \<or> badGlob incl then Inl ()
      else Inr (Some (\<lambda>p.
        if length incl > 0 \<and> globMatchAny incl p then True
        else if length exclude > 0 \<and> globMatchAny exclude p then False
        else True)))"

subsection \<open>Patterns without and with one star\<close>

definition plain :: "gostring \<Rightarrow> bool" where
  "plain p \<longleftrightarrow> set p \<inter> {star, query, lbracket, backslash} = {}"

lemma matchChunk_plain:
  "plain p \<Longrightarrow>
    matchChunk p s failed = Some (if \<not> failed \<and> prefix p s then Some (drop (length p) s) else None)"
proof (induction p arbitrary: s failed)
  case (Cons c p)
  then have "c \<noteq> lbracket" "c \<noteq> query" "c \<noteq> backslash" "plain p" by (auto simp: plain_def)
  with Cons.IH show ?case by (cases s) (auto simp: matchChunk.simps(2))
qed simp

lemma scan_loop_plain: "plain p \<Longrightarrow> scan_loop False p = (p, [])"
proof (induction p rule: induct_list012)
  case (3 c d p)
  then show ?case by (auto simp: plain_def)
qed (auto simp: plain_def)

lemma scanChunk_plain:
  assumes "plain p" "p \<noteq> []"
  shows "scanChunk p = (False, p, [])" and "scanChunk (star # p) = (True, p, [])"
proof -
  have "dropWhile (\<lambda>c. c = star) p = p" "hd p \<noteq> star"
    using assms by (cases p; auto simp: plain_def)+
  then show "scanChunk p = (False, p, [])" "scanChunk (star # p) = (True, p, [])"
    using scan_loop_plain [OF assms(1)] by (simp_all add: scanChunk_def)
qed

lemma skipMatch_plain:
  assumes "plain p"
  shows "skipMatch p True s = Some (if \<exists>v. v \<noteq> [] \<and> s = v @ p \<and> slash \<notin> set v then Some [] else None)"
proof (induction s)
  case (Cons c s)
  show ?case
  proof (cases "c = slash")
    case True
    then show ?thesis by (auto simp: Cons_eq_append_conv)
  next
    case False
    have "(\<exists>v. v \<noteq> [] \<and> c # s = v @ p \<and> slash \<notin> set v) \<longleftrightarrow> s = p \<or> (\<exists>v. v \<noteq> [] \<and> s = v @ p \<and> slash \<notin> set v)"
      using False by (auto simp: Cons_eq_append_conv)
    then show ?thesis
      using False Cons.IH by (auto simp: matchChunk_plain [OF assms] prefix_def)
  qed
qed simp

lemma checkRest_Nil [simp]: "checkRest [] = Some False"
  by (simp add: checkRest.simps)

lemma Match_loop_Nil [simp]: "Match_loop [] s = Some (s = [])"
  by (simp add: Match_loop.simps)

lemma filepathMatch_plain:
  assumes "plain p"
  shows "filepathMatch p s = Some (s = p)"
proof (cases "p = []")
  case False
  show ?thesis
    unfolding filepathMatch_def Match_loop.simps [of p] scanChunk_plain(1) [OF assms False]
    using False by (auto simp: matchChunk_plain [OF assms] prefix_def)
qed (auto simp: filepathMatch_def)

lemma filepathMatch_star:
  assumes "plain p" and "p \<noteq> []"
  shows "filepathMatch (star # p) s = Some (\<exists>v. s = v @ p \<and> slash \<notin> set v)"
proof -
  have m: "matchChunk p s False = Some (if prefix p s then Some (drop (length p) s) else None)"
    using assms(1) by (simp add: matchChunk_plain)
  show ?thesis
  proof (cases "s = p")
    case True
    then have "\<exists>v. s = v @ p \<and> slash \<notin> set v" by (intro exI [of _ "[]"]) simp
    with True m show ?thesis
      unfolding filepathMatch_def Match_loop.simps [of "star # p"] scanChunk_plain(2) [OF assms] by simp
  next
    case False
    then have "(\<exists>v. s = v @ p \<and> slash \<notin> set v) \<longleftrightarrow> (\<exists>v. v \<noteq> [] \<and> s = v @ p \<and> slash \<notin> set v)" by auto
    moreover have "\<not> (prefix p s \<and> drop (length p) s = [])" using False by (auto simp: prefix_def)
    ultimately show ?thesis
      unfolding filepathMatch_def Match_loop.simps [of "star # p"] scanChunk_plain(2) [OF assms]
      using assms m skipMatch_plain [OF assms(1), of s] by (simp split: if_splits)
  qed
qed

lemma afterSlash_cases:
  obtains (none) "slash \<notin> set p" "afterSlash p = p"
  | (found) u where "p = u @ slash # afterSlash p" "slash \<notin> set (afterSlash p)"
proof (cases "LastIndexByte p slash")
  case None
  then have "afterSlash p = p" by (simp add: afterSlash_def)
  with None show thesis using none by (simp add: LastIndexByte_None_iff)
next
  case (Some i)
  then have i: "i < length p" "p ! i = slash" "slash \<notin> set (drop (i + 1) p)"
    by (simp_all add: LastIndexByte_Some_iff)
  have a: "afterSlash p = drop (i + 1) p" using Some by (simp add: afterSlash_def)
  have "p = take i p @ slash # drop (i + 1) p" using i(1,2) by (simp add: Cons_nth_drop_Suc flip: i(2))
  with i(3) show thesis using found a by simp
qed

lemma suffix_afterSlash:
  assumes "slash \<notin> set l"
  shows "(\<exists>v. afterSlash p = v @ l \<and> slash \<notin> set v) \<longleftrightarrow> suffix l p"
proof (cases rule: afterSlash_cases [where p = p])
  case none
  then show ?thesis by (auto simp: suffix_def)
next
  case (found u)
  have "suffix l p \<longleftrightarrow> suffix l (afterSlash p)"
  proof
    assume "suffix l p"
    then obtain v where "p = v @ l" by (auto simp: suffix_def)
    with found(1) have "(u @ [slash]) @ afterSlash p = v @ l" by simp
    then obtain w where "u @ [slash] = v @ w \<and> w @ afterSlash p = l \<or> (u @ [slash]) @ w = v \<and> afterSlash p = w @ l"
      unfolding append_eq_append_conv2 by blast
    then show "suffix l (afterSlash p)"
    proof
      assume w: "u @ [slash] = v @ w \<and> w @ afterSlash p = l"
      then have "w = []" using assms by (cases w rule: rev_cases) auto
      with w show ?thesis by simp
    qed (auto simp: suffix_def)
  next
    assume "suffix l (afterSlash p)"
    then have "suffix l (u @ slash # afterSlash p)" by (intro suffix_appendI suffix_ConsI)
    then show "suffix l p" by (simp flip: found(1))
  qed
  with found(2) show ?thesis by (auto simp: suffix_def)
qed

text \<open>C40. A list of suffix globs \<open>*.ext\<close> selects the paths, in whatever directory, that end in one of the suffixes:
  the filter is built without an error, and it holds of a path exactly when one of the suffixes ends it.\<close>

theorem globMatcher_suffixes:
  assumes "lits \<noteq> []" and "\<forall>l \<in> set lits. l \<noteq> [] \<and> plain l \<and> slash \<notin> set l"
  shows "\<exists>f. globMatcher (map (\<lambda>l. star # l) lits) = Inr (Some f) \<and> (\<forall>p. f p \<longleftrightarrow> (\<exists>l \<in> set lits. HasSuffix p l))"
proof -
  have m: "filepathMatch (star # l) p = Some (\<exists>v. p = v @ l \<and> slash \<notin> set v)" if "l \<in> set lits" for l p
    using assms(2) that by (simp add: filepathMatch_star)
  then have "\<not> badGlob (map (\<lambda>l. star # l) lits)" by (auto simp: badGlob_def)
  moreover have "filepathMatch (star # l) p = Some True \<or> filepathMatch (star # l) (afterSlash p) = Some True \<longleftrightarrow>
      HasSuffix p l" if "l \<in> set lits" for l p
    using assms(2) that suffix_afterSlash [of l p] by (auto simp: m HasSuffix_def suffix_def)
  ultimately show ?thesis using assms(1) by (auto simp: globMatcher_def)
qed

lemma globMatcher_suffixes_witness:
  "\<exists>f. globMatcher [str ''*.go'', str ''*_test.c''] = Inr (Some f) \<and> f (str ''src/a/b.go'') \<and> \<not> f (str ''a.go/b.c'')"
proof -
  have "\<exists>f. globMatcher (map (\<lambda>l. star # l) [str ''.go'', str ''_test.c'']) = Inr (Some f) \<and>
      (\<forall>p. f p \<longleftrightarrow> (\<exists>l \<in> set [str ''.go'', str ''_test.c'']. HasSuffix p l))"
    by (rule globMatcher_suffixes) (simp_all add: plain_def str_def)
  then obtain f where f: "globMatcher (map (\<lambda>l. star # l) [str ''.go'', str ''_test.c'']) = Inr (Some f)"
    "\<And>p. f p \<longleftrightarrow> (\<exists>l \<in> set [str ''.go'', str ''_test.c'']. HasSuffix p l)" by blast
  have "f (str ''src/a/b.go'')" "\<not> f (str ''a.go/b.c'')" unfolding f(2) by code_simp+
  moreover have "map (\<lambda>l. star # l) [str ''.go'', str ''_test.c''] = [str ''*.go'', str ''*_test.c'']" by code_simp
  ultimately show ?thesis using f(1) by auto
qed

subsection \<open>Hidden paths\<close>

lemma hiddenPath_iff: "hiddenPath rel \<longleftrightarrow> (\<exists>c \<in> set (splitSlash rel). c \<noteq> [] \<and> hd c = 46)"
proof (induction rel rule: hiddenPath.induct)
  case (1 rel)
  show ?case
  proof (cases "IndexByte rel slash")
    case None
    then have "splitSlash rel = [rel]" by (simp add: IndexByte_None_iff splitSlash_plain)
    with None show ?thesis by (simp add: hiddenPath.simps [of rel])
  next
    case (Some i)
    then have i: "i < length rel" "rel ! i = slash" "\<forall>j < i. rel ! j \<noteq> slash"
      by (auto simp: IndexByte_Some_iff)
    have rel: "rel = take i rel @ slash # drop (i + 1) rel" using i(1,2) by (simp add: Cons_nth_drop_Suc flip: i(2))
    have "slash \<notin> set (take i rel)" using i(1,3) by (auto simp: in_set_conv_nth)
    then have sp: "splitSlash rel = take i rel # splitSlash (drop (i + 1) rel)"
      by (subst rel) (simp add: splitSlash_append splitSlash_plain)
    have "hd rel = 46 \<longleftrightarrow> take i rel \<noteq> [] \<and> hd (take i rel) = 46"
      using i by (cases i; cases rel) auto
    moreover have "rel \<noteq> []" using i(1) by auto
    ultimately show ?thesis
      using "1.IH" [of i] Some by (auto simp: hiddenPath.simps [of rel] sp)
  qed
qed

lemma hiddenPath_slash: "hiddenPath (p @ slash # q) \<longleftrightarrow> hiddenPath p \<or> hiddenPath q"
  by (auto simp: hiddenPath_iff splitSlash_append)

end
