(* ===== verification/Conf.thy ===== *)
theory Conf
  imports Prelude
begin

text \<open>
  \<open>internal/conf/conf.go\<close>: the tunables and how \<open>Load\<close> reads them from the environment. The environment is
  an argument; durations are counts of nanoseconds in an \<open>int64\<close> and wrap.
\<close>

type_synonym environment = "gostring \<Rightarrow> gostring option"

text \<open>A value of type \<open>int64\<close> (and of \<open>int\<close>, on the 64-bit platforms) after wrap-around.\<close>

definition wrap64 :: "int \<Rightarrow> int" where
  "wrap64 n = (n + 2 ^ 63) mod 2 ^ 64 - 2 ^ 63"

lemma wrap64_range: "- (2 ^ 63) \<le> wrap64 n \<and> wrap64 n < 2 ^ 63"
proof -
  have "0 \<le> (n + 2 ^ 63) mod (2 ^ 64 :: int)" "(n + 2 ^ 63) mod (2 ^ 64 :: int) < 2 ^ 64" by simp_all
  then show ?thesis by (simp add: wrap64_def)
qed

lemma wrap64_id: "- (2 ^ 63) \<le> n \<Longrightarrow> n < 2 ^ 63 \<Longrightarrow> wrap64 n = n"
  by (simp add: wrap64_def)

definition Millisecond :: int where "Millisecond = 1000000"
definition Second :: int where "Second = 1000000000"

record Config =
  MaxFileSizeMB :: int
  MaxIndexMB :: int
  BarrierTimeout :: int
  Debounce :: int
  SaveDelay :: int
  Workers :: int
  SpawnTimeout :: int
  DialTimeout :: int
  MaxColumns :: int
  LimitDefault :: int
  ProgressInterval :: int
  Priority :: gostring
  EngineChoice :: gostring
  DiskEngineMB :: int
  RebuildInterval :: int
  ShardTargetMB :: int
  ShardMinMB :: int
  ShardMaxMB :: int
  RebuildThreshold :: int
  SearchWorkers :: int
  MemoryLimitMB :: int
  ShardInlineKB :: int
  Exclude :: "gostring list"
  Gitignore :: bool

text \<open>\<open>runtime.NumCPU()\<close> is the argument.\<close>

definition defaultWorkers :: "int \<Rightarrow> int" where
  "defaultWorkers ncpu =
     (let w = ncpu div 2; w = (if w > 8 then 8 else w) in if w < 1 then 1 else w)"

definition Default :: "int \<Rightarrow> Config" where
  "Default ncpu = \<lparr>MaxFileSizeMB = 2, MaxIndexMB = 256, BarrierTimeout = 2 * Second, Debounce = 200 * Millisecond,
     SaveDelay = 30 * Second, Workers = defaultWorkers ncpu, SpawnTimeout = 5 * Second, DialTimeout = 500 * Millisecond,
     MaxColumns = 0, LimitDefault = 2000, ProgressInterval = 300 * Millisecond, Priority = str ''low'',
     EngineChoice = str ''auto'', DiskEngineMB = 10, RebuildInterval = 20 * Second, ShardTargetMB = 80,
     ShardMinMB = 32, ShardMaxMB = 128, RebuildThreshold = 20, SearchWorkers = 2, MemoryLimitMB = 100,
     ShardInlineKB = 0, Exclude = [], Gitignore = False\<rparr>"

text \<open>\<open>strconv.Atoi\<close>: an optional sign and at least one decimal digit, in the range of \<open>int\<close>.\<close>

fun digitsValue :: "int \<Rightarrow> gostring \<Rightarrow> int option" where
  "digitsValue n [] = Some n"
| "digitsValue n (c # cs) = (if 48 \<le> c \<and> c \<le> 57 then digitsValue (n * 10 + (uint c - 48)) cs else None)"

definition Atoi :: "gostring \<Rightarrow> int option" where
  "Atoi s =
     (let neg = HasPrefix s (str ''-'');
          ds = (if neg \<or> HasPrefix s (str ''+'') then drop 1 s else s)
      in if ds = [] then None
         else case digitsValue 0 ds of
           None \<Rightarrow> None
         | Some n \<Rightarrow> let n = (if neg then - n else n) in if - (2 ^ 63) \<le> n \<and> n < 2 ^ 63 then Some n else None)"

definition intVar :: "environment \<Rightarrow> int \<Rightarrow> gostring \<Rightarrow> int" where
  "intVar env dst key =
     (case env key of
        None \<Rightarrow> dst
      | Some v \<Rightarrow> (case Atoi v of None \<Rightarrow> dst | Some n \<Rightarrow> n))"

definition msVar :: "environment \<Rightarrow> int \<Rightarrow> gostring \<Rightarrow> int" where
  "msVar env dst key =
     (case env key of
        None \<Rightarrow> dst
      | Some v \<Rightarrow> (case Atoi v of None \<Rightarrow> dst | Some n \<Rightarrow> if n \<ge> 0 then wrap64 (n * Millisecond) else dst))"

text \<open>\<open>strings.Split(v, ",")\<close>\<close>

fun splitComma :: "gostring \<Rightarrow> gostring list" where
  "splitComma [] = [[]]"
| "splitComma (c # s) =
     (if c = 44 then [] # splitComma s
      else case splitComma s of [] \<Rightarrow> [[c]] | p # ps \<Rightarrow> (c # p) # ps)"

definition choiceVar :: "environment \<Rightarrow> gostring \<Rightarrow> gostring \<Rightarrow> gostring list \<Rightarrow> gostring" where
  "choiceVar env dst key values =
     (case env key of None \<Rightarrow> dst | Some v \<Rightarrow> if v \<in> set values then v else dst)"

definition LoadConfig :: "int \<Rightarrow> environment \<Rightarrow> Config" where
  "LoadConfig ncpu env =
     (let c = Default ncpu;
          c = c\<lparr>MaxFileSizeMB := intVar env (MaxFileSizeMB c) (str ''GCGREP_MAX_FILESIZE_MB'')\<rparr>;
          c = c\<lparr>MaxIndexMB := intVar env (MaxIndexMB c) (str ''GCGREP_MAX_INDEX_MB'')\<rparr>;
          c = c\<lparr>BarrierTimeout := msVar env (BarrierTimeout c) (str ''GCGREP_BARRIER_TIMEOUT_MS'')\<rparr>;
          c = c\<lparr>Debounce := msVar env (Debounce c) (str ''GCGREP_DEBOUNCE_MS'')\<rparr>;
          c = c\<lparr>SaveDelay := msVar env (SaveDelay c) (str ''GCGREP_SAVE_DELAY_MS'')\<rparr>;
          c = c\<lparr>Workers := intVar env (Workers c) (str ''GCGREP_WORKERS'')\<rparr>;
          c = c\<lparr>SpawnTimeout := msVar env (SpawnTimeout c) (str ''GCGREP_SPAWN_TIMEOUT_MS'')\<rparr>;
          c = c\<lparr>DialTimeout := msVar env (DialTimeout c) (str ''GCGREP_DIAL_TIMEOUT_MS'')\<rparr>;
          c = c\<lparr>MaxColumns := intVar env (MaxColumns c) (str ''GCGREP_MAX_COLUMNS'')\<rparr>;
          c = c\<lparr>LimitDefault := intVar env (LimitDefault c) (str ''GCGREP_LIMIT'')\<rparr>;
          c = c\<lparr>ProgressInterval := msVar env (ProgressInterval c) (str ''GCGREP_PROGRESS_INTERVAL_MS'')\<rparr>;
          c = c\<lparr>Priority := choiceVar env (Priority c) (str ''GCGREP_PRIORITY'') [str ''low'', str ''normal'']\<rparr>;
          c = c\<lparr>EngineChoice := choiceVar env (EngineChoice c) (str ''GCGREP_ENGINE'') [str ''auto'', str ''mem'', str ''disk'']\<rparr>;
          c = c\<lparr>DiskEngineMB := intVar env (DiskEngineMB c) (str ''GCGREP_DISK_ENGINE_MB'')\<rparr>;
          c = c\<lparr>RebuildInterval := msVar env (RebuildInterval c) (str ''GCGREP_REBUILD_INTERVAL_MS'')\<rparr>;
          c = c\<lparr>ShardTargetMB := intVar env (ShardTargetMB c) (str ''GCGREP_SHARD_TARGET_MB'')\<rparr>;
          c = c\<lparr>ShardMinMB := intVar env (ShardMinMB c) (str ''GCGREP_SHARD_MIN_MB'')\<rparr>;
          c = c\<lparr>ShardMaxMB := intVar env (ShardMaxMB c) (str ''GCGREP_SHARD_MAX_MB'')\<rparr>;
          c = c\<lparr>RebuildThreshold := intVar env (RebuildThreshold c) (str ''GCGREP_REBUILD_THRESHOLD'')\<rparr>;
          c = c\<lparr>SearchWorkers := intVar env (SearchWorkers c) (str ''GCGREP_SEARCH_WORKERS'')\<rparr>;
          c = c\<lparr>MemoryLimitMB := intVar env (MemoryLimitMB c) (str ''GCGREP_MEMORY_LIMIT_MB'')\<rparr>;
          c = c\<lparr>ShardInlineKB := intVar env (ShardInlineKB c) (str ''GCGREP_SHARD_INLINE_KB'')\<rparr>;
          c = c\<lparr>Gitignore := (case env (str ''GCGREP_GITIGNORE'') of
                 None \<Rightarrow> Gitignore c
               | Some v \<Rightarrow> if v = str ''1'' \<or> v = str ''true'' then True else Gitignore c)\<rparr>;
          c = c\<lparr>Exclude := (case env (str ''GCGREP_EXCLUDE'') of
                 None \<Rightarrow> Exclude c
               | Some v \<Rightarrow> if v \<noteq> [] then splitComma v else Exclude c)\<rparr>;
          c = c\<lparr>Workers := (if Workers c < 1 then 1 else Workers c)\<rparr>;
          c = c\<lparr>SearchWorkers := (if SearchWorkers c < 1 then 1 else SearchWorkers c)\<rparr>
      in c\<lparr>RebuildThreshold := (if RebuildThreshold c < 1 then 1 else RebuildThreshold c)\<rparr>)"

definition MaxFileSize :: "Config \<Rightarrow> int" where
  "MaxFileSize c = wrap64 (MaxFileSizeMB c * 2 ^ 20)"

definition overrideKeys :: "gostring list" where
  "overrideKeys = map str [''GCGREP_MAX_FILESIZE_MB'', ''GCGREP_MAX_INDEX_MB'', ''GCGREP_BARRIER_TIMEOUT_MS'',
     ''GCGREP_DEBOUNCE_MS'', ''GCGREP_SAVE_DELAY_MS'', ''GCGREP_WORKERS'', ''GCGREP_SPAWN_TIMEOUT_MS'',
     ''GCGREP_DIAL_TIMEOUT_MS'', ''GCGREP_MAX_COLUMNS'', ''GCGREP_LIMIT'', ''GCGREP_PROGRESS_INTERVAL_MS'',
     ''GCGREP_PRIORITY'', ''GCGREP_ENGINE'', ''GCGREP_DISK_ENGINE_MB'', ''GCGREP_REBUILD_INTERVAL_MS'',
     ''GCGREP_SHARD_TARGET_MB'', ''GCGREP_SHARD_MIN_MB'', ''GCGREP_SHARD_MAX_MB'',
     ''GCGREP_REBUILD_THRESHOLD'', ''GCGREP_SEARCH_WORKERS'', ''GCGREP_MEMORY_LIMIT_MB'',
     ''GCGREP_SHARD_INLINE_KB'', ''GCGREP_EXCLUDE'', ''GCGREP_GITIGNORE'']"

definition Overrides :: "environment \<Rightarrow> gostring list" where
  "Overrides env =
     sort (concat (map (\<lambda>k. case env k of None \<Rightarrow> [] | Some v \<Rightarrow> [k @ str ''='' @ v]) overrideKeys))"

subsection \<open>Lemmas\<close>

lemma intVar_cases: "intVar env dst key = dst \<or> (\<exists>v. env key = Some v \<and> Atoi v = Some (intVar env dst key))"
  by (auto simp: intVar_def split: option.splits)

lemma Atoi_range: "Atoi s = Some n \<Longrightarrow> - (2 ^ 63) \<le> n \<and> n < 2 ^ 63"
  by (auto simp: Atoi_def Let_def split: if_splits option.splits)

lemma choiceVar_mem: "dst \<in> set values \<Longrightarrow> choiceVar env dst key values \<in> set values"
  by (auto simp: choiceVar_def split: option.splits)

text \<open>The largest number of milliseconds whose product with \<open>time.Millisecond\<close> fits.\<close>

definition maxMillis :: int where "maxMillis = 9223372036854"

text \<open>What a variable in milliseconds gives: the number when it fits, the default when there is none or a negative one, and a negative
  duration only when the number is too large.\<close>

definition duration_ok :: "environment \<Rightarrow> gostring \<Rightarrow> int \<Rightarrow> int \<Rightarrow> bool" where
  "duration_ok env key dst d \<longleftrightarrow>
     (case Option.bind (env key) Atoi of
        None \<Rightarrow> d = dst
      | Some n \<Rightarrow> if n < 0 then d = dst else if n \<le> maxMillis then d = n * 1000000 else True)"

lemma msVar_ok: "duration_ok env key dst (msVar env dst key)"
  by (auto simp: duration_ok_def msVar_def maxMillis_def Millisecond_def wrap64_id split: option.split)

lemma duration_sign: "duration_ok env key dst d \<Longrightarrow> 0 \<le> dst \<Longrightarrow> d < 0 \<Longrightarrow> \<exists>v n. env key = Some v \<and> Atoi v = Some n \<and> maxMillis < n"
  by (cases "env key") (auto simp: duration_ok_def split: option.splits if_splits)

text \<open>The durations of a configuration, with their variables.\<close>

definition durations :: "Config \<Rightarrow> (gostring \<times> int) list" where
  "durations c =
     [(str ''GCGREP_BARRIER_TIMEOUT_MS'', BarrierTimeout c), (str ''GCGREP_DEBOUNCE_MS'', Debounce c),
      (str ''GCGREP_SAVE_DELAY_MS'', SaveDelay c), (str ''GCGREP_SPAWN_TIMEOUT_MS'', SpawnTimeout c),
      (str ''GCGREP_DIAL_TIMEOUT_MS'', DialTimeout c), (str ''GCGREP_PROGRESS_INTERVAL_MS'', ProgressInterval c),
      (str ''GCGREP_REBUILD_INTERVAL_MS'', RebuildInterval c)]"

lemma let_weak: "a = b \<Longrightarrow> Let a f = Let b f"
  by simp

lemma LoadConfig_fields:
  "Workers (LoadConfig ncpu env) = max 1 (intVar env (defaultWorkers ncpu) (str ''GCGREP_WORKERS''))"
  "SearchWorkers (LoadConfig ncpu env) = max 1 (intVar env 2 (str ''GCGREP_SEARCH_WORKERS''))"
  "RebuildThreshold (LoadConfig ncpu env) = max 1 (intVar env 20 (str ''GCGREP_REBUILD_THRESHOLD''))"
  "Priority (LoadConfig ncpu env) = choiceVar env (str ''low'') (str ''GCGREP_PRIORITY'') [str ''low'', str ''normal'']"
  "EngineChoice (LoadConfig ncpu env) =
     choiceVar env (str ''auto'') (str ''GCGREP_ENGINE'') [str ''auto'', str ''mem'', str ''disk'']"
  "BarrierTimeout (LoadConfig ncpu env) = msVar env (2 * Second) (str ''GCGREP_BARRIER_TIMEOUT_MS'')"
  "Debounce (LoadConfig ncpu env) = msVar env (200 * Millisecond) (str ''GCGREP_DEBOUNCE_MS'')"
  "SaveDelay (LoadConfig ncpu env) = msVar env (30 * Second) (str ''GCGREP_SAVE_DELAY_MS'')"
  "SpawnTimeout (LoadConfig ncpu env) = msVar env (5 * Second) (str ''GCGREP_SPAWN_TIMEOUT_MS'')"
  "DialTimeout (LoadConfig ncpu env) = msVar env (500 * Millisecond) (str ''GCGREP_DIAL_TIMEOUT_MS'')"
  "ProgressInterval (LoadConfig ncpu env) = msVar env (300 * Millisecond) (str ''GCGREP_PROGRESS_INTERVAL_MS'')"
  "RebuildInterval (LoadConfig ncpu env) = msVar env (20 * Second) (str ''GCGREP_REBUILD_INTERVAL_MS'')"
  by (simp_all add: LoadConfig_def Default_def Let_def max_def cong: let_weak)

lemma LoadConfig_choices:
  "Priority (LoadConfig ncpu env) \<in> {str ''low'', str ''normal''}"
  "EngineChoice (LoadConfig ncpu env) \<in> {str ''auto'', str ''mem'', str ''disk''}"
  using choiceVar_mem [of "str ''low''" "[str ''low'', str ''normal'']" env "str ''GCGREP_PRIORITY''"]
    choiceVar_mem [of "str ''auto''" "[str ''auto'', str ''mem'', str ''disk'']" env "str ''GCGREP_ENGINE''"]
  by (simp_all add: LoadConfig_fields)

subsection \<open>Properties\<close>

text \<open>C34. Whatever the environment holds, \<open>Load\<close> returns at least one indexing worker, one search worker and a rebuild threshold
  of at least one, and a known priority and engine. Each duration is the number of milliseconds of its variable, when that
  is one that fits in an \<open>int64\<close> of nanoseconds, and its default when the variable is missing, no number or negative; it is negative
  only when the number is so large that its product with a million wraps around.\<close>

theorem LoadConfig_ok:
  assumes "c = LoadConfig ncpu env"
  shows "1 \<le> Workers c \<and> 1 \<le> SearchWorkers c \<and> 1 \<le> RebuildThreshold c \<and>
    Priority c \<in> {str ''low'', str ''normal''} \<and> EngineChoice c \<in> {str ''auto'', str ''mem'', str ''disk''} \<and>
    (\<forall>((key, d), (_, dst)) \<in> set (zip (durations c) (durations (Default ncpu))).
       duration_ok env key dst d \<and> (d < 0 \<longrightarrow> (\<exists>v n. env key = Some v \<and> Atoi v = Some n \<and> maxMillis < n)))"
proof -
  have pos: "0 \<le> k * Second" "0 \<le> k * Millisecond" if "0 \<le> k" for k using that by (simp_all add: Second_def Millisecond_def)
  have def: "durations (Default ncpu) = zip (map fst (durations c)) [2 * Second, 200 * Millisecond, 30 * Second, 5 * Second,
      500 * Millisecond, 300 * Millisecond, 20 * Second]"
    by (simp add: durations_def Default_def)
  have ms: "duration_ok env key dst (msVar env dst key) \<and>
      (msVar env dst key < 0 \<longrightarrow> (\<exists>v n. env key = Some v \<and> Atoi v = Some n \<and> maxMillis < n))" if "0 \<le> dst" for key dst
    using msVar_ok duration_sign [OF msVar_ok that] by blast
  have "1 \<le> Workers c \<and> 1 \<le> SearchWorkers c \<and> 1 \<le> RebuildThreshold c" by (simp add: assms LoadConfig_fields(1-3))
  moreover have "\<forall>((key, d), (_, dst)) \<in> set (zip (durations c) (durations (Default ncpu))).
       duration_ok env key dst d \<and> (d < 0 \<longrightarrow> (\<exists>v n. env key = Some v \<and> Atoi v = Some n \<and> maxMillis < n))"
    unfolding def unfolding durations_def assms LoadConfig_fields(6-12)
    by (simp only: list.map fst_conv zip_Cons_Cons zip_Nil list.set ball_simps prod.case) (intro conjI TrueI ms pos; simp)
  ultimately show ?thesis using LoadConfig_choices [of ncpu env] unfolding assms by blast
qed

theorem LoadConfig_ok_witness:
  "Workers (LoadConfig 4 [str ''GCGREP_WORKERS'' \<mapsto> str ''-3'', str ''GCGREP_DEBOUNCE_MS'' \<mapsto> str ''50'']) = 1 \<and>
   Debounce (LoadConfig 4 [str ''GCGREP_WORKERS'' \<mapsto> str ''-3'', str ''GCGREP_DEBOUNCE_MS'' \<mapsto> str ''50'']) = 50000000"
proof -
  let ?env = "[str ''GCGREP_WORKERS'' \<mapsto> str ''-3'', str ''GCGREP_DEBOUNCE_MS'' \<mapsto> str ''50'']"
  have ne: "str ''GCGREP_DEBOUNCE_MS'' \<noteq> str ''GCGREP_WORKERS''" by (simp add: str_def)
  have a: "Atoi (str ''50'') = Some 50" "Atoi (str ''-3'') = Some (-3)" by code_simp+
  note ok = LoadConfig_ok [OF refl, of 4 ?env]
  have "duration_ok ?env (str ''GCGREP_DEBOUNCE_MS'') (200 * Millisecond) (Debounce (LoadConfig 4 ?env))"
    using ok by (simp add: durations_def Default_def)
  then have "Debounce (LoadConfig 4 ?env) = 50000000" using a(1) ne by (simp add: duration_ok_def maxMillis_def)
  moreover have "Workers (LoadConfig 4 ?env) = 1" using ne a(2) by (simp add: LoadConfig_fields(1) intVar_def)
  ultimately show ?thesis by blast
qed

text \<open>Without the bound a duration wraps around and becomes negative.\<close>

lemma msVar_wraps:
  "Debounce (LoadConfig 4 [str ''GCGREP_DEBOUNCE_MS'' \<mapsto> str ''9223372036855'']) < 0"
proof -
  have "Atoi (str ''9223372036855'') = Some 9223372036855" by code_simp
  then show ?thesis by (simp add: LoadConfig_fields(7) msVar_def Millisecond_def wrap64_def)
qed

end
