(* ===== verification/Store.thy ===== *)
theory Store
  imports EngineState Walk Conf
begin

text \<open>
  \<open>internal/daemon/store.go\<close> and \<open>internal/daemon/stream.go\<close>: the store of one indexed root. It owns the in-memory index or
  the disk engine, the exclusion rules, the manifest of files that are searched from disk (the stream
  set), the byte budget and the persisted index. \<open>idx\<close> and \<open>disk\<close> are nil in some states, so they are
  options, and a method call on a nil index is a panic: \<open>None\<close> (a walk without enough fuel is \<open>None\<close> too).

  \<open>rs_reloads\<close> counts the goroutines that a change of the control file has started and that have not run
  yet. What the store gets from outside is the record \<open>host\<close>: the files at the moment of the call, the
  order in which the workers of \<open>indexParallel\<close> take their jobs and Go ranges over maps, and the
  outcomes of file system calls. Each function is one goroutine's call, run without the other goroutines of the store.
\<close>

subsection \<open>State\<close>

datatype storeState = StateIndexing | StateReconciling | StateReady

record streamEntry =
  se_size :: int
  se_mtimeNS :: int

record RootStore =
  rs_root :: gostring
  rs_follow :: bool
  rs_engineType :: gostring
  rs_idx :: "Index option"
  rs_disk :: "DiskEngine option"
  rs_ign :: "rule list"
  rs_gitTree :: "GitignoreTree option"
  rs_stream :: "(gostring \<times> streamEntry) list"
  rs_state :: storeState
  rs_indexed :: int
  rs_total :: int
  rs_isReady :: bool
  rs_saveTimer :: bool
  rs_reloads :: nat
  rs_cacheDir :: gostring
  rs_closed :: bool
  rs_cfg :: Config
  rs_skippedLarge :: int
  rs_skippedBudget :: int
  rs_skippedBinary :: int
  rs_skippedError :: int
  rs_totalBytes :: int

text \<open>The result of \<open>os.Stat\<close> or \<open>os.ReadFile\<close>, whose errors are told apart by \<open>os.IsNotExist\<close>.\<close>

datatype 'a osresult = Ok 'a | NotExist | OtherError

record host =
  ho_Stat :: "gostring \<Rightarrow> fileinfo osresult"
  ho_Lstat :: "gostring \<Rightarrow> fileinfo option"
  ho_ReadFile :: "gostring \<Rightarrow> bytes osresult"
  ho_view :: osview
  ho_fuel :: nat
  ho_gi :: "gostring \<Rightarrow> bytes option"
  ho_control :: "bytes option"
  ho_S :: symlib
  ho_sched :: "nat \<Rightarrow> nat list"
  ho_rng :: "(gostring \<times> u32) list \<Rightarrow> (gostring \<times> u32) list"
  ho_io :: "nat \<Rightarrow> io_outcome"
  ho_mio :: manifest_io
  ho_progress :: int
  ho_entries :: "gostring list option"
  ho_fs :: filesystem
  ho_manifest :: "manifest_file option"
  ho_sha256 :: "bytes \<Rightarrow> bytes"

subsection \<open>stream.go\<close>

definition streamPut :: "RootStore \<Rightarrow> gostring \<Rightarrow> int \<Rightarrow> int \<Rightarrow> RootStore" where
  "streamPut s rel sz mtimeNS = s\<lparr>rs_stream := AList.update rel \<lparr>se_size = sz, se_mtimeNS = mtimeNS\<rparr> (rs_stream s)\<rparr>"

definition streamGet :: "RootStore \<Rightarrow> gostring \<Rightarrow> streamEntry option" where
  "streamGet s rel = map_of (rs_stream s) rel"

definition streamDelete :: "RootStore \<Rightarrow> gostring \<Rightarrow> RootStore" where
  "streamDelete s rel = s\<lparr>rs_stream := AList.delete rel (rs_stream s)\<rparr>"

definition streamDeletePrefix :: "RootStore \<Rightarrow> gostring \<Rightarrow> RootStore" where
  "streamDeletePrefix s dir = s\<lparr>rs_stream := filter (\<lambda>(p, _). \<not> under_dir dir p) (rs_stream s)\<rparr>"

definition streamRetain :: "RootStore \<Rightarrow> gostring set \<Rightarrow> RootStore" where
  "streamRetain s onDisk = s\<lparr>rs_stream := filter (\<lambda>(p, _). p \<in> onDisk) (rs_stream s)\<rparr>"

definition streamCount :: "RootStore \<Rightarrow> nat" where
  "streamCount s = length (rs_stream s)"

record StreamFile =
  sf_Rel :: gostring
  sf_Size :: int

definition StreamList :: "RootStore \<Rightarrow> int \<Rightarrow> (gostring \<Rightarrow> bool) option \<Rightarrow> StreamFile list" where
  "StreamList s maxFilesize pathOK =
     sort_key sf_Rel
       (map (\<lambda>(rel, e). \<lparr>sf_Rel = rel, sf_Size = se_size e\<rparr>)
         (filter (\<lambda>(rel, e). \<not> (maxFilesize > 0 \<and> se_size e > maxFilesize) \<and> pathOk pathOK rel) (rs_stream s)))"

subsection \<open>The byte budget\<close>

definition reserveBytes :: "RootStore \<Rightarrow> int \<Rightarrow> bool \<times> RootStore" where
  "reserveBytes s n =
     (if MaxIndexMB (rs_cfg s) \<le> 0 then (True, s\<lparr>rs_totalBytes := rs_totalBytes s + n\<rparr>)
      else if rs_totalBytes s + n > MaxIndexMB (rs_cfg s) * 2 ^ 20 then (False, s)
      else (True, s\<lparr>rs_totalBytes := rs_totalBytes s + n\<rparr>))"

definition addBytes :: "RootStore \<Rightarrow> int \<Rightarrow> RootStore" where
  "addBytes s n = s\<lparr>rs_totalBytes := rs_totalBytes s + n\<rparr>"

text \<open>\<open>if old, ok := s.idx.Meta(rel); ok\<close>, which three places use to give a file's bytes back.\<close>

definition releaseOld :: "RootStore \<Rightarrow> Index \<Rightarrow> gostring \<Rightarrow> RootStore" where
  "releaseOld s ix rel = (case Meta ix rel of None \<Rightarrow> s | Some old \<Rightarrow> addBytes s (- fm_Size old))"

definition toStream :: "RootStore \<Rightarrow> gostring \<Rightarrow> int \<Rightarrow> int \<Rightarrow> RootStore option" where
  "toStream s rel sz mtimeNS = do {
     ix \<leftarrow> rs_idx s;
     let s = releaseOld s ix rel;
     let s = s\<lparr>rs_idx := Some (Remove ix rel)\<rparr>;
     Some (streamPut s rel sz mtimeNS)
   }"

definition removeTracked :: "RootStore \<Rightarrow> gostring \<Rightarrow> RootStore option" where
  "removeTracked s rel = do {
     ix \<leftarrow> rs_idx s;
     let s = releaseOld s ix rel;
     let s = s\<lparr>rs_idx := Some (Remove ix rel)\<rparr>;
     Some (streamDelete s rel)
   }"

subsection \<open>Indexing one file\<close>

definition isBinary_daemon :: "bytes \<Rightarrow> bool" where
  "isBinary_daemon content \<longleftrightarrow>
     (let n = length content; n = (if n > 8192 then 8192 else n) in IndexByte (take n content) 0 \<noteq> None)"

text \<open>After the reservation: read, decode, and index or route to the stream set.\<close>

definition indexReserved :: "host \<Rightarrow> RootStore \<Rightarrow> gostring \<Rightarrow> int \<Rightarrow> int \<Rightarrow> RootStore option" where
  "indexReserved h s rel sz mtimeNS =
     (case ho_ReadFile h (Join (rs_root s) rel) of
        NotExist \<Rightarrow> removeTracked (addBytes s (- sz)) rel
      | OtherError \<Rightarrow>
          let s = addBytes s (- sz) in
          removeTracked (s\<lparr>rs_skippedError := rs_skippedError s + 1\<rparr>) rel
      | Ok content \<Rightarrow>
          let content = (case decodeUTF16_daemon content of Some d \<Rightarrow> d | None \<Rightarrow> content) in
          if isBinary_daemon content then
            let s = addBytes s (- sz) in
            toStream (s\<lparr>rs_skippedBinary := rs_skippedBinary s + 1\<rparr>) rel sz mtimeNS
          else do {
            ix \<leftarrow> rs_idx s;
            let s = releaseOld s ix rel;
            let s = streamDelete s rel;
            Some (s\<lparr>rs_idx := Some (Add (ho_S h) ix \<lparr>fm_Path = rel, fm_Size = sz, fm_MtimeNS = mtimeNS\<rparr> content)\<rparr>)
          })"

definition indexFile :: "host \<Rightarrow> RootStore \<Rightarrow> gostring \<Rightarrow> RootStore option" where
  "indexFile h s rel =
     (case ho_Stat h (Join (rs_root s) rel) of
        NotExist \<Rightarrow> removeTracked s rel
      | OtherError \<Rightarrow> removeTracked (s\<lparr>rs_skippedError := rs_skippedError s + 1\<rparr>) rel
      | Ok fi \<Rightarrow>
          if \<not> fi_regular fi then removeTracked s rel
          else
            let sz = fi_size fi; mtimeNS = fi_mtime fi in
            if sz > MaxFileSize (rs_cfg s)
            then toStream (s\<lparr>rs_skippedLarge := rs_skippedLarge s + 1\<rparr>) rel sz mtimeNS
            else case reserveBytes s sz of
                (False, s) \<Rightarrow> toStream (s\<lparr>rs_skippedBudget := rs_skippedBudget s + 1\<rparr>) rel sz mtimeNS
              | (True, s) \<Rightarrow> indexReserved h s rel sz mtimeNS)"

text \<open>\<open>ho_sched n\<close> is the order in which the workers finish \<open>n\<close> jobs; there is at least one worker in any
  configuration that \<open>Load\<close> returns.\<close>

fun indexJobs :: "host \<Rightarrow> gostring list \<Rightarrow> RootStore \<Rightarrow> RootStore option" where
  "indexJobs h [] s = Some s"
| "indexJobs h (rel # rels) s = do {
     s \<leftarrow> indexFile h s rel;
     indexJobs h rels (s\<lparr>rs_indexed := rs_indexed s + 1\<rparr>)
   }"

definition indexParallel :: "host \<Rightarrow> gostring list \<Rightarrow> RootStore \<Rightarrow> RootStore option" where
  "indexParallel h rels s = indexJobs h (map (\<lambda>i. rels ! i) (ho_sched h (length rels))) s"

subsection \<open>Listing\<close>

definition ignored :: "host \<Rightarrow> RootStore \<Rightarrow> gostring \<Rightarrow> bool \<Rightarrow> bool \<times> RootStore" where
  "ignored h s rel isDir =
     (case storeIgnored (ho_gi h) (rs_ign s) (rs_gitTree s) rel isDir of (b, g) \<Rightarrow> (b, s\<lparr>rs_gitTree := g\<rparr>))"

text \<open>\<open>listFiles\<close> and \<open>listUnder\<close>, with the cache of \<open>.gitignore\<close> rules that the callbacks fill.\<close>

definition listStep ::
    "(gostring \<Rightarrow> bytes option) \<Rightarrow> rule list \<Rightarrow> gostring \<Rightarrow> fileStat list \<times> GitignoreTree option \<Rightarrow> gostring \<Rightarrow> bool \<Rightarrow>
       fileinfo \<Rightarrow> (fileStat list \<times> GitignoreTree option) \<times> verdict" where
  "listStep gi rules root st path isDir fi =
     (case Rel root path of
        None \<Rightarrow> (st, Continue)
      | Some rel \<Rightarrow>
          if rel = str ''.'' then (st, Continue)
          else case storeIgnored gi rules (snd st) rel isDir of (ig, g) \<Rightarrow>
            if isDir then ((fst st, g), if ig then SkipDir else Continue)
            else if ig \<or> isCookie rel then ((fst st, g), Continue)
            else ((fst st @ [\<lparr>fs_rel = rel, fs_size = fi_size fi, fs_mtimeNS = fi_mtime fi\<rparr>], g), Continue))"

definition storeFiles :: "host \<Rightarrow> RootStore \<Rightarrow> (fileStat list \<times> RootStore) option" where
  "storeFiles h s = do {
     (_, (out, g), _) \<leftarrow> Walk (ho_fuel h) (ho_view h) (rs_follow s) (listStep (ho_gi h) (rs_ign s) (rs_root s)) (rs_root s)
       ([], rs_gitTree s);
     Some (out, s\<lparr>rs_gitTree := g\<rparr>)
   }"

definition underStep ::
    "(gostring \<Rightarrow> bytes option) \<Rightarrow> rule list \<Rightarrow> gostring \<Rightarrow> gostring \<Rightarrow> gostring list \<times> GitignoreTree option \<Rightarrow> gostring \<Rightarrow> bool \<Rightarrow>
       fileinfo \<Rightarrow> (gostring list \<times> GitignoreTree option) \<times> verdict" where
  "underStep gi rules root relDir st path isDir fi =
     (case Rel root path of
        None \<Rightarrow> (st, Continue)
      | Some rel \<Rightarrow>
          if isDir \<and> rel = relDir then (st, Continue)
          else case storeIgnored gi rules (snd st) rel isDir of (ig, g) \<Rightarrow>
            if isDir then ((fst st, g), if ig then SkipDir else Continue)
            else ((if \<not> ig then fst st @ [rel] else fst st, g), Continue))"

definition storeUnder :: "host \<Rightarrow> RootStore \<Rightarrow> gostring \<Rightarrow> (gostring list \<times> RootStore) option" where
  "storeUnder h s relDir = do {
     (_, (out, g), _) \<leftarrow> Walk (ho_fuel h) (ho_view h) (rs_follow s) (underStep (ho_gi h) (rs_ign s) (rs_root s) relDir)
       (Join (rs_root s) relDir) ([], rs_gitTree s);
     Some (out, s\<lparr>rs_gitTree := g\<rparr>)
   }"

subsection \<open>The disk engine\<close>

definition hexDigit :: "nat \<Rightarrow> byte" where
  "hexDigit n = of_nat (if n < 10 then 48 + n else 87 + n)"

definition hexEncode :: "bytes \<Rightarrow> gostring" where
  "hexEncode bs = concat (map (\<lambda>b. [hexDigit (unat b div 16), hexDigit (unat b mod 16)]) bs)"

definition cacheKey :: "RootStore \<Rightarrow> gostring" where
  "cacheKey s = rs_root s @ (if rs_follow s then 0 # str ''follow'' else [])"

definition shardDir :: "host \<Rightarrow> RootStore \<Rightarrow> gostring" where
  "shardDir h s = Join (rs_cacheDir s) (str ''shards-'' @ hexEncode (take 8 (ho_sha256 h (cacheKey s))))"

definition indexPath :: "host \<Rightarrow> RootStore \<Rightarrow> gostring" where
  "indexPath h s = Join (rs_cacheDir s) (str ''index-'' @ hexEncode (take 8 (ho_sha256 h (cacheKey s))) @ str ''.gob.gz'')"

definition initDiskEngine :: "host \<Rightarrow> RootStore \<Rightarrow> RootStore" where
  "initDiskEngine h s =
     (let c = rs_cfg s in
      s\<lparr>rs_disk := Some (NewDiskEngine (rs_root s) (shardDir h s)
           \<lparr>dc_ShardSize = \<lparr>sc_TargetBytes = ShardTargetMB c * 2 ^ 20, sc_MinBytes = ShardMinMB c * 2 ^ 20,
              sc_MaxBytes = ShardMaxMB c * 2 ^ 20\<rparr>,
            dc_RebuildThreshold = RebuildThreshold c, dc_SearchWorkers = SearchWorkers c, dc_InlineKB = ShardInlineKB c\<rparr>
           (ho_fs h) (ho_manifest h)),
        rs_state := StateIndexing\<rparr>)"

definition IsDisk :: "RootStore \<Rightarrow> bool" where
  "IsDisk s \<longleftrightarrow> rs_engineType s = str ''disk''"

text \<open>The tree the disk engine reads.\<close>

definition treeOf :: "host \<Rightarrow> gostring \<Rightarrow> tree" where
  "treeOf h root rel =
     (case (ho_ReadFile h (Join root rel), ho_Stat h (Join root rel)) of
        (Ok content, Ok fi) \<Rightarrow> Some \<lparr>tf_content = content, tf_size = fi_size fi, tf_mtime = fi_mtime fi\<rparr>
      | _ \<Rightarrow> None)"

definition buildFileOf :: "fileStat \<Rightarrow> BuildFile" where
  "buildFileOf f = \<lparr>bF_Rel = fs_rel f, bF_Size = fs_size f, bF_MtimeNS = fs_mtimeNS f\<rparr>"

text \<open>The error of \<open>FullBuild\<close> is dropped. Every file it has indexed was counted by the callback; \<open>ho_progress\<close> is
  that number for a build that fails half-way.\<close>

definition fullBuild :: "host \<Rightarrow> fileStat list \<Rightarrow> RootStore \<Rightarrow> RootStore option" where
  "fullBuild h files s = do {
     e \<leftarrow> rs_disk s;
     (err, e) \<leftarrow> FullBuild (ho_S h) (treeOf h (rs_root s)) (ho_io h) (ho_mio h) e (map buildFileOf files);
     Some (s\<lparr>rs_disk := Some e, rs_indexed := rs_indexed s + (if err = None then en_totalFiles e else ho_progress h)\<rparr>)
   }"

definition totalMB :: "fileStat list \<Rightarrow> int" where
  "totalMB files = drop_bit 20 (sum_list (map fs_size files))"

definition switchToDisk :: "host \<Rightarrow> fileStat list \<Rightarrow> RootStore \<Rightarrow> RootStore option" where
  "switchToDisk h files s = fullBuild h files (initDiskEngine h (s\<lparr>rs_engineType := str ''disk''\<rparr>))"

subsection \<open>Scanning\<close>

definition fullScan :: "host \<Rightarrow> RootStore \<Rightarrow> RootStore option" where
  "fullScan h s = do {
     (files, s) \<leftarrow> storeFiles h s;
     let s = s\<lparr>rs_total := int (length files)\<rparr>;
     if EngineChoice (rs_cfg s) = str ''auto'' \<and> totalMB files \<ge> DiskEngineMB (rs_cfg s)
     then switchToDisk h files s
     else indexParallel h (map fs_rel files) s
   }"

definition scheduleSave :: "RootStore \<Rightarrow> RootStore" where
  "scheduleSave s = s\<lparr>rs_saveTimer := True\<rparr>"

fun staleOf :: "fileStat list \<Rightarrow> RootStore \<Rightarrow> gostring list \<Rightarrow> (gostring list \<times> RootStore) option" where
  "staleOf [] s stale = Some (stale, s)"
| "staleOf (f # files) s stale = do {
     ix \<leftarrow> rs_idx s;
     if (case Meta ix (fs_rel f) of None \<Rightarrow> False | Some m \<Rightarrow> fs_size f = fm_Size m \<and> fs_mtimeNS f = fm_MtimeNS m) \<or>
        (case streamGet s (fs_rel f) of None \<Rightarrow> False | Some e \<Rightarrow> fs_size f = se_size e \<and> fs_mtimeNS f = se_mtimeNS e)
     then staleOf files (s\<lparr>rs_indexed := rs_indexed s + 1\<rparr>) stale
     else staleOf files s (stale @ [fs_rel f])
   }"

definition reconcile :: "host \<Rightarrow> RootStore \<Rightarrow> RootStore option" where
  "reconcile h s = do {
     (files, s) \<leftarrow> storeFiles h s;
     let s = s\<lparr>rs_total := int (length files)\<rparr>;
     if EngineChoice (rs_cfg s) = str ''auto'' \<and> rs_engineType s = str ''mem'' \<and> totalMB files \<ge> DiskEngineMB (rs_cfg s)
     then do { s \<leftarrow> switchToDisk h files s; Some (s\<lparr>rs_idx := None\<rparr>) }
     else do {
       (stale, s) \<leftarrow> staleOf files s [];
       s \<leftarrow> indexParallel h stale s;
       let s = streamRetain s (fs_rel ` set files);
       ix \<leftarrow> rs_idx s;
       let gone = filter (\<lambda>p. p \<notin> fs_rel ` set files) (Paths (ho_rng h) ix);
       let ix = foldl Remove ix gone;
       let s = s\<lparr>rs_idx := Some ix\<rparr>;
       Some (if gone \<noteq> [] \<or> rs_indexed s \<noteq> int (NumFiles ix) then scheduleSave s else s)
     }
   }"

subsection \<open>Changes\<close>

definition ControlFile :: gostring where "ControlFile = str ''.gcgrepignore''"

definition reloadRules :: "host \<Rightarrow> RootStore \<Rightarrow> RootStore" where
  "reloadRules h s = s\<lparr>rs_ign := AddPatterns (LoadRules (ho_control h)) (Exclude (rs_cfg s)), rs_reloads := rs_reloads s + 1\<rparr>"

text \<open>The goroutine that a change of the control file starts.\<close>

definition reloadJob :: "host \<Rightarrow> RootStore \<Rightarrow> RootStore option" where
  "reloadJob h s = map_option scheduleSave (reconcile h (s\<lparr>rs_reloads := rs_reloads s - 1\<rparr>))"

text \<open>Excluded both as a directory and as a file; what it was is no longer known.\<close>

definition ignoredBoth :: "host \<Rightarrow> RootStore \<Rightarrow> gostring \<Rightarrow> bool \<times> RootStore" where
  "ignoredBoth h s rel =
     (case ignored h s rel True of (i, s) \<Rightarrow> if i then ignored h s rel False else (False, s))"

fun indexFiles :: "host \<Rightarrow> gostring list \<Rightarrow> RootStore \<Rightarrow> RootStore option" where
  "indexFiles h [] s = Some s"
| "indexFiles h (rel # rels) s = do { s \<leftarrow> indexFile h s rel; indexFiles h rels s }"

definition applyDisk :: "host \<Rightarrow> RootStore \<Rightarrow> DiskEngine \<Rightarrow> gostring \<Rightarrow> fileinfo option \<Rightarrow> RootStore option" where
  "applyDisk h s e rel lstat =
     (case lstat of
        None \<Rightarrow>
          (case ignoredBoth h s rel of (i, s) \<Rightarrow>
             if i then Some s
             else do { e \<leftarrow> MarkDeletedPrefix (MarkDeleted e rel) rel; Some (s\<lparr>rs_disk := Some e\<rparr>) })
      | Some fi \<Rightarrow>
          if fi_isDir fi then
            (case ignored h s rel True of (i, s) \<Rightarrow>
               if i then Some s
               else do { (subs, s) \<leftarrow> storeUnder h s rel; Some (s\<lparr>rs_disk := Some (foldl MarkDirty e subs)\<rparr>) })
          else if fi_regular fi then
            (case ignored h s rel False of (i, s) \<Rightarrow>
               if i then Some s else Some (s\<lparr>rs_disk := Some (MarkDirty e rel)\<rparr>))
          else Some s)"

definition applyMem :: "host \<Rightarrow> RootStore \<Rightarrow> gostring \<Rightarrow> fileinfo option \<Rightarrow> RootStore option" where
  "applyMem h s rel lstat =
     (case lstat of
        None \<Rightarrow>
          (case ignoredBoth h s rel of (i, s) \<Rightarrow>
             if i then Some s
             else do {
               ix \<leftarrow> rs_idx s;
               let s = s\<lparr>rs_idx := Some (RemovePrefix (Remove ix rel) rel)\<rparr>;
               Some (streamDeletePrefix (streamDelete s rel) rel)
             })
      | Some fi \<Rightarrow>
          if fi_isDir fi then
            (case ignored h s rel True of (i, s) \<Rightarrow>
               if i then Some s else do { (subs, s) \<leftarrow> storeUnder h s rel; indexFiles h subs s })
          else if fi_regular fi then
            (case ignored h s rel False of (i, s) \<Rightarrow> if i then Some s else indexFile h s rel)
          else Some s)"

definition applyChange :: "host \<Rightarrow> RootStore \<Rightarrow> gostring \<Rightarrow> RootStore option" where
  "applyChange h s path =
     (case Rel (rs_root s) path of
        None \<Rightarrow> Some s
      | Some rel \<Rightarrow>
          if isCookie rel then Some s
          else if rel = str ''.'' then Some s
          else if rel = ControlFile then Some (reloadRules h s)
          else case rs_disk s of
                 Some e \<Rightarrow> applyDisk h s e rel (ho_Lstat h path)
               | None \<Rightarrow> applyMem h s rel (ho_Lstat h path))"

fun applyChanges :: "host \<Rightarrow> gostring list \<Rightarrow> RootStore \<Rightarrow> RootStore option" where
  "applyChanges h [] s = Some s"
| "applyChanges h (p # ps) s = do { s \<leftarrow> applyChange h s p; applyChanges h ps s }"

text \<open>One round of \<open>watchLoop\<close>, up to the closing of \<open>Done\<close>.\<close>

definition handleBatch :: "host \<Rightarrow> RootStore \<Rightarrow> gostring list \<Rightarrow> bool \<Rightarrow> RootStore option" where
  "handleBatch h s paths rescan = do {
     s \<leftarrow> (if rescan then reconcile h s else applyChanges h paths s);
     Some (if length paths > 0 \<or> rescan then scheduleSave s else s)
   }"

subsection \<open>Persistence\<close>

text \<open>What the file decodes to; a missing, unreadable or undecodable file is \<open>None\<close>.\<close>

record persisted =
  pv_Version :: gostring
  pv_Root :: gostring
  pv_Metas :: "FileMeta list"
  pv_Contents :: "bytes list"
  pv_Defs :: "Def list list"

definition persistVersion :: gostring where "persistVersion = str ''2''"

definition addPersisted :: "persisted \<Rightarrow> Index \<Rightarrow> nat \<Rightarrow> Index" where
  "addPersisted p ix i =
     AddWithKeys ix (pv_Metas p ! i) (pv_Contents p ! i) (TrigramKeys (pv_Contents p ! i)) (pv_Defs p ! i)"

text \<open>\<open>loadPersisted\<close>: a panic when the three lists do not have the same length, else the index or nil.\<close>

definition loadPersisted :: "host \<Rightarrow> persisted option \<Rightarrow> RootStore \<Rightarrow> (Index option \<times> RootStore) option" where
  "loadPersisted h file s =
     (case file of
        None \<Rightarrow> Some (None, s)
      | Some p \<Rightarrow>
          if pv_Version p \<noteq> persistVersion \<or> pv_Root p \<noteq> rs_root s then Some (None, s)
          else if length (pv_Contents p) < length (pv_Metas p) \<or> length (pv_Defs p) < length (pv_Metas p) then None
          else Some (Some (foldl (addPersisted p) (New (rs_root s)) (ho_sched h (length (pv_Metas p)))),
                     s\<lparr>rs_totalBytes := sum_list (map fm_Size (pv_Metas p))\<rparr>))"

text \<open>\<open>save\<close>: written to a temporary file and renamed; on an error the old file stays.\<close>

definition save :: "manifest_io \<Rightarrow> RootStore \<Rightarrow> persisted option \<Rightarrow> persisted option option" where
  "save io s file = do {
     ix \<leftarrow> rs_idx s;
     let (metas, contents, defs) = Snapshot ix;
     Some (case io of
         MOk \<Rightarrow> Some \<lparr>pv_Version = persistVersion, pv_Root = rs_root s, pv_Metas = metas, pv_Contents = contents, pv_Defs = defs\<rparr>
       | _ \<Rightarrow> file)
   }"

text \<open>The timer of \<open>scheduleSave\<close> fires.\<close>

definition saveTimerFires :: "manifest_io \<Rightarrow> RootStore \<Rightarrow> persisted option \<Rightarrow> (RootStore \<times> persisted option) option" where
  "saveTimerFires io s file =
     (if rs_saveTimer s then map_option (\<lambda>f. (s\<lparr>rs_saveTimer := False\<rparr>, f)) (save io s file) else Some (s, file))"

subsection \<open>Life of a store\<close>

text \<open>\<open>newRootStore\<close> before its goroutine starts; \<open>watchOk\<close> is whether \<open>watch.New\<close> succeeded.\<close>

definition newRootStore ::
    "host \<Rightarrow> persisted option \<Rightarrow> bool \<Rightarrow> gostring \<Rightarrow> gostring \<Rightarrow> Config \<Rightarrow> bool \<Rightarrow> (unit + RootStore) option" where
  "newRootStore h file watchOk root cacheDir cfg follow = do {
     let engine = (if EngineChoice cfg = str ''auto'' then str ''mem'' else EngineChoice cfg);
     let s = \<lparr>rs_root = root, rs_follow = follow, rs_engineType = engine, rs_idx = None, rs_disk = None,
       rs_ign = AddPatterns (LoadRules (ho_control h)) (Exclude cfg),
       rs_gitTree = (if Gitignore cfg then Some (NewGitignoreTree root) else None),
       rs_stream = [], rs_state = StateIndexing, rs_indexed = 0, rs_total = 0, rs_isReady = False, rs_saveTimer = False,
       rs_reloads = 0, rs_cacheDir = cacheDir, rs_closed = False, rs_cfg = cfg, rs_skippedLarge = 0, rs_skippedBudget = 0,
       rs_skippedBinary = 0, rs_skippedError = 0, rs_totalBytes = 0\<rparr>;
     s \<leftarrow> (if engine = str ''disk'' then Some (initDiskEngine h s)
       else do {
         (loaded, s) \<leftarrow> loadPersisted h file s;
         Some (case loaded of
             None \<Rightarrow> s\<lparr>rs_idx := Some (New root), rs_state := StateIndexing\<rparr>
           | Some ix \<Rightarrow> s\<lparr>rs_idx := Some ix, rs_state := StateReconciling\<rparr>)
       });
     Some (if watchOk then Inr s else Inl ())
   }"

definition becomeReady :: "RootStore \<Rightarrow> RootStore" where
  "becomeReady s = s\<lparr>rs_state := StateReady, rs_isReady := True\<rparr>"

definition startDisk :: "host \<Rightarrow> RootStore \<Rightarrow> RootStore option" where
  "startDisk h s = do {
     (files, s) \<leftarrow> storeFiles h s;
     let s = s\<lparr>rs_total := int (length files)\<rparr>;
     let hasShards = (case ho_entries h of None \<Rightarrow> False | Some names \<Rightarrow> \<exists>n \<in> set names. HasSuffix n (str ''.idx''));
     e \<leftarrow> rs_disk s;
     s \<leftarrow> (if hasShards then do {
         e \<leftarrow> Reconcile (ho_entries h) e (map buildFileOf files);
         Some (s\<lparr>rs_state := StateReconciling, rs_disk := Some e\<rparr>)
       } else fullBuild h files (s\<lparr>rs_state := StateIndexing\<rparr>));
     Some (becomeReady s)
   }"

text \<open>The goroutine that \<open>newRootStore\<close> starts.\<close>

definition startup :: "host \<Rightarrow> RootStore \<Rightarrow> RootStore option" where
  "startup h s =
     (if rs_engineType s = str ''disk'' then startDisk h s
      else if rs_idx s \<noteq> None \<and> rs_state s = StateReconciling then map_option becomeReady (reconcile h s)
      else map_option (\<lambda>s. scheduleSave (becomeReady s)) (fullScan h s))"

definition Progress :: "RootStore \<Rightarrow> int \<times> int" where
  "Progress s = (rs_indexed s, rs_total s)"

definition WaitReady :: "RootStore \<Rightarrow> bool" where
  "WaitReady s \<longleftrightarrow> rs_isReady s \<or> rs_closed s"

definition CloseStoreFile :: "manifest_io \<Rightarrow> RootStore \<Rightarrow> persisted option \<Rightarrow> (RootStore \<times> persisted option) option" where
  "CloseStoreFile io s file =
     (if rs_closed s then Some (s, file)
      else
        let s = s\<lparr>rs_closed := True, rs_disk := map_option Close (rs_disk s)\<rparr> in
        if rs_idx s \<noteq> None then map_option (Pair s) (save io s file) else Some (s, file))"

subsection \<open>The cache directory\<close>

text \<open>\<open>dirSize\<close>: the sizes of the entries whose \<open>Info\<close> did not fail.\<close>

definition dirSize :: "dirent list option \<Rightarrow> int" where
  "dirSize entries =
     (case entries of
        None \<Rightarrow> 0
      | Some es \<Rightarrow> sum_list (map fi_size (List.map_filter dn_info es)))"

definition pathDir :: "gostring \<Rightarrow> gostring" where
  "pathDir p = (case LastIndexByte p slash of None \<Rightarrow> str ''.'' | Some i \<Rightarrow> take i p)"

definition CacheInfo :: "host \<Rightarrow> RootStore \<Rightarrow> gostring \<times> int" where
  "CacheInfo h s =
     (let (dir, sz) = (if rs_disk s \<noteq> None then (shardDir h s, dirSize (os_ReadDir (ho_view h) (shardDir h s))) else ([], 0));
          dir = (if dir = [] then pathDir (indexPath h s) else dir)
      in (dir, case ho_Stat h (indexPath h s) of Ok fi \<Rightarrow> sz + fi_size fi | _ \<Rightarrow> sz))"

definition DeleteCache :: "host \<Rightarrow> RootStore \<Rightarrow> filesystem \<Rightarrow> filesystem" where
  "DeleteCache h s fs =
     (\<lambda>p. if p = indexPath h s \<or> p = indexPath h s @ str ''.tmp'' \<or> under_dir (shardDir h s) p then None else fs p)"

end
