(* ===== verification/Proto.thy ===== *)
theory Proto
  imports Store
begin

text \<open>
  \<open>internal/proto/proto.go\<close>: the requests and events that client and daemon exchange, one JSON object per line. A field
  that is left out of an object is read back as its zero value, so the coding keeps every record whose strings are valid UTF-8.
\<close>

definition Version :: gostring where "Version = str ''1.1.0''"

record Request =
  rq_Op :: gostring
  rq_Root :: gostring
  rq_Pattern :: gostring
  rq_Fixed :: bool
  rq_NoCase :: bool
  rq_Files :: bool
  rq_Count :: bool
  rq_Globs :: "gostring list"
  rq_Limit :: int
  rq_NoSync :: bool
  rq_MaxColumns :: int
  rq_Exclude :: "gostring list"
  rq_Include :: "gostring list"
  rq_Gitignore :: bool
  rq_Hidden :: bool
  rq_Text :: bool
  rq_Follow :: bool
  rq_AllowNested :: bool
  rq_MaxFilesize :: int

record RootStatus =
  rt_Root :: gostring
  rt_State :: gostring
  rt_Files :: int
  rt_SizeMB :: int
  rt_SkippedLarge :: int
  rt_SkippedBudget :: int
  rt_SkippedBinary :: int
  rt_SkippedError :: int
  rt_StreamFiles :: int
  rt_Follow :: bool
  rt_Engine :: gostring
  rt_CacheDir :: gostring
  rt_CacheSizeMB :: int

record Event =
  ev_Type :: gostring
  ev_Indexed :: int
  ev_Total :: int
  ev_Stage :: gostring
  ev_File :: gostring
  ev_Line :: int
  ev_Text :: gostring
  ev_Count :: int
  ev_Col :: int
  ev_LineLen :: int
  ev_Size :: int
  ev_Name :: gostring
  ev_Kind :: gostring
  ev_Container :: gostring
  ev_Matches :: int
  ev_FileHits :: int
  ev_DurMS :: int
  ev_BarrierMS :: int
  ev_SearchMS :: int
  ev_Truncated :: bool
  ev_Roots :: "RootStatus list"
  ev_PID :: int
  ev_Msg :: gostring
  ev_V :: gostring

text \<open>\<open>proto.Event{Type: t}\<close>, the other fields zero.\<close>

definition event :: "string \<Rightarrow> Event" where
  "event t = \<lparr>ev_Type = str t, ev_Indexed = 0, ev_Total = 0, ev_Stage = [], ev_File = [], ev_Line = 0, ev_Text = [], ev_Count = 0,
     ev_Col = 0, ev_LineLen = 0, ev_Size = 0, ev_Name = [], ev_Kind = [], ev_Container = [], ev_Matches = 0, ev_FileHits = 0,
     ev_DurMS = 0, ev_BarrierMS = 0, ev_SearchMS = 0, ev_Truncated = False, ev_Roots = [], ev_PID = 0, ev_Msg = [], ev_V = []\<rparr>"

text \<open>Where the daemon writes its events. \<open>cn_room\<close> is the number of further writes that succeed, \<open>None\<close> for a client that stays;
  buffering, which only delays the events, is left out.\<close>

record conn =
  cn_sent :: "Event list"
  cn_room :: "nat option"

end
