(* ===== verification/Server.thy ===== *)
theory Server
  imports Glob Proto "HOL-Library.Product_Lexorder"
begin

text \<open>
  \<open>internal/daemon/server.go\<close>: the server, which owns one store per indexed root and answers one request per connection.
  The map of the stores is an association list; whenever the code ranges over it, \<open>w_rng\<close> is the order Go takes.

  A handler is one goroutine. What the goroutines of a store make of it while the handler waits is in the record
  \<open>world\<close>: \<open>w_wakes\<close> is what the \<open>select\<close> of \<open>streamUntilReady\<close> receives, \<open>w_barrier\<close> is the store when \<open>Barrier\<close>
  returns. A handler yields \<open>None\<close> when it panics or never returns.
\<close>

subsection \<open>State\<close>

text \<open>The root and whether symbolic links are followed.\<close>

type_synonym storeKey = "gostring \<times> bool"

record Server =
  sv_cfg :: Config
  sv_stores :: "(storeKey \<times> RootStore) list"
  sv_cacheDir :: gostring
  sv_quit :: bool
  sv_stopped :: bool
  sv_files :: "gostring \<rightharpoonup> persisted"
  sv_fs :: filesystem

datatype wake = Tick RootStore | Ready RootStore | Closed

record 're world =
  w_L :: "'re regexlib"
  w_rng :: "(storeKey \<times> RootStore) list \<Rightarrow> (storeKey \<times> RootStore) list"
  w_host :: "storeKey \<Rightarrow> host"
  w_watch :: "gostring \<Rightarrow> gostring option"
  w_wakes :: "RootStore \<Rightarrow> wake list"
  w_barrier :: "RootStore \<Rightarrow> RootStore"
  w_sched :: "nat \<Rightarrow> nat list"
  w_drng :: "dirtyMap \<Rightarrow> dirtyMap"
  w_mio :: manifest_io
  w_pid :: int
  w_durMS :: int
  w_barrierMS :: int
  w_searchMS :: int

text \<open>\<open>sv_files\<close> are the index files below the cache directory by their path, \<open>sv_fs\<close> the other files there.\<close>

definition NewServer :: "gostring \<Rightarrow> Config \<Rightarrow> (gostring \<rightharpoonup> persisted) \<Rightarrow> filesystem \<Rightarrow> Server" where
  "NewServer cacheDir cfg files fs =
     \<lparr>sv_cfg = cfg, sv_stores = [], sv_cacheDir = cacheDir, sv_quit = False, sv_stopped = False, sv_files = files, sv_fs = fs\<rparr>"

definition hostOf :: "'re world \<Rightarrow> Server \<Rightarrow> storeKey \<Rightarrow> host" where
  "hostOf w sv key = (w_host w key)\<lparr>ho_fs := sv_fs sv\<rparr>"

text \<open>The handler holds a pointer to the store: what has become of it is seen by every other user.\<close>

definition putStore :: "Server \<Rightarrow> storeKey \<Rightarrow> RootStore \<Rightarrow> Server" where
  "putStore sv key s = sv\<lparr>sv_stores := map (\<lambda>(k, t). (k, if k = key then s else t)) (sv_stores sv)\<rparr>"

subsection \<open>Sending\<close>

definition stamp :: "Event \<Rightarrow> Event" where
  "stamp ev = (if ev_Type ev = str ''done'' \<or> ev_Type ev = str ''status'' then ev\<lparr>ev_V := Version\<rparr> else ev)"

text \<open>The flag tells whether the write succeeded.\<close>

definition send :: "conn \<Rightarrow> Event \<Rightarrow> conn \<times> bool" where
  "send c ev =
     (if cn_room c = Some 0 then (c, False)
      else (\<lparr>cn_sent = cn_sent c @ [stamp ev], cn_room = map_option (\<lambda>n. n - 1) (cn_room c)\<rparr>, True))"

definition post :: "conn \<Rightarrow> Event \<Rightarrow> conn" where
  "post c ev = fst (send c ev)"

text \<open>\<open>for ... { if send(ev) != nil { return } }\<close>\<close>

fun sendAll :: "conn \<Rightarrow> Event list \<Rightarrow> conn \<times> bool" where
  "sendAll c [] = (c, True)"
| "sendAll c (ev # evs) = (case send c ev of (c, ok) \<Rightarrow> if ok then sendAll c evs else (c, False))"

definition errorEvent :: "gostring \<Rightarrow> Event" where
  "errorEvent msg = (event ''error'')\<lparr>ev_Msg := msg\<rparr>"

subsection \<open>Finding the store of a request\<close>

definition covers :: "storeKey \<Rightarrow> gostring \<Rightarrow> bool \<Rightarrow> bool" where
  "covers key path follow \<longleftrightarrow> snd key = follow \<and> (path = fst key \<or> HasPrefix path (fst key @ [slash]))"

text \<open>\<open>strings.Join\<close>\<close>

fun strings_Join :: "gostring list \<Rightarrow> gostring \<Rightarrow> gostring" where
  "strings_Join [] sep = []"
| "strings_Join [s] sep = s"
| "strings_Join (s # t # ts) sep = s @ sep @ strings_Join (t # ts) sep"

definition nestedRoots :: "'re world \<Rightarrow> Server \<Rightarrow> gostring \<Rightarrow> bool \<Rightarrow> gostring list" where
  "nestedRoots w sv path follow =
     map fst (filter (\<lambda>key. snd key = follow \<and> HasPrefix (fst key) (path @ [slash])) (map fst (w_rng w (sv_stores sv))))"

definition nestedError :: "gostring \<Rightarrow> gostring list \<Rightarrow> gostring" where
  "nestedError path nested =
     str ''root '' @ path @ str '' contains already-indexed sub-root(s): '' @ strings_Join (sort nested) (str '', '') @
     str ''; use '' @ [39] @ str ''gcgrep forget'' @ [39] @ str '' to remove them or --allow-nested to proceed''"

text \<open>The index file of a store that does not exist yet, see \<open>indexPath\<close>.\<close>

definition indexFileOf :: "host \<Rightarrow> gostring \<Rightarrow> storeKey \<Rightarrow> gostring" where
  "indexFileOf h cacheDir key =
     Join cacheDir (str ''index-'' @ hexEncode (take 8 (ho_sha256 h
       (fst key @ (if snd key then 0 # str ''follow'' else [])))) @ str ''.gob.gz'')"

definition store ::
    "'re world \<Rightarrow> Server \<Rightarrow> gostring \<Rightarrow> bool \<Rightarrow> bool \<Rightarrow> (Server \<times> (gostring + storeKey \<times> RootStore)) option" where
  "store w sv path follow allowNested =
     (case find (\<lambda>(key, s). covers key path follow) (w_rng w (sv_stores sv)) of
        Some ks \<Rightarrow> Some (sv, Inr ks)
      | None \<Rightarrow>
          if \<not> allowNested \<and> length (nestedRoots w sv path follow) > 0
          then Some (sv, Inl (nestedError path (nestedRoots w sv path follow)))
          else
            let key = (path, follow); h = hostOf w sv key in
            case newRootStore h (sv_files sv (indexFileOf h (sv_cacheDir sv) key)) (w_watch w path = None) path (sv_cacheDir sv)
                (sv_cfg sv) follow of
              None \<Rightarrow> None
            | Some (Inl _) \<Rightarrow> Some (sv, Inl (str ''watch '' @ path @ str '': '' @ the (w_watch w path)))
            | Some (Inr s) \<Rightarrow> Some (sv\<lparr>sv_stores := AList.update key s (sv_stores sv)\<rparr>, Inr (key, s)))"

subsection \<open>Waiting for the store\<close>

fun stateName :: "storeState \<Rightarrow> gostring" where
  "stateName StateIndexing = str ''indexing''"
| "stateName StateReconciling = str ''reconciling''"
| "stateName StateReady = str ''ready''"

definition progressEvent :: "RootStore \<Rightarrow> Event" where
  "progressEvent s = (case Progress s of (n, t) \<Rightarrow>
     (event ''progress'')\<lparr>ev_Stage := stateName (rs_state s), ev_Indexed := n, ev_Total := t\<rparr>)"

text \<open>The loop around \<open>select\<close>; the store when it is ready, \<open>None\<close> when it was closed or the client has left.\<close>

fun waitLoop :: "wake list \<Rightarrow> conn \<Rightarrow> (conn \<times> RootStore option) option" where
  "waitLoop [] c = None"
| "waitLoop (Ready s # ws) c = Some (c, Some s)"
| "waitLoop (Closed # ws) c = Some (c, None)"
| "waitLoop (Tick s # ws) c = (case send c (progressEvent s) of (c, ok) \<Rightarrow> if ok then waitLoop ws c else Some (c, None))"

definition streamUntilReady :: "'re world \<Rightarrow> RootStore \<Rightarrow> conn \<Rightarrow> (conn \<times> RootStore option) option" where
  "streamUntilReady w s c = (if rs_state s = StateReady then Some (c, Some s) else waitLoop (w_wakes w s) c)"

definition progressIntervalOf :: "RootStore \<Rightarrow> int" where
  "progressIntervalOf s = (if ProgressInterval (rs_cfg s) > 0 then ProgressInterval (rs_cfg s) else 300 * Millisecond)"

text \<open>The store of the request, ready and caught up, with the prefix of the subtree that is asked for.\<close>

record prepared =
  pr_key :: storeKey
  pr_store :: RootStore
  pr_sub :: gostring
  pr_barrierMS :: int

definition prologue :: "'re world \<Rightarrow> Server \<Rightarrow> Request \<Rightarrow> conn \<Rightarrow> (Server \<times> conn \<times> prepared option) option" where
  "prologue w sv req c = do {
     (sv, r) \<leftarrow> store w sv (rq_Root req) (rq_Follow req) (rq_AllowNested req);
     case r of
       Inl err \<Rightarrow> Some (sv, post c (errorEvent err), None)
     | Inr (key, s) \<Rightarrow> do {
         (c, ready) \<leftarrow> streamUntilReady w s c;
         case ready of
           None \<Rightarrow> Some (sv, c, None)
         | Some s \<Rightarrow>
             let s = (if \<not> rq_NoSync req then w_barrier w s else s);
                 barrierMS = (if \<not> rq_NoSync req then w_barrierMS w else 0);
                 sub = (case Rel (rs_root s) (rq_Root req) of
                          None \<Rightarrow> []
                        | Some rel \<Rightarrow> if rel \<noteq> str ''.'' then rel @ [slash] else [])
             in Some (putStore sv key s, c, Some \<lparr>pr_key = key, pr_store = s, pr_sub = sub, pr_barrierMS = barrierMS\<rparr>)
       }
   }"

subsection \<open>Search\<close>

definition requestColumns :: "Config \<Rightarrow> Request \<Rightarrow> int" where
  "requestColumns cfg req =
     (if rq_MaxColumns req = 0 then MaxColumns cfg else if rq_MaxColumns req < 0 then 0 else rq_MaxColumns req)"

text \<open>The filters of a request in the order in which the handler wraps them around each other; \<open>None\<close> is the nil
  function. The \<open>.gitignore\<close> tree starts empty and its cache never changes an answer (\<open>gitIgnored_ok\<close>).\<close>

definition globFilter :: "Request \<Rightarrow> (gostring \<Rightarrow> bool) option \<Rightarrow> (gostring \<Rightarrow> bool) option \<Rightarrow> (gostring \<Rightarrow> bool) option" where
  "globFilter req pm exIn =
     (let reqOK = pm;
          reqOK = (case exIn of None \<Rightarrow> reqOK | Some f \<Rightarrow> Some (\<lambda>p. f p \<and> pathOk reqOK p))
      in if \<not> rq_Hidden req then Some (\<lambda>p. \<not> hiddenPath p \<and> pathOk reqOK p) else reqOK)"

definition requestFilter ::
    "host \<Rightarrow> gostring \<Rightarrow> Request \<Rightarrow> gostring \<Rightarrow> (gostring \<Rightarrow> bool) option \<Rightarrow> (gostring \<Rightarrow> bool) option \<Rightarrow> (gostring \<Rightarrow> bool) option" where
  "requestFilter h root req sub pm exIn =
     (let reqOK = globFilter req pm exIn;
          inner = (if sub \<noteq> [] then Some (\<lambda>p. HasPrefix p sub \<and> pathOk reqOK (TrimPrefix p sub)) else reqOK)
      in if rq_Gitignore req
         then Some (\<lambda>p.
           let stripped = (if sub \<noteq> [] then TrimPrefix p sub else p) in
           if fst (gitIgnored (ho_gi h) (NewGitignoreTree root) p False) \<and> \<not> buildIncludeMatcher (rq_Include req) stripped then False
           else pathOk inner p)
         else inner)"

definition requestOpts ::
    "'re regexlib \<Rightarrow> symlib \<Rightarrow> Config \<Rightarrow> Request \<Rightarrow> 're Matcher \<Rightarrow> (gostring \<Rightarrow> bool) option \<Rightarrow> SearchOpts" where
  "requestOpts L S cfg req m pathMatch =
     \<lparr>so_Literal = ExtractLiteral (re_Parse L) (unicode_ToLower S) (rq_Pattern req) (rq_Fixed req), so_PathMatch = pathMatch,
      so_FilesOnly = (rq_Files req \<or> rq_Count req), so_Limit = rq_Limit req, so_PlainLiteral = m_PlainLit m,
      so_FoldCase = m_Fold m, so_MaxColumns = requestColumns cfg req, so_MaxFileSize = rq_MaxFilesize req\<rparr>"

definition storeSearch :: "'re world \<Rightarrow> host \<Rightarrow> RootStore \<Rightarrow> 're \<Rightarrow> SearchOpts \<Rightarrow> SearchResult option" where
  "storeSearch w h s re opts =
     (case rs_disk s of
        Some e \<Rightarrow> DiskSearch (w_L w) (treeOf h (rs_root s)) (w_sched w (NumShards e)) e re opts
      | None \<Rightarrow> map_option (\<lambda>ix. Search (w_L w) (ho_rng h) ix re opts) (rs_idx s))"

definition countEvents :: "Request \<Rightarrow> gostring \<Rightarrow> SearchResult \<Rightarrow> Event list" where
  "countEvents req sub res =
     map (\<lambda>p. let ev = (event ''filecount'')\<lparr>ev_File := TrimPrefix p sub\<rparr> in
            if rq_Count req then ev\<lparr>ev_Count := int (the (map_of (sr_FileCounts res) p))\<rparr> else ev)
       (sort (map fst (sr_FileCounts res)))"

definition matchEvents :: "gostring \<Rightarrow> SearchResult \<Rightarrow> Event list" where
  "matchEvents sub res =
     map (\<lambda>m. let ev = (event ''match'')\<lparr>ev_File := TrimPrefix (mt_Path m) sub, ev_Line := int (mt_Line m), ev_Text := mt_Text m\<rparr> in
            if mt_Text m = [] \<and> mt_LineLen m > 0
            then ev\<lparr>ev_Col := int (mt_Col m), ev_LineLen := int (mt_LineLen m)\<rparr> else ev)
       (sort_key (\<lambda>m. (mt_Path m, mt_Line m)) (sr_Matches res))"

definition resultEvents :: "Request \<Rightarrow> gostring \<Rightarrow> SearchResult \<Rightarrow> Event list" where
  "resultEvents req sub res = (if rq_Count req \<or> rq_Files req then countEvents req sub res else matchEvents sub res)"

definition streamEvents :: "Request \<Rightarrow> gostring \<Rightarrow> RootStore \<Rightarrow> (gostring \<Rightarrow> bool) option \<Rightarrow> Event list" where
  "streamEvents req sub s pathMatch =
     map (\<lambda>sf. (event ''streamfile'')\<lparr>ev_File := TrimPrefix (sf_Rel sf) sub, ev_Size := sf_Size sf\<rparr>)
       (StreamList s (rq_MaxFilesize req) pathMatch)"

definition doneEvent :: "'re world \<Rightarrow> prepared \<Rightarrow> SearchResult \<Rightarrow> Event" where
  "doneEvent w pr res =
     (event ''done'')\<lparr>ev_Matches := int (sum_list (map snd (sr_FileCounts res))), ev_FileHits := int (length (sr_FileCounts res)),
       ev_DurMS := w_durMS w, ev_BarrierMS := pr_barrierMS pr, ev_SearchMS := w_searchMS w, ev_Truncated := sr_Truncated res\<rparr>"

text \<open>The second half of the handler, from \<open>searchStart\<close> on.\<close>

definition answerSearch ::
    "'re world \<Rightarrow> host \<Rightarrow> Request \<Rightarrow> prepared \<Rightarrow> 're \<Rightarrow> SearchOpts \<Rightarrow> conn \<Rightarrow> conn option" where
  "answerSearch w h req pr re opts c = do {
     res \<leftarrow> storeSearch w h (pr_store pr) re opts;
     let sub = pr_sub pr;
     Some (case sendAll c (resultEvents req sub res) of (c, ok) \<Rightarrow>
       if \<not> ok then c
       else case sendAll c (streamEvents req sub (pr_store pr) (so_PathMatch opts)) of (c, ok) \<Rightarrow>
         if \<not> ok then c else post c (doneEvent w pr res))
   }"

definition handleSearch :: "'re world \<Rightarrow> Server \<Rightarrow> Request \<Rightarrow> conn \<Rightarrow> (Server \<times> conn) option" where
  "handleSearch w sv req c =
     (case MatcherFor (w_L w) (rq_Pattern req) (rq_Fixed req) (rq_NoCase req) of
        Inl err \<Rightarrow> Some (sv, post c (errorEvent (str ''bad pattern: '' @ err)))
      | Inr m \<Rightarrow> do {
          re \<leftarrow> m_Re m;
          (sv, c, r) \<leftarrow> prologue w sv req c;
          case r of
            None \<Rightarrow> Some (sv, c)
          | Some pr \<Rightarrow>
              let h = hostOf w sv (pr_key pr); s = pr_store pr; badPattern = str ''syntax error in pattern'' in
              case globMatcher (rq_Globs req) of
                Inl _ \<Rightarrow> Some (sv, post c (errorEvent (str ''bad glob: '' @ badPattern)))
              | Inr pm \<Rightarrow>
                  case excludeIncludeMatcher (rq_Exclude req) (rq_Include req) of
                    Inl _ \<Rightarrow> Some (sv, post c (errorEvent (str ''bad exclude/include glob: '' @ badPattern)))
                  | Inr exIn \<Rightarrow>
                      map_option (Pair sv) (answerSearch w h req pr re
                        (requestOpts (w_L w) (ho_S h) (sv_cfg sv) req m (requestFilter h (rs_root s) req (pr_sub pr) pm exIn)) c)
        })"

subsection \<open>Symbols\<close>

text \<open>\<open>filepath.Clean\<close>: empty and \<open>.\<close> elements are dropped, \<open>..\<close> drops the element before it.\<close>

fun cleanStep :: "bool \<Rightarrow> gostring list \<Rightarrow> gostring \<Rightarrow> gostring list" where
  "cleanStep rooted out el =
     (if el = [] \<or> el = str ''.'' then out
      else if el = str ''..'' then
        if out \<noteq> [] \<and> List.last out \<noteq> str ''..'' then butlast out
        else if rooted then out else out @ [el]
      else out @ [el])"

definition Clean :: "gostring \<Rightarrow> gostring" where
  "Clean path =
     (let rooted = HasPrefix path [slash];
          s = (if rooted then [slash] else []) @ joinSlash (foldl (cleanStep rooted) [] (splitSlash path))
      in if s = [] then str ''.'' else s)"

definition inSubtree :: "Request \<Rightarrow> gostring \<Rightarrow> gostring \<Rightarrow> bool" where
  "inSubtree req sub p \<longleftrightarrow>
     (if sub \<noteq> [] \<and> \<not> HasPrefix p sub then False else rq_Hidden req \<or> \<not> hiddenPath (TrimPrefix p sub))"

text \<open>Not a stable sort in the source: definitions on the same line may come in another order.\<close>

definition sortDefHits :: "DefHit list \<Rightarrow> DefHit list" where
  "sortDefHits hits = sort_key (\<lambda>h. (dh_Path h, d_Line (dh_Def h))) hits"

definition defEvent :: "gostring \<Rightarrow> DefHit \<Rightarrow> Event" where
  "defEvent sub h =
     (event ''match'')\<lparr>ev_File := TrimPrefix (dh_Path h) sub, ev_Line := int (d_Line (dh_Def h)), ev_Text := dh_Text h,
       ev_Kind := d_Kind (dh_Def h), ev_Container := d_Container (dh_Def h), ev_Name := d_Name (dh_Def h)\<rparr>"

definition refEvent :: "Request \<Rightarrow> gostring \<Rightarrow> FileContent \<Rightarrow> Ref \<Rightarrow> Event" where
  "refEvent req sub fc r =
     (event ''match'')\<lparr>ev_File := TrimPrefix (fc_Path fc) sub, ev_Line := int (r_Line r),
       ev_Text := LineText (fc_Content fc) (r_Line r), ev_Kind := (if r_IsCall r then str ''call'' else str ''ref''),
       ev_Name := rq_Pattern req\<rparr>"

definition storeDefs :: "'re world \<Rightarrow> host \<Rightarrow> RootStore \<Rightarrow> Request \<Rightarrow> gostring \<Rightarrow> DefHit list option" where
  "storeDefs w h s req sub =
     (case rs_disk s of
        Some e \<Rightarrow> DiskDefs (ho_S h) (w_drng w) (treeOf h (rs_root s)) e (rq_Pattern req) (rq_NoCase req) (Some (inSubtree req sub))
      | None \<Rightarrow> map_option (\<lambda>ix. Defs (ho_S h) ix (rq_Pattern req) (rq_NoCase req) (Some (inSubtree req sub))) (rs_idx s))"

definition storeFileDefs :: "host \<Rightarrow> RootStore \<Rightarrow> gostring \<Rightarrow> DefHit list option option" where
  "storeFileDefs h s path =
     (case rs_disk s of
        Some e \<Rightarrow> Some (DiskFileDefs (ho_S h) (treeOf h (rs_root s)) path)
      | None \<Rightarrow> map_option (\<lambda>ix. FileDefs ix path) (rs_idx s))"

definition storeFilesContaining :: "'re world \<Rightarrow> host \<Rightarrow> RootStore \<Rightarrow> Request \<Rightarrow> gostring \<Rightarrow> FileContent list option" where
  "storeFilesContaining w h s req sub =
     (case rs_disk s of
        Some e \<Rightarrow> DiskFilesContaining (unicode_ToLower (ho_S h)) (w_drng w) (treeOf h (rs_root s)) e (rq_Pattern req)
            (Some (inSubtree req sub))
      | None \<Rightarrow> map_option (\<lambda>ix. FilesContaining (unicode_ToLower (ho_S h)) (ho_rng h) ix (rq_Pattern req)
            (Some (inSubtree req sub))) (rs_idx s))"

text \<open>The inner loop over the references of one file; \<open>n\<close> counts the events.\<close>

datatype outcome = Going | LimitHit | Gone

fun sendRefs :: "int \<Rightarrow> conn \<Rightarrow> int \<Rightarrow> Event list \<Rightarrow> conn \<times> int \<times> outcome" where
  "sendRefs limit c n [] = (c, n, Going)"
| "sendRefs limit c n (ev # evs) =
     (case send c ev of (c, ok) \<Rightarrow>
       if \<not> ok then (c, n + 1, Gone)
       else if limit > 0 \<and> n + 1 \<ge> limit then (c, n + 1, LimitHit)
       else sendRefs limit c (n + 1) evs)"

fun sendFileRefs :: "symlib \<Rightarrow> Request \<Rightarrow> gostring \<Rightarrow> conn \<Rightarrow> int \<Rightarrow> FileContent list \<Rightarrow> (conn \<times> int \<times> outcome) option" where
  "sendFileRefs S req sub c n [] = Some (c, n, Going)"
| "sendFileRefs S req sub c n (fc # fcs) = do {
     rs \<leftarrow> Refs S (fc_Path fc) (fc_Content fc) (rq_Pattern req);
     case sendRefs (rq_Limit req) c n (map (refEvent req sub fc) rs) of
       (c, n, Going) \<Rightarrow> sendFileRefs S req sub c n fcs
     | r \<Rightarrow> Some r
   }"

definition symbolDone :: "'re world \<Rightarrow> prepared \<Rightarrow> int \<Rightarrow> bool \<Rightarrow> Event" where
  "symbolDone w pr n truncated =
     (event ''done'')\<lparr>ev_Matches := n, ev_DurMS := w_durMS w, ev_BarrierMS := pr_barrierMS pr, ev_Truncated := truncated\<rparr>"

definition sendHits :: "'re world \<Rightarrow> prepared \<Rightarrow> conn \<Rightarrow> DefHit list \<Rightarrow> conn" where
  "sendHits w pr c hits =
     (case sendAll c (map (defEvent (pr_sub pr)) hits) of (c, ok) \<Rightarrow>
       if ok then post c (symbolDone w pr (int (length hits)) False) else c)"

definition answerSymbol :: "'re world \<Rightarrow> host \<Rightarrow> Request \<Rightarrow> prepared \<Rightarrow> conn \<Rightarrow> conn option" where
  "answerSymbol w h req pr c =
     (let s = pr_store pr; sub = pr_sub pr in
      if rq_Op req = str ''def'' then do {
        hits \<leftarrow> storeDefs w h s req sub;
        Some (sendHits w pr c (sortDefHits hits))
      }
      else if rq_Op req = str ''symbols'' then do {
        r \<leftarrow> storeFileDefs h s (sub @ Clean (rq_Pattern req));
        Some (case r of
          None \<Rightarrow> post c (errorEvent (str ''file not indexed: '' @ rq_Pattern req))
        | Some hits \<Rightarrow> sendHits w pr c hits)
      }
      else if rq_Op req = str ''refs'' then do {
        files \<leftarrow> storeFilesContaining w h s req sub;
        (c, n, out) \<leftarrow> sendFileRefs (ho_S h) req sub c 0 (sort_key fc_Path files);
        Some (case out of
          Gone \<Rightarrow> c
        | LimitHit \<Rightarrow> post c (symbolDone w pr n True)
        | Going \<Rightarrow> post c (symbolDone w pr n False))
      }
      else Some (post c (symbolDone w pr 0 False)))"

definition handleSymbol :: "'re world \<Rightarrow> Server \<Rightarrow> Request \<Rightarrow> conn \<Rightarrow> (Server \<times> conn) option" where
  "handleSymbol w sv req c = do {
     (sv, c, r) \<leftarrow> prologue w sv req c;
     case r of
       None \<Rightarrow> Some (sv, c)
     | Some pr \<Rightarrow> map_option (Pair sv) (answerSymbol w (hostOf w sv (pr_key pr)) req pr c)
   }"

subsection \<open>Status\<close>

definition rootStatus :: "host \<Rightarrow> storeKey \<Rightarrow> RootStore \<Rightarrow> RootStatus" where
  "rootStatus h key s =
     (let (cacheDir, cacheSizeBytes) = CacheInfo h s in
      \<lparr>rt_Root = fst key, rt_State = stateName (rs_state s),
       rt_Files = (case rs_disk s of Some e \<Rightarrow> DiskNumFiles e
                   | None \<Rightarrow> (case rs_idx s of None \<Rightarrow> 0 | Some ix \<Rightarrow> int (NumFiles ix))),
       rt_SizeMB = (case rs_disk s of Some e \<Rightarrow> drop_bit 20 (DiskTotalBytes e) | None \<Rightarrow> drop_bit 20 (rs_totalBytes s)),
       rt_SkippedLarge = rs_skippedLarge s, rt_SkippedBudget = rs_skippedBudget s, rt_SkippedBinary = rs_skippedBinary s,
       rt_SkippedError = rs_skippedError s, rt_StreamFiles = int (streamCount s), rt_Follow = snd key,
       rt_Engine = (if rs_disk s \<noteq> None then str ''disk'' else str ''mem''), rt_CacheDir = cacheDir,
       rt_CacheSizeMB = drop_bit 20 cacheSizeBytes\<rparr>)"

definition statusEvent :: "'re world \<Rightarrow> Server \<Rightarrow> Event" where
  "statusEvent w sv =
     (event ''status'')\<lparr>ev_PID := w_pid w,
       ev_Roots := sort_key rt_Root (map (\<lambda>(key, s). rootStatus (hostOf w sv key) key s) (w_rng w (sv_stores sv)))\<rparr>"

definition handleStatus :: "'re world \<Rightarrow> Server \<Rightarrow> conn \<Rightarrow> conn" where
  "handleStatus w sv c = post c (statusEvent w sv)"

subsection \<open>Forgetting and stopping\<close>

text \<open>\<open>Close\<close>: the index file is written, the shard files are left as the engine has them.\<close>

definition closeStore :: "'re world \<Rightarrow> Server \<Rightarrow> storeKey \<Rightarrow> RootStore \<Rightarrow> (RootStore \<times> Server) option" where
  "closeStore w sv key s = do {
     let h = hostOf w sv key;
     let path = indexPath h s;
     (s, file) \<leftarrow> CloseStoreFile (w_mio w) s (sv_files sv path);
     let fs = (case rs_disk s of
                 None \<Rightarrow> sv_fs sv
               | Some e \<Rightarrow> (\<lambda>p. if under_dir (shardDir h s) p then en_fs e p else sv_fs sv p));
     Some (s, sv\<lparr>sv_files := (sv_files sv)(path := file), sv_fs := fs\<rparr>)
   }"

definition deleteCache :: "host \<Rightarrow> RootStore \<Rightarrow> Server \<Rightarrow> Server" where
  "deleteCache h s sv = sv\<lparr>sv_files := (sv_files sv)(indexPath h s := None), sv_fs := DeleteCache h s (sv_fs sv)\<rparr>"

definition handleForget :: "'re world \<Rightarrow> Server \<Rightarrow> Request \<Rightarrow> conn \<Rightarrow> (Server \<times> conn) option" where
  "handleForget w sv req c =
     (case find (\<lambda>(key, s). fst key = rq_Root req) (w_rng w (sv_stores sv)) of
        None \<Rightarrow> Some (sv, post c ((event ''done'')\<lparr>ev_Msg := str ''not indexed: '' @ rq_Root req\<rparr>))
      | Some (key, s) \<Rightarrow> do {
          let sv = sv\<lparr>sv_stores := AList.delete key (sv_stores sv)\<rparr>;
          (s, sv) \<leftarrow> closeStore w sv key s;
          Some (deleteCache (hostOf w sv key) s sv, post c ((event ''done'')\<lparr>ev_Msg := str ''forgot '' @ rq_Root req\<rparr>))
        })"

fun closeAll :: "'re world \<Rightarrow> (storeKey \<times> RootStore) list \<Rightarrow> Server \<Rightarrow> Server option" where
  "closeAll w [] sv = Some sv"
| "closeAll w ((key, s) # ss) sv = do { (s, sv) \<leftarrow> closeStore w sv key s; closeAll w ss (putStore sv key s) }"

definition doStop :: "'re world \<Rightarrow> Server \<Rightarrow> Server option" where
  "doStop w sv = do {
     sv \<leftarrow> closeAll w (w_rng w (sv_stores sv)) (sv\<lparr>sv_quit := True\<rparr>);
     Some (sv\<lparr>sv_stopped := True\<rparr>)
   }"

text \<open>\<open>stopOnce\<close>: \<open>quit\<close> is closed by the first call and never opened again.\<close>

definition stopAll :: "'re world \<Rightarrow> Server \<Rightarrow> Server option" where
  "stopAll w sv = (if sv_quit sv then Some sv else doStop w sv)"

subsection \<open>Dispatch\<close>

text \<open>\<open>req\<close> is what \<open>dec.Decode\<close> returns, \<open>None\<close> for an error.\<close>

definition handle :: "'re world \<Rightarrow> Server \<Rightarrow> Request option \<Rightarrow> conn \<Rightarrow> (Server \<times> conn) option" where
  "handle w sv r c =
     (case r of
        None \<Rightarrow> Some (sv, c)
      | Some req \<Rightarrow>
          if rq_Op req = str ''search'' then handleSearch w sv req c
          else if rq_Op req \<in> {str ''def'', str ''refs'', str ''symbols''} then handleSymbol w sv req c
          else if rq_Op req = str ''status'' then Some (sv, handleStatus w sv c)
          else if rq_Op req = str ''forget'' then handleForget w sv req c
          else if rq_Op req = str ''stop''
          then do { let c = post c (event ''done''); sv \<leftarrow> stopAll w sv; Some (sv, c) }
          else Some (sv, post c (errorEvent (str ''unknown op: '' @ rq_Op req))))"

text \<open>The requests of one connection after another.\<close>

fun serve :: "'re world list \<Rightarrow> Request option list \<Rightarrow> Server \<Rightarrow> Server option" where
  "serve (w # ws) (r # rs) sv = do { (sv, _) \<leftarrow> handle w sv r \<lparr>cn_sent = [], cn_room = None\<rparr>; serve ws rs sv }"
| "serve _ _ sv = Some sv"

end
