(* ===== verification/StoreProps.thy ===== *)
theory StoreProps
  imports Store
begin

text \<open>
  What a store with the in-memory engine keeps true: the index and the stream set are disjoint, the byte
  count covers the indexed files and stays within the budget; a scan and a reconcile bring both to
  the state of the disk; the persisted index is read back as it was written.
\<close>

subsection \<open>The store as two maps\<close>

definition st_files :: "RootStore \<Rightarrow> gostring \<rightharpoonup> document" where
  "st_files s = (case rs_idx s of None \<Rightarrow> Map.empty | Some ix \<Rightarrow> mem_abs ix)"

definition st_stream :: "RootStore \<Rightarrow> gostring \<rightharpoonup> streamEntry" where
  "st_stream s = map_of (rs_stream s)"

definition st_used :: "RootStore \<Rightarrow> nat" where
  "st_used s = (case rs_idx s of None \<Rightarrow> 0 | Some ix \<Rightarrow> length (ix_files ix))"

definition bytesOf :: "document option \<Rightarrow> int" where
  "bytesOf d = (case d of None \<Rightarrow> 0 | Some d \<Rightarrow> fm_Size (fst d))"

definition mapBytes :: "(gostring \<rightharpoonup> document) \<Rightarrow> int" where
  "mapBytes m = (\<Sum>p \<in> dom m. bytesOf (m p))"

lemma mapBytes_upd:
  assumes "finite (dom m)"
  shows "mapBytes (m(p := d)) = mapBytes m - bytesOf (m p) + bytesOf d"
proof -
  have all: "mapBytes m' = (\<Sum>q \<in> insert p (dom m). bytesOf (m' q))" if "dom m' \<subseteq> insert p (dom m)" for m'
    unfolding mapBytes_def using assms that by (intro sum.mono_neutral_left) (auto simp: bytesOf_def split: option.splits)
  have "mapBytes (m(p := d)) = bytesOf d + (\<Sum>q \<in> dom m - {p}. bytesOf ((m(p := d)) q))"
    using assms by (subst all) (auto simp: sum.insert_remove)
  also have "(\<Sum>q \<in> dom m - {p}. bytesOf ((m(p := d)) q)) = (\<Sum>q \<in> dom m - {p}. bytesOf (m q))"
    by (rule sum.cong) auto
  also have "\<dots> = mapBytes m - bytesOf (m p)"
    using assms by (subst all) (auto simp: sum.insert_remove)
  finally show ?thesis by (simp add: fun_upd_def)
qed

lemma mapBytes_mono:
  assumes "finite (dom m)" and "\<And>p d. m p = Some d \<Longrightarrow> 0 \<le> fm_Size (fst d)" and "\<And>p. m' p = m p \<or> m' p = None"
  shows "mapBytes m' \<le> mapBytes m"
proof -
  have sub: "dom m' \<subseteq> dom m" using assms(3) by (auto simp: dom_def) (metis option.distinct(1))
  have "mapBytes m' = (\<Sum>p \<in> dom m'. bytesOf (m p))"
    unfolding mapBytes_def using assms(3) by (intro sum.cong) (auto, metis option.distinct(1))
  also have "\<dots> \<le> mapBytes m"
    unfolding mapBytes_def using assms(1,2) sub by (intro sum_mono2) (auto simp: bytesOf_def)
  finally show ?thesis .
qed

lemma dom_mem_abs: "dom (mem_abs ix) = fst ` set (ix_byPath ix)"
proof -
  have "dom (mem_abs ix) = dom (map_of (ix_byPath ix))" by (auto simp: mem_abs_def dom_def)
  then show ?thesis by (simp add: dom_map_of_conv_image_fst)
qed

lemma finite_mem_abs: "finite (dom (mem_abs ix))"
  by (simp add: dom_mem_abs)

lemma Meta_mem_abs: "Meta ix p = map_option fst (mem_abs ix p)"
  by (simp add: Meta_def mem_abs_def doc_of_def option.map_comp comp_def)

subsection \<open>The invariant\<close>

definition budget_ok :: "RootStore \<Rightarrow> bool" where
  "budget_ok s \<longleftrightarrow> MaxIndexMB (rs_cfg s) > 0 \<longrightarrow> rs_totalBytes s \<le> MaxIndexMB (rs_cfg s) * 2 ^ 20"

definition store_ok :: "RootStore \<Rightarrow> bool" where
  "store_ok s \<longleftrightarrow>
     (\<exists>ix. rs_idx s = Some ix \<and> ix_inv ix) \<and> distinct (map fst (rs_stream s)) \<and>
     dom (st_files s) \<inter> dom (st_stream s) = {} \<and>
     (\<forall>p d. st_files s p = Some d \<longrightarrow> 0 \<le> fm_Size (fst d)) \<and>
     mapBytes (st_files s) \<le> rs_totalBytes s \<and> budget_ok s"

lemma store_ok_nonneg: "store_ok s \<Longrightarrow> st_files s p = Some d \<Longrightarrow> 0 \<le> fm_Size (fst d)"
  unfolding store_ok_def by blast

text \<open>Everything a change of tracked files leaves alone.\<close>

definition same_frame :: "RootStore \<Rightarrow> RootStore \<Rightarrow> bool" where
  "same_frame s s' \<longleftrightarrow> rs_root s' = rs_root s \<and> rs_cfg s' = rs_cfg s \<and> rs_ign s' = rs_ign s \<and> rs_gitTree s' = rs_gitTree s \<and>
     rs_disk s' = rs_disk s \<and> rs_engineType s' = rs_engineType s \<and> rs_follow s' = rs_follow s"

lemma same_frame_refl [simp]: "same_frame s s" by (simp add: same_frame_def)

lemma same_frame_trans: "same_frame s t \<Longrightarrow> same_frame t u \<Longrightarrow> same_frame s u" by (simp add: same_frame_def)

text \<open>What a single file's update does: it replaces the two entries of its path and keeps the distance between the byte
  count and the indexed bytes.\<close>

definition updates :: "RootStore \<Rightarrow> gostring \<Rightarrow> document option \<Rightarrow> streamEntry option \<Rightarrow> RootStore \<Rightarrow> bool" where
  "updates s p d e s' \<longleftrightarrow> same_frame s s' \<and> st_files s' = (st_files s)(p := d) \<and> st_stream s' = (st_stream s)(p := e) \<and>
     (\<exists>ix. rs_idx s' = Some ix \<and> ix_inv ix) \<and> distinct (map fst (rs_stream s')) \<and>
     rs_totalBytes s' - mapBytes (st_files s') = rs_totalBytes s - mapBytes (st_files s) \<and> st_used s' \<le> st_used s + 1"

lemma updates_ok:
  assumes "store_ok s" and "updates s p d e s'" and "d = None \<or> e = None"
    and "\<And>x. d = Some x \<Longrightarrow> 0 \<le> fm_Size (fst x)" and "budget_ok s'"
  shows "store_ok s'"
  using assms unfolding store_ok_def updates_def by auto

subsection \<open>One file\<close>

lemma rm_mem:
  assumes "ix_inv ix"
  shows "ix_inv (Remove ix p)" "mem_abs (Remove ix p) = (mem_abs ix)(p := None)"
    "length (ix_files (Remove ix p)) \<le> length (ix_files ix)"
  using mem.del_inv [OF assms] mem.del_abs [OF assms] mem.del_used by auto

lemma add_mem:
  assumes "ix_inv ix" and "length (ix_files ix) < 2 ^ 32"
  shows "ix_inv (Add S ix m c)" "mem_abs (Add S ix m c) = (mem_abs ix)(fm_Path m \<mapsto> (m, c, Extract S (fm_Path m) c))"
    "length (ix_files (Add S ix m c)) \<le> length (ix_files ix) + 1"
  using AddWithKeys_refines [OF assms TrigramKeys_distinct TrigramKeys_set, of m c] by (simp_all add: Add_def)

lemma releaseOld_frame [simp]:
  "rs_idx (releaseOld s ix p) = rs_idx s" "rs_stream (releaseOld s ix p) = rs_stream s"
  "same_frame s (releaseOld s ix p)" "rs_totalBytes (releaseOld s ix p) = rs_totalBytes s - bytesOf (mem_abs ix p)"
  by (auto simp: releaseOld_def addBytes_def same_frame_def Meta_mem_abs bytesOf_def split: option.splits)

lemma stream_simps [simp]:
  "rs_idx (streamPut s p z t) = rs_idx s" "rs_idx (streamDelete s p) = rs_idx s"
  "rs_totalBytes (streamPut s p z t) = rs_totalBytes s" "rs_totalBytes (streamDelete s p) = rs_totalBytes s"
  "st_stream (streamPut s p z t) = (st_stream s)(p \<mapsto> \<lparr>se_size = z, se_mtimeNS = t\<rparr>)"
  "st_stream (streamDelete s p) = (st_stream s)(p := None)"
  "distinct (map fst (rs_stream s)) \<Longrightarrow> distinct (map fst (rs_stream (streamPut s p z t)))"
  "distinct (map fst (rs_stream s)) \<Longrightarrow> distinct (map fst (rs_stream (streamDelete s p)))"
  by (simp_all add: streamPut_def streamDelete_def st_stream_def update_conv' delete_conv' distinct_update distinct_delete)

lemma st_stream_frame [simp]: "st_stream (s\<lparr>rs_idx := ix\<rparr>) = st_stream s" "st_stream (releaseOld s jx p) = st_stream s"
  by (simp_all add: st_stream_def)

lemma stream_frame [simp]: "same_frame s (streamPut s p z t)" "same_frame s (streamDelete s p)"
  by (simp_all add: streamPut_def streamDelete_def same_frame_def)

lemma toStream_updates:
  assumes "rs_idx s = Some ix" and "ix_inv ix" and "distinct (map fst (rs_stream s))"
  obtains s' where "toStream s p z t = Some s'" "updates s p None (Some \<lparr>se_size = z, se_mtimeNS = t\<rparr>) s'"
    "rs_totalBytes s' = rs_totalBytes s - bytesOf (mem_abs ix p)"
proof (rule that)
  let ?s' = "streamPut ((releaseOld s ix p)\<lparr>rs_idx := Some (Remove ix p)\<rparr>) p z t"
  show "toStream s p z t = Some ?s'" using assms(1) by (simp add: toStream_def Let_def)
  show "rs_totalBytes ?s' = rs_totalBytes s - bytesOf (mem_abs ix p)" by simp
  have "same_frame s ?s'" using releaseOld_frame(3) [of s ix p] by (simp add: same_frame_def streamPut_def)
  moreover have "st_stream ?s' = (st_stream s)(p \<mapsto> \<lparr>se_size = z, se_mtimeNS = t\<rparr>)" by simp
  ultimately show "updates s p None (Some \<lparr>se_size = z, se_mtimeNS = t\<rparr>) ?s'"
    using assms rm_mem [OF assms(2), of p]
    by (simp add: updates_def st_files_def st_used_def mapBytes_upd [OF finite_mem_abs] bytesOf_def [of None] le_SucI)
qed

lemma removeTracked_updates:
  assumes "rs_idx s = Some ix" and "ix_inv ix" and "distinct (map fst (rs_stream s))"
  obtains s' where "removeTracked s p = Some s'" "updates s p None None s'"
    "rs_totalBytes s' = rs_totalBytes s - bytesOf (mem_abs ix p)"
proof (rule that)
  let ?s' = "streamDelete ((releaseOld s ix p)\<lparr>rs_idx := Some (Remove ix p)\<rparr>) p"
  show "removeTracked s p = Some ?s'" using assms(1) by (simp add: removeTracked_def Let_def)
  show "rs_totalBytes ?s' = rs_totalBytes s - bytesOf (mem_abs ix p)" by simp
  have "same_frame s ?s'" using releaseOld_frame(3) [of s ix p] by (simp add: same_frame_def streamDelete_def)
  moreover have "st_stream ?s' = (st_stream s)(p := None)" by simp
  ultimately show "updates s p None None ?s'"
    using assms rm_mem [OF assms(2), of p]
    by (simp add: updates_def st_files_def st_used_def mapBytes_upd [OF finite_mem_abs] bytesOf_def [of None] le_SucI)
qed

text \<open>Where a file belongs, the budget aside.\<close>

datatype route = Gone | Streamed streamEntry | Indexed document

definition routeText :: "host \<Rightarrow> gostring \<Rightarrow> int \<Rightarrow> int \<Rightarrow> bytes \<Rightarrow> route" where
  "routeText h rel sz mtimeNS content =
     (let content = (case decodeUTF16_daemon content of Some d \<Rightarrow> d | None \<Rightarrow> content) in
      if isBinary_daemon content then Streamed \<lparr>se_size = sz, se_mtimeNS = mtimeNS\<rparr>
      else Indexed (\<lparr>fm_Path = rel, fm_Size = sz, fm_MtimeNS = mtimeNS\<rparr>, content, Extract (ho_S h) rel content))"

definition route :: "host \<Rightarrow> gostring \<Rightarrow> Config \<Rightarrow> gostring \<Rightarrow> route" where
  "route h root cfg rel =
     (case ho_Stat h (Join root rel) of
        Ok fi \<Rightarrow>
          if \<not> fi_regular fi then Gone
          else if fi_size fi > MaxFileSize cfg then Streamed \<lparr>se_size = fi_size fi, se_mtimeNS = fi_mtime fi\<rparr>
          else (case ho_ReadFile h (Join root rel) of
              Ok content \<Rightarrow> routeText h rel (fi_size fi) (fi_mtime fi) content
            | _ \<Rightarrow> Gone)
      | _ \<Rightarrow> Gone)"

fun docOfRoute :: "route \<Rightarrow> document option" where
  "docOfRoute (Indexed d) = Some d"
| "docOfRoute _ = None"

fun entryOfRoute :: "route \<Rightarrow> streamEntry option" where
  "entryOfRoute (Streamed e) = Some e"
| "entryOfRoute _ = None"

lemma counters [simp]:
  "updates (s\<lparr>rs_skippedLarge := n\<rparr>) p d e s' = updates s p d e s'"
  "updates (s\<lparr>rs_skippedBudget := n\<rparr>) p d e s' = updates s p d e s'"
  "updates (s\<lparr>rs_skippedBinary := n\<rparr>) p d e s' = updates s p d e s'"
  "updates (s\<lparr>rs_skippedError := n\<rparr>) p d e s' = updates s p d e s'"
  by (simp_all add: updates_def same_frame_def st_files_def st_stream_def st_used_def)

lemma addBytes_undo [simp]: "addBytes (addBytes s n) (- n) = s"
  by (simp add: addBytes_def)

lemma addBytes_frame [simp]: "rs_idx (addBytes s n) = rs_idx s" "rs_stream (addBytes s n) = rs_stream s"
  "rs_root (addBytes s n) = rs_root s" "rs_cfg (addBytes s n) = rs_cfg s"
  by (simp_all add: addBytes_def)

lemma indexReserved_updates:
  assumes ix: "rs_idx s = Some ix" "ix_inv ix" "distinct (map fst (rs_stream s))" and room: "length (ix_files ix) < 2 ^ 32"
    and r: "r = (case ho_ReadFile h (Join (rs_root s) p) of Ok content \<Rightarrow> routeText h p z t content | _ \<Rightarrow> Gone)"
  obtains s' where "indexReserved h (addBytes s z) p z t = Some s'" "updates s p (docOfRoute r) (entryOfRoute r) s'"
    "rs_totalBytes s' \<le> rs_totalBytes s + (if docOfRoute r = None then 0 else z) - bytesOf (mem_abs ix p)"
proof (cases "ho_ReadFile h (Join (rs_root s) p)")
  case NotExist
  obtain s' where "removeTracked s p = Some s'" "updates s p None None s'"
    "rs_totalBytes s' = rs_totalBytes s - bytesOf (mem_abs ix p)" by (rule removeTracked_updates [OF ix])
  with NotExist r that show ?thesis by (simp add: indexReserved_def)
next
  case OtherError
  obtain s' where "removeTracked (s\<lparr>rs_skippedError := rs_skippedError s + 1\<rparr>) p = Some s'" "updates s p None None s'"
    "rs_totalBytes s' = rs_totalBytes s - bytesOf (mem_abs ix p)"
    using removeTracked_updates [of "s\<lparr>rs_skippedError := rs_skippedError s + 1\<rparr>" ix p] ix by auto
  with OtherError r that show ?thesis by (simp add: indexReserved_def Let_def)
next
  case (Ok content)
  let ?c = "case decodeUTF16_daemon content of Some d \<Rightarrow> d | None \<Rightarrow> content"
  show ?thesis
  proof (cases "isBinary_daemon ?c")
    case True
    obtain s' where "toStream (s\<lparr>rs_skippedBinary := rs_skippedBinary s + 1\<rparr>) p z t = Some s'"
      "updates s p None (Some \<lparr>se_size = z, se_mtimeNS = t\<rparr>) s'"
      "rs_totalBytes s' = rs_totalBytes s - bytesOf (mem_abs ix p)"
      using toStream_updates [of "s\<lparr>rs_skippedBinary := rs_skippedBinary s + 1\<rparr>" ix p z t] ix by auto
    with Ok True r that show ?thesis by (simp add: indexReserved_def routeText_def Let_def)
  next
    case False
    let ?m = "\<lparr>fm_Path = p, fm_Size = z, fm_MtimeNS = t\<rparr>"
    let ?d = "(?m, ?c, Extract (ho_S h) p ?c)"
    let ?s' = "(streamDelete (releaseOld (addBytes s z) ix p) p)\<lparr>rs_idx := Some (Add (ho_S h) ix ?m ?c)\<rparr>"
    have "indexReserved h (addBytes s z) p z t = Some ?s'" using Ok False ix(1) by (simp add: indexReserved_def Let_def)
    moreover have tot: "rs_totalBytes ?s' = rs_totalBytes s + z - bytesOf (mem_abs ix p)" by (simp add: addBytes_def)
    moreover have "updates s p (Some ?d) None ?s'"
    proof -
      have "same_frame s ?s'"
        using releaseOld_frame(3) [of "addBytes s z" ix p] by (simp add: same_frame_def streamDelete_def addBytes_def)
      moreover have "st_stream ?s' = (st_stream s)(p := None)" by simp (simp add: st_stream_def)
      moreover have "mapBytes ((mem_abs ix)(p \<mapsto> ?d)) = mapBytes (mem_abs ix) - bytesOf (mem_abs ix p) + z"
        by (simp add: mapBytes_upd [OF finite_mem_abs] bytesOf_def)
      ultimately show ?thesis
        unfolding updates_def tot using ix add_mem [OF ix(2) room, of "ho_S h" ?m ?c] by (simp add: st_files_def st_used_def)
    qed
    moreover have "r = Indexed ?d" using r Ok False by (simp add: routeText_def Let_def)
    ultimately show ?thesis by (intro that [of ?s']) simp_all
  qed
qed

text \<open>The exact route: a file that does not fit into the budget goes to the stream set.\<close>

definition overBudget :: "RootStore \<Rightarrow> int \<Rightarrow> bool" where
  "overBudget s n \<longleftrightarrow> MaxIndexMB (rs_cfg s) > 0 \<and> rs_totalBytes s + n > MaxIndexMB (rs_cfg s) * 2 ^ 20"

lemma reserveBytes_cases: "reserveBytes s n = (if overBudget s n then (False, s) else (True, addBytes s n))"
  by (auto simp: reserveBytes_def overBudget_def addBytes_def)

definition sizes_ok :: "host \<Rightarrow> bool" where
  "sizes_ok h \<longleftrightarrow> (\<forall>p fi. ho_Stat h p = Ok fi \<longrightarrow> 0 \<le> fi_size fi)"

definition route_of :: "host \<Rightarrow> RootStore \<Rightarrow> gostring \<Rightarrow> route \<Rightarrow> bool" where
  "route_of h s p r \<longleftrightarrow> r = route h (rs_root s) (rs_cfg s) p \<or>
     MaxIndexMB (rs_cfg s) > 0 \<and> (\<exists>fi. ho_Stat h (Join (rs_root s) p) = Ok fi \<and> fi_regular fi \<and>
       r = Streamed \<lparr>se_size = fi_size fi, se_mtimeNS = fi_mtime fi\<rparr>)"

lemma route_nonneg: "sizes_ok h \<Longrightarrow> route h root cfg p = Indexed d \<Longrightarrow> 0 \<le> fm_Size (fst d)"
  by (auto simp: route_def routeText_def Let_def sizes_ok_def split: osresult.splits if_splits)


lemma route_store_ok:
  assumes "store_ok s" and "updates s p (docOfRoute r) (entryOfRoute r) s'" and "route_of h s p r" and "sizes_ok h"
    and "MaxIndexMB (rs_cfg s) > 0 \<Longrightarrow> rs_totalBytes s' \<le> max (rs_totalBytes s) (MaxIndexMB (rs_cfg s) * 2 ^ 20)"
  shows "store_ok s'"
proof (rule updates_ok [OF assms(1,2)])
  show "docOfRoute r = None \<or> entryOfRoute r = None" by (cases r) simp_all
  show "0 \<le> fm_Size (fst x)" if "docOfRoute r = Some x" for x
    using that assms(3) route_nonneg [OF assms(4)] by (cases r) (auto simp: route_of_def)
  have "budget_ok s" "rs_cfg s' = rs_cfg s" using assms(1,2) by (simp_all add: store_ok_def updates_def same_frame_def)
  then show "budget_ok s'" using assms(5) by (auto simp: budget_ok_def)
qed

lemma indexFile_updates:
  assumes ok: "store_ok s" and room: "st_used s < 2 ^ 32" and sz: "sizes_ok h"
  obtains (res) s' r where "indexFile h s p = Some s'" "updates s p (docOfRoute r) (entryOfRoute r) s'" "route_of h s p r" "store_ok s'"
proof -
  obtain ix where ix: "rs_idx s = Some ix" "ix_inv ix" "distinct (map fst (rs_stream s))" using ok by (auto simp: store_ok_def)
  have old: "0 \<le> bytesOf (mem_abs ix p)"
    using ok ix(1) by (auto simp: store_ok_def st_files_def bytesOf_def split: option.splits)
  have room': "length (ix_files ix) < 2 ^ 32" using room ix(1) by (simp add: st_used_def)
  have fin: thesis if "indexFile h s p = Some s'" "updates s p (docOfRoute r) (entryOfRoute r) s'" "route_of h s p r"
    "MaxIndexMB (rs_cfg s) > 0 \<Longrightarrow> rs_totalBytes s' \<le> max (rs_totalBytes s) (MaxIndexMB (rs_cfg s) * 2 ^ 20)" for s' r
    using that(1,2,3) route_store_ok [OF ok that(2,3) sz that(4)] by (intro res)
  have gone: thesis if "indexFile h s p = removeTracked (s\<lparr>rs_skippedError := n\<rparr>) p" "route h (rs_root s) (rs_cfg s) p = Gone" for n
  proof -
    obtain s' where "removeTracked (s\<lparr>rs_skippedError := n\<rparr>) p = Some s'" "updates s p None None s'"
      "rs_totalBytes s' = rs_totalBytes s - bytesOf (mem_abs ix p)"
      using removeTracked_updates [of "s\<lparr>rs_skippedError := n\<rparr>" ix p] ix by auto
    with that old show thesis by (intro fin [of s' Gone]) (simp_all add: route_of_def)
  qed
  have same: "s\<lparr>rs_skippedError := rs_skippedError s\<rparr> = s" by simp
  show thesis
  proof (cases "ho_Stat h (Join (rs_root s) p)")
    case NotExist
    then show thesis by (intro gone [of "rs_skippedError s"]) (simp_all add: indexFile_def route_def)
  next
    case OtherError
    then show thesis by (intro gone [of "rs_skippedError s + 1"]) (simp_all add: indexFile_def route_def)
  next
    case (Ok fi)
    let ?e = "\<lparr>se_size = fi_size fi, se_mtimeNS = fi_mtime fi\<rparr>"
    consider "\<not> fi_regular fi" | "fi_regular fi" "fi_size fi > MaxFileSize (rs_cfg s)"
      | "fi_regular fi" "\<not> fi_size fi > MaxFileSize (rs_cfg s)" "overBudget s (fi_size fi)"
      | "fi_regular fi" "\<not> fi_size fi > MaxFileSize (rs_cfg s)" "\<not> overBudget s (fi_size fi)" by blast
    then show thesis
    proof cases
      case 1
      with Ok show thesis by (intro gone [of "rs_skippedError s"]) (simp_all add: indexFile_def route_def)
    next
      case 2
      obtain s' where "toStream (s\<lparr>rs_skippedLarge := rs_skippedLarge s + 1\<rparr>) p (fi_size fi) (fi_mtime fi) = Some s'"
        "updates s p None (Some ?e) s'" "rs_totalBytes s' = rs_totalBytes s - bytesOf (mem_abs ix p)"
        using toStream_updates [of "s\<lparr>rs_skippedLarge := rs_skippedLarge s + 1\<rparr>" ix p "fi_size fi" "fi_mtime fi"] ix by auto
      with 2 Ok old show thesis
        by (intro fin [of s' "Streamed ?e"]) (simp_all add: indexFile_def route_def route_of_def Let_def)
    next
      case 3
      obtain s' where "toStream (s\<lparr>rs_skippedBudget := rs_skippedBudget s + 1\<rparr>) p (fi_size fi) (fi_mtime fi) = Some s'"
        "updates s p None (Some ?e) s'" "rs_totalBytes s' = rs_totalBytes s - bytesOf (mem_abs ix p)"
        using toStream_updates [of "s\<lparr>rs_skippedBudget := rs_skippedBudget s + 1\<rparr>" ix p "fi_size fi" "fi_mtime fi"] ix by auto
      with 3 Ok old show thesis
        by (intro fin [of s' "Streamed ?e"])
          (auto simp: indexFile_def route_of_def overBudget_def reserveBytes_cases Let_def)
    next
      case 4
      let ?r = "route h (rs_root s) (rs_cfg s) p"
      have "?r = (case ho_ReadFile h (Join (rs_root s) p) of Ok content \<Rightarrow> routeText h p (fi_size fi) (fi_mtime fi) content | _ \<Rightarrow> Gone)"
        using 4 Ok by (simp add: route_def)
      from indexReserved_updates [OF ix room' this] obtain s' where
        s': "indexReserved h (addBytes s (fi_size fi)) p (fi_size fi) (fi_mtime fi) = Some s'"
        "updates s p (docOfRoute ?r) (entryOfRoute ?r) s'"
        "rs_totalBytes s' \<le> rs_totalBytes s + (if docOfRoute ?r = None then 0 else fi_size fi) - bytesOf (mem_abs ix p)" .
      have "indexFile h s p = Some s'" using 4 Ok s'(1) by (simp add: indexFile_def reserveBytes_cases Let_def)
      moreover have "rs_totalBytes s' \<le> max (rs_totalBytes s) (MaxIndexMB (rs_cfg s) * 2 ^ 20)" if "MaxIndexMB (rs_cfg s) > 0"
        using s'(3) 4(3) old that by (auto simp: overBudget_def split: if_splits)
      ultimately show thesis using s'(2) by (intro fin [of s' ?r]) (simp_all add: route_of_def)
    qed
  qed
qed

subsection \<open>Many files\<close>

text \<open>The paths of \<open>P\<close> have been brought to the state of the disk and no other path has changed.\<close>

definition tracked :: "host \<Rightarrow> RootStore \<Rightarrow> gostring set \<Rightarrow> RootStore \<Rightarrow> bool" where
  "tracked h s P s' \<longleftrightarrow> same_frame s s' \<and> store_ok s' \<and>
     (\<forall>p \<in> P. \<exists>r. route_of h s p r \<and> st_files s' p = docOfRoute r \<and> st_stream s' p = entryOfRoute r) \<and>
     (\<forall>p. p \<notin> P \<longrightarrow> st_files s' p = st_files s p \<and> st_stream s' p = st_stream s p)"

lemma route_of_frame: "same_frame s s' \<Longrightarrow> route_of h s' p r \<longleftrightarrow> route_of h s p r"
  by (simp add: route_of_def same_frame_def)

lemma tracked_step:
  assumes "tracked h s P s1" and "updates s1 p (docOfRoute r) (entryOfRoute r) s2" and "route_of h s1 p r" and "store_ok s2"
  shows "tracked h s (insert p P) s2"
proof -
  have "same_frame s s1" "same_frame s1 s2" using assms(1,2) by (simp_all add: tracked_def updates_def)
  then have "same_frame s s2" "route_of h s p r" using assms(3) same_frame_trans route_of_frame by blast+
  then show ?thesis using assms(1,2,4) unfolding tracked_def updates_def by (auto simp: fun_upd_def)
qed

lemma indexed_frame [simp]:
  "store_ok (s\<lparr>rs_indexed := n\<rparr>) = store_ok s" "st_used (s\<lparr>rs_indexed := n\<rparr>) = st_used s"
  "tracked h (s\<lparr>rs_indexed := n\<rparr>) P s' = tracked h s P s'" "tracked h s P (s'\<lparr>rs_indexed := n\<rparr>) = tracked h s P s'"
  by (simp_all add: store_ok_def st_used_def tracked_def st_files_def st_stream_def same_frame_def route_of_def budget_ok_def)

lemma indexFiles_tracked:
  assumes "store_ok s" and "st_used s + length rels \<le> 2 ^ 32" and "sizes_ok h" and "tracked h s0 P s"
  shows "\<exists>s'. indexFiles h rels s = Some s' \<and> tracked h s0 (P \<union> set rels) s'"
  using assms
proof (induction rels arbitrary: s P)
  case (Cons p rels)
  have "st_used s < 2 ^ 32" using Cons.prems(2) by simp
  then obtain s1 r where s1: "indexFile h s p = Some s1" "updates s p (docOfRoute r) (entryOfRoute r) s1" "route_of h s p r" "store_ok s1"
    using indexFile_updates [OF Cons.prems(1) _ Cons.prems(3)] by metis
  from s1(2) Cons.prems(2) have "st_used s1 + length rels \<le> 2 ^ 32" by (simp add: updates_def)
  from Cons.IH [OF s1(4) this Cons.prems(3) tracked_step [OF Cons.prems(4) s1(2-4)]] s1(1) show ?case by simp
qed simp

lemma indexJobs_tracked:
  assumes "store_ok s" and "st_used s + length rels \<le> 2 ^ 32" and "sizes_ok h" and "tracked h s0 P s"
  shows "\<exists>s'. indexJobs h rels s = Some s' \<and> tracked h s0 (P \<union> set rels) s'"
  using assms
proof (induction rels arbitrary: s P)
  case (Cons p rels)
  have "st_used s < 2 ^ 32" using Cons.prems(2) by simp
  then obtain s1 r where s1: "indexFile h s p = Some s1" "updates s p (docOfRoute r) (entryOfRoute r) s1" "route_of h s p r" "store_ok s1"
    using indexFile_updates [OF Cons.prems(1) _ Cons.prems(3)] by metis
  let ?s1 = "s1\<lparr>rs_indexed := rs_indexed s1 + 1\<rparr>"
  from s1(2) Cons.prems(2) have "st_used ?s1 + length rels \<le> 2 ^ 32" by (simp add: updates_def)
  with s1(4) Cons.prems(3) tracked_step [OF Cons.prems(4) s1(2-4)] Cons.IH [of ?s1 "insert p P"] s1(1) show ?case by simp
qed simp

definition sched_ok :: "host \<Rightarrow> bool" where
  "sched_ok h \<longleftrightarrow> (\<forall>n. mset (ho_sched h n) = mset [0..<n]) \<and> (\<forall>xs. mset (ho_rng h xs) = mset xs)"

lemma sched_set: "sched_ok h \<Longrightarrow> set (map (\<lambda>i. xs ! i) (ho_sched h (length xs))) = set xs"
  "sched_ok h \<Longrightarrow> length (ho_sched h n) = n"
proof -
  assume h: "sched_ok h"
  then have "set (ho_sched h (length xs)) = {0..<length xs}" for xs :: "'a list"
    by (metis sched_ok_def set_upt mset_eq_setD)
  then show "set (map (\<lambda>i. xs ! i) (ho_sched h (length xs))) = set xs" by (simp add: nth_image [of "length xs" xs, simplified, symmetric])
  from h show "length (ho_sched h n) = n" by (metis sched_ok_def size_mset length_upt diff_zero)
qed

lemma tracked_refl: "store_ok s \<Longrightarrow> tracked h s {} s"
  by (simp add: tracked_def)

lemma indexParallel_tracked:
  assumes "store_ok s" and "st_used s + length rels \<le> 2 ^ 32" and "sizes_ok h" and "sched_ok h"
  shows "\<exists>s'. indexParallel h rels s = Some s' \<and> tracked h s (set rels) s'"
  using indexJobs_tracked [OF assms(1) _ assms(3) tracked_refl [OF assms(1)], of "map (\<lambda>i. rels ! i) (ho_sched h (length rels))"]
    assms(2) sched_set(1) [OF assms(4), of rels] sched_set(2) [OF assms(4)] by (simp add: indexParallel_def)

subsection \<open>Reconcile\<close>

text \<open>The file is tracked with the size and modification time of the listing.\<close>

definition unchanged :: "RootStore \<Rightarrow> fileStat \<Rightarrow> bool" where
  "unchanged s f \<longleftrightarrow>
     (case st_files s (fs_rel f) of None \<Rightarrow> False | Some d \<Rightarrow> fs_size f = fm_Size (fst d) \<and> fs_mtimeNS f = fm_MtimeNS (fst d)) \<or>
     (case st_stream s (fs_rel f) of None \<Rightarrow> False | Some e \<Rightarrow> fs_size f = se_size e \<and> fs_mtimeNS f = se_mtimeNS e)"

lemma unchanged_frame [simp]: "unchanged (s\<lparr>rs_indexed := n\<rparr>) = unchanged s"
  by (intro ext) (simp add: unchanged_def st_files_def st_stream_def)

lemma staleOf_filter:
  assumes "rs_idx s = Some ix"
  shows "\<exists>n. staleOf files s stale = Some (stale @ map fs_rel (filter (\<lambda>f. \<not> unchanged s f) files), s\<lparr>rs_indexed := n\<rparr>)"
  using assms
proof (induction files arbitrary: s stale)
  case Nil
  then show ?case by (intro exI [of _ "rs_indexed s"]) simp
next
  case (Cons f files)
  have c: "unchanged s f \<longleftrightarrow>
    (case Meta ix (fs_rel f) of None \<Rightarrow> False | Some m \<Rightarrow> fs_size f = fm_Size m \<and> fs_mtimeNS f = fm_MtimeNS m) \<or>
    (case streamGet s (fs_rel f) of None \<Rightarrow> False | Some e \<Rightarrow> fs_size f = se_size e \<and> fs_mtimeNS f = se_mtimeNS e)"
    using Cons.prems by (auto simp: unchanged_def st_files_def st_stream_def streamGet_def Meta_mem_abs split: option.splits)
  show ?case
  proof (cases "unchanged s f")
    case True
    with Cons.IH [of "s\<lparr>rs_indexed := rs_indexed s + 1\<rparr>" stale] Cons.prems c show ?thesis by simp
  next
    case False
    with Cons.IH [of s "stale @ [fs_rel f]"] Cons.prems c show ?thesis by simp
  qed
qed

lemma foldl_Remove:
  "ix_inv ix \<Longrightarrow> ix_inv (foldl Remove ix ps) \<and> mem_abs (foldl Remove ix ps) = (\<lambda>p. if p \<in> set ps then None else mem_abs ix p)"
  by (induction ps arbitrary: ix) (auto simp: rm_mem fun_eq_iff)

lemma Paths_dom: "sched_ok h \<Longrightarrow> set (Paths (ho_rng h) ix) = dom (mem_abs ix)"
proof -
  assume "sched_ok h"
  then have "set (ho_rng h (ix_byPath ix)) = set (ix_byPath ix)" by (metis sched_ok_def mset_eq_setD)
  then show ?thesis by (simp add: Paths_def dom_mem_abs)
qed

text \<open>The end of a reconcile: what is not listed any more is dropped.\<close>

lemma drop_unlisted:
  fixes s h ix D
  defines "s' \<equiv> (streamRetain s D)\<lparr>rs_idx := Some (foldl Remove ix (filter (\<lambda>p. p \<notin> D) (Paths (ho_rng h) ix)))\<rparr>"
  assumes "store_ok s" and "sched_ok h" and "rs_idx s = Some ix"
  shows "store_ok s'"
    and "st_files s' = (\<lambda>p. if p \<in> D then st_files s p else None)"
    and "st_stream s' = (\<lambda>p. if p \<in> D then st_stream s p else None)"
proof -
  let ?ix = "foldl Remove ix (filter (\<lambda>p. p \<notin> D) (Paths (ho_rng h) ix))"
  have ix: "ix_inv ix" using assms(2,4) by (auto simp: store_ok_def)
  have f: "ix_inv ?ix" "mem_abs ?ix = (\<lambda>p. if p \<in> D then mem_abs ix p else None)"
    using foldl_Remove [OF ix] Paths_dom [OF assms(3), of ix] by (simp_all add: fun_eq_iff domIff del: not_None_eq split_paired_Ex split_paired_All)
  show fs: "st_files s' = (\<lambda>p. if p \<in> D then st_files s p else None)"
    using f(2) assms(4) by (simp add: st_files_def s'_def cong: if_cong)
  have "map_of (filter (\<lambda>(p, _). p \<in> D) xs) p = (if p \<in> D then map_of xs p else None)" for xs :: "(gostring \<times> streamEntry) list" and p
    by (induction xs) auto
  then show st: "st_stream s' = (\<lambda>p. if p \<in> D then st_stream s p else None)"
    by (simp add: st_stream_def streamRetain_def fun_eq_iff s'_def)
  have "mapBytes (st_files s') \<le> mapBytes (st_files s)"
    unfolding fs
  proof (rule mapBytes_mono)
    show "finite (dom (st_files s))" using finite_mem_abs [of ix] assms(4) by (simp add: st_files_def)
    show "0 \<le> fm_Size (fst d)" if "st_files s p = Some d" for p d
      using assms(2) that by (rule store_ok_nonneg)
  qed simp
  moreover have "distinct (map fst (rs_stream s'))"
    using assms(2) by (auto simp: store_ok_def streamRetain_def distinct_map_filter s'_def)
  moreover have "dom (st_files s') \<inter> dom (st_stream s') = {}"
    using assms(2) unfolding fs st store_ok_def by (auto simp: dom_def split: if_splits)
  moreover have "0 \<le> fm_Size (fst d)" if "st_files s' p = Some d" for p d
    using store_ok_nonneg [OF assms(2)] that by (simp add: fs split: if_splits)
  ultimately show "store_ok s'"
    using assms(2) f(1) by (auto simp: store_ok_def streamRetain_def budget_ok_def s'_def)
qed

lemma misc_frame [simp]:
  "store_ok (s\<lparr>rs_total := n\<rparr>) = store_ok s" "store_ok (s\<lparr>rs_gitTree := g\<rparr>) = store_ok s" "store_ok (scheduleSave s) = store_ok s"
  "st_files (s\<lparr>rs_total := n\<rparr>) = st_files s" "st_files (s\<lparr>rs_gitTree := g\<rparr>) = st_files s" "st_files (scheduleSave s) = st_files s"
  "st_stream (s\<lparr>rs_total := n\<rparr>) = st_stream s" "st_stream (s\<lparr>rs_gitTree := g\<rparr>) = st_stream s" "st_stream (scheduleSave s) = st_stream s"
  "st_used (s\<lparr>rs_total := n\<rparr>) = st_used s" "st_used (s\<lparr>rs_gitTree := g\<rparr>) = st_used s"
  "unchanged (s\<lparr>rs_total := n\<rparr>) = unchanged s" "unchanged (s\<lparr>rs_gitTree := g\<rparr>) = unchanged s"
  "route_of h (s\<lparr>rs_total := n\<rparr>) = route_of h s" "route_of h (s\<lparr>rs_gitTree := g\<rparr>) = route_of h s"
  "st_files (s\<lparr>rs_indexed := n\<rparr>) = st_files s" "st_stream (s\<lparr>rs_indexed := n\<rparr>) = st_stream s"
  "route_of h (s\<lparr>rs_indexed := n\<rparr>) = route_of h s"
  by (simp_all add: store_ok_def st_files_def st_stream_def st_used_def budget_ok_def scheduleSave_def fun_eq_iff unchanged_def route_of_def)

text \<open>The store stays with the in-memory engine.\<close>

definition stays_mem :: "RootStore \<Rightarrow> fileStat list \<Rightarrow> bool" where
  "stays_mem s files \<longleftrightarrow> EngineChoice (rs_cfg s) \<noteq> str ''auto'' \<or> totalMB files < DiskEngineMB (rs_cfg s)"

lemma storeFiles_frame: "storeFiles h s = Some (files, s') \<Longrightarrow> \<exists>g. s' = s\<lparr>rs_gitTree := g\<rparr>"
  by (auto simp: storeFiles_def split: Option.bind_splits)

lemma reconcile_general:
  assumes ok: "store_ok s" and list: "storeFiles h s = Some (files, s0)" and mem: "stays_mem s files"
    and env: "sizes_ok h" "sched_ok h" and room: "st_used s + length files \<le> 2 ^ 32"
  shows "\<exists>s'. reconcile h s = Some s' \<and> store_ok s' \<and> rs_root s' = rs_root s \<and> rs_cfg s' = rs_cfg s \<and>
    (\<forall>p. p \<notin> fs_rel ` set files \<longrightarrow> st_files s' p = None \<and> st_stream s' p = None) \<and>
    (\<forall>p \<in> fs_rel ` set files.
       (\<exists>r. route_of h s p r \<and> st_files s' p = docOfRoute r \<and> st_stream s' p = entryOfRoute r) \<or>
       (\<exists>f \<in> set files. fs_rel f = p \<and> unchanged s f) \<and> st_files s' p = st_files s p \<and> st_stream s' p = st_stream s p)"
proof -
  obtain g where s0: "s0 = s\<lparr>rs_gitTree := g\<rparr>" using storeFiles_frame [OF list] by blast
  let ?D = "fs_rel ` set files"
  let ?stale = "map fs_rel (filter (\<lambda>f. \<not> unchanged s f) files)"
  let ?s1 = "s0\<lparr>rs_total := int (length files)\<rparr>"
  obtain ix where ix: "rs_idx ?s1 = Some ix" using ok s0 by (auto simp: store_ok_def)
  obtain n where st: "staleOf files ?s1 [] = Some (?stale, ?s1\<lparr>rs_indexed := n\<rparr>)"
    using staleOf_filter [OF ix, of files "[]"] s0 by auto
  let ?s2 = "?s1\<lparr>rs_indexed := n\<rparr>"
  have s2: "store_ok ?s2" "st_used ?s2 + length ?stale \<le> 2 ^ 32"
    using ok s0 order_trans [OF add_left_mono [OF length_filter_le] room] by simp_all
  obtain s3 where s3: "indexParallel h ?stale ?s2 = Some s3" "tracked h ?s2 (set ?stale) s3"
    using indexParallel_tracked [OF s2 env] by blast
  obtain ix3 where ix3: "rs_idx s3 = Some ix3" using s3(2) by (auto simp: tracked_def store_ok_def)
  have ok3: "store_ok s3" using s3(2) by (simp add: tracked_def)
  let ?gone = "filter (\<lambda>p. p \<notin> ?D) (Paths (ho_rng h) ix3)"
  let ?s4 = "(streamRetain s3 ?D)\<lparr>rs_idx := Some (foldl Remove ix3 ?gone)\<rparr>"
  note s4 = drop_unlisted [OF ok3 env(2) ix3, of ?D]
  have fr: "same_frame ?s2 s3" using s3(2) by (simp add: tracked_def)
  have choose: "\<not> (EngineChoice (rs_cfg ?s1) = str ''auto'' \<and> rs_engineType ?s1 = str ''mem'' \<and> totalMB files \<ge> DiskEngineMB (rs_cfg ?s1))"
    using mem s0 by (auto simp: stays_mem_def)
  obtain s' where s': "reconcile h s = Some s'" "s' = ?s4 \<or> s' = scheduleSave ?s4"
  proof -
    have "reconcile h s = Some (if ?gone \<noteq> [] \<or> rs_indexed ?s4 \<noteq> int (NumFiles (foldl Remove ix3 ?gone)) then scheduleSave ?s4 else ?s4)"
      unfolding reconcile_def list Option.bind.bind_lunit prod.case Let_def if_not_P [OF choose]
      by (simp add: st s3(1) ix3 streamRetain_def)
    then show ?thesis by (rule that) (simp add: if_splits)
  qed
  have view: "store_ok s' = store_ok ?s4" "st_files s' = st_files ?s4" "st_stream s' = st_stream ?s4"
    using s'(2) by (elim disjE; simp only: misc_frame)+
  have view': "rs_root s' = rs_root s3" "rs_cfg s' = rs_cfg s3"
    using s'(2) by (elim disjE; simp add: streamRetain_def scheduleSave_def)+
  show ?thesis
  proof (intro exI [of _ s'] conjI allI ballI impI)
    show "reconcile h s = Some s'" by (rule s'(1))
    show "store_ok s'" using view s4 by simp
    show "rs_root s' = rs_root s" "rs_cfg s' = rs_cfg s" using view' fr s0 by (simp_all add: same_frame_def)
    show "st_files s' p = None" "st_stream s' p = None" if "p \<notin> ?D" for p using that view s4 by simp_all
    fix p assume p: "p \<in> ?D"
    then have v: "st_files s' p = st_files s3 p" "st_stream s' p = st_stream s3 p" using view s4 by simp_all
    show "(\<exists>r. route_of h s p r \<and> st_files s' p = docOfRoute r \<and> st_stream s' p = entryOfRoute r) \<or>
       (\<exists>f \<in> set files. fs_rel f = p \<and> unchanged s f) \<and> st_files s' p = st_files s p \<and> st_stream s' p = st_stream s p"
    proof (cases "p \<in> set ?stale")
      case True
      with s3(2) obtain r where "route_of h ?s2 p r" "st_files s3 p = docOfRoute r" "st_stream s3 p = entryOfRoute r"
        unfolding tracked_def by blast
      with v s0 show ?thesis by (intro disjI1 exI [of _ r]) simp
    next
      case False
      then have "st_files s3 p = st_files ?s2 p" "st_stream s3 p = st_stream ?s2 p" using s3(2) unfolding tracked_def by blast+
      moreover have "\<exists>f \<in> set files. fs_rel f = p \<and> unchanged s f" using False p by auto
      ultimately show ?thesis using v s0 by simp
    qed
  qed
qed

text \<open>What the store tracks for a listed path agrees with the disk whenever size and modification time do: no file
  changes without one of them.\<close>

definition honest :: "host \<Rightarrow> RootStore \<Rightarrow> fileStat list \<Rightarrow> bool" where
  "honest h s files \<longleftrightarrow> (\<forall>f \<in> set files. unchanged s f \<longrightarrow>
     (\<exists>r. route_of h s (fs_rel f) r \<and> st_files s (fs_rel f) = docOfRoute r \<and> st_stream s (fs_rel f) = entryOfRoute r))"

text \<open>The store tracks exactly the listed files, each where it belongs.\<close>

definition mirrors :: "host \<Rightarrow> RootStore \<Rightarrow> fileStat list \<Rightarrow> RootStore \<Rightarrow> bool" where
  "mirrors h s files s' \<longleftrightarrow>
     (\<forall>p \<in> fs_rel ` set files. \<exists>r. route_of h s p r \<and> st_files s' p = docOfRoute r \<and> st_stream s' p = entryOfRoute r) \<and>
     (\<forall>p. p \<notin> fs_rel ` set files \<longrightarrow> st_files s' p = None \<and> st_stream s' p = None)"

lemma reconcile_mirrors:
  assumes "store_ok s" and "storeFiles h s = Some (files, s0)" and "stays_mem s files" and "sizes_ok h" and "sched_ok h"
    and "st_used s + length files \<le> 2 ^ 32" and "honest h s files"
  shows "\<exists>s'. reconcile h s = Some s' \<and> store_ok s' \<and> mirrors h s files s'"
proof -
  obtain s' where s': "reconcile h s = Some s'" "store_ok s'"
    "\<forall>p. p \<notin> fs_rel ` set files \<longrightarrow> st_files s' p = None \<and> st_stream s' p = None"
    "\<forall>p \<in> fs_rel ` set files.
       (\<exists>r. route_of h s p r \<and> st_files s' p = docOfRoute r \<and> st_stream s' p = entryOfRoute r) \<or>
       (\<exists>f \<in> set files. fs_rel f = p \<and> unchanged s f) \<and> st_files s' p = st_files s p \<and> st_stream s' p = st_stream s p"
    using reconcile_general [OF assms(1-6)] by blast
  have "mirrors h s files s'"
    unfolding mirrors_def using s'(3)
  proof (intro conjI ballI)
    fix p assume "p \<in> fs_rel ` set files"
    with s'(4) consider "\<exists>r. route_of h s p r \<and> st_files s' p = docOfRoute r \<and> st_stream s' p = entryOfRoute r"
      | f where "f \<in> set files" "fs_rel f = p" "unchanged s f" "st_files s' p = st_files s p" "st_stream s' p = st_stream s p" by blast
    then show "\<exists>r. route_of h s p r \<and> st_files s' p = docOfRoute r \<and> st_stream s' p = entryOfRoute r"
    proof cases
      case 2
      then show ?thesis using assms(7) unfolding honest_def by metis
    qed
  qed
  with s'(1,2) show ?thesis by blast
qed

lemma fullScan_mirrors:
  assumes "store_ok s" and "storeFiles h s = Some (files, s0)" and "stays_mem s files" and "sizes_ok h" and "sched_ok h"
    and "st_used s + length files \<le> 2 ^ 32" and "st_files s = Map.empty" and "st_stream s = Map.empty"
  shows "\<exists>s'. fullScan h s = Some s' \<and> store_ok s' \<and> mirrors h s files s' \<and> rs_root s' = rs_root s \<and> rs_disk s' = rs_disk s"
proof -
  obtain g where s0: "s0 = s\<lparr>rs_gitTree := g\<rparr>" using storeFiles_frame [OF assms(2)] by blast
  let ?s1 = "s0\<lparr>rs_total := int (length files)\<rparr>"
  have "\<not> (EngineChoice (rs_cfg ?s1) = str ''auto'' \<and> totalMB files \<ge> DiskEngineMB (rs_cfg ?s1))"
    using assms(3) s0 by (auto simp: stays_mem_def)
  then have "fullScan h s = indexParallel h (map fs_rel files) ?s1"
    unfolding fullScan_def assms(2) Option.bind.bind_lunit prod.case Let_def by (rule if_not_P)
  moreover have "store_ok ?s1" "st_used ?s1 + length (map fs_rel files) \<le> 2 ^ 32" using assms(1,6) s0 by simp_all
  ultimately obtain s' where s': "fullScan h s = Some s'" "tracked h ?s1 (fs_rel ` set files) s'"
    using indexParallel_tracked [of ?s1 "map fs_rel files" h] assms(4,5) by auto
  have "store_ok s'" "rs_root s' = rs_root s" "rs_disk s' = rs_disk s" using s'(2) s0 by (simp_all add: tracked_def same_frame_def)
  moreover have "mirrors h s files s'"
    unfolding mirrors_def
  proof (intro conjI ballI allI impI)
    fix p assume "p \<in> fs_rel ` set files"
    with s'(2) obtain r where "route_of h ?s1 p r" "st_files s' p = docOfRoute r" "st_stream s' p = entryOfRoute r"
      unfolding tracked_def by blast
    then show "\<exists>r. route_of h s p r \<and> st_files s' p = docOfRoute r \<and> st_stream s' p = entryOfRoute r"
      using s0 by (intro exI [of _ r]) simp
  next
    fix p assume "p \<notin> fs_rel ` set files"
    then have "st_files s' p = st_files ?s1 p" "st_stream s' p = st_stream ?s1 p" using s'(2) unfolding tracked_def by blast+
    then show "st_files s' p = None" "st_stream s' p = None" using assms(7,8) s0 by simp_all
  qed
  ultimately show ?thesis using s'(1) by blast
qed

lemma ready_frame [simp]: "store_ok (becomeReady s) = store_ok s" "mirrors h s files (becomeReady s') = mirrors h s files s'"
    "mirrors h s files (scheduleSave s') = mirrors h s files s'" "rs_state (becomeReady s) = StateReady"
    "rs_state (scheduleSave s) = rs_state s"
  by (simp_all add: store_ok_def mirrors_def becomeReady_def scheduleSave_def st_files_def st_stream_def budget_ok_def)

subsection \<open>Changes\<close>

lemma ignored_frame:
  "\<exists>g. snd (ignored h s rel b) = s\<lparr>rs_gitTree := g\<rparr>" "\<exists>g. snd (ignoredBoth h s rel) = s\<lparr>rs_gitTree := g\<rparr>"
proof -
  show "\<exists>g. snd (ignored h s rel b) = s\<lparr>rs_gitTree := g\<rparr>" for b s
    by (auto simp: ignored_def split: prod.split)
  note one = this
  show "\<exists>g. snd (ignoredBoth h s rel) = s\<lparr>rs_gitTree := g\<rparr>"
  proof (cases "ignored h s rel True")
    case (Pair i s1)
    with one [of s True] obtain g where g: "s1 = s\<lparr>rs_gitTree := g\<rparr>" by auto
    with one [of s1 False] obtain g' where "snd (ignored h s1 rel False) = s\<lparr>rs_gitTree := g'\<rparr>" by auto
    with Pair g show ?thesis by (auto simp: ignoredBoth_def)
  qed
qed

text \<open>The paths a change touches: \<open>None\<close> when it was removed, the listed files below a directory, or the file itself.\<close>

definition same_maps :: "RootStore \<Rightarrow> RootStore \<Rightarrow> bool" where
  "same_maps s s' \<longleftrightarrow> st_files s' = st_files s \<and> st_stream s' = st_stream s"

definition refreshed :: "host \<Rightarrow> RootStore \<Rightarrow> gostring set \<Rightarrow> RootStore \<Rightarrow> bool" where
  "refreshed h s P s' \<longleftrightarrow>
     (\<forall>p \<in> P. \<exists>r. route_of h s p r \<and> st_files s' p = docOfRoute r \<and> st_stream s' p = entryOfRoute r) \<and>
     (\<forall>p. p \<notin> P \<longrightarrow> st_files s' p = st_files s p \<and> st_stream s' p = st_stream s p)"

lemma tracked_refreshed: "tracked h (s\<lparr>rs_gitTree := g\<rparr>) P s' \<Longrightarrow> refreshed h s P s' \<and> store_ok s'"
  by (simp add: tracked_def refreshed_def)

lemma applyMem_removed:
  fixes s ix rel p
  assumes "store_ok s" and "rs_idx s = Some ix"
  defines "s' \<equiv> streamDeletePrefix (streamDelete (s\<lparr>rs_idx := Some (RemovePrefix (Remove ix rel) rel)\<rparr>) rel) rel"
  shows "store_ok s'" "st_files s' p = (if under_dir rel p then None else st_files s p)"
    "st_stream s' p = (if under_dir rel p then None else st_stream s p)"
proof -
  have ix: "ix_inv ix" using assms(1,2) by (auto simp: store_ok_def)
  have self: "under_dir rel rel" by (simp add: under_dir_iff)
  note rp = mem.del_prefix_inv [OF rm_mem(1) [OF ix]] mem.del_prefix_abs [OF rm_mem(1) [OF ix]]
  have f: "st_files s' = (\<lambda>p. if under_dir rel p then None else st_files s p)"
    using self by (auto simp: s'_def st_files_def streamDeletePrefix_def rp(2) rm_mem(2) [OF ix] assms(2) fun_eq_iff streamDelete_def)
  have "map_of (filter (\<lambda>(p, _). \<not> under_dir rel p) xs) p = (if under_dir rel p then None else map_of xs p)"
    for xs :: "(gostring \<times> streamEntry) list" and p
    by (induction xs) auto
  then have t: "st_stream s' = (\<lambda>p. if under_dir rel p then None else st_stream s p)"
    using self by (auto simp: s'_def st_stream_def streamDeletePrefix_def streamDelete_def delete_conv' fun_eq_iff)
  show "st_files s' p = (if under_dir rel p then None else st_files s p)"
    "st_stream s' p = (if under_dir rel p then None else st_stream s p)" by (simp_all add: f t)
  have "mapBytes (st_files s') \<le> mapBytes (st_files s)"
    unfolding f
  proof (rule mapBytes_mono)
    show "finite (dom (st_files s))" using finite_mem_abs [of ix] assms(2) by (simp add: st_files_def)
    show "0 \<le> fm_Size (fst d)" if "st_files s p = Some d" for p d using assms(1) that by (rule store_ok_nonneg)
  qed simp
  moreover have "distinct (map fst (rs_stream s'))"
    using assms(1) by (auto simp: store_ok_def s'_def streamDeletePrefix_def streamDelete_def distinct_map_filter distinct_delete)
  moreover have "dom (st_files s') \<inter> dom (st_stream s') = {}"
    using assms(1) unfolding f t store_ok_def by (auto simp: dom_def split: if_splits)
  moreover have "0 \<le> fm_Size (fst d)" if "st_files s' q = Some d" for q d
    using store_ok_nonneg [OF assms(1)] that by (simp add: f split: if_splits)
  ultimately show "store_ok s'"
    using assms(1) rp(1) by (auto simp: store_ok_def s'_def streamDeletePrefix_def streamDelete_def budget_ok_def)
qed

lemma same_maps_frame [simp]: "same_maps s s" "same_maps s (s\<lparr>rs_gitTree := g\<rparr>)" by (simp_all add: same_maps_def)

lemma applyMem_exact:
  assumes ok: "store_ok s" and env: "sizes_ok h" and room: "st_used s < 2 ^ 32"
    and dir: "\<And>fi. lstat = Some fi \<Longrightarrow> fi_isDir fi \<Longrightarrow>
      \<exists>s1. storeUnder h (snd (ignored h s rel True)) rel = Some (subs, s1) \<and> st_used s + length subs \<le> 2 ^ 32"
  shows "\<exists>s'. applyMem h s rel lstat = Some s' \<and> store_ok s' \<and>
    (case lstat of
       None \<Rightarrow>
         if fst (ignoredBoth h s rel) then same_maps s s'
         else \<forall>p. st_files s' p = (if under_dir rel p then None else st_files s p) \<and>
                st_stream s' p = (if under_dir rel p then None else st_stream s p)
     | Some fi \<Rightarrow>
         if fi_isDir fi then if fst (ignored h s rel True) then same_maps s s' else refreshed h s (set subs) s'
         else if fi_regular fi \<and> \<not> fst (ignored h s rel False) then refreshed h s {rel} s'
         else same_maps s s')"
proof -
  obtain i0 g0 where i0: "ignoredBoth h s rel = (i0, s\<lparr>rs_gitTree := g0\<rparr>)" using ignored_frame(2) [of h s rel] by (metis prod.collapse)
  obtain i1 g1 where i1: "ignored h s rel True = (i1, s\<lparr>rs_gitTree := g1\<rparr>)" using ignored_frame(1) [of h s rel True] by (metis prod.collapse)
  obtain i2 g2 where i2: "ignored h s rel False = (i2, s\<lparr>rs_gitTree := g2\<rparr>)" using ignored_frame(1) [of h s rel False] by (metis prod.collapse)
  show ?thesis
  proof (cases lstat)
    case None
    obtain ix where "rs_idx s = Some ix" using ok by (auto simp: store_ok_def)
    then have ix: "store_ok (s\<lparr>rs_gitTree := g0\<rparr>)" "rs_idx (s\<lparr>rs_gitTree := g0\<rparr>) = Some ix" using ok by simp_all
    show ?thesis
    proof (cases i0)
      case True
      with None i0 ok show ?thesis by (simp add: applyMem_def)
    next
      case False
      with None i0 ix(2) applyMem_removed [OF ix, of rel] show ?thesis by (simp add: applyMem_def Let_def)
    qed
  next
    case (Some fi)
    consider "fi_isDir fi" i1 | "fi_isDir fi" "\<not> i1" | "\<not> fi_isDir fi" "fi_regular fi" "\<not> i2"
      | "\<not> fi_isDir fi" "\<not> (fi_regular fi \<and> \<not> i2)" by blast
    then show ?thesis
    proof cases
      case 1
      with Some i1 ok show ?thesis by (simp add: applyMem_def)
    next
      case 2
      obtain s1 where s1: "storeUnder h (s\<lparr>rs_gitTree := g1\<rparr>) rel = Some (subs, s1)" "st_used s + length subs \<le> 2 ^ 32"
        using dir [OF Some 2(1)] i1 by auto
      then obtain g where g: "s1 = s\<lparr>rs_gitTree := g\<rparr>" by (auto simp: storeUnder_def split: Option.bind_splits)
      then have s1_ok: "store_ok s1" "st_used s1 + length subs \<le> 2 ^ 32" using ok s1(2) by simp_all
      obtain s' where s': "indexFiles h subs s1 = Some s'" "tracked h s1 (set subs) s'"
        using indexFiles_tracked [OF s1_ok env tracked_refl [OF s1_ok(1)]] by auto
      have "refreshed h s (set subs) s' \<and> store_ok s'" using s'(2) unfolding g by (rule tracked_refreshed)
      with s'(1) s1(1) 2 Some i1 show ?thesis by (simp add: applyMem_def)
    next
      case 3
      let ?s1 = "s\<lparr>rs_gitTree := g2\<rparr>"
      have s1_ok: "store_ok ?s1" "st_used ?s1 + length [rel] \<le> 2 ^ 32" using ok room by simp_all
      obtain s' where s': "indexFile h ?s1 rel = Some s'" "tracked h ?s1 {rel} s'"
        using indexFiles_tracked [OF s1_ok env tracked_refl [OF s1_ok(1)]] by (auto split: Option.bind_splits)
      have "refreshed h s {rel} s' \<and> store_ok s'" using s'(2) by (rule tracked_refreshed)
      with s'(1) 3 Some i2 show ?thesis by (simp add: applyMem_def)
    next
      case 4
      with Some i2 ok show ?thesis by (cases "fi_regular fi") (simp_all add: applyMem_def)
    qed
  qed
qed

subsection \<open>Persistence\<close>

lemma foldl_addPersisted:
  assumes "ix_inv ix" and "length (ix_files ix) + length js \<le> 2 ^ 32"
    and "distinct (map (\<lambda>i. fm_Path (pv_Metas p ! i)) js)"
  shows "ix_inv (foldl (addPersisted p) ix js) \<and>
    mem_abs (foldl (addPersisted p) ix js) =
      mem_abs ix ++ map_of (map (\<lambda>i. (fm_Path (pv_Metas p ! i), (pv_Metas p ! i, pv_Contents p ! i, pv_Defs p ! i))) js)"
  using assms
proof (induction js arbitrary: ix)
  case (Cons j js)
  let ?f = "\<lambda>i. (fm_Path (pv_Metas p ! i), (pv_Metas p ! i, pv_Contents p ! i, pv_Defs p ! i))"
  have "length (ix_files ix) < 2 ^ 32" using Cons.prems(2) by simp
  note add = AddWithKeys_refines [OF Cons.prems(1) this TrigramKeys_distinct TrigramKeys_set,
      of "pv_Metas p ! j" "pv_Contents p ! j" "pv_Defs p ! j", folded addPersisted_def]
  have "length (ix_files (addPersisted p ix j)) + length js \<le> 2 ^ 32" using Cons.prems(2) add by simp
  moreover have "ix_inv (addPersisted p ix j)" "distinct (map (\<lambda>i. fm_Path (pv_Metas p ! i)) js)"
    using add Cons.prems(3) by simp_all
  ultimately have IH: "ix_inv (foldl (addPersisted p) (addPersisted p ix j) js)"
    "mem_abs (foldl (addPersisted p) (addPersisted p ix j) js) = mem_abs (addPersisted p ix j) ++ map_of (map ?f js)"
    using Cons.IH [of "addPersisted p ix j"] by blast+
  have one: "mem_abs (addPersisted p ix j) = (mem_abs ix)(fst (?f j) \<mapsto> snd (?f j))" using add by simp
  have "map_of (map ?f js) (fst (?f j)) = None"
    using Cons.prems(3) by (auto simp: map_of_eq_None_iff)
  then have "(mem_abs ix)(fst (?f j) \<mapsto> snd (?f j)) ++ map_of (map ?f js) = mem_abs ix ++ map_of (map ?f (j # js))"
    by (auto simp: map_add_def fun_eq_iff split: option.split)
  with IH one show ?case by (simp only: foldl.simps simp_thms)
qed simp

text \<open>The live entries, as the index saves them.\<close>

definition liveEntries :: "Index \<Rightarrow> fileEntry list" where
  "liveEntries ix = filter (\<lambda>f. \<not> fe_dead f) (ix_files ix)"

lemma liveEntries_abs:
  assumes "ix_inv ix"
  shows "distinct (map (\<lambda>f. fm_Path (fe_meta f)) (liveEntries ix))"
    and "mem_abs ix = map_of (map (\<lambda>f. (fm_Path (fe_meta f), doc_of f)) (liveEntries ix))"
    and "length (liveEntries ix) \<le> 2 ^ 32"
proof -
  have ok: "byPath_ok (ix_files ix) (ix_byPath ix)" "length (ix_files ix) \<le> 2 ^ 32" using assms by (simp_all add: ix_inv_def)
  show d: "distinct (map (\<lambda>f. fm_Path (fe_meta f)) (liveEntries ix))"
    unfolding liveEntries_def by (rule live_paths_distinct [OF ok])
  show "length (liveEntries ix) \<le> 2 ^ 32" unfolding liveEntries_def by (rule order_trans [OF length_filter_le ok(2)])
  have "distinct (map fst (map (\<lambda>f. (fm_Path (fe_meta f), doc_of f)) (liveEntries ix)))" using d by (simp add: comp_def)
  then show "mem_abs ix = map_of (map (\<lambda>f. (fm_Path (fe_meta f), doc_of f)) (liveEntries ix))"
    by (intro mem_abs_eqI [OF assms]) (auto simp: is_live_def liveEntries_def)
qed

lemma liveEntries_bytes:
  assumes "ix_inv ix"
  shows "sum_list (map (\<lambda>f. fm_Size (fe_meta f)) (liveEntries ix)) = mapBytes (mem_abs ix)"
proof -
  note live = liveEntries_abs [OF assms]
  let ?path = "\<lambda>f. fm_Path (fe_meta f)"
  have "bytesOf (mem_abs ix (?path f)) = fm_Size (fe_meta f)" if "f \<in> set (liveEntries ix)" for f
  proof -
    have "mem_abs ix (?path f) = Some (doc_of f)"
      using live(1) that unfolding live(2) by (intro map_of_is_SomeI) (auto simp: comp_def)
    then show ?thesis by (simp add: bytesOf_def doc_of_def)
  qed
  then have "sum_list (map (\<lambda>f. fm_Size (fe_meta f)) (liveEntries ix)) =
      sum_list (map (\<lambda>p. bytesOf (mem_abs ix p)) (map ?path (liveEntries ix)))"
    unfolding map_map comp_def by (intro arg_cong [where f = sum_list] map_cong) simp_all
  also have "\<dots> = (\<Sum>p \<in> set (map ?path (liveEntries ix)). bytesOf (mem_abs ix p))"
    by (rule sum_list_distinct_conv_sum_set [OF live(1)])
  also have "set (map ?path (liveEntries ix)) = dom (mem_abs ix)"
    unfolding live(2) by (simp add: dom_map_of_conv_image_fst image_image)
  finally show ?thesis by (simp add: mapBytes_def)
qed

definition savedAs :: "RootStore \<Rightarrow> Index \<Rightarrow> persisted" where
  "savedAs s ix = \<lparr>pv_Version = persistVersion, pv_Root = rs_root s, pv_Metas = map fe_meta (liveEntries ix),
     pv_Contents = map fe_content (liveEntries ix), pv_Defs = map fe_defs (liveEntries ix)\<rparr>"

lemma save_savedAs: "rs_idx s = Some ix \<Longrightarrow> save io s file = Some (if io = MOk then Some (savedAs s ix) else file)"
  by (cases io) (simp_all add: save_def Snapshot_def savedAs_def liveEntries_def Let_def)

lemma load_savedAs:
  assumes "ix_inv ix" and "sched_ok h" and "rs_root s2 = rs_root s"
  shows "\<exists>ix'. loadPersisted h (Some (savedAs s ix)) s2 = Some (Some ix', s2\<lparr>rs_totalBytes := mapBytes (mem_abs ix)\<rparr>) \<and>
    ix_inv ix' \<and> mem_abs ix' = mem_abs ix"
proof -
  let ?live = "liveEntries ix"
  let ?p = "savedAs s ix"
  let ?js = "ho_sched h (length ?live)"
  let ?f = "\<lambda>i. (fm_Path (pv_Metas ?p ! i), (pv_Metas ?p ! i, pv_Contents ?p ! i, pv_Defs ?p ! i))"
  note live = liveEntries_abs [OF assms(1)]
  have js: "mset ?js = mset [0..<length ?live]" using assms(2) by (simp add: sched_ok_def)
  then have set_js: "set ?js = {0..<length ?live}" by (metis mset_eq_setD set_upt)
  have f: "map ?f ?js = map (\<lambda>i. (fm_Path (fe_meta (?live ! i)), doc_of (?live ! i))) ?js"
    using set_js by (simp add: savedAs_def doc_of_def)
  have perm: "mset (map ?f ?js) = mset (map (\<lambda>f. (fm_Path (fe_meta f), doc_of f)) ?live)"
  proof -
    have "mset (map ?f ?js) = image_mset (\<lambda>i. (fm_Path (fe_meta (?live ! i)), doc_of (?live ! i))) (mset [0..<length ?live])"
      unfolding f by (simp add: js)
    also have "\<dots> = mset (map (\<lambda>f. (fm_Path (fe_meta f), doc_of f)) (map (\<lambda>i. ?live ! i) [0..<length ?live]))"
      by (simp add: comp_def)
    finally show ?thesis by (simp only: map_nth)
  qed
  have d: "distinct (map fst (map (\<lambda>f. (fm_Path (fe_meta f), doc_of f)) ?live))" using live(1) by (simp add: comp_def)
  have "mset (map fst (map ?f ?js)) = mset (map fst (map (\<lambda>f. (fm_Path (fe_meta f), doc_of f)) ?live))"
    unfolding mset_map [of fst] perm ..
  from mset_eq_imp_distinct_iff [OF this] d have d': "distinct (map fst (map ?f ?js))" by blast
  have same: "map_of (map ?f ?js) = map_of (map (\<lambda>f. (fm_Path (fe_meta f), doc_of f)) ?live)"
    using map_of_inject_set [OF d' d] mset_eq_setD [OF perm] by blast
  have new: "ix_inv (New (rs_root s2))" "mem_abs (New (rs_root s2)) = Map.empty" "ix_files (New (rs_root s2)) = []"
    by (rule New_ok)+ (simp add: New_def)
  have "length ?js = length ?live" using js by (metis size_mset length_upt diff_zero)
  moreover have "distinct (map (\<lambda>i. fm_Path (pv_Metas ?p ! i)) ?js)" using d' by (simp add: comp_def)
  ultimately have r: "ix_inv (foldl (addPersisted ?p) (New (rs_root s2)) ?js)"
    "mem_abs (foldl (addPersisted ?p) (New (rs_root s2)) ?js) = mem_abs ix"
    using foldl_addPersisted [OF new(1), of ?js ?p] live(3) same new(2,3) live(2) by simp_all
  have "loadPersisted h (Some ?p) s2 = Some (Some (foldl (addPersisted ?p) (New (rs_root s2)) ?js), s2\<lparr>rs_totalBytes := mapBytes (mem_abs ix)\<rparr>)"
    using assms(3) liveEntries_bytes [OF assms(1)] by (simp add: loadPersisted_def savedAs_def comp_def)
  with r show ?thesis by blast
qed

subsection \<open>Properties\<close>

text \<open>C13. Starting a store with the in-memory engine, by a full scan or by a reconcile of the loaded index, always ends in
  the ready state with every listed file where it belongs: indexed with its decoded content and definitions, or in
  the stream set when it is too large, binary or beyond the budget, and nothing else tracked. The
  index and the stream set are disjoint and the indexed bytes never exceed the budget. The
  order in which the workers take the files does not matter.\<close>

theorem startup_mirrors_disk:
  assumes "store_ok s" and "rs_engineType s = str ''mem''" and "stays_mem s files"
    and "rs_state s = StateReconciling \<and> honest h s files \<or>
      rs_state s = StateIndexing \<and> st_files s = Map.empty \<and> st_stream s = Map.empty"
    and "storeFiles h s = Some (files, s0)" and "sizes_ok h" and "sched_ok h" and "st_used s + length files \<le> 2 ^ 32"
  shows "\<exists>s'. startup h s = Some s' \<and> rs_state s' = StateReady \<and> store_ok s' \<and> mirrors h s files s'"
proof -
  have mem: "rs_engineType s \<noteq> str ''disk''" "rs_idx s \<noteq> None" using assms(1,2) by (auto simp: str_def store_ok_def)
  show ?thesis
  proof (cases "rs_state s")
    case StateReconciling
    with assms(4) reconcile_mirrors [OF assms(1,5,3,6-8)] obtain s' where "reconcile h s = Some s'" "store_ok s'" "mirrors h s files s'"
      by auto
    with mem StateReconciling show ?thesis by (simp add: startup_def)
  next
    case StateIndexing
    with assms(4) fullScan_mirrors [OF assms(1,5,3,6-8)] obtain s' where "fullScan h s = Some s'" "store_ok s'" "mirrors h s files s'"
      by auto
    with mem StateIndexing show ?thesis by (simp add: startup_def)
  qed (use assms(4) in simp)
qed

text \<open>C37. A file system event brings the store exactly up to date with the path it names and keeps the invariant: a
  removed path disappears from both sets with everything below it, a file is indexed or routed anew, a directory's
  listed files are, and what is excluded changes nothing.\<close>

theorem applyChange_exact:
  assumes "store_ok s" and "rs_disk s = None" and "sizes_ok h" and "st_used s < 2 ^ 32"
    and "Rel (rs_root s) path = Some rel" and "\<not> isCookie rel" and "rel \<notin> {str ''.'', ControlFile}"
    and "\<And>fi. ho_Lstat h path = Some fi \<Longrightarrow> fi_isDir fi \<Longrightarrow>
      \<exists>s1. storeUnder h (snd (ignored h s rel True)) rel = Some (subs, s1) \<and> st_used s + length subs \<le> 2 ^ 32"
  shows "\<exists>s'. applyChange h s path = Some s' \<and> store_ok s' \<and>
    (case ho_Lstat h path of
       None \<Rightarrow>
         if fst (ignoredBoth h s rel) then same_maps s s'
         else \<forall>p. st_files s' p = (if under_dir rel p then None else st_files s p) \<and>
                st_stream s' p = (if under_dir rel p then None else st_stream s p)
     | Some fi \<Rightarrow>
         if fi_isDir fi then if fst (ignored h s rel True) then same_maps s s' else refreshed h s (set subs) s'
         else if fi_regular fi \<and> \<not> fst (ignored h s rel False) then refreshed h s {rel} s'
         else same_maps s s')"
proof -
  have "applyChange h s path = applyMem h s rel (ho_Lstat h path)"
    using assms(2,5-7) by (simp add: applyChange_def)
  with applyMem_exact [OF assms(1,3,4), where lstat = "ho_Lstat h path" and rel = rel and subs = subs] assms(8) show ?thesis by simp
qed

text \<open>C38. What \<open>save\<close> writes, \<open>loadPersisted\<close> reads back, whatever the order in which its workers insert the entries:
  the same metadata, content and definitions for every path, and the byte count of the indexed files. A save
  that fails leaves the old file.\<close>

theorem persist_roundtrip:
  assumes "store_ok s" and "sched_ok h" and "rs_root s2 = rs_root s"
  shows "\<exists>p ix. save MOk s file = Some (Some p) \<and>
    loadPersisted h (Some p) s2 = Some (Some ix, s2\<lparr>rs_totalBytes := mapBytes (st_files s)\<rparr>) \<and> ix_inv ix \<and>
    mem_abs ix = st_files s \<and> save MRenameFails s file = Some file \<and> save MWriteFails s file = Some file"
proof -
  obtain ix where ix: "rs_idx s = Some ix" "ix_inv ix" using assms(1) by (auto simp: store_ok_def)
  then have f: "st_files s = mem_abs ix" by (simp add: st_files_def)
  from load_savedAs [OF ix(2) assms(2,3)] show ?thesis unfolding f by (auto simp: save_savedAs [OF ix(1)])
qed

lemma disk_idx_kept:
  assumes "applyChange h s p = Some s'" and "rs_disk s \<noteq> None"
  shows "rs_idx s' = rs_idx s \<and> rs_disk s' \<noteq> None"
proof -
  obtain e where e: "rs_disk s = Some e" using assms(2) by blast
  have ig: "rs_idx (snd (ignored h s rel b)) = rs_idx s \<and> rs_disk (snd (ignored h s rel b)) = rs_disk s" for s rel b
    using ignored_frame(1) [of h s rel b] by auto
  have ib: "rs_idx (snd (ignoredBoth h s rel)) = rs_idx s \<and> rs_disk (snd (ignoredBoth h s rel)) = rs_disk s" for s rel
    using ignored_frame(2) [of h s rel] by auto
  have su: "rs_idx s1 = rs_idx s0 \<and> rs_disk s1 = rs_disk s0" if "storeUnder h s0 rel = Some (subs, s1)" for s0 s1 rel subs
    using that by (auto simp: storeUnder_def split: Option.bind_splits)
  have ad: "rs_idx s' = rs_idx s \<and> rs_disk s' \<noteq> None" if "applyDisk h s e rel l = Some s'" for rel l
  proof (cases l)
    case None
    with that ib [of s rel] e show ?thesis
      by (auto simp: applyDisk_def split: prod.splits if_splits Option.bind_splits)
  next
    case (Some fi)
    with that ig [of s rel True] ig [of s rel False] e su show ?thesis
      by (auto simp: applyDisk_def split: prod.splits if_splits Option.bind_splits)
  qed
  show ?thesis
    using assms(1) e ad by (auto simp: applyChange_def reloadRules_def split: option.splits if_splits)
qed

lemma disk_idx_kept_all:
  "applyChanges h ps s = Some s' \<Longrightarrow> rs_disk s \<noteq> None \<Longrightarrow> rs_idx s' = rs_idx s \<and> rs_disk s' \<noteq> None"
proof (induction ps arbitrary: s)
  case (Cons p ps)
  then obtain s1 where "applyChange h s p = Some s1" "applyChanges h ps s1 = Some s'" by (auto split: Option.bind_splits)
  with disk_idx_kept [OF this(1) Cons.prems(2)] Cons.IH [of s1] show ?case by simp
qed simp

lemma startDisk_idx:
  assumes "startDisk h s = Some s'" and "rs_disk s \<noteq> None"
  shows "rs_idx s' = rs_idx s \<and> rs_disk s' \<noteq> None"
proof -
  have fb: "rs_idx t' = rs_idx t \<and> rs_disk t' \<noteq> None" if "fullBuild h files t = Some t'" for files t t'
    using that by (auto simp: fullBuild_def split: Option.bind_splits)
  obtain files s1 where s1: "storeFiles h s = Some (files, s1)" using assms(1) by (auto simp: startDisk_def split: Option.bind_splits)
  then obtain g where "s1 = s\<lparr>rs_gitTree := g\<rparr>" using storeFiles_frame by blast
  with assms s1 show ?thesis
    by (auto simp: startDisk_def becomeReady_def Let_def split: Option.bind_splits if_splits dest: fb)
qed

text \<open>C39. With the disk engine \<open>s.idx\<close> is nil, yet every batch of changes schedules \<open>save\<close>, which reads it: one change
  to a watched file makes the daemon panic when the timer fires.\<close>

theorem disk_engine_save_panics:
  assumes "EngineChoice cfg = str ''disk''" and "newRootStore h f True root cacheDir cfg follow = Some (Inr s)"
    and "startup h1 s = Some s1" and "handleBatch h2 s1 (p # ps) False = Some s2"
  shows "saveTimerFires io s2 file = None"
proof -
  have s: "rs_idx s = None" "rs_disk s \<noteq> None" "rs_engineType s = str ''disk''"
    using assms(1,2) by (auto simp: newRootStore_def initDiskEngine_def Let_def str_def)
  from assms(3) s(3) have "startDisk h1 s = Some s1" by (simp add: startup_def)
  from startDisk_idx [OF this s(2)] s(1) have s1: "rs_idx s1 = None" "rs_disk s1 \<noteq> None" by simp_all
  from assms(4) obtain t where t: "applyChanges h2 (p # ps) s1 = Some t" "s2 = scheduleSave t"
    by (auto simp: handleBatch_def split: Option.bind_splits)
  from disk_idx_kept_all [OF t(1) s1(2)] s1(1) have "rs_idx s2 = None" "rs_saveTimer s2"
    by (simp_all add: t(2) scheduleSave_def)
  then show ?thesis by (simp add: saveTimerFires_def save_def)
qed

subsection \<open>A small root\<close>

text \<open>The root \<open>r\<close> with one file \<open>f\<close>, and the stores of it before their start.\<close>

definition exFile :: fileinfo where
  "exFile = \<lparr>fi_isDir = False, fi_regular = True, fi_size = 3, fi_mtime = 7\<rparr>"

definition exHost :: host where
  "exHost = \<lparr>ho_Stat = (\<lambda>p. if p = str ''r/f'' then Ok exFile else NotExist),
     ho_Lstat = (\<lambda>p. if p = str ''r/f'' then Some exFile else None),
     ho_ReadFile = (\<lambda>p. if p = str ''r/f'' then Ok (str ''abc'') else NotExist),
     ho_view = \<lparr>os_ReadDir = (\<lambda>d. if d = str ''r'' then Some [\<lparr>dn_name = str ''f'', dn_isLink = False, dn_info = Some exFile\<rparr>] else None),
       os_Stat = (\<lambda>p. None), os_EvalSymlinks = (\<lambda>p. None)\<rparr>,
     ho_fuel = 1, ho_gi = (\<lambda>_. None), ho_control = None,
     ho_S = \<lparr>ParseFile = (\<lambda>_. None), FindAllSubmatchIndex = (\<lambda>_ _. []), FindSubmatch = (\<lambda>_ _. None), unicode_ToLower = (\<lambda>r. r)\<rparr>,
     ho_sched = (\<lambda>n. [0..<n]), ho_rng = (\<lambda>xs. xs), ho_io = (\<lambda>_. AllOk), ho_mio = MOk, ho_progress = 0, ho_entries = None,
     ho_fs = Map.empty, ho_manifest = None, ho_sha256 = (\<lambda>_. [])\<rparr>"

definition exCfgOf :: "string \<Rightarrow> Config" where
  "exCfgOf engine = (Default 4)\<lparr>EngineChoice := str engine\<rparr>"

definition exStore :: RootStore where
  "exStore = \<lparr>rs_root = str ''r'', rs_follow = False, rs_engineType = str ''mem'', rs_idx = Some (New (str ''r'')), rs_disk = None,
     rs_ign = [], rs_gitTree = None, rs_stream = [], rs_state = StateIndexing, rs_indexed = 0, rs_total = 0, rs_isReady = False,
     rs_saveTimer = False, rs_reloads = 0, rs_cacheDir = str ''c'', rs_closed = False, rs_cfg = exCfgOf ''mem'', rs_skippedLarge = 0,
     rs_skippedBudget = 0, rs_skippedBinary = 0, rs_skippedError = 0, rs_totalBytes = 0\<rparr>"

lemma ex_new: "newRootStore exHost None True (str ''r'') (str ''c'') (exCfgOf ''mem'') False = Some (Inr exStore)"
  by (simp add: newRootStore_def exCfgOf_def Default_def exStore_def loadPersisted_def exHost_def LoadRules_def AddPatterns_def Let_def str_def)

lemma ex_store: "store_ok exStore" "st_files exStore = Map.empty" "st_stream exStore = Map.empty" "st_used exStore = 0"
  using New_ok [of "str ''r''"]
  by (simp_all add: store_ok_def exStore_def st_files_def st_stream_def st_used_def mapBytes_def budget_ok_def exCfgOf_def Default_def New_def)

lemma ex_env: "sizes_ok exHost" "sched_ok exHost"
  by (auto simp: sizes_ok_def sched_ok_def exHost_def exFile_def split: if_splits)

lemma ex_paths: "Join (str ''r'') (str ''f'') = str ''r/f''" "Rel (str ''r'') (str ''r/f'') = Some (str ''f'')"
    "str ''f'' \<noteq> str ''.''" "\<not> isCookie (str ''f'')" "\<not> Ignored [] (str ''f'') b" "str ''f'' \<noteq> ControlFile"
  by code_simp+

lemma ex_files: "storeFiles exHost exStore = Some ([\<lparr>fs_rel = str ''f'', fs_size = 3, fs_mtimeNS = 7\<rparr>], exStore)"
proof -
  have "walkEntries 0 (ho_view exHost) False (listStep (ho_gi exHost) [] (str ''r'')) (str ''r'')
      [\<lparr>dn_name = str ''f'', dn_isLink = False, dn_info = Some exFile\<rparr>] {} ([], None) =
    Some ({}, ([\<lparr>fs_rel = str ''f'', fs_size = 3, fs_mtimeNS = 7\<rparr>], None), False)"
    by (simp add: walkEntries.simps(2) listStep_def ex_paths storeIgnored_def exFile_def Let_def)
  then show ?thesis
    by (simp add: storeFiles_def Walk_def exStore_def exHost_def)
qed

lemma ex_route: "route exHost (str ''r'') (exCfgOf ''mem'') (str ''f'') =
    Indexed (\<lparr>fm_Path = str ''f'', fm_Size = 3, fm_MtimeNS = 7\<rparr>, str ''abc'', [])"
proof -
  have "decodeUTF16_daemon (str ''abc'') = None" "\<not> isBinary_daemon (str ''abc'')" by code_simp+
  moreover have "Language (\<lambda>r. r) (str ''f'') \<notin> {str ''go'', str ''java'', str ''python'', str ''typescript''}" by code_simp
  ultimately show ?thesis
    by (simp add: route_def exHost_def ex_paths exFile_def routeText_def exCfgOf_def Default_def MaxFileSize_def wrap64_def Extract_def)
qed

theorem startup_mirrors_disk_witness:
  "\<exists>s'. startup exHost exStore = Some s' \<and> rs_state s' = StateReady \<and> store_ok s' \<and>
     (\<exists>r. route_of exHost exStore (str ''f'') r \<and> st_files s' (str ''f'') = docOfRoute r)"
proof -
  have "rs_engineType exStore = str ''mem''" "rs_state exStore = StateIndexing"
    "stays_mem exStore [\<lparr>fs_rel = str ''f'', fs_size = 3, fs_mtimeNS = 7\<rparr>]"
    by (simp_all add: exStore_def stays_mem_def exCfgOf_def str_def)
  then obtain s' where "startup exHost exStore = Some s'" "rs_state s' = StateReady" "store_ok s'"
    "mirrors exHost exStore [\<lparr>fs_rel = str ''f'', fs_size = 3, fs_mtimeNS = 7\<rparr>] s'"
    using startup_mirrors_disk [OF ex_store(1) _ _ _ ex_files ex_env] ex_store by auto
  then show ?thesis by (auto simp: mirrors_def)
qed

theorem persist_roundtrip_witness:
  "\<exists>p ix. save MOk exStore None = Some (Some p) \<and>
     loadPersisted exHost (Some p) exStore = Some (Some ix, exStore\<lparr>rs_totalBytes := 0\<rparr>) \<and> mem_abs ix = Map.empty"
  using persist_roundtrip [OF ex_store(1) ex_env(2), of exStore None] by (auto simp: ex_store mapBytes_def)

theorem applyChange_exact_witness:
  "\<exists>s'. applyChange exHost exStore (str ''r/f'') = Some s' \<and> store_ok s' \<and> refreshed exHost exStore {str ''f''} s'"
proof -
  have s: "rs_disk exStore = None" "rs_root exStore = str ''r''" "st_used exStore < 2 ^ 32"
    "ho_Lstat exHost (str ''r/f'') = Some exFile" "\<not> fi_isDir exFile" "fi_regular exFile"
    by (simp_all add: exStore_def exHost_def exFile_def st_used_def New_def)
  have "\<not> fst (ignored exHost exStore (str ''f'') False)"
    by (simp add: ignored_def storeIgnored_def exStore_def ex_paths)
  with applyChange_exact [OF ex_store(1) s(1) ex_env(1) s(3), of "str ''r/f''" "str ''f''"] s ex_paths show ?thesis
    by simp
qed

definition emptyHost :: host where
  "emptyHost = exHost\<lparr>ho_view := \<lparr>os_ReadDir = (\<lambda>_. None), os_Stat = (\<lambda>_. None), os_EvalSymlinks = (\<lambda>_. None)\<rparr>\<rparr>"

theorem disk_engine_save_panics_witness:
  "\<exists>s s1 s2. newRootStore emptyHost None True (str ''r'') (str ''c'') (exCfgOf ''disk'') False = Some (Inr s) \<and>
     startup emptyHost s = Some s1 \<and> handleBatch emptyHost s1 [str ''r/f''] False = Some s2 \<and>
     saveTimerFires MOk s2 None = None"
proof -
  have e: "EngineChoice (exCfgOf ''disk'') = str ''disk''" "str ''disk'' \<noteq> str ''auto''"
    "Exclude (exCfgOf ''disk'') = []" "Gitignore (exCfgOf ''disk'') = False"
    by (simp_all add: exCfgOf_def Default_def str_def)
  have h: "ho_control emptyHost = None" "ho_entries emptyHost = None" "ho_fuel emptyHost = Suc 0" "ho_gi emptyHost = (\<lambda>_. None)"
    "os_ReadDir (ho_view emptyHost) d = None" "ho_Lstat emptyHost (str ''r/f'') = Some exFile" for d
    by (simp_all add: emptyHost_def exHost_def)
  obtain s where s: "newRootStore emptyHost None True (str ''r'') (str ''c'') (exCfgOf ''disk'') False = Some (Inr s)"
    "rs_engineType s = str ''disk''" "rs_follow s = False" "rs_root s = str ''r''" "rs_gitTree s = None" "rs_ign s = []"
    "rs_disk s \<noteq> None"
    by (simp add: newRootStore_def e h initDiskEngine_def LoadRules_def AddPatterns_def Let_def)
  obtain en where en: "rs_disk s = Some en" using s(7) by blast
  have fl: "storeFiles emptyHost s = Some ([], s)" using s(3,5) by (simp add: storeFiles_def Walk_def h)
  have "\<exists>s1 en1. startDisk emptyHost s = Some s1 \<and> rs_disk s1 = Some en1 \<and> rs_root s1 = str ''r'' \<and> rs_gitTree s1 = None \<and> rs_ign s1 = []"
    using s en by (simp add: startDisk_def fl h fullBuild_def FullBuild_def GroupByDirBoundary_def becomeReady_def Let_def)
  then obtain s1 en1 where s1: "startup emptyHost s = Some s1" "rs_disk s1 = Some en1" "rs_root s1 = str ''r''"
    "rs_gitTree s1 = None" "rs_ign s1 = []"
    using s(2) by (auto simp: startup_def)
  have "\<exists>s2. handleBatch emptyHost s1 [str ''r/f''] False = Some s2"
    using s1 by (simp add: handleBatch_def applyChange_def ex_paths applyDisk_def h ignored_def storeIgnored_def exFile_def)
  then obtain s2 where s2: "handleBatch emptyHost s1 [str ''r/f''] False = Some s2" by blast
  from disk_engine_save_panics [OF e(1) s(1) s1(1) s2, of MOk None] s(1) s1(1) s2 show ?thesis by blast
qed

end
