(* ===== verification/ServerProps.thy ===== *)
theory ServerProps
  imports Server StoreProps MemSearch
begin

text \<open>
  What the server guarantees: which store answers a request and what stays true of the map of stores; the exact
  events of a search, from the request to the files on disk; what forgetting and stopping leave behind.
\<close>

subsection \<open>Sending to a client that stays\<close>

definition stays :: "conn \<Rightarrow> bool" where "stays c \<longleftrightarrow> cn_room c = None"

definition sent :: "conn \<Rightarrow> Event list \<Rightarrow> conn" where
  "sent c evs = c\<lparr>cn_sent := cn_sent c @ map stamp evs\<rparr>"

lemma stays_sent [simp]: "stays (sent c evs) = stays c"
  by (simp add: stays_def sent_def)

lemma sent_sent [simp]: "sent (sent c evs) evs' = sent c (evs @ evs')"
  by (simp add: sent_def)

lemma sent_Nil [simp]: "sent c [] = c"
  by (simp add: sent_def)

lemma send_stays: "stays c \<Longrightarrow> send c ev = (sent c [ev], True)"
  by (simp add: stays_def send_def sent_def)

lemma post_stays [simp]: "stays c \<Longrightarrow> post c ev = sent c [ev]"
  by (simp add: post_def send_stays)

lemma sendAll_stays [simp]: "stays c \<Longrightarrow> sendAll c evs = (sent c evs, True)"
  by (induction evs arbitrary: c) (simp_all add: send_stays)

text \<open>Whoever the client is, it is sent a prefix of the events.\<close>

lemma send_prefix: "send c ev = (c', ok) \<Longrightarrow> cn_sent c' = (if ok then cn_sent c @ [stamp ev] else cn_sent c)"
  by (auto simp: send_def split: if_splits)

lemma sendAll_prefix:
  "sendAll c evs = (c', ok) \<Longrightarrow> \<exists>n. cn_sent c' = cn_sent c @ map stamp (take n evs) \<and> (ok \<longrightarrow> n = length evs)"
proof (induction evs arbitrary: c)
  case (Cons ev evs)
  obtain c1 ok1 where s: "send c ev = (c1, ok1)" by (cases "send c ev") auto
  show ?case
  proof (cases ok1)
    case True
    then have c1: "cn_sent c1 = cn_sent c @ [stamp ev]" using send_prefix [OF s] by simp
    have "sendAll c1 evs = (c', ok)" using Cons.prems s True by simp
    from Cons.IH [OF this] obtain n where "cn_sent c' = cn_sent c1 @ map stamp (take n evs)" "ok \<longrightarrow> n = length evs" by blast
    with c1 show ?thesis by (intro exI [of _ "Suc n"]) simp
  next
    case False
    then have "cn_sent c1 = cn_sent c" using send_prefix [OF s] by simp
    with Cons.prems s False show ?thesis by (intro exI [of _ 0]) auto
  qed
qed (auto intro: exI [of _ 0])

lemma event_types [simp]: "ev_Type (event t) = str t"
  by (simp add: event_def)

lemma str_inj [simp]: "str a = str b \<longleftrightarrow> map (of_char :: char \<Rightarrow> byte) a = map of_char b"
  by (simp add: str_def)

lemma stamp_other: "ev_Type ev \<noteq> str ''done'' \<Longrightarrow> ev_Type ev \<noteq> str ''status'' \<Longrightarrow> stamp ev = ev"
  by (simp add: stamp_def)

lemma map_stamp_result [simp]: "map stamp (resultEvents req sub res) = resultEvents req sub res"
  by (auto simp: resultEvents_def countEvents_def matchEvents_def Let_def stamp_other)

lemma map_stamp_stream [simp]: "map stamp (streamEvents req sub s pm) = streamEvents req sub s pm"
  by (auto simp: streamEvents_def stamp_other)

subsection \<open>The filter of a request\<close>

text \<open>The paths a request asks for: below its root, in terms of the path relative to that root.\<close>

definition globsAdmit :: "gostring list \<Rightarrow> gostring \<Rightarrow> bool" where
  "globsAdmit globs q \<longleftrightarrow>
     globs = [] \<or> (\<exists>g \<in> set globs. filepathMatch g q = Some True \<or> filepathMatch g (afterSlash q) = Some True)"

definition visible :: "host \<Rightarrow> Request \<Rightarrow> gostring \<Rightarrow> gostring \<Rightarrow> bool" where
  "visible h req sub p \<longleftrightarrow> HasPrefix p sub \<and> (let q = TrimPrefix p sub; included = buildIncludeMatcher (rq_Include req) q in
     (rq_Hidden req \<or> \<not> hiddenPath q) \<and> globsAdmit (rq_Globs req) q \<and>
     (included \<or> \<not> buildIncludeMatcher (rq_Exclude req) q) \<and>
     (rq_Gitignore req \<longrightarrow> included \<or> \<not> gitMatches (ho_gi h) p False))"

definition globs_ok :: "Request \<Rightarrow> bool" where
  "globs_ok req \<longleftrightarrow> \<not> badGlob (rq_Globs req) \<and> \<not> badGlob (rq_Exclude req) \<and> \<not> badGlob (rq_Include req)"

lemma globMatcher_admits:
  assumes "\<not> badGlob globs"
  obtains pm where "globMatcher globs = Inr pm" "\<And>q. pathOk pm q \<longleftrightarrow> globsAdmit globs q"
proof (cases "globs = []")
  case True
  then show thesis using that [of None] by (simp add: globMatcher_def pathOk_def globsAdmit_def)
next
  case False
  with assms that show thesis by (simp add: globMatcher_def pathOk_def globsAdmit_def)
qed

lemma excludeInclude_admits:
  assumes "\<not> badGlob ex" and "\<not> badGlob inc"
  obtains f where "excludeIncludeMatcher ex inc = Inr f"
    "\<And>q. pathOk f q \<longleftrightarrow> buildIncludeMatcher inc q \<or> \<not> buildIncludeMatcher ex q"
proof (cases "ex = [] \<and> inc = []")
  case True
  then show thesis using that [of None] by (simp add: excludeIncludeMatcher_def pathOk_def buildIncludeMatcher_def)
next
  case False
  then have e: "excludeIncludeMatcher ex inc = Inr (Some (\<lambda>p. if length inc > 0 \<and> globMatchAny inc p then True
      else if length ex > 0 \<and> globMatchAny ex p then False else True))"
    using assms by (auto simp: excludeIncludeMatcher_def)
  show thesis by (rule that [OF e]) (auto simp: pathOk_def buildIncludeMatcher_def)
qed

lemma prefix_Nil_simps [simp]: "HasPrefix p []" "TrimPrefix p [] = p"
  by (simp_all add: HasPrefix_def TrimPrefix_def)

lemma requestFilter_visible:
  assumes "\<And>q. pathOk pm q \<longleftrightarrow> globsAdmit (rq_Globs req) q"
    and "\<And>q. pathOk exIn q \<longleftrightarrow> buildIncludeMatcher (rq_Include req) q \<or> \<not> buildIncludeMatcher (rq_Exclude req) q"
  shows "pathOk (requestFilter h root req sub pm exIn) p \<longleftrightarrow> visible h req sub p"
proof -
  have p: "pathOk (Some f) q = f q" "pathOk None q" for f and q :: gostring by (simp_all add: pathOk_def)
  have g: "pathOk (globFilter req pm exIn) q \<longleftrightarrow> (rq_Hidden req \<or> \<not> hiddenPath q) \<and> globsAdmit (rq_Globs req) q \<and>
      (buildIncludeMatcher (rq_Include req) q \<or> \<not> buildIncludeMatcher (rq_Exclude req) q)" for q
    unfolding assms [symmetric] globFilter_def Let_def by (cases exIn) (auto simp: p)
  show ?thesis
    using g gitIgnored_ok(1) [OF cache_ok_New, of "ho_gi h" root p False]
    by (auto simp: requestFilter_def visible_def Let_def p)
qed

subsection \<open>The events of a search\<close>

definition sizeAdmits :: "Request \<Rightarrow> int \<Rightarrow> bool" where
  "sizeAdmits req sz \<longleftrightarrow> \<not> (rq_MaxFilesize req > 0 \<and> sz > rq_MaxFilesize req)"

text \<open>The options of a request, its path filter replaced by what it decides.\<close>

definition visibleOpts :: "'re world \<Rightarrow> host \<Rightarrow> Server \<Rightarrow> Request \<Rightarrow> 're Matcher \<Rightarrow> prepared \<Rightarrow> SearchOpts" where
  "visibleOpts w h sv req m pr = requestOpts (w_L w) (ho_S h) (sv_cfg sv) req m (Some (visible h req (pr_sub pr)))"

lemma StreamList_cong: "(\<And>p. pathOk f p = pathOk g p) \<Longrightarrow> StreamList s n f = StreamList s n g"
  by (simp add: StreamList_def)

lemma skipFile_cong: "(\<And>p. pathOk f p = pathOk g p) \<Longrightarrow> skipFile (opts\<lparr>so_PathMatch := f\<rparr>) = skipFile (opts\<lparr>so_PathMatch := g\<rparr>)"
  by (auto simp: skipFile_def fun_eq_iff)

lemma search_loop_cong:
  assumes "\<And>p. pathOk f p = pathOk g p"
  shows "search_loop_ids L re (opts\<lparr>so_PathMatch := f\<rparr>) ix ids res = search_loop_ids L re (opts\<lparr>so_PathMatch := g\<rparr>) ix ids res"
proof (induction ids arbitrary: res)
  case (Cons fid ids)
  have "locsOf L re (opts\<lparr>so_PathMatch := f\<rparr>) = locsOf L re (opts\<lparr>so_PathMatch := g\<rparr>)"
    by (simp add: locsOf_def fun_eq_iff)
  with Cons show ?case by (simp add: skipFile_cong [OF assms] Let_def)
qed simp

text \<open>On the in-memory engine the handler sends the events of the search with the visible paths, the stream set, and \<open>done\<close>.\<close>

lemma handleSearch_mem:
  assumes "MatcherFor (w_L w) (rq_Pattern req) (rq_Fixed req) (rq_NoCase req) = Inr m" and "m_Re m = Some re"
    and "globs_ok req" and "prologue w sv req c = Some (sv', c', Some pr)" and "stays c'"
    and "rs_disk (pr_store pr) = None" and "rs_idx (pr_store pr) = Some ix" and "h = hostOf w sv' (pr_key pr)"
    and "res = Search (w_L w) (ho_rng h) ix re (visibleOpts w h sv' req m pr)"
  shows "handleSearch w sv req c = Some (sv', sent c' (resultEvents req (pr_sub pr) res @
    streamEvents req (pr_sub pr) (pr_store pr) (Some (visible h req (pr_sub pr))) @ [doneEvent w pr res]))"
proof -
  obtain pm where pm: "globMatcher (rq_Globs req) = Inr pm" "\<And>q. pathOk pm q \<longleftrightarrow> globsAdmit (rq_Globs req) q"
    using globMatcher_admits assms(3) unfolding globs_ok_def by metis
  obtain exIn where ex: "excludeIncludeMatcher (rq_Exclude req) (rq_Include req) = Inr exIn"
    "\<And>q. pathOk exIn q \<longleftrightarrow> buildIncludeMatcher (rq_Include req) q \<or> \<not> buildIncludeMatcher (rq_Exclude req) q"
    using excludeInclude_admits assms(3) unfolding globs_ok_def by metis
  let ?f = "requestFilter h (rs_root (pr_store pr)) req (pr_sub pr) pm exIn"
  let ?g = "Some (visible h req (pr_sub pr))"
  have f: "pathOk ?f p = pathOk ?g p" for p
    using requestFilter_visible [OF pm(2) ex(2)] by (simp add: pathOk_def)
  let ?o = "requestOpts (w_L w) (ho_S h) (sv_cfg sv') req m"
  have o: "?o pf = (?o None)\<lparr>so_PathMatch := pf\<rparr>" for pf by (simp add: requestOpts_def)
  have lit: "so_Literal (?o pf) = so_Literal (?o None)" for pf by (simp add: requestOpts_def)
  have "Search (w_L w) (ho_rng h) ix re (?o ?f) = res"
    unfolding assms(9) visibleOpts_def Search_def lit [of ?f] lit [of ?g]
    by (subst o [of ?f], subst o [of ?g]) (rule search_loop_cong [OF f])
  then have "storeSearch w h (pr_store pr) re (?o ?f) = Some res"
    using assms(6,7) by (simp add: storeSearch_def)
  moreover have "streamEvents req (pr_sub pr) (pr_store pr) (so_PathMatch (?o ?f)) = streamEvents req (pr_sub pr) (pr_store pr) ?g"
    using StreamList_cong [OF f] by (simp add: streamEvents_def requestOpts_def)
  ultimately have "answerSearch w h req pr re (?o ?f) c' = Some (sent c' (resultEvents req (pr_sub pr) res @
      streamEvents req (pr_sub pr) (pr_store pr) ?g @ [doneEvent w pr res]))"
    using assms(5) by (simp add: answerSearch_def Let_def)
  then show ?thesis
    using assms(1,2,4,8) pm(1) ex(1) by (simp add: handleSearch_def Let_def)
qed

subsection \<open>Sorted tables\<close>

lemma dom_keys: "dom (map_of m) = set (map fst m)"
  by (simp add: dom_map_of_conv_image_fst)

lemma sort_keys: "distinct (map fst m) \<Longrightarrow> sort (map fst m) = sorted_list_of_set (dom (map_of m))"
  using sorted_list_of_set_sort_remdups [of "map fst m"] by (simp only: dom_keys distinct_remdups_id)

lemma insort_key_map: "insort_key f (g x) (map g ys) = map g (insort_key (f \<circ> g) x ys)"
  by (induction ys) auto

lemma sort_key_map: "sort_key f (map g xs) = map g (sort_key (f \<circ> g) xs)"
  by (induction xs) (simp_all add: insort_key_map o_def)

lemma StreamList_sorted:
  assumes "distinct (map fst (rs_stream s))"
  shows "StreamList s n f = map (\<lambda>p. \<lparr>sf_Rel = p, sf_Size = se_size (the (st_stream s p))\<rparr>)
    (sorted_list_of_set {p. \<exists>e. st_stream s p = Some e \<and> \<not> (n > 0 \<and> se_size e > n) \<and> pathOk f p})"
proof -
  let ?P = "\<lambda>(rel, e). \<not> (n > 0 \<and> se_size e > n) \<and> pathOk f rel" and ?g = "\<lambda>(rel, e). \<lparr>sf_Rel = rel, sf_Size = se_size e\<rparr>"
  let ?l = "filter ?P (rs_stream s)" and ?h = "\<lambda>p. \<lparr>sf_Rel = p, sf_Size = se_size (the (st_stream s p))\<rparr>"
  have l: "distinct (map fst ?l)" using assms by (simp add: distinct_map_filter)
  have g: "?g x = ?h (fst x)" if m: "x \<in> set ?l" for x
  proof -
    obtain p e where x: "x = (p, e)" by (rule prod.exhaust)
    with m assms have "map_of (rs_stream s) p = Some e" by simp
    with x show ?thesis by (simp add: st_stream_def)
  qed
  then have "map ?g ?l = map ?h (map fst ?l)" by auto
  then have "StreamList s n f = sort_key sf_Rel (map ?h (map fst ?l))" unfolding StreamList_def by (rule arg_cong)
  also have "\<dots> = map ?h (sort_key (\<lambda>x. x) (map fst ?l))"
    unfolding sort_key_map by (simp add: o_def)
  also have "sort_key (\<lambda>x. x) (map fst ?l) = sorted_list_of_set (dom (map_of ?l))" by (rule sort_keys [OF l])
  also have "dom (map_of ?l) = {p. \<exists>e. st_stream s p = Some e \<and> \<not> (n > 0 \<and> se_size e > n) \<and> pathOk f p}"
    using assms by (force simp: dom_map_of_conv_image_fst st_stream_def map_of_eq_Some_iff)
  finally show ?thesis .
qed

lemma search_loop_keys:
  "distinct (map fst (sr_FileCounts res)) \<Longrightarrow> distinct (map fst (sr_FileCounts (search_loop_ids L re opts ix ids res)))"
proof (induction ids arbitrary: res)
  case (Cons fid ids)
  have "sr_FileCounts (appendLineMatches res f locs l mc) = sr_FileCounts res" for res f locs l mc
    by (simp add: appendLineMatches_def Let_def)
  with Cons show ?case by (simp add: Let_def distinct_update)
qed simp

lemma Search_keys: "distinct (map fst (sr_FileCounts (Search L rng ix re opts)))"
  unfolding Search_def by (rule search_loop_keys) simp

lemma sum_counts:
  assumes "distinct (map fst m)"
  shows "sum_list (map snd m) = (\<Sum>p \<in> dom (map_of m). the (map_of m p))"
proof -
  have "sum_list (map snd m) = sum_list (map (\<lambda>p. the (map_of m p)) (map fst m))"
    using assms by (intro arg_cong [of _ _ sum_list]) auto
  also have "\<dots> = (\<Sum>p \<in> set (map fst m). the (map_of m p))" by (rule sum_list_distinct_conv_sum_set [OF assms])
  finally show ?thesis by (simp only: dom_keys)
qed

subsection \<open>Counting a fixed pattern\<close>

text \<open>What a counting search has to report for a path, read off the files a store holds.\<close>

definition occurrences :: "host \<Rightarrow> Request \<Rightarrow> prepared \<Rightarrow> gostring \<rightharpoonup> nat" where
  "occurrences h req pr p =
     (case st_files (pr_store pr) p of
        None \<Rightarrow> None
      | Some (meta, content, defs) \<Rightarrow>
          if visible h req (pr_sub pr) p \<and> sizeAdmits req (fm_Size meta) \<and>
            Contains (case_norm (rq_NoCase req) content) (case_norm (rq_NoCase req) (rq_Pattern req))
          then Some (length (literalFindAll content (rq_Pattern req) (rq_NoCase req))) else None)"

definition countEvent :: "gostring \<Rightarrow> gostring \<Rightarrow> nat \<Rightarrow> Event" where
  "countEvent sub p n = (event ''filecount'')\<lparr>ev_File := TrimPrefix p sub, ev_Count := int n\<rparr>"

definition streamEvent :: "gostring \<Rightarrow> gostring \<Rightarrow> int \<Rightarrow> Event" where
  "streamEvent sub p sz = (event ''streamfile'')\<lparr>ev_File := TrimPrefix p sub, ev_Size := sz\<rparr>"

text \<open>The files a request has to scan itself.\<close>

definition announced :: "host \<Rightarrow> Request \<Rightarrow> prepared \<Rightarrow> gostring \<rightharpoonup> int" where
  "announced h req pr p =
     (case st_stream (pr_store pr) p of
        None \<Rightarrow> None
      | Some e \<Rightarrow> if visible h req (pr_sub pr) p \<and> sizeAdmits req (se_size e) then Some (se_size e) else None)"

lemma streamEvents_announced:
  assumes "distinct (map fst (rs_stream (pr_store pr)))"
  shows "streamEvents req (pr_sub pr) (pr_store pr) (Some (visible h req (pr_sub pr))) =
    map (\<lambda>p. streamEvent (pr_sub pr) p (the (announced h req pr p))) (sorted_list_of_set (dom (announced h req pr)))"
proof -
  let ?s = "pr_store pr"
  let ?A = "{p. \<exists>e. st_stream ?s p = Some e \<and> \<not> (rq_MaxFilesize req > 0 \<and> se_size e > rq_MaxFilesize req) \<and>
      pathOk (Some (visible h req (pr_sub pr))) p}"
  have dom: "?A = dom (announced h req pr)"
    by (auto simp: announced_def sizeAdmits_def pathOk_def split: option.splits if_splits)
  have "finite (dom (st_stream ?s))" unfolding st_stream_def by (rule finite_dom_map_of)
  then have fin: "finite (dom (announced h req pr))"
    by (rule rev_finite_subset) (auto simp: announced_def split: option.splits)
  have "se_size (the (st_stream ?s p)) = the (announced h req pr p)" if "p \<in> dom (announced h req pr)" for p
    using that by (auto simp: announced_def split: option.splits if_splits)
  with fin show ?thesis
    unfolding streamEvents_def StreamList_sorted [OF assms] dom by (simp add: streamEvent_def)
qed

lemma visibleOpts_simps [simp]:
  "so_MaxFileSize (visibleOpts w h sv req m pr) = rq_MaxFilesize req"
  "so_PathMatch (visibleOpts w h sv req m pr) = Some (visible h req (pr_sub pr))"
  "so_FilesOnly (visibleOpts w h sv req m pr) = (rq_Files req \<or> rq_Count req)"
  "so_Limit (visibleOpts w h sv req m pr) = rq_Limit req"
  "so_PlainLiteral (visibleOpts w h sv req m pr) = m_PlainLit m"
  "so_FoldCase (visibleOpts w h sv req m pr) = m_Fold m"
  "so_Literal (visibleOpts w h sv req m pr) = ExtractLiteral (re_Parse (w_L w)) (unicode_ToLower (ho_S h)) (rq_Pattern req) (rq_Fixed req)"
  by (simp_all add: visibleOpts_def requestOpts_def)

lemma mem_abs_path: "mem_abs ix p = Some (meta, content, defs) \<Longrightarrow> ix_inv ix \<Longrightarrow> fm_Path meta = p"
  by (auto simp: mem_abs_Some_iff doc_of_def)

lemma admits_visible:
  "mem_abs ix p = Some (meta, content, defs) \<Longrightarrow> ix_inv ix \<Longrightarrow>
    admits (visibleOpts w h sv req m pr) meta \<longleftrightarrow> sizeAdmits req (fm_Size meta) \<and> visible h req (pr_sub pr) p"
  using mem_abs_path by (fastforce simp: admits_def sizeAdmits_def pathOk_def)

lemma Search_occurrences:
  assumes "MatcherFor L (rq_Pattern req) True (rq_NoCase req) = Inr m"
    and "rq_Fixed req" and "rq_Pattern req \<noteq> []" and "\<not> HasNonASCII (rq_Pattern req)" and "rq_Files req \<or> rq_Count req"
    and "rs_idx (pr_store pr) = Some ix" and "ix_inv ix" and "perm_order (ho_rng h)"
  shows "map_of (sr_FileCounts (Search L (ho_rng h) ix re (visibleOpts w h sv req m pr))) = occurrences h req pr"
proof
  fix p
  let ?o = "visibleOpts w h sv req m pr"
  have m: "m_PlainLit m = rq_Pattern req" "m_Fold m = rq_NoCase req"
    using MatcherFor_fixed [OF assms(1)] assms(4) by simp_all
  have "map_of (sr_FileCounts (Search L (ho_rng h) ix re ?o)) p = Some n \<longleftrightarrow> occurrences h req pr p = Some n" for n
    using Search_literal_exact [OF assms(7,8), of ?o "rq_Pattern req" "re_Parse (w_L w)" "unicode_ToLower (ho_S h)" L re p n] assms m
    by (auto simp: occurrences_def st_files_def admits_visible split: option.splits)
  then show "map_of (sr_FileCounts (Search L (ho_rng h) ix re ?o)) p = occurrences h req pr p"
    by (cases "occurrences h req pr p"; cases "map_of (sr_FileCounts (Search L (ho_rng h) ix re ?o)) p") auto
qed

lemma files_only_loop:
  "so_FilesOnly opts \<Longrightarrow> sr_Truncated (search_loop_ids L re opts ix ids res) = sr_Truncated res"
  by (induction ids arbitrary: res) (simp_all add: Let_def)

definition countDone :: "'re world \<Rightarrow> prepared \<Rightarrow> (gostring \<rightharpoonup> nat) \<Rightarrow> Event" where
  "countDone w pr occ =
     (event ''done'')\<lparr>ev_Matches := int (\<Sum>p \<in> dom occ. the (occ p)), ev_FileHits := int (card (dom occ)),
       ev_DurMS := w_durMS w, ev_BarrierMS := pr_barrierMS pr, ev_SearchMS := w_searchMS w\<rparr>"

definition countAnswer :: "'re world \<Rightarrow> host \<Rightarrow> Request \<Rightarrow> prepared \<Rightarrow> Event list" where
  "countAnswer w h req pr =
     map (\<lambda>p. countEvent (pr_sub pr) p (the (occurrences h req pr p))) (sorted_list_of_set (dom (occurrences h req pr))) @
     map (\<lambda>p. streamEvent (pr_sub pr) p (the (announced h req pr p))) (sorted_list_of_set (dom (announced h req pr))) @
     [countDone w pr (occurrences h req pr)]"

lemma store_ok_parts:
  assumes "store_ok s"
  obtains ix where "rs_idx s = Some ix" "ix_inv ix" "distinct (map fst (rs_stream s))"
  using assms by (auto simp: store_ok_def)

lemma sched_perm: "sched_ok h \<Longrightarrow> perm_order (ho_rng h)"
  by (simp add: sched_ok_def perm_order_def)

lemma handleSearch_count:
  assumes "MatcherFor (w_L w) (rq_Pattern req) True (rq_NoCase req) = Inr m"
    and "rq_Fixed req" and "rq_Pattern req \<noteq> []" and "\<not> HasNonASCII (rq_Pattern req)" and "rq_Count req" and "globs_ok req"
    and "prologue w sv req c = Some (sv', c', Some pr)" and "stays c'"
    and "rs_disk (pr_store pr) = None" and "store_ok (pr_store pr)" and "sched_ok (hostOf w sv' (pr_key pr))"
  shows "handleSearch w sv req c = Some (sv', sent c' (countAnswer w (hostOf w sv' (pr_key pr)) req pr))"
proof -
  let ?h = "hostOf w sv' (pr_key pr)"
  obtain ix where ix: "rs_idx (pr_store pr) = Some ix" "ix_inv ix" "distinct (map fst (rs_stream (pr_store pr)))"
    using store_ok_parts [OF assms(10)] .
  obtain re where re: "m_Re m = Some re"
    using assms(1) by (auto simp: MatcherFor_def Let_def split: sum.splits option.splits if_splits)
  let ?res = "Search (w_L w) (ho_rng ?h) ix re (visibleOpts w ?h sv' req m pr)"
  let ?occ = "occurrences ?h req pr"
  have occ: "map_of (sr_FileCounts ?res) = ?occ"
    using assms(2-5) by (intro Search_occurrences [OF assms(1)] ix sched_perm [OF assms(11)]) simp_all
  note keys = Search_keys [of "w_L w" "ho_rng ?h" ix re "visibleOpts w ?h sv' req m pr"]
  have counts: "resultEvents req (pr_sub pr) ?res =
      map (\<lambda>p. countEvent (pr_sub pr) p (the (?occ p))) (sorted_list_of_set (dom ?occ))"
    using assms(5) by (simp add: resultEvents_def countEvents_def sort_keys [OF keys] occ countEvent_def Let_def)
  have "length (sr_FileCounts ?res) = card (dom ?occ)"
    using distinct_card [OF keys] by (simp add: dom_keys flip: occ)
  moreover have "\<not> sr_Truncated ?res" using assms(5) by (simp add: Search_def files_only_loop)
  ultimately have "doneEvent w pr ?res = countDone w pr ?occ"
    by (simp add: doneEvent_def countDone_def sum_counts [OF keys] occ event_def)
  with counts streamEvents_announced [OF ix(3), of req ?h]
  show ?thesis
    using handleSearch_mem [OF _ re assms(6-9) ix(1) refl refl] assms(1,2) by (simp add: countAnswer_def)
qed

subsection \<open>The first request for a root\<close>

lemma waitLoop_ticks [simp]:
  "stays c \<Longrightarrow> waitLoop (map Tick ts @ [Ready s]) c = Some (sent c (map progressEvent ts), Some s)"
  by (induction ts arbitrary: c) (simp_all add: send_stays)

text \<open>No store covers the path and none lies below it.\<close>

definition unindexed :: "Server \<Rightarrow> gostring \<Rightarrow> bool \<Rightarrow> bool" where
  "unindexed sv path follow \<longleftrightarrow>
     (\<forall>key \<in> fst ` set (sv_stores sv). \<not> covers key path follow \<and> \<not> (snd key = follow \<and> HasPrefix (fst key) (path @ [slash])))"

definition any_order :: "'re world \<Rightarrow> bool" where
  "any_order w \<longleftrightarrow> (\<forall>xs. mset (w_rng w xs) = mset xs)"

lemma any_order_set: "any_order w \<Longrightarrow> set (w_rng w xs) = set xs"
  by (metis any_order_def set_mset_mset)

lemma store_fresh:
  assumes "any_order w" and "unindexed sv path follow" and "w_watch w path = None"
    and "h = hostOf w sv (path, follow)"
    and "newRootStore h (sv_files sv (indexFileOf h (sv_cacheDir sv) (path, follow))) True path (sv_cacheDir sv) (sv_cfg sv) follow =
      Some (Inr s)"
  shows "store w sv path follow an = Some (sv\<lparr>sv_stores := AList.update (path, follow) s (sv_stores sv)\<rparr>, Inr ((path, follow), s))"
proof -
  have "find (\<lambda>(key, s). covers key path follow) (w_rng w (sv_stores sv)) = None"
    using assms(2) by (force simp: find_None_iff any_order_set [OF assms(1)] unindexed_def)
  moreover have "nestedRoots w sv path follow = []"
    using assms(2) by (force simp: nestedRoots_def filter_empty_conv any_order_set [OF assms(1)] unindexed_def)
  ultimately show ?thesis using assms(3-5) by (simp add: store_def Let_def)
qed

lemma newRootStore_mem:
  assumes "newRootStore h None True root cacheDir cfg follow = Some (Inr s)" and "EngineChoice cfg \<in> {str ''mem'', str ''auto''}"
  shows "store_ok s" "st_files s = Map.empty" "st_stream s = Map.empty" "st_used s = 0" "rs_engineType s = str ''mem''"
    "rs_state s = StateIndexing" "rs_disk s = None" "rs_root s = root" "rs_follow s = follow" "rs_cfg s = cfg"
proof -
  have "str ''mem'' \<noteq> str ''disk''" "str ''auto'' \<noteq> str ''disk''" by code_simp+
  with assms have s: "rs_idx s = Some (New root)" "rs_disk s = None" "rs_stream s = []" "rs_totalBytes s = 0"
    "rs_engineType s = str ''mem''" "rs_state s = StateIndexing" "rs_root s = root" "rs_follow s = follow" "rs_cfg s = cfg"
    by (auto simp: newRootStore_def loadPersisted_def Let_def)
  then show "st_files s = Map.empty" "st_stream s = Map.empty" "st_used s = 0" "rs_engineType s = str ''mem''"
    "rs_state s = StateIndexing" "rs_disk s = None" "rs_root s = root" "rs_follow s = follow" "rs_cfg s = cfg"
    by (simp_all add: st_files_def st_stream_def st_used_def New_ok) (simp add: New_def)
  then show "store_ok s"
    using s New_ok(1) [of root] by (simp add: store_ok_def budget_ok_def mapBytes_def)
qed

lemma startup_scan:
  assumes "newRootStore h None True root cacheDir cfg follow = Some (Inr s)" and "EngineChoice cfg \<in> {str ''mem'', str ''auto''}"
    and "storeFiles h s = Some (files, s0)" and "stays_mem s files" and "sizes_ok h" and "sched_ok h" and "length files \<le> 2 ^ 32"
  obtains s' where "startup h s = Some s'" "store_ok s'" "mirrors h s files s'" "rs_root s' = root" "rs_disk s' = None"
proof -
  note new = newRootStore_mem [OF assms(1,2)]
  obtain s1 where s1: "fullScan h s = Some s1" "store_ok s1" "mirrors h s files s1" "rs_root s1 = rs_root s" "rs_disk s1 = rs_disk s"
    using fullScan_mirrors [OF new(1) assms(3-6)] new(2-4) assms(7) by auto
  have "str ''mem'' \<noteq> str ''disk''" by code_simp
  then have "startup h s = Some (scheduleSave (becomeReady s1))" using s1(1) new(5,6) by (simp add: startup_def)
  moreover have "store_ok (scheduleSave (becomeReady s1))"
    using s1(2) by (simp add: store_ok_def becomeReady_def scheduleSave_def st_files_def st_stream_def budget_ok_def)
  moreover have "mirrors h s files (scheduleSave (becomeReady s1))" using s1(3) by simp
  moreover have "rs_root (scheduleSave (becomeReady s1)) = root" "rs_disk (scheduleSave (becomeReady s1)) = None"
    using s1(4,5) new(7,8) by (simp_all add: scheduleSave_def becomeReady_def)
  ultimately show thesis by (rule that)
qed

text \<open>What is on the disk for a listed path, without a budget: the file to count in, the file to announce.\<close>

definition diskCount :: "host \<Rightarrow> Config \<Rightarrow> Request \<Rightarrow> gostring set \<Rightarrow> gostring \<rightharpoonup> nat" where
  "diskCount h cfg req paths p =
     (if p \<notin> paths \<or> \<not> visible h req [] p then None
      else case route h (rq_Root req) cfg p of
          Indexed (meta, content, defs) \<Rightarrow>
            if sizeAdmits req (fm_Size meta) \<and>
              Contains (case_norm (rq_NoCase req) content) (case_norm (rq_NoCase req) (rq_Pattern req))
            then Some (length (literalFindAll content (rq_Pattern req) (rq_NoCase req))) else None
        | _ \<Rightarrow> None)"

definition diskAnnounced :: "host \<Rightarrow> Config \<Rightarrow> Request \<Rightarrow> gostring set \<Rightarrow> gostring \<rightharpoonup> int" where
  "diskAnnounced h cfg req paths p =
     (if p \<notin> paths \<or> \<not> visible h req [] p then None
      else case route h (rq_Root req) cfg p of
          Streamed e \<Rightarrow> if sizeAdmits req (se_size e) then Some (se_size e) else None
        | _ \<Rightarrow> None)"

lemma mirrors_route:
  assumes "mirrors h s files s'" and "MaxIndexMB (rs_cfg s) \<le> 0"
  shows "st_files s' p = (if p \<in> fs_rel ` set files then docOfRoute (route h (rs_root s) (rs_cfg s) p) else None)"
    and "st_stream s' p = (if p \<in> fs_rel ` set files then entryOfRoute (route h (rs_root s) (rs_cfg s) p) else None)"
  using assms by (auto simp: mirrors_def route_of_def)

lemma disk_occurrences:
  assumes "mirrors h s files (pr_store pr)" and "MaxIndexMB (rs_cfg s) \<le> 0" and "rs_root s = rq_Root req" and "pr_sub pr = []"
  shows "occurrences h req pr = diskCount h (rs_cfg s) req (fs_rel ` set files)"
    and "announced h req pr = diskAnnounced h (rs_cfg s) req (fs_rel ` set files)"
  using mirrors_route [OF assms(1,2)] assms(3,4)
  by (auto simp: fun_eq_iff occurrences_def announced_def diskCount_def diskAnnounced_def split: route.split)

text \<open>A counting search for a fixed ASCII pattern under a root that is not indexed and has no index file, by a server that indexes in
  memory without a budget: what the listing of the tree \<open>files\<close> is, and that the store becomes ready after the ticks \<open>ts\<close>.\<close>

definition fresh_count_search :: "'re world \<Rightarrow> Server \<Rightarrow> Request \<Rightarrow> host \<Rightarrow> RootStore \<Rightarrow> fileStat list \<Rightarrow> RootStore list \<Rightarrow> bool" where
  "fresh_count_search w sv req h s files ts \<longleftrightarrow>
     rq_Fixed req \<and> rq_Pattern req \<noteq> [] \<and> \<not> HasNonASCII (rq_Pattern req) \<and> rq_Count req \<and> globs_ok req \<and>
     any_order w \<and> unindexed sv (rq_Root req) (rq_Follow req) \<and> w_watch w (rq_Root req) = None \<and>
     h = hostOf w sv (rq_Root req, rq_Follow req) \<and>
     sv_files sv (indexFileOf h (sv_cacheDir sv) (rq_Root req, rq_Follow req)) = None \<and>
     newRootStore h None True (rq_Root req) (sv_cacheDir sv) (sv_cfg sv) (rq_Follow req) = Some (Inr s) \<and>
     EngineChoice (sv_cfg sv) \<in> {str ''mem'', str ''auto''} \<and> MaxIndexMB (sv_cfg sv) \<le> 0 \<and>
     (\<exists>s0. storeFiles h s = Some (files, s0)) \<and> stays_mem s files \<and> sizes_ok h \<and> sched_ok h \<and> length files \<le> 2 ^ 32 \<and>
     (\<exists>s1. startup h s = Some s1 \<and> w_wakes w s = map Tick ts @ [Ready s1] \<and> (rq_NoSync req \<or> w_barrier w s1 = s1))"

lemma fresh_count_events:
  assumes fresh: "fresh_count_search w sv req h s files ts" and "MatcherFor (w_L w) (rq_Pattern req) True (rq_NoCase req) = Inr m" and "stays c"
  shows "\<exists>sv' pr. let found = diskCount h (sv_cfg sv) req (fs_rel ` set files);
      rest = diskAnnounced h (sv_cfg sv) req (fs_rel ` set files)
    in handleSearch w sv req c = Some (sv', sent c (map progressEvent ts @
      map (\<lambda>p. countEvent [] p (the (found p))) (sorted_list_of_set (dom found)) @
      map (\<lambda>p. streamEvent [] p (the (rest p))) (sorted_list_of_set (dom rest)) @ [countDone w pr found]))"
proof -
  obtain s0 s1 where f: "rq_Fixed req" "rq_Pattern req \<noteq> []" "\<not> HasNonASCII (rq_Pattern req)" "rq_Count req" "globs_ok req"
    and sv: "any_order w" "unindexed sv (rq_Root req) (rq_Follow req)" "w_watch w (rq_Root req) = None"
      "h = hostOf w sv (rq_Root req, rq_Follow req)" "sv_files sv (indexFileOf h (sv_cacheDir sv) (rq_Root req, rq_Follow req)) = None"
    and new_s: "newRootStore h None True (rq_Root req) (sv_cacheDir sv) (sv_cfg sv) (rq_Follow req) = Some (Inr s)"
      "EngineChoice (sv_cfg sv) \<in> {str ''mem'', str ''auto''}"
    and cfg: "MaxIndexMB (sv_cfg sv) \<le> 0"
    and env: "storeFiles h s = Some (files, s0)" "stays_mem s files" "sizes_ok h" "sched_ok h" "length files \<le> 2 ^ 32"
    and s1: "startup h s = Some s1" "w_wakes w s = map Tick ts @ [Ready s1]" "rq_NoSync req \<or> w_barrier w s1 = s1"
    using fresh by (auto simp: fresh_count_search_def)
  let ?key = "(rq_Root req, rq_Follow req)"
  let ?sv1 = "sv\<lparr>sv_stores := AList.update ?key s (sv_stores sv)\<rparr>"
  let ?pr = "\<lparr>pr_key = ?key, pr_store = s1, pr_sub = [], pr_barrierMS = (if \<not> rq_NoSync req then w_barrierMS w else 0)\<rparr>"
  let ?c = "sent c (map progressEvent ts)"
  obtain t where t: "startup h s = Some t" "store_ok t" "mirrors h s files t" "rs_root t = rq_Root req" "rs_disk t = None"
    using startup_scan [OF new_s env] .
  with s1(1) have s1': "store_ok s1" "mirrors h s files s1" "rs_root s1 = rq_Root req" "rs_disk s1 = None" by simp_all
  note new = newRootStore_mem [OF new_s]
  have h: "hostOf w (putStore ?sv1 ?key s1) (pr_key ?pr) = h" using sv(4) by (simp add: hostOf_def putStore_def)
  have "store w sv (rq_Root req) (rq_Follow req) (rq_AllowNested req) = Some (?sv1, Inr (?key, s))"
    using sv(5) new_s(1) by (intro store_fresh [OF sv(1-4)]) simp
  moreover have "streamUntilReady w s c = Some (?c, Some s1)"
    using assms(3) s1(2) new(6) by (simp add: streamUntilReady_def)
  moreover have "Rel (rs_root s1) (rq_Root req) = Some (str ''.'')" using s1'(3) by (simp add: Rel_def)
  ultimately have pro: "prologue w sv req c = Some (putStore ?sv1 ?key s1, ?c, Some ?pr)"
    using s1(3) by (auto simp: prologue_def Let_def)
  have pre: "stays ?c" "rs_disk (pr_store ?pr) = None" "store_ok (pr_store ?pr)" "sched_ok (hostOf w (putStore ?sv1 ?key s1) (pr_key ?pr))"
    using assms(3) env(4) s1' h by simp_all
  have run: "handleSearch w sv req c = Some (putStore ?sv1 ?key s1, sent ?c (countAnswer w h req ?pr))"
    using handleSearch_count [OF assms(2) f pro pre] by (simp only: h)
  have d: "occurrences h req ?pr = diskCount h (sv_cfg sv) req (fs_rel ` set files)"
    "announced h req ?pr = diskAnnounced h (sv_cfg sv) req (fs_rel ` set files)"
    using disk_occurrences [of h s files ?pr req] s1'(2) new(8,10) cfg by simp_all
  show ?thesis
    unfolding run countAnswer_def d Let_def
    by (intro exI [of _ "putStore ?sv1 ?key s1"] exI [of _ ?pr]) simp
qed

subsection \<open>Properties\<close>

text \<open>C4. The first counting search for a fixed ASCII pattern under a root that the server has not indexed reads the disk: after the
  progress events of the scan it reports, sorted by path, every listed file that the request's filters admit and
  whose decoded text contains the pattern, with the number of occurrences, announces every admitted file that is too large or
  binary for the index, and closes with the totals. Nothing else is reported and nothing is missed.\<close>

theorem first_search_reads_disk:
  assumes "MatcherFor (w_L w) (rq_Pattern req) True (rq_NoCase req) = Inr m"
    and "rq_Fixed req" and "rq_Pattern req \<noteq> []" and "\<not> HasNonASCII (rq_Pattern req)" and "rq_Count req" and "globs_ok req"
    and "stays c" and "any_order w" and "unindexed sv (rq_Root req) (rq_Follow req)" and "w_watch w (rq_Root req) = None"
    and "h = hostOf w sv (rq_Root req, rq_Follow req)"
    and "sv_files sv (indexFileOf h (sv_cacheDir sv) (rq_Root req, rq_Follow req)) = None"
    and "newRootStore h None True (rq_Root req) (sv_cacheDir sv) (sv_cfg sv) (rq_Follow req) = Some (Inr s)"
    and "EngineChoice (sv_cfg sv) \<in> {str ''mem'', str ''auto''}" and "MaxIndexMB (sv_cfg sv) \<le> 0"
    and "storeFiles h s = Some (files, s0)" and "stays_mem s files" and "sizes_ok h" and "sched_ok h" and "length files \<le> 2 ^ 32"
    and "startup h s = Some s1" and "w_wakes w s = map Tick ts @ [Ready s1]" and "rq_NoSync req \<or> w_barrier w s1 = s1"
  shows "\<exists>sv' fin. let found = diskCount h (sv_cfg sv) req (fs_rel ` set files);
        rest = diskAnnounced h (sv_cfg sv) req (fs_rel ` set files)
    in handleSearch w sv req c = Some (sv', sent c (map progressEvent ts @
        map (\<lambda>p. countEvent [] p (the (found p))) (sorted_list_of_set (dom found)) @
        map (\<lambda>p. streamEvent [] p (the (rest p))) (sorted_list_of_set (dom rest)) @ [fin])) \<and>
      ev_Type fin = str ''done'' \<and> ev_FileHits fin = int (card (dom found)) \<and>
      ev_Matches fin = int (\<Sum>p \<in> dom found. the (found p)) \<and> \<not> ev_Truncated fin"
proof -
  have "fresh_count_search w sv req h s files ts" unfolding fresh_count_search_def using assms by blast
  from fresh_count_events [OF this assms(1,7)] obtain sv' pr where
    run: "let found = diskCount h (sv_cfg sv) req (fs_rel ` set files); rest = diskAnnounced h (sv_cfg sv) req (fs_rel ` set files)
      in handleSearch w sv req c = Some (sv', sent c (map progressEvent ts @
        map (\<lambda>p. countEvent [] p (the (found p))) (sorted_list_of_set (dom found)) @
        map (\<lambda>p. streamEvent [] p (the (rest p))) (sorted_list_of_set (dom rest)) @ [countDone w pr found]))" by blast
  let ?found = "diskCount h (sv_cfg sv) req (fs_rel ` set files)"
  show ?thesis
    using run by (intro exI [of _ sv'] exI [of _ "countDone w pr ?found"]) (simp add: countDone_def Let_def, simp add: event_def)
qed

text \<open>A server with the root of \<open>exHost\<close>, without a byte budget.\<close>

definition exCfg0 :: Config where
  "exCfg0 = (exCfgOf ''mem'')\<lparr>MaxIndexMB := 0\<rparr>"

definition exServer :: Server where
  "exServer = NewServer (str ''c'') exCfg0 Map.empty Map.empty"

definition exReq :: "string \<Rightarrow> string \<Rightarrow> string \<Rightarrow> Request" where
  "exReq opr root pat = \<lparr>rq_Op = str opr, rq_Root = str root, rq_Pattern = str pat, rq_Fixed = True, rq_NoCase = False, rq_Files = False,
     rq_Count = True, rq_Globs = [], rq_Limit = 0, rq_NoSync = False, rq_MaxColumns = 0, rq_Exclude = [], rq_Include = [],
     rq_Gitignore = False, rq_Hidden = False, rq_Text = False, rq_Follow = False, rq_AllowNested = False, rq_MaxFilesize = 0\<rparr>"

definition exWorld :: "gostring world" where
  "exWorld = \<lparr>w_L = \<lparr>re_Parse = (\<lambda>_. None), re_Compile = Inr, re_String = (\<lambda>re. re), re_FindIndex = (\<lambda>_ _. None),
       re_FindAllIndex = (\<lambda>_ _. [])\<rparr>,
     w_rng = (\<lambda>xs. xs), w_host = (\<lambda>_. exHost), w_watch = (\<lambda>_. None),
     w_wakes = (\<lambda>s. [Ready (the (startup exHost s))]), w_barrier = (\<lambda>s. s), w_sched = (\<lambda>n. [0..<n]), w_drng = (\<lambda>d. d), w_mio = MOk,
     w_pid = 1, w_durMS = 0, w_barrierMS = 0, w_searchMS = 0\<rparr>"

definition exStore0 :: RootStore where
  "exStore0 = exStore\<lparr>rs_cfg := exCfg0\<rparr>"

lemma ex_new0: "newRootStore exHost None True (str ''r'') (str ''c'') exCfg0 False = Some (Inr exStore0)"
proof -
  have c: "EngineChoice exCfg0 = str ''mem''" "str ''mem'' \<noteq> str ''auto''" "str ''mem'' \<noteq> str ''disk''" "Gitignore exCfg0 = False"
    "Exclude exCfg0 = []" by (simp_all add: exCfg0_def exCfgOf_def Default_def)
  show ?thesis
    by (simp only: newRootStore_def c Let_def loadPersisted_def)
      (simp add: exStore0_def exStore_def exHost_def LoadRules_def AddPatterns_def)
qed

lemma ex_files0: "storeFiles exHost exStore0 = Some ([\<lparr>fs_rel = str ''f'', fs_size = 3, fs_mtimeNS = 7\<rparr>], exStore0)"
  using ex_files by (auto simp: storeFiles_def exStore0_def exStore_def split: Option.bind_splits)

lemma ex_host [simp]: "hostOf exWorld sv key = exHost\<lparr>ho_fs := sv_fs sv\<rparr>"
  by (simp add: hostOf_def exWorld_def)

lemma ex_host0 [simp]: "exHost\<lparr>ho_fs := Map.empty\<rparr> = exHost"
  by (simp add: exHost_def)

lemma ex_route0: "route exHost (str ''r'') exCfg0 (str ''f'') =
    Indexed (\<lparr>fm_Path = str ''f'', fm_Size = 3, fm_MtimeNS = 7\<rparr>, str ''abc'', [])"
proof -
  have "MaxFileSize exCfg0 = MaxFileSize (exCfgOf ''mem'')" by (simp add: exCfg0_def MaxFileSize_def)
  then have "route exHost (str ''r'') exCfg0 (str ''f'') = route exHost (str ''r'') (exCfgOf ''mem'') (str ''f'')"
    by (simp only: route_def)
  then show ?thesis by (simp only: ex_route)
qed

lemma ex_server: "sv_cfg exServer = exCfg0" "sv_cacheDir exServer = str ''c''" "sv_stores exServer = []" "sv_fs exServer = Map.empty"
  "sv_files exServer = Map.empty" by (simp_all add: exServer_def NewServer_def)

lemma ex_found:
  "diskCount exHost exCfg0 (exReq ''search'' ''r'' ''b'') {str ''f''} = [str ''f'' \<mapsto> 1]"
  "diskAnnounced exHost exCfg0 (exReq ''search'' ''r'' ''b'') {str ''f''} = Map.empty"
proof -
  let ?req = "exReq ''search'' ''r'' ''b''"
  have vis: "visible exHost ?req [] (str ''f'')"
    by (simp add: visible_def exReq_def hiddenPath_iff globsAdmit_def buildIncludeMatcher_def) (simp add: str_def)
  have "Contains (str ''abc'') (str ''b'')" "length (literalFindAll (str ''abc'') (str ''b'') False) = 1" by code_simp+
  then show "diskCount exHost exCfg0 ?req {str ''f''} = [str ''f'' \<mapsto> 1]" "diskAnnounced exHost exCfg0 ?req {str ''f''} = Map.empty"
    using vis ex_route0
    by (auto simp: fun_eq_iff diskCount_def diskAnnounced_def sizeAdmits_def case_norm_def exReq_def)
qed

lemma ex_fresh:
  "fresh_count_search exWorld exServer (exReq ''search'' ''r'' ''b'') exHost exStore0 [\<lparr>fs_rel = str ''f'', fs_size = 3, fs_mtimeNS = 7\<rparr>] []"
proof -
  let ?req = "exReq ''search'' ''r'' ''b''" and ?files = "[\<lparr>fs_rel = str ''f'', fs_size = 3, fs_mtimeNS = 7\<rparr>]"
  have req: "rq_Root ?req = str ''r''" "rq_Pattern ?req = str ''b''" "rq_Follow ?req = False" "rq_Count ?req" "rq_Fixed ?req" "globs_ok ?req"
    by (simp_all add: exReq_def globs_ok_def badGlob_def)
  have pat: "str ''b'' \<noteq> []" "\<not> HasNonASCII (str ''b'')" by code_simp+
  have cfg: "EngineChoice exCfg0 = str ''mem''" "MaxIndexMB exCfg0 = 0" by (simp_all add: exCfg0_def exCfgOf_def Default_def)
  then have mem: "stays_mem exStore0 ?files" by (simp add: stays_mem_def exStore0_def)
  obtain s1 where s1: "startup exHost exStore0 = Some s1"
    using startup_scan [OF ex_new0 _ ex_files0 mem ex_env] cfg by auto
  have w: "any_order exWorld" "w_watch exWorld p = None" "w_wakes exWorld exStore0 = map Tick [] @ [Ready s1]" "w_barrier exWorld s1 = s1" for p
    using s1 by (simp_all add: exWorld_def any_order_def)
  show ?thesis
    unfolding fresh_count_search_def
    using req pat w s1 cfg mem ex_env ex_server ex_new0 ex_files0 by (simp add: unindexed_def)
qed

lemma ex_matcher:
  obtains m where "MatcherFor (w_L exWorld) (rq_Pattern (exReq opr root pat)) True (rq_NoCase (exReq opr root pat)) = Inr m"
  by (cases "MatcherFor (w_L exWorld) (rq_Pattern (exReq opr root pat)) True (rq_NoCase (exReq opr root pat))")
    (auto simp: exWorld_def MatcherFor_def Let_def)

theorem first_search_reads_disk_witness:
  "\<exists>sv' fin. handleSearch exWorld exServer (exReq ''search'' ''r'' ''b'') \<lparr>cn_sent = [], cn_room = None\<rparr> =
     Some (sv', \<lparr>cn_sent = [countEvent [] (str ''f'') 1, fin], cn_room = None\<rparr>) \<and> ev_Matches fin = 1"
proof -
  let ?req = "exReq ''search'' ''r'' ''b''" and ?c = "\<lparr>cn_sent = [], cn_room = None\<rparr>"
  let ?files = "[\<lparr>fs_rel = str ''f'', fs_size = 3, fs_mtimeNS = 7\<rparr>]"
  obtain m where m: "MatcherFor (w_L exWorld) (rq_Pattern ?req) True (rq_NoCase ?req) = Inr m" by (rule ex_matcher)
  obtain s1 where s1: "startup exHost exStore0 = Some s1" "w_wakes exWorld exStore0 = map Tick [] @ [Ready s1]"
    "rq_NoSync ?req \<or> w_barrier exWorld s1 = s1" using ex_fresh by (auto simp: fresh_count_search_def)
  have "\<exists>sv' fin. let found = diskCount exHost (sv_cfg exServer) ?req (fs_rel ` set ?files);
        rest = diskAnnounced exHost (sv_cfg exServer) ?req (fs_rel ` set ?files)
    in handleSearch exWorld exServer ?req ?c = Some (sv', sent ?c (map progressEvent [] @
        map (\<lambda>p. countEvent [] p (the (found p))) (sorted_list_of_set (dom found)) @
        map (\<lambda>p. streamEvent [] p (the (rest p))) (sorted_list_of_set (dom rest)) @ [fin])) \<and>
      ev_Type fin = str ''done'' \<and> ev_FileHits fin = int (card (dom found)) \<and>
      ev_Matches fin = int (\<Sum>p \<in> dom found. the (found p)) \<and> \<not> ev_Truncated fin"
    by (rule first_search_reads_disk [OF m _ _ _ _ _ _ _ _ _ _ _ _ _ _ ex_files0 _ _ _ _ s1])
      (use ex_fresh in \<open>simp_all add: fresh_count_search_def stays_def\<close>)
  then obtain sv' fin where "handleSearch exWorld exServer ?req ?c =
      Some (sv', sent ?c [countEvent [] (str ''f'') 1, fin])" "ev_Matches fin = 1"
    by (auto simp: ex_server ex_found)
  then have "handleSearch exWorld exServer ?req ?c =
      Some (sv', \<lparr>cn_sent = [countEvent [] (str ''f'') 1, stamp fin], cn_room = None\<rparr>)" "ev_Matches (stamp fin) = 1"
    by (simp_all add: sent_def stamp_def countEvent_def)
  then show ?thesis by blast
qed

subsection \<open>The lines of a search\<close>

lemma lex_same_prefix: "sub @ x \<le> sub @ y \<longleftrightarrow> x \<le> (y :: gostring)"
  by (induction sub) simp_all

lemma strip_mono:
  assumes "HasPrefix p sub" and "HasPrefix q sub" and "(p, l) \<le> (q, k)"
  shows "(TrimPrefix p sub, int l) \<le> (TrimPrefix q sub, int k)"
proof -
  obtain x y where xy: "p = sub @ x" "q = sub @ y" using assms(1,2) by (auto simp: HasPrefix_def prefix_def)
  from assms(3) have "sub @ x < sub @ y \<or> sub @ x = sub @ y \<and> l \<le> k" by (auto simp: xy less_eq_prod_def)
  then have "x < y \<or> x = y \<and> l \<le> k" using lex_same_prefix [of sub x y] lex_same_prefix [of sub y x] by (auto simp: less_le_not_le)
  then show ?thesis by (auto simp: xy less_eq_prod_def)
qed

lemma matchEvents_lines:
  "map (\<lambda>e. (ev_File e, ev_Line e)) (matchEvents sub res) =
    map (\<lambda>m. (TrimPrefix (mt_Path m) sub, int (mt_Line m))) (sort_key (\<lambda>m. (mt_Path m, mt_Line m)) (sr_Matches res))"
  by (simp add: matchEvents_def Let_def)

lemma matchEvents_sorted:
  assumes "\<forall>m \<in> set (sr_Matches res). HasPrefix (mt_Path m) sub"
  shows "sorted (map (\<lambda>e. (ev_File e, ev_Line e)) (matchEvents sub res))"
proof -
  let ?k = "\<lambda>m. (mt_Path m, mt_Line m)" and ?s = "sort_key (\<lambda>m. (mt_Path m, mt_Line m)) (sr_Matches res)"
  have "sorted_wrt (\<lambda>m n. ?k m \<le> ?k n) ?s" using sorted_sort_key [of ?k "sr_Matches res"] by (simp add: sorted_map)
  then have "sorted_wrt (\<lambda>m n. (TrimPrefix (mt_Path m) sub, int (mt_Line m)) \<le> (TrimPrefix (mt_Path n) sub, int (mt_Line n))) ?s"
  proof (rule sorted_wrt_mono_rel [rotated])
    fix m n assume "m \<in> set ?s" "n \<in> set ?s" "?k m \<le> ?k n"
    with assms show "(TrimPrefix (mt_Path m) sub, int (mt_Line m)) \<le> (TrimPrefix (mt_Path n) sub, int (mt_Line n))"
      by (intro strip_mono) simp_all
  qed
  then show ?thesis unfolding matchEvents_lines by (simp add: sorted_map)
qed

lemma literal_soundD:
  "literal_sound L re opts \<Longrightarrow> (a, b) \<in> set (locsOf L re opts s) \<Longrightarrow> keys_of (so_Literal opts) \<subseteq> keys_of s"
  unfolding literal_sound_def by (cases "locsOf L re opts s = []") simp_all

text \<open>A fixed ASCII pattern prunes no file that it matches.\<close>

lemma fixed_request_sound:
  assumes "MatcherFor (w_L w) (rq_Pattern req) (rq_Fixed req) (rq_NoCase req) = Inr m" and "opts = visibleOpts w h sv req m pr"
    and "rq_Fixed req" and "\<not> HasNonASCII (rq_Pattern req)"
  shows "literal_sound (w_L w) re opts"
proof -
  have "m_PlainLit m = rq_Pattern req"
    using MatcherFor_fixed [of "w_L w" "rq_Pattern req" "rq_NoCase req" m] assms(1,3,4) by simp
  then have pat: "so_PlainLiteral opts = rq_Pattern req"
    "so_Literal opts = ExtractLiteral (re_Parse (w_L w)) (unicode_ToLower (ho_S h)) (rq_Pattern req) True"
    using assms(2,3) by simp_all
  show ?thesis
  proof (cases "rq_Pattern req = []")
    case True
    then have "keys_of (so_Literal opts) = {}" using ExtractLiteral_fixed_keys [OF assms(4)] pat(2) by (simp add: keys_of_def)
    then show ?thesis by (simp add: literal_sound_def)
  qed (use plain_literal_sound [OF pat(1) _ assms(4) pat(2)] in simp)
qed

text \<open>The lines a search of the in-memory index reports for a request.\<close>

lemma request_lines:
  assumes "ix_inv ix" and "perm_order rng" and "regex_ok (w_L w) re" and "opts = visibleOpts w h sv req m pr"
    and "\<not> rq_Files req" and "\<not> rq_Count req" and "rq_Limit req \<le> 0"
  shows "(p, l) \<in> (\<lambda>m. (mt_Path m, mt_Line m)) ` set (sr_Matches (Search (w_L w) rng ix re opts)) \<longleftrightarrow>
    (\<exists>meta content defs a b. mem_abs ix p = Some (meta, content, defs) \<and> sizeAdmits req (fm_Size meta) \<and>
       visible h req (pr_sub pr) p \<and> keys_of (so_Literal opts) \<subseteq> keys_of content \<and>
       (a, b) \<in> set (locsOf (w_L w) re opts content) \<and> l = lineOf content a)"
proof -
  have o: "so_Limit opts \<le> 0" "\<not> so_FilesOnly opts" using assms(4-7) by simp_all
  have "admits opts meta \<longleftrightarrow> sizeAdmits req (fm_Size meta) \<and> visible h req (pr_sub pr) p"
    if "mem_abs ix p = Some (meta, content, defs)" for meta content defs
    using admits_visible [OF that assms(1), of w h sv req m pr] assms(4) by simp
  then show ?thesis unfolding Search_lines_pruned [OF assms(1-3) o] by blast
qed

text \<open>C5. A search that lists lines reports, in the order of paths and line numbers and with paths relative to the requested root, exactly
  the lines on which a match starts in the admitted files that have every trigram of the extracted literal; the files of the
  stream set that the request admits follow. A pattern whose literal is in no text that it matches loses these matches (a literal with a
  non-ASCII upper-case letter does); a fixed ASCII pattern loses none, and its answer is all lines on which a match starts.\<close>

theorem search_lines_in_order:
  assumes "MatcherFor (w_L w) (rq_Pattern req) (rq_Fixed req) (rq_NoCase req) = Inr m" and "m_Re m = Some re" and "globs_ok req"
    and "prologue w sv req c = Some (sv', c', Some pr)" and "stays c'"
    and "rs_disk (pr_store pr) = None" and "store_ok (pr_store pr)" and "h = hostOf w sv' (pr_key pr)" and "sched_ok h"
    and "opts = visibleOpts w h sv' req m pr" and "\<not> rq_Files req" and "\<not> rq_Count req" and "rq_Limit req \<le> 0"
    and "regex_ok (w_L w) re"
  shows "\<exists>evs fin. handleSearch w sv req c = Some (sv', sent c' (evs @
        map (\<lambda>p. streamEvent (pr_sub pr) p (the (announced h req pr p))) (sorted_list_of_set (dom (announced h req pr))) @ [fin])) \<and>
      sorted (map (\<lambda>e. (ev_File e, ev_Line e)) evs) \<and>
      (\<forall>f l. (f, l) \<in> set (map (\<lambda>e. (ev_File e, ev_Line e)) evs) \<longleftrightarrow>
        (\<exists>p meta content defs a b. st_files (pr_store pr) p = Some (meta, content, defs) \<and> visible h req (pr_sub pr) p \<and>
           sizeAdmits req (fm_Size meta) \<and> f = TrimPrefix p (pr_sub pr) \<and> keys_of (so_Literal opts) \<subseteq> keys_of content \<and>
           (a, b) \<in> set (locsOf (w_L w) re opts content) \<and> l = int (lineOf content a))) \<and>
      (rq_Fixed req \<longrightarrow> \<not> HasNonASCII (rq_Pattern req) \<longrightarrow>
       (\<forall>f l. (f, l) \<in> set (map (\<lambda>e. (ev_File e, ev_Line e)) evs) \<longleftrightarrow>
        (\<exists>p meta content defs a b. st_files (pr_store pr) p = Some (meta, content, defs) \<and> visible h req (pr_sub pr) p \<and>
           sizeAdmits req (fm_Size meta) \<and> f = TrimPrefix p (pr_sub pr) \<and>
           (a, b) \<in> set (locsOf (w_L w) re opts content) \<and> l = int (lineOf content a))))"
proof -
  obtain ix where ix: "rs_idx (pr_store pr) = Some ix" "ix_inv ix" "distinct (map fst (rs_stream (pr_store pr)))"
    using store_ok_parts [OF assms(7)] .
  let ?res = "Search (w_L w) (ho_rng h) ix re opts" and ?sub = "pr_sub pr"
  note lines = request_lines [OF ix(2) sched_perm [OF assms(9)] assms(14,10-13)]
  have sub: "\<forall>m \<in> set (sr_Matches ?res). HasPrefix (mt_Path m) ?sub"
  proof
    fix m assume "m \<in> set (sr_Matches ?res)"
    then have "(mt_Path m, mt_Line m) \<in> (\<lambda>m. (mt_Path m, mt_Line m)) ` set (sr_Matches ?res)" by blast
    then show "HasPrefix (mt_Path m) ?sub" unfolding lines by (auto simp: visible_def)
  qed
  have ev: "resultEvents req ?sub ?res = matchEvents ?sub ?res" using assms(11,12) by (simp add: resultEvents_def)
  have "set (map (\<lambda>e. (ev_File e, ev_Line e)) (matchEvents ?sub ?res)) =
      (\<lambda>(p, l). (TrimPrefix p ?sub, int l)) ` (\<lambda>m. (mt_Path m, mt_Line m)) ` set (sr_Matches ?res)"
    unfolding matchEvents_lines by (simp add: image_image)
  then have exact: "(f, l) \<in> set (map (\<lambda>e. (ev_File e, ev_Line e)) (matchEvents ?sub ?res)) \<longleftrightarrow>
      (\<exists>p k. (p, k) \<in> (\<lambda>m. (mt_Path m, mt_Line m)) ` set (sr_Matches ?res) \<and> f = TrimPrefix p ?sub \<and> l = int k)" for f l
    by auto
  let ?lines = "\<lambda>K f l. \<exists>p meta content defs a b. st_files (pr_store pr) p = Some (meta, content, defs) \<and> visible h req ?sub p \<and>
      sizeAdmits req (fm_Size meta) \<and> f = TrimPrefix p ?sub \<and> K content \<and>
      (a, b) \<in> set (locsOf (w_L w) re opts content) \<and> l = int (lineOf content a)"
  have char: "(f, l) \<in> set (map (\<lambda>e. (ev_File e, ev_Line e)) (matchEvents ?sub ?res)) \<longleftrightarrow>
      ?lines (\<lambda>c. keys_of (so_Literal opts) \<subseteq> keys_of c) f l" for f l
    unfolding exact lines st_files_def ix(1) option.case by blast
  have ascii: "?lines (\<lambda>c. keys_of (so_Literal opts) \<subseteq> keys_of c) f l \<longleftrightarrow> ?lines (\<lambda>_. True) f l"
    if "rq_Fixed req" "\<not> HasNonASCII (rq_Pattern req)" for f l
    using literal_soundD [OF fixed_request_sound [OF assms(1,10) that, of re]] by blast
  show ?thesis
  proof (intro exI [of _ "matchEvents ?sub ?res"] exI [of _ "doneEvent w pr ?res"] conjI allI impI)
    show "handleSearch w sv req c = Some (sv', sent c' (matchEvents ?sub ?res @
        map (\<lambda>p. streamEvent ?sub p (the (announced h req pr p))) (sorted_list_of_set (dom (announced h req pr))) @ [doneEvent w pr ?res]))"
      using handleSearch_mem [OF assms(1-6) ix(1) assms(8) refl] streamEvents_announced [OF ix(3), of req h]
      by (simp add: ev flip: assms(10))
  qed (rule matchEvents_sorted [OF sub], rule char, simp only: char ascii simp_thms)
qed

lemma ex_prologue:
  assumes "rq_Root req = str ''r''" and "\<not> rq_Follow req" and "stays c"
  obtains sv' pr where "prologue exWorld exServer req c = Some (sv', c, Some pr)" "rs_disk (pr_store pr) = None" "store_ok (pr_store pr)"
    "pr_sub pr = []" "st_files (pr_store pr) (str ''f'') = Some (\<lparr>fm_Path = str ''f'', fm_Size = 3, fm_MtimeNS = 7\<rparr>, str ''abc'', [])"
    "sv_fs sv' = Map.empty"
proof -
  let ?key = "(str ''r'', False)" and ?files = "[\<lparr>fs_rel = str ''f'', fs_size = 3, fs_mtimeNS = 7\<rparr>]"
  have sv: "sv_cfg exServer = exCfg0" "sv_cacheDir exServer = str ''c''" "sv_stores exServer = []" "sv_fs exServer = Map.empty"
    "sv_files exServer = Map.empty" by (simp_all add: exServer_def NewServer_def)
  have cfg: "EngineChoice exCfg0 = str ''mem''" "MaxIndexMB exCfg0 = 0" by (simp_all add: exCfg0_def exCfgOf_def Default_def)
  then have mem: "stays_mem exStore0 ?files" by (simp add: stays_mem_def exStore0_def)
  obtain s1 where s1: "startup exHost exStore0 = Some s1" "store_ok s1" "mirrors exHost exStore0 ?files s1" "rs_root s1 = str ''r''"
    "rs_disk s1 = None" using startup_scan [OF ex_new0 _ ex_files0 mem ex_env] cfg by auto
  note new = newRootStore_mem [OF ex_new0]
  have f: "st_files s1 (str ''f'') = Some (\<lparr>fm_Path = str ''f'', fm_Size = 3, fm_MtimeNS = 7\<rparr>, str ''abc'', [])"
    using mirrors_route(1) [OF s1(3), of "str ''f''"] new(8,10) cfg ex_route0 by simp
  let ?sv1 = "exServer\<lparr>sv_stores := AList.update ?key exStore0 (sv_stores exServer)\<rparr>"
  have "store exWorld exServer (str ''r'') False (rq_AllowNested req) = Some (?sv1, Inr (?key, exStore0))"
  proof (rule store_fresh [OF _ _ _ refl])
    show "newRootStore (hostOf exWorld exServer ?key) (sv_files exServer (indexFileOf (hostOf exWorld exServer ?key) (sv_cacheDir exServer) ?key))
        True (str ''r'') (sv_cacheDir exServer) (sv_cfg exServer) False = Some (Inr exStore0)"
      unfolding sv ex_host ex_host0 by (rule ex_new0)
  qed (simp_all add: any_order_def exWorld_def unindexed_def sv)
  moreover have "streamUntilReady exWorld exStore0 c = Some (c, Some s1)"
    using new(6) cfg s1(1) by (simp add: streamUntilReady_def exWorld_def)
  moreover have "w_barrier exWorld = (\<lambda>s. s)" by (simp add: exWorld_def)
  moreover have "Rel (rs_root s1) (str ''r'') = Some (str ''.'')" using s1(4) by (simp add: Rel_def)
  ultimately have "prologue exWorld exServer req c = Some (putStore ?sv1 ?key s1, c, Some \<lparr>pr_key = ?key, pr_store = s1, pr_sub = [],
      pr_barrierMS = (if \<not> rq_NoSync req then w_barrierMS exWorld else 0)\<rparr>)"
    using assms by (simp add: prologue_def Let_def)
  from that [OF this] s1(2,5) f show thesis by (simp add: putStore_def sv)
qed

theorem search_lines_in_order_witness:
  "\<exists>sv' c'. handleSearch exWorld exServer ((exReq ''search'' ''r'' ''b'')\<lparr>rq_Count := False\<rparr>) \<lparr>cn_sent = [], cn_room = None\<rparr> =
     Some (sv', c') \<and> (str ''f'', 1) \<in> (\<lambda>e. (ev_File e, ev_Line e)) ` set (cn_sent c')"
proof -
  let ?req = "(exReq ''search'' ''r'' ''b'')\<lparr>rq_Count := False\<rparr>" and ?c = "\<lparr>cn_sent = [], cn_room = None\<rparr>"
  have req: "rq_Root ?req = str ''r''" "\<not> rq_Follow ?req" "rq_Fixed ?req" "rq_NoCase ?req = False" "rq_Pattern ?req = str ''b''" "globs_ok ?req"
    "\<not> rq_Files ?req" "\<not> rq_Count ?req" "rq_Limit ?req \<le> 0" "rq_MaxFilesize ?req = 0" "stays ?c"
    by (simp_all add: exReq_def globs_ok_def badGlob_def stays_def)
  obtain sv' pr where pro: "prologue exWorld exServer ?req ?c = Some (sv', ?c, Some pr)" "rs_disk (pr_store pr) = None" "store_ok (pr_store pr)"
    "pr_sub pr = []" "st_files (pr_store pr) (str ''f'') = Some (\<lparr>fm_Path = str ''f'', fm_Size = 3, fm_MtimeNS = 7\<rparr>, str ''abc'', [])"
    "sv_fs sv' = Map.empty" using ex_prologue [OF req(1,2,11)] .
  obtain m where m: "MatcherFor (w_L exWorld) (rq_Pattern ?req) True (rq_NoCase ?req) = Inr m"
    by (cases "MatcherFor (w_L exWorld) (rq_Pattern ?req) True (rq_NoCase ?req)") (auto simp: exWorld_def MatcherFor_def Let_def)
  obtain re where re: "m_Re m = Some re"
    using m by (auto simp: MatcherFor_def Let_def split: sum.splits option.splits if_splits)
  have lit: "m_PlainLit m = str ''b''" "m_Fold m = False" using MatcherFor_fixed [OF m] req by simp_all
  have lits: "str ''b'' \<noteq> []" "\<not> HasNonASCII (str ''b'')" "literalFindAll (str ''abc'') (str ''b'') False = [(1, 2)]"
    "lineOf (str ''abc'') 1 = 1" by code_simp+
  have h: "exHost = hostOf exWorld sv' (pr_key pr)" by (simp add: pro(6))
  let ?opts = "visibleOpts exWorld exHost sv' ?req m pr"
  have rx: "regex_ok (w_L exWorld) re" by (simp add: regex_ok_def locs_ok_def exWorld_def)
  have vis: "visible exHost ?req (pr_sub pr) (str ''f'')"
    by (simp add: pro(4) visible_def exReq_def hiddenPath_iff globsAdmit_def buildIncludeMatcher_def) (simp add: str_def)
  have m': "MatcherFor (w_L exWorld) (rq_Pattern ?req) (rq_Fixed ?req) (rq_NoCase ?req) = Inr m" using m req(3) by simp
  have pat: "rq_Fixed ?req" "\<not> HasNonASCII (rq_Pattern ?req)" using req(3,5) lits(2) by simp_all
  obtain evs fin where r: "handleSearch exWorld exServer ?req ?c = Some (sv', sent ?c (evs @
        map (\<lambda>p. streamEvent (pr_sub pr) p (the (announced exHost ?req pr p))) (sorted_list_of_set (dom (announced exHost ?req pr))) @ [fin]))"
    and "rq_Fixed ?req \<longrightarrow> \<not> HasNonASCII (rq_Pattern ?req) \<longrightarrow>
       (\<forall>f l. (f, l) \<in> set (map (\<lambda>e. (ev_File e, ev_Line e)) evs) \<longleftrightarrow>
        (\<exists>p meta content defs a b. st_files (pr_store pr) p = Some (meta, content, defs) \<and> visible exHost ?req (pr_sub pr) p \<and>
           sizeAdmits ?req (fm_Size meta) \<and> f = TrimPrefix p (pr_sub pr) \<and>
           (a, b) \<in> set (locsOf (w_L exWorld) re ?opts content) \<and> l = int (lineOf content a)))"
    using search_lines_in_order [OF m' re req(6) pro(1) req(11) pro(2,3) h ex_env(2) refl req(7-9) rx]
    by (elim exE conjE) (rule that; assumption)
  note found = this(2) [rule_format, OF pat]
  have "(1, 2) \<in> set (locsOf (w_L exWorld) re ?opts (str ''abc''))" using lits by (simp add: locsOf_def lit)
  then have "(str ''f'', 1) \<in> set (map (\<lambda>e. (ev_File e, ev_Line e)) evs)"
    unfolding found using pro(4,5) vis lits(4) req(10)
    by (intro exI [of _ "str ''f''"] exI [of _ "\<lparr>fm_Path = str ''f'', fm_Size = 3, fm_MtimeNS = 7\<rparr>"] exI [of _ "str ''abc''"]
        exI [of _ "[]"] exI [of _ 1] exI [of _ 2]) (simp add: sizeAdmits_def)
  moreover have "ev_File (stamp e) = ev_File e" "ev_Line (stamp e) = ev_Line e" for e by (simp_all add: stamp_def)
  ultimately have "(str ''f'', 1) \<in> (\<lambda>e. (ev_File e, ev_Line e)) ` set (map stamp evs)"
    by (simp add: image_image)
  then show ?thesis using r by (auto simp: sent_def)
qed

end
