(* ===== verification/ServerRoots.thy ===== *)
theory ServerRoots
  imports ServerProps
begin

text \<open>
  The map of the stores over the life of a server: roots never nest unless a request allows it, so that the store of a
  request does not depend on the order in which Go ranges over the map; forgetting and stopping; what a
  new server reads back.
\<close>

subsection \<open>Invariant\<close>

definition ident :: "RootStore \<Rightarrow> gostring \<times> bool \<times> gostring" where
  "ident s = (rs_root s, rs_follow s, rs_cacheDir s)"

definition roots_ok :: "Server \<Rightarrow> bool" where
  "roots_ok sv \<longleftrightarrow> distinct (map fst (sv_stores sv)) \<and>
     (\<forall>(key, s) \<in> set (sv_stores sv). ident s = (fst key, snd key, sv_cacheDir sv))"

definition nests :: "storeKey \<Rightarrow> storeKey \<Rightarrow> bool" where
  "nests k1 k2 \<longleftrightarrow> snd k1 = snd k2 \<and> HasPrefix (fst k2) (fst k1 @ [slash])"

definition no_nested :: "Server \<Rightarrow> bool" where
  "no_nested sv \<longleftrightarrow> (\<forall>k1 \<in> fst ` set (sv_stores sv). \<forall>k2 \<in> fst ` set (sv_stores sv). \<not> nests k1 k2)"

text \<open>The goroutines of a store do not rename it, and ranging over the map yields each entry once.\<close>

definition world_ok :: "'re world \<Rightarrow> bool" where
  "world_ok w \<longleftrightarrow> any_order w \<and> (\<forall>s s'. Ready s' \<in> set (w_wakes w s) \<longrightarrow> ident s' = ident s) \<and>
     (\<forall>s. ident (w_barrier w s) = ident s)"

lemma covers_prefix: "covers key path follow \<longleftrightarrow> snd key = follow \<and> prefix (fst key @ [slash]) (path @ [slash])"
  by (auto simp: covers_def HasPrefix_def)

lemma covers_nests: "covers k (fst k') (snd k') \<longleftrightarrow> k = k' \<or> nests k k'"
  by (cases k; cases k') (auto simp: covers_def nests_def)

lemma covers_unique:
  assumes "covers k1 path follow" and "covers k2 path follow"
  shows "k1 = k2 \<or> nests k1 k2 \<or> nests k2 k1"
proof -
  have p: "prefix (fst k1 @ [slash]) (path @ [slash])" "prefix (fst k2 @ [slash]) (path @ [slash])"
    using assms by (simp_all add: covers_prefix)
  have s: "snd k1 = snd k2" using assms by (simp add: covers_prefix)
  from prefix_same_cases [OF p] show ?thesis
  proof
    assume "prefix (fst k1 @ [slash]) (fst k2 @ [slash])"
    with s covers_nests [of k1 k2] show ?thesis by (auto simp: covers_prefix)
  next
    assume "prefix (fst k2 @ [slash]) (fst k1 @ [slash])"
    with s covers_nests [of k2 k1] show ?thesis by (auto simp: covers_prefix)
  qed
qed

lemma newRootStore_ident:
  "newRootStore h file True root cacheDir cfg follow = Some (Inr s) \<Longrightarrow> ident s = (root, follow, cacheDir)"
  by (auto simp: newRootStore_def ident_def initDiskEngine_def loadPersisted_def Let_def
      split: option.splits if_splits Option.bind_splits)

lemma store_cases:
  assumes "store w sv path follow an = Some (sv', r)" and "any_order w"
  obtains (found) key s where "sv' = sv" "r = Inr (key, s)" "(key, s) \<in> set (sv_stores sv)" "covers key path follow"
  | (failed) msg where "sv' = sv" "r = Inl msg"
  | (fresh) s where "sv' = sv\<lparr>sv_stores := AList.update (path, follow) s (sv_stores sv)\<rparr>" "r = Inr ((path, follow), s)"
      "\<forall>k \<in> fst ` set (sv_stores sv). \<not> covers k path follow" "ident s = (path, follow, sv_cacheDir sv)"
      "\<not> an \<Longrightarrow> \<forall>k \<in> fst ` set (sv_stores sv). \<not> nests (path, follow) k"
proof (cases "find (\<lambda>(key, s). covers key path follow) (w_rng w (sv_stores sv))")
  case (Some ks)
  then have "ks \<in> set (sv_stores sv)" "case ks of (key, s) \<Rightarrow> covers key path follow"
    using any_order_set [OF assms(2), of "sv_stores sv"] by (metis find_Some_iff nth_mem)+
  with Some assms(1) found show thesis by (cases ks) (auto simp: store_def)
next
  case None
  then have nc: "\<forall>k \<in> fst ` set (sv_stores sv). \<not> covers k path follow"
    using any_order_set [OF assms(2), of "sv_stores sv"] by (force simp: find_None_iff)
  show thesis
  proof (cases "\<not> an \<and> length (nestedRoots w sv path follow) > 0")
    case True
    with None assms(1) failed show thesis by (auto simp: store_def)
  next
    case False
    have nn: "\<forall>k \<in> fst ` set (sv_stores sv). \<not> nests (path, follow) k" if "\<not> an"
      using that False any_order_set [OF assms(2), of "sv_stores sv"]
      by (force simp: nestedRoots_def filter_empty_conv nests_def)
    let ?h = "hostOf w sv (path, follow)"
    define N where "N = newRootStore ?h (sv_files sv (indexFileOf ?h (sv_cacheDir sv) (path, follow))) (w_watch w path = None) path
      (sv_cacheDir sv) (sv_cfg sv) follow"
    have st: "store w sv path follow an = (case N of None \<Rightarrow> None
        | Some (Inl _) \<Rightarrow> Some (sv, Inl (str ''watch '' @ path @ str '': '' @ the (w_watch w path)))
        | Some (Inr s) \<Rightarrow> Some (sv\<lparr>sv_stores := AList.update (path, follow) s (sv_stores sv)\<rparr>, Inr ((path, follow), s)))"
      unfolding store_def None Let_def N_def option.case by (rule if_not_P [OF False])
    with assms(1) obtain x where x: "N = Some x" by (cases N) simp_all
    show thesis
    proof (cases x)
      case (Inl u)
      with st x assms(1) failed show thesis by auto
    next
      case (Inr s)
      have "w_watch w path = None" using x Inr by (auto simp: N_def newRootStore_def Let_def split: Option.bind_splits if_splits)
      with x Inr have id: "ident s = (path, follow, sv_cacheDir sv)" by (auto simp: N_def dest: newRootStore_ident)
      have "sv' = sv\<lparr>sv_stores := AList.update (path, follow) s (sv_stores sv)\<rparr>" "r = Inr ((path, follow), s)"
        using st x Inr assms(1) by simp_all
      from fresh [OF this nc id nn] show thesis .
    qed
  qed
qed

lemma update_append: "k \<notin> fst ` set xs \<Longrightarrow> AList.update k v xs = xs @ [(k, v)]"
  by (induction xs) auto

lemma store_inv:
  assumes "store w sv path follow an = Some (sv', r)" and "any_order w" and "roots_ok sv"
  shows "roots_ok sv'" and "no_nested sv \<Longrightarrow> \<not> an \<Longrightarrow> no_nested sv'"
    and "r = Inr (key, s) \<Longrightarrow> (key, s) \<in> set (sv_stores sv') \<and> covers key path follow"
proof -
  have *: "roots_ok sv' \<and> (no_nested sv \<longrightarrow> \<not> an \<longrightarrow> no_nested sv') \<and>
      (\<forall>key s. r = Inr (key, s) \<longrightarrow> (key, s) \<in> set (sv_stores sv') \<and> covers key path follow)"
    using assms(1,2)
  proof (cases rule: store_cases)
    case (fresh s)
    let ?k = "(path, follow)"
    have new: "map_of (sv_stores sv) ?k = None"
      using fresh(3) by (force simp: map_of_eq_None_iff covers_def)
    then have upd: "AList.update ?k s (sv_stores sv) = sv_stores sv @ [(?k, s)]"
      by (simp add: map_of_eq_None_iff update_append)
    have ok: "roots_ok sv'"
      using assms(3) fresh(1,4) new by (auto simp: roots_ok_def upd map_of_eq_None_iff)
    have "\<not> nests k ?k" if "k \<in> fst ` set (sv_stores sv)" for k
      using fresh(3) that covers_nests [of k ?k] by auto
    then have "no_nested sv'" if "no_nested sv" "\<not> an"
      using that fresh(1,5) by (auto simp: no_nested_def upd ball_Un) (simp_all add: nests_def HasPrefix_def)
    with ok fresh(1,2) show ?thesis by (simp add: upd covers_def)
  qed (use assms(3) in auto)
  then show "roots_ok sv'" "no_nested sv \<Longrightarrow> \<not> an \<Longrightarrow> no_nested sv'"
    "r = Inr (key, s) \<Longrightarrow> (key, s) \<in> set (sv_stores sv') \<and> covers key path follow" by blast+
qed

lemma putStore_keys [simp]: "map fst (sv_stores (putStore sv key s)) = map fst (sv_stores sv)"
  by (simp add: putStore_def split_def o_def)

lemma putStore_fields [simp]: "sv_cacheDir (putStore sv key s) = sv_cacheDir sv" "sv_files (putStore sv key s) = sv_files sv"
    "sv_fs (putStore sv key s) = sv_fs sv" "sv_quit (putStore sv key s) = sv_quit sv" "sv_cfg (putStore sv key s) = sv_cfg sv"
  by (simp_all add: putStore_def)

lemma no_nested_keys: "map fst (sv_stores sv) = map fst (sv_stores sv') \<Longrightarrow> no_nested sv = no_nested sv'"
  by (simp add: no_nested_def flip: set_map)

lemma putStore_ok:
  assumes "roots_ok sv" and "ident s = (fst key, snd key, sv_cacheDir sv)"
  shows "roots_ok (putStore sv key s)"
proof -
  have "ident t = (fst k, snd k, sv_cacheDir sv)" if t: "(k, t) \<in> set (sv_stores (putStore sv key s))" for k t
  proof -
    obtain t' where t': "(k, t') \<in> set (sv_stores sv)" "t = (if k = key then s else t')"
      using t by (auto simp: putStore_def)
    then have "ident t' = (fst k, snd k, sv_cacheDir sv)" using assms(1) by (auto simp: roots_ok_def)
    with t'(2) assms(2) show ?thesis by simp
  qed
  with assms(1) show ?thesis unfolding roots_ok_def putStore_keys putStore_fields by blast
qed

lemma waitLoop_ready: "waitLoop ws c = Some (c', Some s) \<Longrightarrow> Ready s \<in> set ws"
  by (induction ws c rule: waitLoop.induct) (auto split: prod.splits if_splits)

lemma streamUntilReady_ident:
  "streamUntilReady w s c = Some (c', Some s') \<Longrightarrow> world_ok w \<Longrightarrow> ident s' = ident s"
  by (auto simp: streamUntilReady_def world_ok_def dest: waitLoop_ready split: if_splits)

lemma prologue_inv:
  assumes "prologue w sv req c = Some (sv', c', r)" and "world_ok w" and "roots_ok sv"
  shows "roots_ok sv'" and "no_nested sv \<Longrightarrow> \<not> rq_AllowNested req \<Longrightarrow> no_nested sv'"
proof -
  obtain sv1 x where st: "store w sv (rq_Root req) (rq_Follow req) (rq_AllowNested req) = Some (sv1, x)"
    using assms(1) by (auto simp: prologue_def split: Option.bind_splits)
  have ao: "any_order w" using assms(2) by (simp add: world_ok_def)
  note inv = store_inv [OF st ao assms(3)]
  have "sv' = sv1 \<or> (\<exists>key s s'. x = Inr (key, s) \<and> sv' = putStore sv1 key s' \<and> ident s' = ident s)"
  proof (cases x)
    case (Inl err)
    with assms(1) st show ?thesis by (simp add: prologue_def)
  next
    case (Inr ks)
    obtain key s where ks: "ks = (key, s)" by (rule prod.exhaust)
    obtain c1 ready where u: "streamUntilReady w s c = Some (c1, ready)"
      using assms(1) st Inr ks by (auto simp: prologue_def split: Option.bind_splits)
    show ?thesis
    proof (cases ready)
      case None
      with assms(1) st Inr ks u show ?thesis by (simp add: prologue_def)
    next
      case (Some s1)
      then have "ident s1 = ident s" using streamUntilReady_ident u assms(2) by blast
      then have "ident (if \<not> rq_NoSync req then w_barrier w s1 else s1) = ident s" using assms(2) by (simp add: world_ok_def)
      moreover have "sv' = putStore sv1 key (if \<not> rq_NoSync req then w_barrier w s1 else s1)"
        using assms(1) st Inr ks u Some by (simp add: prologue_def Let_def)
      ultimately show ?thesis using Inr ks by blast
    qed
  qed
  then have "roots_ok sv' \<and> map fst (sv_stores sv') = map fst (sv_stores sv1)"
  proof
    assume "\<exists>key s s'. x = Inr (key, s) \<and> sv' = putStore sv1 key s' \<and> ident s' = ident s"
    then obtain key s s' where x: "x = Inr (key, s)" "sv' = putStore sv1 key s'" "ident s' = ident s" by blast
    from inv(3) [OF x(1)] inv(1) have "ident s = (fst key, snd key, sv_cacheDir sv1)" by (auto simp: roots_ok_def)
    with x inv(1) putStore_ok [of sv1 s' key] show ?thesis by simp
  qed (use inv(1) in simp)
  then show "roots_ok sv'" "no_nested sv \<Longrightarrow> \<not> rq_AllowNested req \<Longrightarrow> no_nested sv'"
    using inv(2) no_nested_keys [of sv' sv1] by simp_all
qed

subsection \<open>Closing\<close>

lemma hostOf_paths [simp]: "indexPath (hostOf w sv k) s = indexPath (w_host w k) s" "shardDir (hostOf w sv k) s = shardDir (w_host w k) s"
  by (simp_all add: hostOf_def indexPath_def shardDir_def)

abbreviation fileOf :: "'re world \<Rightarrow> storeKey \<times> RootStore \<Rightarrow> gostring" where
  "fileOf w ks \<equiv> indexPath (w_host w (fst ks)) (snd ks)"

text \<open>What \<open>Close\<close> leaves of the index file.\<close>

definition closedFile :: "manifest_io \<Rightarrow> RootStore \<Rightarrow> persisted option \<Rightarrow> persisted option" where
  "closedFile io s file =
     (if rs_closed s then file
      else case rs_idx s of None \<Rightarrow> file | Some ix \<Rightarrow> if io = MOk then Some (savedAs s ix) else file)"

definition closedStore :: "RootStore \<Rightarrow> RootStore" where
  "closedStore s = (if rs_closed s then s else s\<lparr>rs_closed := True, rs_disk := map_option Close (rs_disk s)\<rparr>)"

definition closedFs :: "'re world \<Rightarrow> Server \<Rightarrow> storeKey \<Rightarrow> RootStore \<Rightarrow> filesystem" where
  "closedFs w sv key s =
     (case rs_disk (closedStore s) of
        None \<Rightarrow> sv_fs sv
      | Some e \<Rightarrow> (\<lambda>p. if under_dir (shardDir (w_host w key) (closedStore s)) p then en_fs e p else sv_fs sv p))"

definition afterClose :: "'re world \<Rightarrow> Server \<Rightarrow> storeKey \<Rightarrow> RootStore \<Rightarrow> Server" where
  "afterClose w sv key s =
     sv\<lparr>sv_files := (sv_files sv)(fileOf w (key, s) := closedFile (w_mio w) s (sv_files sv (fileOf w (key, s)))),
       sv_fs := closedFs w sv key s\<rparr>"

lemma CloseStoreFile_total: "CloseStoreFile io s file = Some (closedStore s, closedFile io s file)"
proof -
  have "savedAs (s\<lparr>rs_closed := True, rs_disk := d\<rparr>) ix = savedAs s ix" for d ix by (simp add: savedAs_def)
  moreover have "rs_idx (s\<lparr>rs_closed := True, rs_disk := d\<rparr>) = rs_idx s" for d by simp
  ultimately show ?thesis
    by (cases "rs_idx s") (auto simp: CloseStoreFile_def closedFile_def closedStore_def Let_def save_savedAs)
qed

lemma closedStore_simps [simp]:
  "rs_closed (closedStore s)" "ident (closedStore s) = ident s" "indexPath h (closedStore s) = indexPath h s"
  by (simp_all add: closedStore_def ident_def indexPath_def cacheKey_def)

lemma closeStore_total: "closeStore w sv key s = Some (closedStore s, afterClose w sv key s)"
  by (simp add: closeStore_def CloseStoreFile_total afterClose_def closedFs_def Let_def split: option.split)

lemma afterClose_simps [simp]:
  "sv_stores (afterClose w sv key s) = sv_stores sv" "sv_cacheDir (afterClose w sv key s) = sv_cacheDir sv"
  "sv_quit (afterClose w sv key s) = sv_quit sv" "sv_cfg (afterClose w sv key s) = sv_cfg sv"
  "sv_files (afterClose w sv key s) =
    (sv_files sv)(fileOf w (key, s) := closedFile (w_mio w) s (sv_files sv (fileOf w (key, s))))"
  by (simp_all add: afterClose_def)

text \<open>The server after all stores of a list have been closed.\<close>

fun closedAll :: "'re world \<Rightarrow> (storeKey \<times> RootStore) list \<Rightarrow> Server \<Rightarrow> Server" where
  "closedAll w [] sv = sv"
| "closedAll w ((key, s) # ss) sv = closedAll w ss (putStore (afterClose w sv key s) key (closedStore s))"

lemma closeAll_total: "closeAll w xs sv = Some (closedAll w xs sv)"
  by (induction w xs sv rule: closedAll.induct) (simp_all add: closeStore_total)

lemma closedAll_frame:
  "map fst (sv_stores (closedAll w xs sv)) = map fst (sv_stores sv)" "sv_cacheDir (closedAll w xs sv) = sv_cacheDir sv"
  "sv_quit (closedAll w xs sv) = sv_quit sv" "sv_cfg (closedAll w xs sv) = sv_cfg sv"
  by (induction w xs sv rule: closedAll.induct) simp_all

lemma roots_ok_cong:
  "sv_stores sv' = sv_stores sv \<Longrightarrow> sv_cacheDir sv' = sv_cacheDir sv \<Longrightarrow> roots_ok sv' = roots_ok sv"
  by (simp add: roots_ok_def)

lemma closedAll_ok:
  "roots_ok sv \<Longrightarrow> \<forall>(k, s) \<in> set xs. ident s = (fst k, snd k, sv_cacheDir sv) \<Longrightarrow> roots_ok (closedAll w xs sv)"
proof (induction w xs sv rule: closedAll.induct)
  case (2 w key s ss sv)
  have "roots_ok (afterClose w sv key s)" using "2.prems"(1) roots_ok_cong [of "afterClose w sv key s" sv] by simp
  then have "roots_ok (putStore (afterClose w sv key s) key (closedStore s))" using "2.prems"(2) by (intro putStore_ok) auto
  with "2.IH" "2.prems"(2) show ?case by simp
qed simp

lemma closedAll_files:
  "p \<notin> fileOf w ` set xs \<Longrightarrow> sv_files (closedAll w xs sv) p = sv_files sv p"
  by (induction w xs sv rule: closedAll.induct) simp_all

lemma closedAll_saves:
  "distinct (map (fileOf w) xs) \<Longrightarrow> ks \<in> set xs \<Longrightarrow>
    sv_files (closedAll w xs sv) (fileOf w ks) = closedFile (w_mio w) (snd ks) (sv_files sv (fileOf w ks))"
proof (induction w xs sv rule: closedAll.induct)
  case (2 w key s ss sv)
  have d: "fileOf w (key, s) \<notin> fileOf w ` set ss" "distinct (map (fileOf w) ss)" using "2.prems"(1) by simp_all
  show ?case
  proof (cases "ks \<in> set ss")
    case True
    then have "fileOf w ks \<in> fileOf w ` set ss" by (rule imageI)
    with d(1) have "fileOf w ks \<noteq> fileOf w (key, s)" by (intro notI) (simp only: simp_thms)
    with "2.IH" [OF d(2) True] show ?thesis by simp
  next
    case False
    then have "ks = (key, s)" using "2.prems"(2) by simp
    with closedAll_files [OF d(1)] show ?thesis by simp
  qed
qed simp

lemma closedAll_closed:
  "\<forall>(k, t) \<in> set (sv_stores sv). k \<notin> fst ` set xs \<longrightarrow> rs_closed t \<Longrightarrow> \<forall>(k, t) \<in> set (sv_stores (closedAll w xs sv)). rs_closed t"
proof (induction w xs sv rule: closedAll.induct)
  case (2 w key s ss sv)
  have "rs_closed t" if t: "(k, t) \<in> set (sv_stores (putStore (afterClose w sv key s) key (closedStore s)))" "k \<notin> fst ` set ss" for k t
  proof -
    obtain t' where t': "(k, t') \<in> set (sv_stores sv)" "t = (if k = key then closedStore s else t')"
      using t(1) by (auto simp: putStore_def)
    show ?thesis
    proof (cases "k = key")
      case False
      with t'(1) t(2) "2.prems" have "rs_closed t'" by force
      with t'(2) False show ?thesis by simp
    qed (use t'(2) in simp)
  qed
  then have "\<forall>(k, t) \<in> set (sv_stores (putStore (afterClose w sv key s) key (closedStore s))). k \<notin> fst ` set ss \<longrightarrow> rs_closed t"
    by blast
  from "2.IH" [OF this] show ?case by simp
qed simp

lemma store_entries: "any_order w \<Longrightarrow> roots_ok sv \<Longrightarrow>
    \<forall>(k, s) \<in> set (w_rng w (sv_stores sv)). ident s = (fst k, snd k, sv_cacheDir sv)"
  by (simp add: any_order_set roots_ok_def)

lemma stopAll_eq:
  "\<not> sv_quit sv \<Longrightarrow> stopAll w sv = Some ((closedAll w (w_rng w (sv_stores sv)) (sv\<lparr>sv_quit := True\<rparr>))\<lparr>sv_stopped := True\<rparr>)"
  by (simp add: stopAll_def doStop_def closeAll_total)

lemma stopAll_ok:
  assumes "stopAll w sv = Some sv'" and "any_order w" and "roots_ok sv"
  shows "roots_ok sv'" and "no_nested sv \<Longrightarrow> no_nested sv'"
proof -
  let ?sv = "sv\<lparr>sv_quit := True\<rparr>"
  let ?cl = "closedAll w (w_rng w (sv_stores sv)) ?sv"
  have "roots_ok ?sv" "\<forall>(k, s) \<in> set (w_rng w (sv_stores sv)). ident s = (fst k, snd k, sv_cacheDir ?sv)"
    using assms(3) roots_ok_cong [of ?sv sv] store_entries [OF assms(2,3)] by simp_all
  then have "roots_ok ?cl" by (rule closedAll_ok)
  then have "roots_ok (?cl\<lparr>sv_stopped := True\<rparr>)" using roots_ok_cong [of "?cl\<lparr>sv_stopped := True\<rparr>" ?cl] by simp
  moreover have "map fst (sv_stores (?cl\<lparr>sv_stopped := True\<rparr>)) = map fst (sv_stores sv)" by (simp add: closedAll_frame)
  moreover have "sv' = sv \<or> sv' = ?cl\<lparr>sv_stopped := True\<rparr>"
    using assms(1) by (cases "sv_quit sv") (simp add: stopAll_def, simp add: stopAll_eq)
  ultimately show "roots_ok sv'" "no_nested sv \<Longrightarrow> no_nested sv'"
    using assms(3) no_nested_keys [of sv' sv] by auto
qed

lemma forget_shape:
  assumes "handleForget w sv req c = Some (sv', c')" and "any_order w"
  obtains (none) "sv' = sv" "rq_Root req \<notin> fst ` fst ` set (sv_stores sv)"
      "c' = post c ((event ''done'')\<lparr>ev_Msg := str ''not indexed: '' @ rq_Root req\<rparr>)"
    | (one) key s where "(key, s) \<in> set (sv_stores sv)" "fst key = rq_Root req" "sv_stores sv' = AList.delete key (sv_stores sv)"
      "sv_files sv' = (sv_files sv)(fileOf w (key, s) := None)" "sv_cacheDir sv' = sv_cacheDir sv"
      "c' = post c ((event ''done'')\<lparr>ev_Msg := str ''forgot '' @ rq_Root req\<rparr>)"
proof (cases "find (\<lambda>(key, s). fst key = rq_Root req) (w_rng w (sv_stores sv))")
  case None
  then have "rq_Root req \<notin> fst ` fst ` set (sv_stores sv)"
    using any_order_set [OF assms(2), of "sv_stores sv"] by (force simp: find_None_iff)
  with None assms(1) none show thesis by (simp add: handleForget_def)
next
  case (Some ks)
  obtain key s where ks: "ks = (key, s)" by (rule prod.exhaust)
  from Some have "ks \<in> set (sv_stores sv)" "case ks of (key, s) \<Rightarrow> fst key = rq_Root req"
    using any_order_set [OF assms(2), of "sv_stores sv"] by (metis find_Some_iff nth_mem)+
  moreover have "sv' = deleteCache (hostOf w (afterClose w (sv\<lparr>sv_stores := AList.delete key (sv_stores sv)\<rparr>) key s) key) (closedStore s)
      (afterClose w (sv\<lparr>sv_stores := AList.delete key (sv_stores sv)\<rparr>) key s)"
    "c' = post c ((event ''done'')\<lparr>ev_Msg := str ''forgot '' @ rq_Root req\<rparr>)"
    using Some ks assms(1) by (simp_all add: handleForget_def closeStore_total Let_def)
  ultimately show thesis using ks by (intro one [of key s]) (simp_all add: deleteCache_def)
qed

lemma delete_ok:
  assumes "roots_ok sv" and "sv_stores sv' = AList.delete key (sv_stores sv)" and "sv_cacheDir sv' = sv_cacheDir sv"
  shows "roots_ok sv'" and "no_nested sv \<Longrightarrow> no_nested sv'"
proof -
  have "set (sv_stores sv') \<subseteq> set (sv_stores sv)" using assms(2) by (auto simp: AList.delete_eq)
  moreover have "distinct (map fst (sv_stores sv'))" using assms(1,2) by (simp add: roots_ok_def distinct_delete)
  ultimately show "roots_ok sv'" "no_nested sv \<Longrightarrow> no_nested sv'"
    using assms(1,3) by (auto simp: roots_ok_def) (auto simp: no_nested_def)
qed

lemma handle_inv:
  assumes "handle w sv r c = Some (sv', c')" and "world_ok w" and "roots_ok sv"
  shows "roots_ok sv'" and "no_nested sv \<Longrightarrow> (\<And>req. r = Some req \<Longrightarrow> \<not> rq_AllowNested req) \<Longrightarrow> no_nested sv'"
proof -
  have ao: "any_order w" using assms(2) by (simp add: world_ok_def)
  have "roots_ok sv' \<and> (no_nested sv \<longrightarrow> (\<forall>req. r = Some req \<longrightarrow> \<not> rq_AllowNested req) \<longrightarrow> no_nested sv')"
  proof (cases r)
    case None
    with assms(1,3) show ?thesis by (simp add: handle_def)
  next
    case (Some req)
    have pro: "prologue w sv req c = Some (sv', c1, x) \<Longrightarrow> ?thesis" for c1 x
      using prologue_inv [OF _ assms(2,3)] Some by auto
    have srch: "handleSearch w sv req c = Some (sv', c') \<Longrightarrow> sv' = sv \<or> (\<exists>c1 x. prologue w sv req c = Some (sv', c1, x))"
      by (auto simp: handleSearch_def Let_def split: sum.splits option.splits Option.bind_splits)
    have sym: "handleSymbol w sv req c = Some (sv', c') \<Longrightarrow> \<exists>c1 x. prologue w sv req c = Some (sv', c1, x)"
      by (auto simp: handleSymbol_def split: option.splits Option.bind_splits)
    consider "sv' = sv" | c1 x where "prologue w sv req c = Some (sv', c1, x)" | "handleForget w sv req c = Some (sv', c')"
      | "stopAll w sv = Some sv'"
      using assms(1) Some srch sym by (auto simp: handle_def split: if_splits Option.bind_splits)
    then show ?thesis
    proof cases
      case 3
      then show ?thesis using ao
      proof (cases rule: forget_shape)
        case (one key s)
        then show ?thesis using delete_ok [OF assms(3) one(3,5)] by simp
      qed (use assms(3) in simp)
    next
      case 4
      then show ?thesis using stopAll_ok [OF 4 ao assms(3)] by simp
    qed (use pro assms(3) in auto)
  qed
  then show "roots_ok sv'" "no_nested sv \<Longrightarrow> (\<And>req. r = Some req \<Longrightarrow> \<not> rq_AllowNested req) \<Longrightarrow> no_nested sv'" by blast+
qed

subsection \<open>Finding a store\<close>

lemma find_any_order:
  assumes "mset xs = mset ys" and "\<And>x y. x \<in> set xs \<Longrightarrow> y \<in> set xs \<Longrightarrow> P x \<Longrightarrow> P y \<Longrightarrow> x = y"
  shows "find P xs = find P ys"
proof -
  have set: "set xs = set ys" by (rule mset_eq_setD [OF assms(1)])
  have hit: "x \<in> set zs \<and> P x" if "find P zs = Some x" for x zs using that by (metis find_Some_iff nth_mem)
  show ?thesis
  proof (cases "find P xs")
    case None
    then show ?thesis using set by (metis find_None_iff)
  next
    case (Some x)
    then obtain y where y: "find P ys = Some y" using set hit [OF Some] by (cases "find P ys") (auto simp: find_None_iff)
    from hit [OF Some] hit [OF y] assms(2) [of x y] set y Some show ?thesis by simp
  qed
qed

lemma nestedRoots_any_order:
  "any_order w \<Longrightarrow> any_order (w\<lparr>w_rng := g\<rparr>) \<Longrightarrow>
    mset (nestedRoots (w\<lparr>w_rng := g\<rparr>) sv path follow) = mset (nestedRoots w sv path follow)"
  unfolding nestedRoots_def mset_map mset_filter by (simp add: any_order_def)

subsection \<open>A server with a few stores\<close>

definition exQuick :: "gostring world" where
  "exQuick = exWorld\<lparr>w_wakes := (\<lambda>s. [Ready s])\<rparr>"

definition exOther :: RootStore where "exOther = exStore0\<lparr>rs_root := str ''q''\<rparr>"
definition exFollow :: RootStore where "exFollow = exStore0\<lparr>rs_follow := True\<rparr>"

definition exServing :: "(storeKey \<times> RootStore) list \<Rightarrow> Server" where
  "exServing stores = exServer\<lparr>sv_stores := stores\<rparr>"

lemma exQuick_ok: "world_ok exQuick" "any_order exQuick" "any_order exWorld"
  by (simp_all add: world_ok_def exQuick_def exWorld_def any_order_def)

lemma ex_idents: "ident exStore0 = (str ''r'', False, str ''c'')" "ident exOther = (str ''q'', False, str ''c'')"
    "ident exFollow = (str ''r'', True, str ''c'')" "sv_cacheDir exServer = str ''c''"
  by (simp_all add: ident_def exStore0_def exOther_def exFollow_def exStore_def exServer_def NewServer_def)

lemma ex_roots: "str ''r'' \<noteq> str ''q''" "str ''q'' \<noteq> str ''r''" by code_simp+

lemma ex_store0: "store_ok exStore0" "rs_state exStore0 = StateIndexing" "rs_disk exStore0 = None" "rs_root exStore0 = str ''r''"
  by (rule newRootStore_mem [OF ex_new0], simp add: exCfg0_def exCfgOf_def Default_def)+

subsection \<open>Properties\<close>

text \<open>A cleaned absolute path other than the root directory is a list of steps, each after a slash; one directory lies below another
  when the steps of the other are a proper beginning of its own.\<close>

definition pathSteps :: "gostring \<Rightarrow> gostring list" where
  "pathSteps p = filter (\<lambda>c. c \<noteq> []) (splitSlash p)"

definition cleanRoot :: "gostring \<Rightarrow> bool" where
  "cleanRoot p \<longleftrightarrow> pathSteps p \<noteq> [] \<and> p = concat (map (Cons slash) (pathSteps p))"

definition separate_roots :: "Server \<Rightarrow> bool" where
  "separate_roots sv \<longleftrightarrow> (\<forall>(p, follow) \<in> fst ` set (sv_stores sv). \<forall>(q, follow') \<in> fst ` set (sv_stores sv).
     follow = follow' \<longrightarrow> cleanRoot p \<longrightarrow> cleanRoot q \<longrightarrow> \<not> strict_prefix (pathSteps p) (pathSteps q))"

lemma below_prefix:
  assumes "cleanRoot p" and "cleanRoot q" and "strict_prefix (pathSteps p) (pathSteps q)"
  shows "HasPrefix q (p @ [slash])"
proof -
  obtain c cs where below: "pathSteps q = pathSteps p @ c # cs" using assms(3) by (rule strict_prefixE')
  have p: "concat (map (Cons slash) (pathSteps p)) = p" using assms(1) unfolding cleanRoot_def by (elim conjE) (rule sym)
  have q: "concat (map (Cons slash) (pathSteps q)) = q" using assms(2) unfolding cleanRoot_def by (elim conjE) (rule sym)
  have "concat (map (Cons slash) (pathSteps q)) =
      concat (map (Cons slash) (pathSteps p)) @ slash # c @ concat (map (Cons slash) cs)" unfolding below by simp
  then have "q = p @ slash # c @ concat (map (Cons slash) cs)" unfolding p q .
  then show ?thesis by (simp add: HasPrefix_def)
qed

lemma no_nested_separate: "no_nested sv \<Longrightarrow> separate_roots sv"
  using below_prefix unfolding no_nested_def separate_roots_def nests_def by fastforce

lemma serve_step:
  assumes "serve (w # ws) (r # rs) sv' = Some sv"
  obtains sv1 c1 where "handle w sv' r \<lparr>cn_sent = [], cn_room = None\<rparr> = Some (sv1, c1)" "serve ws rs sv1 = Some sv"
  using assms by (auto split: Option.bind_splits)

lemma serve_roots_ok:
  "roots_ok sv' \<Longrightarrow> \<forall>w \<in> set ws. world_ok w \<Longrightarrow> serve ws rs sv' = Some sv \<Longrightarrow> roots_ok sv"
proof (induction ws rs sv' rule: serve.induct)
  case (1 w ws r rs sv')
  then obtain sv1 c1 where s: "handle w sv' r \<lparr>cn_sent = [], cn_room = None\<rparr> = Some (sv1, c1)" "serve ws rs sv1 = Some sv"
    by (elim serve_step)
  then have "roots_ok sv1" using handle_inv(1) "1.prems" by auto
  with "1.IH" [OF s(1) refl _ _ s(2)] "1.prems"(2) show ?case by simp
qed simp_all

lemma serve_no_nested:
  "roots_ok sv' \<Longrightarrow> no_nested sv' \<Longrightarrow> \<forall>w \<in> set ws. world_ok w \<Longrightarrow> \<forall>req. Some req \<in> set rs \<longrightarrow> \<not> rq_AllowNested req \<Longrightarrow>
     serve ws rs sv' = Some sv \<Longrightarrow> no_nested sv"
proof (induction ws rs sv' rule: serve.induct)
  case (1 w ws r rs sv')
  then obtain sv1 c1 where s: "handle w sv' r \<lparr>cn_sent = [], cn_room = None\<rparr> = Some (sv1, c1)" "serve ws rs sv1 = Some sv"
    by (elim serve_step)
  then have "roots_ok sv1" "no_nested sv1" using handle_inv [OF s(1)] "1.prems" by auto
  with "1.IH" [OF s(1) refl _ _ _ _ s(2)] "1.prems"(3,4) show ?case by simp
qed simp_all

text \<open>C8. Whatever requests a server has answered, there is at most one store for a root and a treatment of symbolic links, and every store
  keeps the root it was made for. When none of the requests allowed nested roots, then no root lies below another one with the same treatment
  of links, as a directory lies below another: its path continues the steps of the other. The roots are cleaned absolute paths, as
  clients send them, other than the root directory itself: a store of that one has roots below it, for the code looks for a
  second slash after it.\<close>

theorem roots_invariant:
  assumes "\<forall>w \<in> set ws. world_ok w" and "serve ws rs (NewServer cacheDir cfg files fs) = Some sv"
  shows "roots_ok sv \<and> ((\<forall>req. Some req \<in> set rs \<longrightarrow> \<not> rq_AllowNested req) \<longrightarrow> separate_roots sv)"
proof -
  have new: "roots_ok (NewServer cacheDir cfg files fs)" "no_nested (NewServer cacheDir cfg files fs)"
    by (simp_all add: NewServer_def roots_ok_def no_nested_def)
  with serve_roots_ok [OF new(1) assms] serve_no_nested [OF new assms(1) _ assms(2)] show ?thesis
    using no_nested_separate by blast
qed

theorem roots_invariant_witness:
  "\<exists>sv. serve [exQuick] [Some (exReq ''search'' ''r'' ''b'')] exServer = Some sv \<and> roots_ok sv \<and> separate_roots sv"
proof -
  let ?req = "exReq ''search'' ''r'' ''b''" and ?c = "\<lparr>cn_sent = [], cn_room = None\<rparr>" and ?key = "(str ''r'', False)"
  have req: "rq_Root ?req = str ''r''" "rq_Op ?req = str ''search''" "rq_Follow ?req = False" "\<not> rq_AllowNested ?req" "rq_NoCase ?req = False"
    "rq_Fixed ?req" "rq_Pattern ?req \<noteq> []" "\<not> HasNonASCII (rq_Pattern ?req)" "rq_Count ?req" "globs_ok ?req" "rq_NoSync ?req = False"
    by (simp_all add: exReq_def globs_ok_def badGlob_def HasNonASCII_def str_def)
  obtain m where m: "MatcherFor (w_L exQuick) (rq_Pattern ?req) True (rq_NoCase ?req) = Inr m"
    by (cases "MatcherFor (w_L exQuick) (rq_Pattern ?req) True (rq_NoCase ?req)") (auto simp: exQuick_def exWorld_def MatcherFor_def Let_def)
  have h: "hostOf exQuick sv k = exHost\<lparr>ho_fs := sv_fs sv\<rparr>" for sv k by (simp add: exQuick_def exWorld_def hostOf_def)
  have sv: "sv_cfg exServer = exCfg0" "sv_cacheDir exServer = str ''c''" "sv_stores exServer = []" "sv_fs exServer = Map.empty"
    "sv_files exServer = Map.empty" by (simp_all add: exServer_def NewServer_def)
  let ?sv1 = "exServer\<lparr>sv_stores := AList.update ?key exStore0 (sv_stores exServer)\<rparr>"
  have "store exQuick exServer (str ''r'') False False = Some (?sv1, Inr (?key, exStore0))"
  proof (rule store_fresh [OF exQuick_ok(2) _ _ refl])
    show "newRootStore (hostOf exQuick exServer ?key) (sv_files exServer (indexFileOf (hostOf exQuick exServer ?key) (sv_cacheDir exServer) ?key))
        True (str ''r'') (sv_cacheDir exServer) (sv_cfg exServer) False = Some (Inr exStore0)"
      unfolding sv h ex_host0 by (rule ex_new0)
  qed (simp_all add: unindexed_def sv, simp add: exQuick_def exWorld_def)
  moreover have "streamUntilReady exQuick exStore0 ?c = Some (?c, Some exStore0)"
    by (simp add: streamUntilReady_def ex_store0 exQuick_def)
  moreover have "w_barrier exQuick = (\<lambda>s. s)" by (simp add: exQuick_def exWorld_def)
  ultimately obtain pr where pro: "prologue exQuick exServer ?req ?c = Some (putStore ?sv1 ?key exStore0, ?c, Some pr)"
    "pr_store pr = exStore0" by (simp add: prologue_def req Let_def)
  have "sched_ok (exHost\<lparr>ho_fs := fs\<rparr>)" for fs using ex_env(2) by (simp add: sched_ok_def)
  then have "handleSearch exQuick exServer ?req ?c = Some (putStore ?sv1 ?key exStore0,
      sent ?c (countAnswer exQuick (hostOf exQuick (putStore ?sv1 ?key exStore0) (pr_key pr)) ?req pr))"
    by (intro handleSearch_count [OF m req(6-10) pro(1)]) (simp_all add: stays_def pro(2) ex_store0 h)
  then have "serve [exQuick] [Some ?req] exServer = Some (putStore ?sv1 ?key exStore0)"
    by (simp add: handle_def req)
  moreover from this have "roots_ok (putStore ?sv1 ?key exStore0) \<and> separate_roots (putStore ?sv1 ?key exStore0)"
    using roots_invariant [of "[exQuick]" "[Some ?req]" "str ''c''" exCfg0 Map.empty Map.empty] exQuick_ok(1) req(4)
    by (simp add: exServer_def)
  ultimately show ?thesis by blast
qed

text \<open>C15. Which store answers a request, or that none may, does not depend on the order in which Go ranges over the map of
  the stores, as long as roots do not nest.\<close>

theorem store_any_order:
  assumes "roots_ok sv" and "no_nested sv" and "any_order w" and "any_order (w\<lparr>w_rng := g\<rparr>)"
  shows "store (w\<lparr>w_rng := g\<rparr>) sv path follow an = store w sv path follow an"
proof -
  let ?P = "\<lambda>(key, s). covers key path follow"
  have "x = y" if m: "x \<in> set (sv_stores sv)" "y \<in> set (sv_stores sv)" "?P x" "?P y" for x y
  proof -
    obtain k s k' s' where xy: "x = (k, s)" "y = (k', s')" by (metis prod.exhaust)
    from m(1,2) xy have keys: "k \<in> fst ` set (sv_stores sv)" "k' \<in> fst ` set (sv_stores sv)" by force+
    have "k = k'" using covers_unique [of k path follow k'] m(3,4) xy keys assms(2) by (auto simp: no_nested_def)
    with m xy assms(1) show ?thesis by (auto simp: roots_ok_def dest: eq_key_imp_eq_value)
  qed
  moreover have "set (w_rng w (sv_stores sv)) = set (sv_stores sv)" by (rule any_order_set [OF assms(3)])
  moreover have "mset (w_rng w (sv_stores sv)) = mset (w_rng (w\<lparr>w_rng := g\<rparr>) (sv_stores sv))"
    using assms(3,4) by (simp add: any_order_def)
  ultimately have f: "find ?P (w_rng (w\<lparr>w_rng := g\<rparr>) (sv_stores sv)) = find ?P (w_rng w (sv_stores sv))"
    by (intro find_any_order [symmetric]) auto
  note n = nestedRoots_any_order [OF assms(3,4), of sv path follow]
  have e: "nestedError path (nestedRoots (w\<lparr>w_rng := g\<rparr>) sv path follow) = nestedError path (nestedRoots w sv path follow)"
    using properties_for_sort [of "sort (nestedRoots w sv path follow)" "nestedRoots (w\<lparr>w_rng := g\<rparr>) sv path follow"] n
    by (simp add: nestedError_def)
  have l: "length (nestedRoots (w\<lparr>w_rng := g\<rparr>) sv path follow) = length (nestedRoots w sv path follow)"
    using n by (rule mset_eq_length)
  have h: "hostOf (w\<lparr>w_rng := g\<rparr>) = hostOf w" by (simp add: hostOf_def fun_eq_iff)
  have wt: "w_watch (w\<lparr>w_rng := g\<rparr>) = w_watch w" by simp
  show ?thesis unfolding store_def f e l h wt ..
qed

theorem store_any_order_witness:
  "store (exWorld\<lparr>w_rng := rev\<rparr>) (exServing [((str ''r'', False), exStore0), ((str ''q'', False), exOther)]) (str ''q/x'') False False =
   Some (exServing [((str ''r'', False), exStore0), ((str ''q'', False), exOther)], Inr ((str ''q'', False), exOther))"
proof -
  let ?sv = "exServing [((str ''r'', False), exStore0), ((str ''q'', False), exOther)]"
  have ok: "roots_ok ?sv" "no_nested ?sv"
    using ex_roots by (simp_all add: roots_ok_def exServing_def ex_idents no_nested_def nests_def HasPrefix_def) (simp add: str_def)
  have "any_order (exWorld\<lparr>w_rng := rev\<rparr>)" by (simp add: any_order_def)
  from store_any_order [OF ok exQuick_ok(3) this]
  have "store (exWorld\<lparr>w_rng := rev\<rparr>) ?sv (str ''q/x'') False False = store exWorld ?sv (str ''q/x'') False False" .
  also have "\<dots> = Some (?sv, Inr ((str ''q'', False), exOther))"
  proof -
    have "covers (str ''q'', False) (str ''q/x'') False" "\<not> covers (str ''r'', False) (str ''q/x'') False" by code_simp+
    then show ?thesis by (simp add: store_def exServing_def exWorld_def)
  qed
  finally show ?thesis .
qed

text \<open>C16. \<open>forget\<close> of a root that is indexed both with and without following symbolic links drops only one of the two
  stores: exactly one of them is still there, which one is left to the order of the map.\<close>

theorem forget_keeps_variant:
  assumes "handleForget w sv req c = Some (sv', c')" and "any_order w" and "roots_ok sv"
    and "(rq_Root req, False) \<in> fst ` set (sv_stores sv)" and "(rq_Root req, True) \<in> fst ` set (sv_stores sv)"
  shows "(rq_Root req, False) \<in> fst ` set (sv_stores sv') \<longleftrightarrow> (rq_Root req, True) \<notin> fst ` set (sv_stores sv')"
  using assms(1,2)
proof (cases rule: forget_shape)
  case none
  with assms(4) show ?thesis by force
next
  case (one key s)
  have "fst ` set (sv_stores sv') = fst ` set (sv_stores sv) - {key}"
    using delete_keys [of key "sv_stores sv"] by (metis one(3) set_map set_removeAll)
  with assms(4,5) one(2) show ?thesis by (cases key) auto
qed

theorem forget_keeps_variant_witness:
  "\<exists>sv' c'. handleForget exWorld (exServing [((str ''r'', False), exStore0), ((str ''r'', True), exFollow)]) (exReq ''forget'' ''r'' [])
     \<lparr>cn_sent = [], cn_room = None\<rparr> = Some (sv', c') \<and>
     (((str ''r'', False) \<in> fst ` set (sv_stores sv')) \<longleftrightarrow> (str ''r'', True) \<notin> fst ` set (sv_stores sv'))"
proof -
  let ?sv = "exServing [((str ''r'', False), exStore0), ((str ''r'', True), exFollow)]" and ?req = "exReq ''forget'' ''r'' []"
  let ?c = "\<lparr>cn_sent = [], cn_room = None\<rparr>"
  have root: "rq_Root ?req = str ''r''" by (simp add: exReq_def)
  have ok: "roots_ok ?sv" by (simp add: roots_ok_def exServing_def ex_idents)
  obtain sv' c' where f: "handleForget exWorld ?sv ?req ?c = Some (sv', c')"
    by (simp add: handleForget_def closeStore_total exServing_def exWorld_def root Let_def)
  have in_map: "(rq_Root ?req, False) \<in> fst ` set (sv_stores ?sv)" "(rq_Root ?req, True) \<in> fst ` set (sv_stores ?sv)"
    by (simp_all add: exServing_def root)
  from forget_keeps_variant [OF f exQuick_ok(3) ok in_map] f root show ?thesis by auto
qed

text \<open>C9. A stopped server leaves its index on the disk: the next server, started on the files it has left, opens each
  root in the reconciling state with exactly the files, contents and definitions that the store had.\<close>

theorem stop_then_restart:
  assumes "stopAll w sv = Some sv'" and "\<not> sv_quit sv" and "any_order w" and "roots_ok sv" and "w_mio w = MOk"
    and "inj_on (fileOf w) (set (sv_stores sv))"
    and "(key, s) \<in> set (sv_stores sv)" and "store_ok s" and "\<not> rs_closed s" and "EngineChoice cfg \<in> {str ''mem'', str ''auto''}"
    and "h = hostOf w' (NewServer (sv_cacheDir sv) cfg (sv_files sv') fs) key" and "ho_sha256 h = ho_sha256 (w_host w key)" and "sched_ok h"
  shows "sv_stopped sv' \<and> (\<forall>t \<in> snd ` set (sv_stores sv'). rs_closed t) \<and>
    (\<exists>s2. newRootStore h (sv_files sv' (indexFileOf h (sv_cacheDir sv) key)) True (fst key) (sv_cacheDir sv) cfg (snd key) = Some (Inr s2) \<and>
       st_files s2 = st_files s \<and> rs_state s2 = StateReconciling)"
proof -
  let ?xs = "w_rng w (sv_stores sv)" and ?sv = "sv\<lparr>sv_quit := True\<rparr>"
  let ?cl = "closedAll w ?xs ?sv"
  have sv': "sv' = ?cl\<lparr>sv_stopped := True\<rparr>" using assms(1,2) by (simp add: stopAll_eq)
  have xs: "set ?xs = set (sv_stores sv)" by (rule any_order_set [OF assms(3)])
  have closed: "\<forall>(k, t) \<in> set (sv_stores ?cl). rs_closed t"
    by (rule closedAll_closed) (auto simp: xs image_iff)
  obtain ix where ix: "rs_idx s = Some ix" "ix_inv ix" using store_ok_parts [OF assms(8)] by metis
  have "distinct (sv_stores sv)" using assms(4) by (simp add: roots_ok_def distinct_map)
  then have "distinct ?xs" using assms(3) by (metis any_order_def mset_eq_imp_distinct_iff)
  then have "distinct (map (fileOf w) ?xs)" using assms(6) xs by (simp add: distinct_map)
  moreover have "(key, s) \<in> set ?xs" using assms(7) xs by simp
  ultimately have "sv_files ?cl (fileOf w (key, s)) = closedFile (w_mio w) s (sv_files ?sv (fileOf w (key, s)))"
    using closedAll_saves [of w ?xs "(key, s)" ?sv] by simp
  moreover have "fileOf w (key, s) = indexFileOf h (sv_cacheDir sv) key"
  proof -
    have "ident s = (fst key, snd key, sv_cacheDir sv)" using assms(4,7) by (auto simp: roots_ok_def)
    then show ?thesis using assms(12) by (simp add: indexPath_def indexFileOf_def cacheKey_def ident_def)
  qed
  ultimately have saved: "sv_files sv' (indexFileOf h (sv_cacheDir sv) key) = Some (savedAs s ix)"
    using assms(5,9) ix(1) sv' by (simp add: closedFile_def)
  have root: "rs_root s = fst key" using assms(4,7) by (auto simp: roots_ok_def ident_def)
  let ?engine = "if EngineChoice cfg = str ''auto'' then str ''mem'' else EngineChoice cfg"
  let ?s0 = "\<lparr>rs_root = fst key, rs_follow = snd key, rs_engineType = ?engine, rs_idx = None, rs_disk = None,
       rs_ign = AddPatterns (LoadRules (ho_control h)) (Exclude cfg),
       rs_gitTree = (if Gitignore cfg then Some (NewGitignoreTree (fst key)) else None),
       rs_stream = [], rs_state = StateIndexing, rs_indexed = 0, rs_total = 0, rs_isReady = False, rs_saveTimer = False,
       rs_reloads = 0, rs_cacheDir = sv_cacheDir sv, rs_closed = False, rs_cfg = cfg, rs_skippedLarge = 0, rs_skippedBudget = 0,
       rs_skippedBinary = 0, rs_skippedError = 0, rs_totalBytes = 0\<rparr>"
  obtain ix' where ix': "loadPersisted h (Some (savedAs s ix)) ?s0 = Some (Some ix', ?s0\<lparr>rs_totalBytes := mapBytes (mem_abs ix)\<rparr>)"
    "mem_abs ix' = mem_abs ix"
    using load_savedAs [OF ix(2) assms(13), of ?s0 s] root by auto
  have "str ''mem'' \<noteq> str ''disk''" by code_simp
  then have "?engine \<noteq> str ''disk''" using assms(10) by auto
  then have "newRootStore h (Some (savedAs s ix)) True (fst key) (sv_cacheDir sv) cfg (snd key) =
      Some (Inr (?s0\<lparr>rs_totalBytes := mapBytes (mem_abs ix), rs_idx := Some ix', rs_state := StateReconciling\<rparr>))"
    using ix'(1) by (simp add: newRootStore_def Let_def)
  moreover have "st_files s = mem_abs ix" using ix(1) by (simp add: st_files_def)
  ultimately show ?thesis
    using closed sv' ix'(2) unfolding saved by (auto simp: st_files_def)
qed

theorem stop_then_restart_witness:
  "\<exists>sv' s2. stopAll exWorld (exServing [((str ''r'', False), exStore0)]) = Some sv' \<and> sv_stopped sv' \<and>
     newRootStore exHost (sv_files sv' (indexFileOf exHost (str ''c'') (str ''r'', False))) True (str ''r'') (str ''c'') exCfg0 False =
       Some (Inr s2) \<and> rs_state s2 = StateReconciling"
proof -
  let ?sv = "exServing [((str ''r'', False), exStore0)]" and ?key = "(str ''r'', False)"
  have sv: "\<not> sv_quit ?sv" "sv_cacheDir ?sv = str ''c''" "(?key, exStore0) \<in> set (sv_stores ?sv)" "w_mio exWorld = MOk"
    "\<not> rs_closed exStore0" "EngineChoice exCfg0 \<in> {str ''mem'', str ''auto''}"
    "ho_sha256 exHost = ho_sha256 (w_host exWorld ?key)"
    by (simp_all add: exServing_def exServer_def NewServer_def exWorld_def exStore0_def exStore_def exCfg0_def exCfgOf_def Default_def)
  have ok: "roots_ok ?sv" by (simp add: roots_ok_def exServing_def ex_idents)
  have inj: "inj_on (fileOf exWorld) (set (sv_stores ?sv))" by (simp add: exServing_def)
  obtain sv' where stop: "stopAll exWorld ?sv = Some sv'" using stopAll_eq [OF sv(1)] by blast
  have host: "exHost = hostOf exWorld (NewServer (sv_cacheDir ?sv) exCfg0 (sv_files sv') Map.empty) ?key"
    by (simp add: NewServer_def)
  from stop_then_restart [OF stop sv(1) exQuick_ok(3) ok sv(4) inj sv(3) ex_store0(1) sv(5,6) host sv(7) ex_env(2)] stop
  show ?thesis by (auto simp: sv(2))
qed

end
