(* ===== verification/Client.thy ===== *)
theory Client
  imports ServerRoots
begin

text \<open>
  \<open>cmd/gcgrep\<close>: the command-line client. It sends one request, prints the events of the daemon and scans the files of
  the stream set itself (\<open>stream.go\<close>); the exit code is grep's. What the program writes is a list of lines for standard
  output, JSON objects for standard output and messages for standard error, in order. The standard library's
  flag parser and the operating system are arguments.
\<close>

subsection \<open>Output\<close>

datatype written = Stdout gostring | StdoutJSON Event | Stderr gostring | Usage

text \<open>\<open>%d\<close>\<close>

definition intDecimal :: "int \<Rightarrow> gostring" where
  "intDecimal i = (if i < 0 then 45 # decimal (nat (- i)) else decimal (nat i))"

record cliOpts =
  co_req :: Request
  co_jsonOut :: bool
  co_pathArg :: gostring

text \<open>\<open>os.ReadFile\<close> with the error's text; \<open>os.Open\<close> with the bytes that can be read and whether the reads end with an
  error other than the end of the file.\<close>

record 're client =
  cl_L :: "'re regexlib"
  cl_cfg :: Config
  cl_ReadFile :: "gostring \<Rightarrow> gostring + bytes"
  cl_Open :: "gostring \<Rightarrow> (bytes \<times> bool) option"

subsection \<open>stream.go\<close>

record streamScan =
  ss_out :: "written list"
  ss_limitLeft :: int
  ss_matches :: int
  ss_fileHits :: int
  ss_truncated :: bool
  ss_unreadable :: int

definition filesOnly :: "cliOpts \<Rightarrow> bool" where
  "filesOnly opt \<longleftrightarrow> rq_Files (co_req opt) \<or> rq_Count (co_req opt)"

definition emitOut :: "streamScan \<Rightarrow> written \<Rightarrow> streamScan" where
  "emitOut ss out = ss\<lparr>ss_out := ss_out ss @ [out]\<rparr>"

definition matchOutput :: "cliOpts \<Rightarrow> gostring \<Rightarrow> int \<Rightarrow> gostring \<Rightarrow> nat \<Rightarrow> bytes \<Rightarrow> nat \<Rightarrow> written" where
  "matchOutput opt pre displayCols rel lineNo text col =
     (let rendered = TruncateWindow text (int col) displayCols in
      if co_jsonOut opt then StdoutJSON ((event ''match'')\<lparr>ev_File := rel, ev_Line := int lineNo, ev_Text := rendered\<rparr>)
      else Stdout (pre @ rel @ str '':'' @ intDecimal (int lineNo) @ str '':'' @ rendered))"

definition emitMatch :: "cliOpts \<Rightarrow> gostring \<Rightarrow> int \<Rightarrow> streamScan \<Rightarrow> gostring \<Rightarrow> nat \<Rightarrow> bytes \<Rightarrow> nat \<Rightarrow> streamScan" where
  "emitMatch opt pre displayCols ss rel lineNo text col = emitOut ss (matchOutput opt pre displayCols rel lineNo text col)"

definition countOutput :: "cliOpts \<Rightarrow> gostring \<Rightarrow> gostring \<Rightarrow> int \<Rightarrow> written" where
  "countOutput opt pre rel n =
     (if co_jsonOut opt
      then let ev = (event ''filecount'')\<lparr>ev_File := rel\<rparr> in
           StdoutJSON (if rq_Count (co_req opt) then ev\<lparr>ev_Count := n\<rparr> else ev)
      else if rq_Count (co_req opt) then Stdout (pre @ rel @ str '':'' @ intDecimal n)
      else Stdout (pre @ rel))"

definition emitFileCount :: "cliOpts \<Rightarrow> gostring \<Rightarrow> streamScan \<Rightarrow> gostring \<Rightarrow> int \<Rightarrow> streamScan" where
  "emitFileCount opt pre ss rel n = emitOut ss (countOutput opt pre rel n)"

text \<open>One line that is not empty before its newline is cut; the flag tells whether the loop over the lines ends here.\<close>

definition scanLine ::
    "'re client \<Rightarrow> cliOpts \<Rightarrow> gostring \<Rightarrow> int \<Rightarrow> 're Matcher \<Rightarrow> gostring \<Rightarrow> nat \<Rightarrow> bytes \<Rightarrow> streamScan \<Rightarrow> int \<Rightarrow>
       streamScan \<times> int \<times> bool" where
  "scanLine cl opt pre displayCols m rel lineNo ln ss n =
     (case FindFirst (cl_L cl) m ln of
        None \<Rightarrow> (ss, n, False)
      | Some loc \<Rightarrow>
          if \<not> filesOnly opt then
            if ss_limitLeft ss = 0 then (ss\<lparr>ss_truncated := True\<rparr>, n + 1, True)
            else
              let ss = emitMatch opt pre displayCols ss rel lineNo ln (fst loc) in
              (if ss_limitLeft ss > 0 then ss\<lparr>ss_limitLeft := ss_limitLeft ss - 1\<rparr> else ss, n + 1, False)
          else (ss, n + 1, rq_Files (co_req opt)))"

text \<open>The loop around \<open>ReadBytes\<close>: \<open>rest\<close> is what has not been read, \<open>bad\<close> whether reading ends in an error.\<close>

function scanLoop ::
    "'re client \<Rightarrow> cliOpts \<Rightarrow> gostring \<Rightarrow> int \<Rightarrow> 're Matcher \<Rightarrow> gostring \<Rightarrow> bool \<Rightarrow> bytes \<Rightarrow> nat \<Rightarrow> streamScan \<Rightarrow> int \<Rightarrow>
       streamScan \<times> int" where
  "scanLoop cl opt pre displayCols m rel bad rest lineNo ss n =
     (case IndexByte rest newline of
        Some i \<Rightarrow>
          (case scanLine cl opt pre displayCols m rel (lineNo + 1) (take i rest) ss n of (ss, n, stop) \<Rightarrow>
             if stop then (ss, n) else scanLoop cl opt pre displayCols m rel bad (drop (i + 1) rest) (lineNo + 1) ss n)
      | None \<Rightarrow>
          (case (if rest = [] then (ss, n, False) else scanLine cl opt pre displayCols m rel (lineNo + 1) rest ss n) of (ss, n, stop) \<Rightarrow>
             if stop then (ss, n) else (if bad then ss\<lparr>ss_unreadable := ss_unreadable ss + 1\<rparr> else ss, n)))"
  by pat_completeness auto
termination
  by (relation "measure (\<lambda>(cl, opt, pre, displayCols, m, rel, bad, rest, lineNo, ss, n). length rest)") (auto simp: IndexByte_Some_iff)

declare scanLoop.simps [simp del]

definition scanFile :: "'re client \<Rightarrow> cliOpts \<Rightarrow> gostring \<Rightarrow> int \<Rightarrow> 're Matcher \<Rightarrow> gostring \<Rightarrow> streamScan \<Rightarrow> streamScan" where
  "scanFile cl opt pre displayCols m rel ss =
     (case cl_Open cl (Join (rq_Root (co_req opt)) rel) of
        None \<Rightarrow> ss\<lparr>ss_unreadable := ss_unreadable ss + 1\<rparr>
      | Some (content, bad) \<Rightarrow>
          if IndexByte (take 8192 content) 0 \<noteq> None \<and> \<not> rq_Text (co_req opt) then ss
          else case scanLoop cl opt pre displayCols m rel bad content 0 ss 0 of (ss, n) \<Rightarrow>
            if n > 0 then
              let ss = ss\<lparr>ss_fileHits := ss_fileHits ss + 1, ss_matches := ss_matches ss + n\<rparr> in
              if filesOnly opt then emitFileCount opt pre ss rel n else ss
            else ss)"

fun scanFiles :: "'re client \<Rightarrow> cliOpts \<Rightarrow> gostring \<Rightarrow> int \<Rightarrow> 're Matcher \<Rightarrow> gostring list \<Rightarrow> streamScan \<Rightarrow> streamScan" where
  "scanFiles cl opt pre displayCols m [] ss = ss"
| "scanFiles cl opt pre displayCols m (rel # rels) ss =
     (if ss_limitLeft ss = 0 \<and> \<not> filesOnly opt then ss\<lparr>ss_truncated := True\<rparr>
      else scanFiles cl opt pre displayCols m rels (scanFile cl opt pre displayCols m rel ss))"

definition newScan :: "int \<Rightarrow> streamScan" where
  "newScan limitLeft = \<lparr>ss_out = [], ss_limitLeft = limitLeft, ss_matches = 0, ss_fileHits = 0, ss_truncated = False, ss_unreadable = 0\<rparr>"

definition scanStreams :: "'re client \<Rightarrow> gostring list \<Rightarrow> cliOpts \<Rightarrow> gostring \<Rightarrow> int \<Rightarrow> int \<Rightarrow> streamScan" where
  "scanStreams cl files opt pre displayCols limitLeft =
     (let ss = newScan limitLeft; req = co_req opt in
      if length files = 0 then ss
      else case MatcherFor (cl_L cl) (rq_Pattern req) (rq_Fixed req) (rq_NoCase req) of
          Inl err \<Rightarrow> emitOut ss (Stderr (str ''gcgrep: pattern recompile failed: '' @ err))
        | Inr m \<Rightarrow>
            let ss = scanFiles cl opt pre displayCols m files ss in
            if ss_unreadable ss > 0
            then emitOut ss (Stderr (str ''gcgrep: '' @ intDecimal (ss_unreadable ss) @ str '' stream file(s) unreadable, skipped''))
            else ss)"

text \<open>Sizes with an optional suffix, in 64 bits; \<open>Inl\<close> is an error.\<close>

fun sizeDigits :: "gostring \<Rightarrow> u64 \<Rightarrow> u64 option" where
  "sizeDigits [] n = Some n"
| "sizeDigits (c # s) n = (if c < 48 \<or> c > 57 then None else sizeDigits s (n * 10 + ucast (c - 48)))"

definition sizeSuffix :: "byte \<Rightarrow> u64 option" where
  "sizeSuffix c =
     (if c = 107 \<or> c = 75 then Some (2 ^ 10) else if c = 109 \<or> c = 77 then Some (2 ^ 20)
      else if c = 103 \<or> c = 71 then Some (2 ^ 30) else None)"

definition parseSize :: "gostring \<Rightarrow> gostring + int" where
  "parseSize s =
     (if s = [] then Inr 0
      else
        let (mult, s) = (case sizeSuffix (List.last s) of None \<Rightarrow> (1, s) | Some f \<Rightarrow> (f, butlast s)) in
        if s = [] then Inl (str ''invalid size'')
        else case sizeDigits s 0 of
            None \<Rightarrow> Inl (str ''invalid size '' @ [34] @ s @ [34] @ str '' (use e.g. 500K, 50M, 1G)'')
          | Some n \<Rightarrow> Inr (sint (n * mult)))"

subsection \<open>Rendering long lines\<close>

record lineReader =
  lr_path :: gostring
  lr_lines :: "bytes list"

definition render :: "'re client \<Rightarrow> lineReader \<Rightarrow> gostring \<Rightarrow> int \<Rightarrow> int \<Rightarrow> int \<Rightarrow> int \<Rightarrow> gostring \<times> lineReader" where
  "render cl lr absPath lineNo col lineLen maxCols =
     (let show = (\<lambda>lr.
          (if lineNo < 1 \<or> lineNo > int (length (lr_lines lr)) \<or> int (length (lr_lines lr ! nat (lineNo - 1))) \<noteq> lineLen
           then str ''[line changed on disk, '' @ intDecimal lineLen @ str '' bytes at match time]''
           else TruncateWindow (lr_lines lr ! nat (lineNo - 1)) col maxCols, lr))
      in if lr_path lr \<noteq> absPath then
           case cl_ReadFile cl absPath of
             Inl err \<Rightarrow> (str ''[line unavailable: '' @ err @ str '', '' @ intDecimal lineLen @ str '' bytes]'', lr)
           | Inr content \<Rightarrow> show \<lparr>lr_path = absPath, lr_lines = splitLines content\<rparr>
         else show lr)"

subsection \<open>The events of a request\<close>

record session =
  cs_out :: "written list"
  cs_matched :: bool
  cs_progress :: bool
  cs_lr :: lineReader
  cs_streamFiles :: "gostring list"
  cs_recv :: int

definition newSession :: session where
  "newSession = \<lparr>cs_out = [], cs_matched = False, cs_progress = False, cs_lr = \<lparr>lr_path = [], lr_lines = []\<rparr>, cs_streamFiles = [],
     cs_recv = 0\<rparr>"

definition say :: "session \<Rightarrow> written list \<Rightarrow> session" where
  "say st ws = st\<lparr>cs_out := cs_out st @ ws\<rparr>"

definition warnVersion :: "gostring \<Rightarrow> written list" where
  "warnVersion v =
     (if v \<noteq> Version
      then [Stderr (str ''gcgrep: daemon is version '' @ (if v = [] then str ''pre-0.5'' else v) @ str '' but client is '' @ Version @
             str ''; run '' @ [39] @ str ''gcgrep stop'' @ [39] @ str '' to restart it'')]
      else [])"

definition clearProgress :: "session \<Rightarrow> session" where
  "clearProgress st = (if cs_progress st then (say st [Stderr ([13, 27] @ str ''[K'')])\<lparr>cs_progress := False\<rparr> else st)"

definition displayCols :: "Config \<Rightarrow> Request \<Rightarrow> int" where
  "displayCols cfg req = (if rq_MaxColumns req = 0 then MaxColumns cfg else rq_MaxColumns req)"

definition pathPrefix :: "cliOpts \<Rightarrow> gostring" where
  "pathPrefix opt = (if co_pathArg opt \<noteq> str ''.'' then Clean (co_pathArg opt) @ [slash] else [])"

definition limitLeft :: "cliOpts \<Rightarrow> int \<Rightarrow> int" where
  "limitLeft opt recv =
     (if rq_Limit (co_req opt) \<le> 0 then - 1 else if rq_Limit (co_req opt) - recv > 0 then rq_Limit (co_req opt) - recv else 0)"

definition sessionScan :: "'re client \<Rightarrow> cliOpts \<Rightarrow> session \<Rightarrow> streamScan" where
  "sessionScan cl opt st =
     scanStreams cl (cs_streamFiles st) opt (pathPrefix opt) (displayCols (cl_cfg cl) (co_req opt)) (limitLeft opt (cs_recv st))"

definition matchLine :: "cliOpts \<Rightarrow> Event \<Rightarrow> gostring" where
  "matchLine opt ev =
     (let place = pathPrefix opt @ ev_File ev @ str '':'' @ intDecimal (ev_Line ev) @ str '':'' in
      if ev_Kind ev \<noteq> [] then
        let qual = ev_Kind ev @
          (if ev_Container ev \<noteq> [] then str '' '' @ ev_Container ev @ str ''.'' @ ev_Name ev
           else if ev_Name ev \<noteq> [] \<and> ev_Kind ev \<noteq> str ''call'' \<and> ev_Kind ev \<noteq> str ''ref'' then str '' '' @ ev_Name ev else [])
        in place @ str '' ['' @ qual @ str ''] '' @ TrimSpace (ev_Text ev)
      else place @ ev_Text ev)"

definition printMatch :: "'re client \<Rightarrow> cliOpts \<Rightarrow> session \<Rightarrow> Event \<Rightarrow> session" where
  "printMatch cl opt st ev =
     (let st = clearProgress st;
          (text, lr) = (if ev_Text ev = [] \<and> ev_LineLen ev > 0
            then render cl (cs_lr st) (Join (rq_Root (co_req opt)) (ev_File ev)) (ev_Line ev) (ev_Col ev) (ev_LineLen ev)
                   (displayCols (cl_cfg cl) (co_req opt))
            else (ev_Text ev, cs_lr st));
          st = say (st\<lparr>cs_lr := lr\<rparr>) [Stdout (matchLine opt (ev\<lparr>ev_Text := text\<rparr>))]
      in st\<lparr>cs_recv := cs_recv st + 1, cs_matched := True\<rparr>)"

text \<open>One event; the exit code when it is the last one.\<close>

definition stepJSON :: "'re client \<Rightarrow> cliOpts \<Rightarrow> session \<Rightarrow> Event \<Rightarrow> session \<times> int option" where
  "stepJSON cl opt st ev =
     (let st = (if ev_Type ev = str ''match'' then st\<lparr>cs_recv := cs_recv st + 1\<rparr> else st);
          (st, ev) = (if ev_Type ev = str ''done''
            then let ss = sessionScan cl opt st in
                 (say st (ss_out ss), ev\<lparr>ev_Matches := ev_Matches ev + ss_matches ss, ev_FileHits := ev_FileHits ev + ss_fileHits ss,
                    ev_Truncated := (ev_Truncated ev \<or> ss_truncated ss)\<rparr>)
            else (st, ev));
          st = say st [StdoutJSON ev]
      in (st, if ev_Type ev = str ''error'' then Some 2
              else if ev_Type ev = str ''done'' then Some (if ev_Matches ev > 0 then 0 else 1) else None))"

definition stepText :: "'re client \<Rightarrow> cliOpts \<Rightarrow> session \<Rightarrow> Event \<Rightarrow> session \<times> int option" where
  "stepText cl opt st ev =
     (if ev_Type ev = str ''progress'' then
        ((say st [Stderr ([13] @ str ''gcgrep: '' @ ev_Stage ev @ str '' '' @ intDecimal (ev_Indexed ev) @ str ''/'' @
           intDecimal (ev_Total ev) @ str '' files...'')])\<lparr>cs_progress := True\<rparr>, None)
      else if ev_Type ev = str ''match'' then (printMatch cl opt st ev, None)
      else if ev_Type ev = str ''filecount'' then
        ((say (clearProgress st) [Stdout (pathPrefix opt @ ev_File ev @
           (if rq_Count (co_req opt) then str '':'' @ intDecimal (ev_Count ev) else []))])\<lparr>cs_matched := True\<rparr>, None)
      else if ev_Type ev = str ''done'' then
        let st = clearProgress st; ss = sessionScan cl opt st;
            st = say st (ss_out ss @ (if ev_Truncated ev \<or> ss_truncated ss
              then [Stderr (str ''gcgrep: output truncated at '' @ intDecimal (rq_Limit (co_req opt)) @ str '' lines (use --limit 0 for all)'')]
              else []))
        in (st, Some (if cs_matched st \<or> ss_matches ss > 0 \<or> ev_Matches ev > 0 then 0 else 1))
      else if ev_Type ev = str ''error'' then (say (clearProgress st) [Stderr (str ''gcgrep: '' @ ev_Msg ev)], Some 2)
      else (st, None))"

text \<open>The loop over the events; when they stop before the last one, the connection is lost.\<close>

fun streamLoop :: "'re client \<Rightarrow> cliOpts \<Rightarrow> gostring \<Rightarrow> session \<Rightarrow> Event list \<Rightarrow> session \<times> int" where
  "streamLoop cl opt lost st [] = (say st [Stderr (str ''gcgrep: connection lost: '' @ lost)], 2)"
| "streamLoop cl opt lost st (ev # evs) =
     (if ev_Type ev = str ''streamfile'' then streamLoop cl opt lost (st\<lparr>cs_streamFiles := cs_streamFiles st @ [ev_File ev]\<rparr>) evs
      else
        let st = (if ev_Type ev = str ''done'' then say st (warnVersion (ev_V ev)) else st) in
        case (if co_jsonOut opt then stepJSON cl opt st ev else stepText cl opt st ev) of
          (st, Some ec) \<Rightarrow> (st, ec)
        | (st, None) \<Rightarrow> streamLoop cl opt lost st evs)"

text \<open>\<open>failed\<close> is the error of sending the request, \<open>lost\<close> the one that ends the events.\<close>

definition streamSearch :: "'re client \<Rightarrow> gostring option \<Rightarrow> gostring \<Rightarrow> cliOpts \<Rightarrow> Event list \<Rightarrow> written list \<times> int" where
  "streamSearch cl failed lost opt evs =
     (case failed of
        Some err \<Rightarrow> ([Stderr (str ''gcgrep: '' @ err)], 2)
      | None \<Rightarrow> (case streamLoop cl opt lost newSession evs of (st, ec) \<Rightarrow> (cs_out st, ec)))"

subsection \<open>Arguments\<close>

text \<open>What the flag package returns for the arguments, and the file system calls on the path.\<close>

record parsedFlags =
  pf_req :: Request
  pf_json :: bool
  pf_globs :: "gostring list"
  pf_excludes :: "gostring list"
  pf_includes :: "gostring list"
  pf_maxFilesize :: gostring
  pf_rest :: "gostring list"

record osenv =
  oe_Abs :: "gostring \<Rightarrow> gostring + gostring"
  oe_EvalSymlinks :: "gostring \<Rightarrow> gostring option"
  oe_IsDir :: "gostring \<Rightarrow> gostring + bool"

definition resolvePath :: "osenv \<Rightarrow> gostring \<Rightarrow> gostring + gostring" where
  "resolvePath oe p =
     (case oe_Abs oe p of
        Inl err \<Rightarrow> Inl err
      | Inr a \<Rightarrow> Inr (case oe_EvalSymlinks oe a of Some r \<Rightarrow> r | None \<Rightarrow> a))"

definition parseArgs :: "osenv \<Rightarrow> gostring + parsedFlags \<Rightarrow> written list \<times> (gostring + cliOpts)" where
  "parseArgs oe flags =
     (case flags of
        Inl err \<Rightarrow> ([], Inl err)
      | Inr pf \<Rightarrow>
          case parseSize (pf_maxFilesize pf) of
            Inl err \<Rightarrow> ([], Inl err)
          | Inr sz \<Rightarrow>
              if length (pf_rest pf) < 1 \<or> length (pf_rest pf) > 2 then ([Usage], Inl (str ''expected PATTERN [PATH]''))
              else
                let req = (pf_req pf)\<lparr>rq_MaxFilesize := sz, rq_Op := str ''search'', rq_Pattern := pf_rest pf ! 0, rq_Globs := pf_globs pf,
                      rq_Exclude := pf_excludes pf, rq_Include := pf_includes pf\<rparr>;
                    pathArg = (if length (pf_rest pf) = 2 then pf_rest pf ! 1 else str ''.'')
                in case resolvePath oe pathArg of
                  Inl err \<Rightarrow> ([], Inl err)
                | Inr root \<Rightarrow>
                    case oe_IsDir oe root of
                      Inl err \<Rightarrow> ([], Inl err)
                    | Inr isDir \<Rightarrow>
                        if \<not> isDir then ([], Inl (str ''PATH must be a directory: '' @ pathArg))
                        else ([], Inr \<lparr>co_req = req\<lparr>rq_Root := root\<rparr>, co_jsonOut = pf_json pf, co_pathArg = pathArg\<rparr>))"

definition zeroRequest :: Request where
  "zeroRequest = \<lparr>rq_Op = [], rq_Root = [], rq_Pattern = [], rq_Fixed = False, rq_NoCase = False, rq_Files = False, rq_Count = False,
     rq_Globs = [], rq_Limit = 0, rq_NoSync = False, rq_MaxColumns = 0, rq_Exclude = [], rq_Include = [], rq_Gitignore = False,
     rq_Hidden = False, rq_Text = False, rq_Follow = False, rq_AllowNested = False, rq_MaxFilesize = 0\<rparr>"

definition parseSymbolsFile :: "osenv \<Rightarrow> gostring list \<Rightarrow> gostring + cliOpts" where
  "parseSymbolsFile oe args =
     (case args of
        [arg] \<Rightarrow>
          (case resolvePath oe arg of
             Inl err \<Rightarrow> Inl err
           | Inr p \<Rightarrow>
               case oe_IsDir oe p of
                 Inl err \<Rightarrow> Inl err
               | Inr isDir \<Rightarrow>
                   if isDir then Inl (str ''FILE must be a file: '' @ arg)
                   else Inr \<lparr>co_req = zeroRequest\<lparr>rq_Root := (let d = pathDir p in if d = [] then [slash] else d), rq_Pattern := afterSlash p\<rparr>,
                          co_jsonOut = False, co_pathArg = str ''.''\<rparr>)
      | _ \<Rightarrow> Inl (str ''expected FILE''))"

subsection \<open>Commands\<close>

text \<open>The result of \<open>connectOrSpawn\<close>, \<open>Inl\<close> its error, and what the connection yields.\<close>

record link =
  li_connect :: "gostring option"
  li_send :: "gostring option"
  li_events :: "Event list"
  li_lost :: gostring

definition runRequest :: "'re client \<Rightarrow> written list \<Rightarrow> gostring + cliOpts \<Rightarrow> link \<Rightarrow> written list \<times> int" where
  "runRequest cl ws parsed li =
     (case parsed of
        Inl err \<Rightarrow> (ws @ [Stderr (str ''gcgrep: '' @ err)], 2)
      | Inr opt \<Rightarrow>
          case li_connect li of
            Some err \<Rightarrow> (ws @ [Stderr (str ''gcgrep: '' @ err)], 2)
          | None \<Rightarrow> (case streamSearch cl (li_send li) (li_lost li) opt (li_events li) of (out, ec) \<Rightarrow> (ws @ out, ec)))"

definition cmdSearch :: "'re client \<Rightarrow> osenv \<Rightarrow> gostring + parsedFlags \<Rightarrow> link \<Rightarrow> written list \<times> int" where
  "cmdSearch cl oe flags li = (case parseArgs oe flags of (ws, parsed) \<Rightarrow> runRequest cl ws parsed li)"

definition cmdSymbol :: "'re client \<Rightarrow> osenv \<Rightarrow> gostring \<Rightarrow> gostring list \<Rightarrow> gostring + parsedFlags \<Rightarrow> link \<Rightarrow> written list \<times> int" where
  "cmdSymbol cl oe opr args flags li =
     (case (if opr = str ''symbols'' then ([], parseSymbolsFile oe args) else parseArgs oe flags) of
        (ws, Inl err) \<Rightarrow> runRequest cl ws (Inl err) li
      | (ws, Inr opt) \<Rightarrow> runRequest cl ws (Inr (opt\<lparr>co_req := (co_req opt)\<lparr>rq_Op := opr\<rparr>\<rparr>)) li)"

text \<open>One request with one answer: no daemon, an error when sending or receiving, or the event.\<close>

datatype answer = NoDaemon | SendFailed gostring | RecvFailed gostring | Answer Event

definition statusExtra :: "RootStatus \<Rightarrow> gostring" where
  "statusExtra r =
     (if rt_SkippedLarge r > 0 then str ''  skipped '' @ intDecimal (rt_SkippedLarge r) @ str '' files > GCGREP_MAX_FILESIZE_MB'' else []) @
     (if rt_SkippedBudget r > 0 then str ''  skipped '' @ intDecimal (rt_SkippedBudget r) @ str '' files over GCGREP_MAX_INDEX_MB'' else []) @
     (if rt_SkippedBinary r > 0 then str ''  skipped '' @ intDecimal (rt_SkippedBinary r) @ str '' binary files'' else []) @
     (if rt_SkippedError r > 0 then str ''  skipped '' @ intDecimal (rt_SkippedError r) @ str '' unreadable files'' else []) @
     (if rt_StreamFiles r > 0 then str ''  '' @ intDecimal (rt_StreamFiles r) @ str '' stream-set files (scanned from disk at query time)'' else []) @
     (if rt_CacheDir r \<noteq> [] then str ''  cache: '' @ rt_CacheDir r @ str '' ('' @ intDecimal (rt_CacheSizeMB r) @ str ''MB)'' else [])"

definition statusLine :: "RootStatus \<Rightarrow> gostring" where
  "statusLine r =
     str ''  '' @ rt_Root r @ (if rt_Follow r then str '' (-L)'' else []) @ (if rt_Engine r = str ''disk'' then str '' [disk]'' else []) @
     str ''  ['' @ rt_State r @ str '']  '' @ intDecimal (rt_Files r) @ str '' files, '' @ intDecimal (rt_SizeMB r) @ str ''MB'' @ statusExtra r"

definition cmdSimple :: "gostring \<Rightarrow> answer \<Rightarrow> written list \<times> int" where
  "cmdSimple opr ans =
     (case ans of
        NoDaemon \<Rightarrow> if opr = str ''stop'' then ([Stdout (str ''gcgrep: daemon not running'')], 0)
                    else ([Stderr (str ''gcgrep: daemon not running'')], 1)
      | SendFailed err \<Rightarrow> ([Stderr (str ''gcgrep: '' @ err)], 2)
      | RecvFailed err \<Rightarrow> ([Stderr (str ''gcgrep: '' @ err)], 2)
      | Answer ev \<Rightarrow>
          if ev_Type ev = str ''status'' then
            (warnVersion (ev_V ev) @ [Stdout (str ''daemon running, pid '' @ intDecimal (ev_PID ev))] @
             map (\<lambda>r. Stdout (statusLine r)) (ev_Roots ev) @
             (if length (ev_Roots ev) = 0 then [Stdout (str ''  (no roots indexed yet)'')] else []), 0)
          else if ev_Type ev = str ''done'' then ([Stdout (str ''gcgrep: daemon stopped'')], 0)
          else if ev_Type ev = str ''error'' then ([Stderr (str ''gcgrep: '' @ ev_Msg ev)], 2)
          else ([], 0))"

text \<open>\<open>ask\<close> is the daemon's answer to forgetting a root.\<close>

fun forgetLoop :: "osenv \<Rightarrow> (gostring \<Rightarrow> answer) \<Rightarrow> gostring list \<Rightarrow> int \<Rightarrow> written list \<times> int" where
  "forgetLoop oe ask [] rc = ([], rc)"
| "forgetLoop oe ask (p # ps) rc =
     (case resolvePath oe p of
        Inl err \<Rightarrow> (case forgetLoop oe ask ps 2 of (out, ec) \<Rightarrow> (Stderr (str ''gcgrep forget: '' @ err) # out, ec))
      | Inr root \<Rightarrow>
          case ask root of
            NoDaemon \<Rightarrow> ([Stderr (str ''gcgrep: daemon not running'')], 1)
          | SendFailed err \<Rightarrow> ([Stderr (str ''gcgrep forget: '' @ err)], 2)
          | RecvFailed err \<Rightarrow> ([Stderr (str ''gcgrep forget: '' @ err)], 2)
          | Answer ev \<Rightarrow> (case forgetLoop oe ask ps rc of (out, ec) \<Rightarrow> (Stdout (ev_Msg ev) # out, ec)))"

definition cmdForget :: "osenv \<Rightarrow> (gostring \<Rightarrow> answer) \<Rightarrow> gostring list \<Rightarrow> written list \<times> int" where
  "cmdForget oe ask args =
     (if length args = 0 then ([Stderr (str ''gcgrep forget: expected one or more paths'')], 2) else forgetLoop oe ask args 0)"

text \<open>What \<open>run\<close> calls for the arguments of the program.\<close>

datatype command = Symbol gostring "gostring list" | Daemon | Forget "gostring list" | Simple gostring | ShowVersion | ShowUsage |
  Grep "gostring list"

definition runCommand :: "gostring list \<Rightarrow> command" where
  "runCommand args =
     (case args of
        [] \<Rightarrow> Grep args
      | a # as \<Rightarrow>
          if a \<in> {str ''def'', str ''refs'', str ''symbols''} then Symbol a as
          else if a = str ''daemon'' then Daemon
          else if a = str ''forget'' then Forget as
          else if a = str ''stop'' then Simple (str ''stop'')
          else if a = str ''status'' then Simple (str ''status'')
          else if a \<in> {str ''version'', str ''--version'', str ''-V''} then ShowVersion
          else if a \<in> {str ''help'', str ''--help'', str ''-h''} then ShowUsage
          else Grep args)"

text \<open>Connecting: a first dial, then starting the daemon and dialing until the deadline; \<open>dials\<close> are the results of the dials made before
  it. \<open>Some\<close> is the error.\<close>

definition connectOrSpawn ::
    "bool \<Rightarrow> gostring + gostring \<Rightarrow> (gostring \<Rightarrow> gostring option) \<Rightarrow> bool list \<Rightarrow> gostring \<Rightarrow> gostring option" where
  "connectOrSpawn dialed exe spawnDaemon dials timeout =
     (if dialed then None
      else case exe of
          Inl err \<Rightarrow> Some err
        | Inr exe \<Rightarrow>
            case spawnDaemon exe of
              Some err \<Rightarrow> Some (str ''starting daemon: '' @ err)
            | None \<Rightarrow>
                if True \<in> set dials then None
                else Some (str ''daemon did not come up within '' @ timeout @ str '' (see daemon.log in cache dir)''))"

text \<open>The daemon command, given the cache directory, the error of listening and the error the daemon ends with.\<close>

definition cmdDaemon :: "gostring + gostring \<Rightarrow> gostring option \<Rightarrow> (gostring \<Rightarrow> gostring option) \<Rightarrow> written list \<times> int" where
  "cmdDaemon cacheDir listen ended =
     (case cacheDir of
        Inl err \<Rightarrow> ([Stderr (str ''gcgrep: '' @ err)], 2)
      | Inr dir \<Rightarrow>
          case listen of
            Some err \<Rightarrow> ([Stderr (str ''gcgrep daemon: '' @ err)], 2)
          | None \<Rightarrow> if ended dir \<noteq> None then ([], 2) else ([], 0))"

end
