(* ===== verification/LineAgree.thy ===== *)
theory LineAgree
  imports EngineSearch
begin

text \<open>
  The in-memory engine searches a whole file and then finds the lines of the matches, the disk engine and the client search line by
  line. For a plain literal without a newline they report the same lines, texts and columns.
\<close>

subsection \<open>Occurrences and lines\<close>

abbreviation ends_line :: "bytes \<Rightarrow> bool" where
  "ends_line z \<equiv> z = [] \<or> hd z = newline"

lemma occurrence_line:
  assumes "newline \<notin> set lit" and "ends_line z"
  shows "prefix lit (drop j (v @ z)) \<longleftrightarrow> (if j \<le> length v then prefix lit (drop j v) else prefix lit (drop (j - length v - 1) (drop 1 z)))"
proof (cases "j \<le> length v")
  case True
  have "prefix lit (u @ z) \<longleftrightarrow> prefix lit u" for u
  proof
    assume "prefix lit (u @ z)"
    then obtain us where us: "prefix lit u \<or> lit = u @ us \<and> prefix us z" by (auto simp: prefix_append)
    moreover have "us = []" if "lit = u @ us" "prefix us z"
      using that assms by (cases us; cases z) auto
    ultimately show "prefix lit u" by auto
  qed simp
  with True show ?thesis by simp
next
  case False
  define k where "k = j - length v - 1"
  have "j = length v + (k + 1)" using False by (simp add: k_def)
  then show ?thesis by simp
qed

lemma no_occurrence: "bytes_Index s lit = None \<Longrightarrow> lit \<noteq> [] \<Longrightarrow> \<not> prefix lit (drop j s)"
  by (cases "j \<le> length s") (simp_all add: bytes_Index_None_iff)

lemma Index_line:
  assumes "newline \<notin> set lit" and "lit \<noteq> []" and "ends_line z"
  shows "bytes_Index (v @ z) lit =
    (case bytes_Index v lit of Some i \<Rightarrow> Some i | None \<Rightarrow> map_option (\<lambda>i. length v + 1 + i) (bytes_Index (drop 1 z) lit))"
proof -
  note occ = occurrence_line [OF assms(1,3)]
  show ?thesis
  proof (cases "bytes_Index v lit")
    case (Some i)
    have "i + length lit \<le> length v" using bytes_Index_bound [OF Some] .
    with Some have "bytes_Index (v @ z) lit = Some i"
      unfolding bytes_Index_Some_iff occ by auto
    with Some show ?thesis by simp
  next
    case None
    note none = no_occurrence [OF this assms(2)]
    show ?thesis
    proof (cases "bytes_Index (drop 1 z) lit")
      case w: None
      have "\<not> prefix lit (drop j (v @ z))" for j unfolding occ using none no_occurrence [OF w assms(2)] by simp
      then have "bytes_Index (v @ z) lit = None" by (simp add: bytes_Index_None_iff)
      with None w show ?thesis by simp
    next
      case (Some i)
      then have "prefix lit (drop i (drop 1 z))" "\<And>j. j < i \<Longrightarrow> \<not> prefix lit (drop j (drop 1 z))"
        by (auto simp: bytes_Index_Some_iff)
      then have "bytes_Index (v @ z) lit = Some (length v + 1 + i)"
        unfolding bytes_Index_Some_iff occ using none bytes_Index_bound [OF Some] assms(2) by (cases lit) auto
      with None Some show ?thesis by simp
    qed
  qed
qed

text \<open>The occurrences found from the beginning of a line: those in the line, of which the first is the first of the line, and those
  found from the next line on.\<close>

lemma findAll_line:
  assumes "newline \<notin> set lit" and "lit \<noteq> []" and "ends_line z"
  shows "\<exists>xs. findAll_exact (u @ v @ z) lit (length u) = xs @ findAll_exact (u @ v @ z) lit (length u + length v + 1) \<and>
    (\<forall>(a, b) \<in> set xs. length u \<le> a \<and> a \<le> length u + length v) \<and>
    (case bytes_Index v lit of None \<Rightarrow> xs = [] | Some i \<Rightarrow> xs \<noteq> [] \<and> hd xs = (length u + i, length u + i + length lit))"
proof (induction "length v" arbitrary: u v rule: less_induct)
  case less
  let ?s = "u @ v @ z"
  have line: "bytes_Index (drop (length u) ?s) lit =
      (case bytes_Index v lit of Some i \<Rightarrow> Some i | None \<Rightarrow> map_option (\<lambda>i. length v + 1 + i) (bytes_Index (drop 1 z) lit))"
    using Index_line [OF assms, of v] by simp
  have next_line: "bytes_Index (drop (length u + length v + 1) ?s) lit = bytes_Index (drop 1 z) lit" by simp
  show ?case
  proof (cases "bytes_Index v lit")
    case None
    have "findAll_exact ?s lit (length u) = findAll_exact ?s lit (length u + length v + 1)"
      unfolding findAll_exact.simps [of ?s lit "length u"] findAll_exact.simps [of ?s lit "length u + length v + 1"] line next_line None
      by (simp add: add.assoc split: option.split)
    with None show ?thesis by (intro exI [of _ "[]"]) simp
  next
    case (Some i)
    let ?n = "i + length lit"
    have n: "?n \<le> length v" using bytes_Index_bound [OF Some] .
    have "length (drop ?n v) < length v" using n assms(2) by (cases lit) auto
    note rest = less [OF this, of "u @ take ?n v"]
    have "(u @ take ?n v) @ drop ?n v @ z = ?s" "length (u @ take ?n v) = length u + ?n"
      "length u + ?n + length (drop ?n v) = length u + length v" using n by simp_all
    from rest [unfolded this] obtain xs where xs:
      "findAll_exact ?s lit (length u + ?n) = xs @ findAll_exact ?s lit (length u + length v + 1)"
      "\<forall>(a, b) \<in> set xs. length u + ?n \<le> a \<and> a \<le> length u + length v"
      by (elim exE conjE) (rule that; assumption)
    have "findAll_exact ?s lit (length u) = (length u + i, length u + i + length lit) # findAll_exact ?s lit (length u + i + length lit)"
      using assms(2) unfolding findAll_exact.simps [of ?s lit "length u"] line Some by simp
    then have "findAll_exact ?s lit (length u) =
        ((length u + i, length u + i + length lit) # xs) @ findAll_exact ?s lit (length u + length v + 1)"
      using xs(1) by (simp only: add.assoc append_Cons)
    moreover have "\<forall>(a, b) \<in> set ((length u + i, length u + i + length lit) # xs). length u \<le> a \<and> a \<le> length u + length v"
      using xs(2) n by fastforce
    ultimately show ?thesis
      by (intro exI [of _ "(length u + i, length u + i + length lit) # xs"] conjI) (assumption, assumption, simp add: Some)
  qed
qed

subsection \<open>The first match of a line\<close>

lemma findAll_end: "length s \<le> off \<Longrightarrow> lit \<noteq> [] \<Longrightarrow> findAll_exact s lit off = []"
proof -
  assume "length s \<le> off" "lit \<noteq> []"
  then have "bytes_Index (drop off s) lit = None" by (simp add: bytes_Index_None_iff)
  then show "findAll_exact s lit off = []" by (simp add: findAll_exact.simps)
qed

lemma firstPerLine_append:
  "(\<forall>loc \<in> set xs. lineOf s (fst loc) = k) \<Longrightarrow> prev \<noteq> Some k \<Longrightarrow>
     firstPerLine s prev (xs @ ys) = (if xs = [] then firstPerLine s prev ys else hd xs # firstPerLine s (Some k) ys)"
proof -
  have same: "(\<forall>loc \<in> set xs. lineOf s (fst loc) = k) \<Longrightarrow> firstPerLine s (Some k) (xs @ ys) = firstPerLine s (Some k) ys" for xs
    by (induction xs) auto
  show "(\<forall>loc \<in> set xs. lineOf s (fst loc) = k) \<Longrightarrow> prev \<noteq> Some k \<Longrightarrow>
     firstPerLine s prev (xs @ ys) = (if xs = [] then firstPerLine s prev ys else hd xs # firstPerLine s (Some k) ys)"
    by (cases xs) (auto simp: same)
qed

lemma lineOf_line:
  assumes "newline \<notin> set v" and "length u \<le> a" and "a \<le> length u + length v"
  shows "lineOf (u @ v @ z) a = newlines u + 1"
proof -
  have "take a (u @ v @ z) = u @ take (a - length u) v" using assms(2,3) by simp
  moreover have "newline \<notin> set (take (a - length u) v)" using assms(1) by (meson in_set_takeD)
  ultimately show ?thesis by (simp add: lineOf_def newlines_0)
qed

lemma lineMatch_hit:
  assumes "fe_content f = u @ v @ z" and "closed_lines u" and "newline \<notin> set v" and "ends_line z" and "i + n \<le> length v"
    and "fm_Path (fe_meta f) = rel"
  shows "lineMatch f (length u + i, length u + i + n) k (so_MaxColumns so) = lineHit rel so k (i, i + n) v"
proof -
  have "newline \<notin> set (take i v)" using assms(3) by (meson in_set_takeD)
  moreover have "take (length u + i) (fe_content f) = u @ take i v" using assms(1,5) by simp
  moreover have "(case LastIndexByte (u @ take i v) newline of Some j \<Rightarrow> j + 1 | None \<Rightarrow> 0) = length u" if "newline \<notin> set (take i v)"
  proof (cases u rule: rev_cases)
    case Nil
    with that have "LastIndexByte (u @ take i v) newline = None" by (simp add: LastIndexByte_None_iff)
    with Nil show ?thesis by simp
  next
    case (snoc ys y)
    with assms(2) that have "LastIndexByte (u @ take i v) newline = Some (length ys)"
      unfolding LastIndexByte_Some_iff by (simp add: closed_lines_def)
    with snoc show ?thesis by simp
  qed
  ultimately have st: "(case LastIndexByte (take (length u + i) (fe_content f)) newline of Some j \<Rightarrow> j + 1 | None \<Rightarrow> 0) = length u"
    by simp
  have "newline \<notin> set (drop (i + n) v)" using assms(3) by (meson in_set_dropD)
  moreover have "drop (length u + i + n) (fe_content f) = drop (i + n) v @ z" using assms(1,5) by (simp add: add.assoc)
  moreover have "IndexByte (drop (i + n) v @ z) newline = (if z = [] then None else Some (length v - (i + n)))"
    if "newline \<notin> set (drop (i + n) v)"
    using that assms(4) by (cases z) (simp_all add: IndexByte_append IndexByte_None_iff)
  ultimately have en: "(case IndexByte (drop (length u + i + n) (fe_content f)) newline of
      Some j \<Rightarrow> length u + i + n + j | None \<Rightarrow> length (fe_content f)) = length u + length v"
    using assms(1,5) by simp
  have "slice (fe_content f) (length u) (length u + length v) = v" using assms(1) by (simp add: slice_def)
  then show ?thesis
    unfolding lineMatch_def Let_def fst_conv snd_conv st en by (simp add: lineHit_def assms(6))
qed

lemma lower_newline: "newline \<in> set (case_norm nocase s) \<longleftrightarrow> newline \<in> set s"
proof -
  have "lower x = newline \<longleftrightarrow> x = newline" for x
    using unat_lower [of x] by (auto simp: lower_def word_le_nat_alt word_unat_eq_iff split: if_splits)
  then show ?thesis by (auto simp: case_norm_def image_iff)
qed

text \<open>Both ways to find the lines of a file agree.\<close>

theorem mem_lines_agree:
  assumes "matcher_ok m" and "m_PlainLit m \<noteq> []" and "newline \<notin> set (m_PlainLit m)"
    and "so_PlainLiteral so = m_PlainLit m" and "so_FoldCase so = m_Fold m" and "fm_Path (fe_meta f) = rel"
  shows "lineMatches f (so_MaxColumns so) None (locsOf L re so (fe_content f)) = allHits L m so rel 0 (scanLines (fe_content f))"
proof -
  let ?n = "case_norm (m_Fold m)" and ?lit = "m_PlainLit m" and ?s = "fe_content f"
  have lit: "newline \<notin> set (?n ?lit)" "?n ?lit \<noteq> []" using assms(2,3) by (simp_all add: lower_newline)
  have find: "FindFirst L m v = map_option (\<lambda>i. (i, i + length ?lit)) (bytes_Index (?n v) (?n ?lit))" for v
    using FindFirst_spec [OF assms(1), of L v] assms(2) by (simp add: find_spec_def)
  have norm: "?n (a @ b) = ?n a @ ?n b" for a b by (simp add: case_norm_def)
  have "lineMatches f (so_MaxColumns so) prev (findAll_exact (?n ?s) (?n ?lit) (length u)) = allHits L m so rel (newlines u) (scanLines r)"
    if "?s = u @ r" "closed_lines u" "\<forall>l. prev = Some l \<longrightarrow> l \<le> newlines u" for u r prev
    using that
  proof (induction "length r" arbitrary: u r prev rule: less_induct)
    case less
    show ?case
    proof (cases "r = []")
      case True
      then have "findAll_exact (?n ?s) (?n ?lit) (length u) = []"
        using less.prems(1) lit(2) by (simp add: findAll_end)
      with True show ?thesis by simp
    next
      case False
      obtain v z where r: "r = v @ z" "newline \<notin> set v" "ends_line z" "scanLines r = v # scanLines (drop 1 z)"
      proof (cases rule: IndexByte_cases [where s = r and c = newline])
        case none
        with False that [of r "[]"] show thesis by (simp add: scanLines_plain)
      next
        case (found v w)
        with that [of v "newline # w"] show thesis by (simp add: scanLines_cut)
      qed
      let ?k = "newlines u + 1" and ?stop = "length u + length v + 1"
      have s: "?s = u @ v @ z" using less.prems(1) r(1) by simp
      have "ends_line (?n z)" using r(3) by (cases z) (auto simp: case_norm_def lower_def)
      have joined: "?n u @ ?n v @ ?n z = ?n ?s" by (simp add: s norm)
      from findAll_line [OF lit \<open>ends_line (?n z)\<close>, of "?n u" "?n v", unfolded length_case_norm joined] obtain xs where
        xs: "findAll_exact (?n ?s) (?n ?lit) (length u) = xs @ findAll_exact (?n ?s) (?n ?lit) ?stop"
        "\<forall>(a, b) \<in> set xs. length u \<le> a \<and> a \<le> length u + length v"
        "case bytes_Index (?n v) (?n ?lit) of None \<Rightarrow> xs = [] | Some i \<Rightarrow> xs \<noteq> [] \<and> hd xs = (length u + i, length u + i + length ?lit)"
        by (elim exE conjE) (rule that; assumption)
      have on: "\<forall>loc \<in> set xs. lineOf ?s (fst loc) = ?k"
        using xs(2) lineOf_line [OF r(2), of u _ z] unfolding s by fastforce
      have prev: "prev \<noteq> Some ?k" using less.prems(3) by auto
      have rest: "lineMatches f (so_MaxColumns so) p (findAll_exact (?n ?s) (?n ?lit) ?stop) = allHits L m so rel ?k (scanLines (drop 1 z))"
        if "\<forall>l. p = Some l \<longrightarrow> l \<le> ?k" for p
      proof (cases z)
        case Nil
        then have "findAll_exact (?n ?s) (?n ?lit) ?stop = []"
          using lit(2) by (simp add: s findAll_end)
        with Nil show ?thesis by simp
      next
        case (Cons c w)
        with r(3) have c: "z = newline # w" by simp
        have "length w < length r" "?s = (u @ v @ [newline]) @ w" "closed_lines (u @ v @ [newline])" "newlines (u @ v @ [newline]) = ?k"
          using r(1,2) c s by (simp_all add: closed_lines_def newlines_0)
        from less.hyps [OF this(1,2,3), of p] this(4) that show ?thesis by (simp add: c add.assoc)
      qed
      show ?thesis
      proof (cases "bytes_Index (?n v) (?n ?lit)")
        case None
        then show ?thesis
          using xs rest [of prev] less.prems(3) by (simp add: r(4) find) (meson le_Suc_eq)
      next
        case (Some i)
        then have x: "xs \<noteq> []" "hd xs = (length u + i, length u + i + length ?lit)" using xs(3) by simp_all
        have bound: "i + length ?lit \<le> length v" using bytes_Index_bound [OF Some] by simp
        have "lineMatches f (so_MaxColumns so) prev (findAll_exact (?n ?s) (?n ?lit) (length u)) =
            lineMatch f (hd xs) ?k (so_MaxColumns so) # lineMatches f (so_MaxColumns so) (Some ?k) (findAll_exact (?n ?s) (?n ?lit) ?stop)"
          using on x(1) unfolding xs(1) lineMatches_def firstPerLine_append [OF on prev] by simp
        also have "\<dots> = lineHit rel so ?k (i, i + length ?lit) v # allHits L m so rel ?k (scanLines (drop 1 z))"
          unfolding x(2) lineMatch_hit [OF s less.prems(2) r(2,3) bound assms(6)] using rest [of "Some ?k"] by simp
        finally show ?thesis by (simp add: r(4) find Some)
      qed
    qed
  qed
  from this [of "[]" ?s None] show ?thesis
    using assms(2,4,5) by (simp add: locsOf_def literalFindAll_norm closed_lines_def)
qed

end
