(* ===== verification/ClientProps.thy ===== *)
theory ClientProps
  imports Client LineAgree
begin

text \<open>
  What the client prints and how it exits: the scan of a stream file against its list of matching lines, the limit, the exit
  code, and sizes.
\<close>

subsection \<open>The lines of a stream file\<close>

fun lineHits :: "'re regexlib \<Rightarrow> 're Matcher \<Rightarrow> nat \<Rightarrow> bytes list \<Rightarrow> (nat \<times> bytes \<times> nat) list" where
  "lineHits L m k [] = []"
| "lineHits L m k (l # ls) =
     (case FindFirst L m l of None \<Rightarrow> lineHits L m (k + 1) ls | Some loc \<Rightarrow> (k + 1, l, fst loc) # lineHits L m (k + 1) ls)"

fun scanList ::
    "'re client \<Rightarrow> cliOpts \<Rightarrow> gostring \<Rightarrow> int \<Rightarrow> 're Matcher \<Rightarrow> gostring \<Rightarrow> bool \<Rightarrow> bytes list \<Rightarrow> nat \<Rightarrow> streamScan \<Rightarrow> int \<Rightarrow>
       streamScan \<times> int" where
  "scanList cl opt pre cols m rel bad [] k ss n = (if bad then ss\<lparr>ss_unreadable := ss_unreadable ss + 1\<rparr> else ss, n)"
| "scanList cl opt pre cols m rel bad (l # ls) k ss n =
     (case scanLine cl opt pre cols m rel (k + 1) l ss n of (ss, n, stop) \<Rightarrow>
        if stop then (ss, n) else scanList cl opt pre cols m rel bad ls (k + 1) ss n)"

lemma scanLoop_scanList:
  "scanLoop cl opt pre cols m rel bad rest k ss n = scanList cl opt pre cols m rel bad (scanLines rest) k ss n"
proof (induction "length rest" arbitrary: rest k ss n rule: less_induct)
  case less
  show ?case
  proof (cases rule: IndexByte_cases [where s = rest and c = newline])
    case none
    then show ?thesis
      unfolding scanLoop.simps [of cl opt pre cols m rel bad rest]
      by (cases "rest = []") (auto simp: scanLines_plain split: prod.split)
  next
    case (found v w)
    have "length w < length rest" using found(1) by simp
    note IH = less [OF this]
    have "take (length v) rest = v" "drop (length v + 1) rest = w" using found(1) by simp_all
    then show ?thesis
      using found(2,3) IH unfolding scanLoop.simps [of cl opt pre cols m rel bad rest]
      by (simp add: found(1) scanLines_cut split: prod.split)
  qed
qed

text \<open>What listing does with the matching lines of a file: all of them, or up to the limit and then it stops.\<close>

definition shown :: "int \<Rightarrow> 'a list \<Rightarrow> 'a list" where
  "shown b hs = (if b < 0 then hs else take (nat b) hs)"

definition cut :: "int \<Rightarrow> 'a list \<Rightarrow> bool" where
  "cut b hs \<longleftrightarrow> 0 \<le> b \<and> b < int (length hs)"

definition hitOutput :: "cliOpts \<Rightarrow> gostring \<Rightarrow> int \<Rightarrow> gostring \<Rightarrow> nat \<times> bytes \<times> nat \<Rightarrow> written" where
  "hitOutput opt pre cols rel h = (case h of (lineNo, ln, col) \<Rightarrow> matchOutput opt pre cols rel lineNo ln col)"

definition listed_ss :: "cliOpts \<Rightarrow> gostring \<Rightarrow> int \<Rightarrow> gostring \<Rightarrow> bool \<Rightarrow> (nat \<times> bytes \<times> nat) list \<Rightarrow> streamScan \<Rightarrow> streamScan" where
  "listed_ss opt pre cols rel bad hs ss =
     (let b = ss_limitLeft ss in
      ss\<lparr>ss_out := ss_out ss @ map (hitOutput opt pre cols rel) (shown b hs),
         ss_limitLeft := (if b < 0 then b else b - int (length (shown b hs))),
         ss_truncated := (ss_truncated ss \<or> cut b hs),
         ss_unreadable := ss_unreadable ss + (if bad \<and> \<not> cut b hs then 1 else 0)\<rparr>)"

lemma scanList_listing:
  assumes "\<not> filesOnly opt"
  shows "scanList cl opt pre cols m rel bad ls k ss n =
    (let hs = lineHits (cl_L cl) m k ls in
     (listed_ss opt pre cols rel bad hs ss, n + int (length (shown (ss_limitLeft ss) hs)) + (if cut (ss_limitLeft ss) hs then 1 else 0)))"
proof (induction ls arbitrary: k ss n)
  case Nil
  show ?case by (simp add: listed_ss_def shown_def cut_def Let_def)
next
  case (Cons l ls)
  show ?case
  proof (cases "FindFirst (cl_L cl) m l")
    case None
    then show ?thesis using Cons.IH [of "k + 1" ss n] by (simp add: scanLine_def)
  next
    case (Some loc)
    let ?hs = "lineHits (cl_L cl) m (k + 1) ls" and ?h = "(k + 1, l, fst loc)"
    show ?thesis
    proof (cases "ss_limitLeft ss = 0")
      case True
      then show ?thesis using Some assms by (simp add: scanLine_def listed_ss_def shown_def cut_def Let_def)
    next
      case False
      let ?b = "ss_limitLeft ss"
      let ?ss = "(emitOut ss (hitOutput opt pre cols rel ?h))\<lparr>ss_limitLeft := (if ?b < 0 then ?b else ?b - 1)\<rparr>"
      have line: "scanLine cl opt pre cols m rel (k + 1) l ss n = (?ss, n + 1, False)"
        using Some False assms by (auto simp: scanLine_def emitMatch_def emitOut_def hitOutput_def Let_def)
      have sh: "shown ?b (?h # ?hs) = ?h # shown (ss_limitLeft ?ss) ?hs"
        using False by (auto simp: shown_def take_Cons' nat_diff_distrib')
      have ct: "cut ?b (?h # ?hs) = cut (ss_limitLeft ?ss) ?hs" using False by (auto simp: cut_def)
      have hs: "lineHits (cl_L cl) m k (l # ls) = ?h # ?hs" using Some by simp
      have "listed_ss opt pre cols rel bad (?h # ?hs) ss = listed_ss opt pre cols rel bad ?hs ?ss"
        using False unfolding listed_ss_def Let_def sh ct by (simp add: emitOut_def)
      then show ?thesis
        using Cons.IH [of "k + 1" ?ss "n + 1"] line unfolding hs Let_def sh ct by (simp add: emitOut_def)
    qed
  qed
qed

lemma scanList_counting:
  assumes "filesOnly opt"
  shows "scanList cl opt pre cols m rel bad ls k ss n =
    (let hs = lineHits (cl_L cl) m k ls; only = rq_Files (co_req opt) in
     (if bad \<and> \<not> (only \<and> hs \<noteq> []) then ss\<lparr>ss_unreadable := ss_unreadable ss + 1\<rparr> else ss,
      n + int (if only then min 1 (length hs) else length hs)))"
proof (induction ls arbitrary: k n)
  case (Cons l ls)
  show ?case
    using assms Cons.IH [of "k + 1"] by (cases "FindFirst (cl_L cl) m l") (auto simp: scanLine_def Let_def)
qed simp

lemma scanFile_text:
  assumes "cl_Open cl (Join (rq_Root (co_req opt)) rel) = Some (content, bad)" and "0 \<notin> set (take 8192 content) \<or> rq_Text (co_req opt)"
  shows "scanFile cl opt pre cols m rel ss =
    (case scanList cl opt pre cols m rel bad (scanLines content) 0 ss 0 of (ss, n) \<Rightarrow>
       if n > 0 then
         let ss = ss\<lparr>ss_fileHits := ss_fileHits ss + 1, ss_matches := ss_matches ss + n\<rparr> in
         if filesOnly opt then emitFileCount opt pre ss rel n else ss
       else ss)"
proof -
  have "\<not> (IndexByte (take 8192 content) 0 \<noteq> None \<and> \<not> rq_Text (co_req opt))"
    using assms(2) by (auto simp: IndexByte_None_iff)
  then show ?thesis unfolding scanFile_def assms(1) option.case prod.case scanLoop_scanList by (rule if_not_P)
qed

subsection \<open>The limit\<close>

lemma listed_length:
  "0 \<le> ss_limitLeft ss \<Longrightarrow>
    int (length (ss_out (listed_ss opt pre cols rel bad hs ss))) + ss_limitLeft (listed_ss opt pre cols rel bad hs ss) =
      int (length (ss_out ss)) + ss_limitLeft ss \<and> 0 \<le> ss_limitLeft (listed_ss opt pre cols rel bad hs ss)"
  by (auto simp: listed_ss_def shown_def Let_def)

lemma scanFile_limit:
  assumes "\<not> filesOnly opt" and "0 \<le> ss_limitLeft ss"
  shows "int (length (ss_out (scanFile cl opt pre cols m rel ss))) + ss_limitLeft (scanFile cl opt pre cols m rel ss) =
      int (length (ss_out ss)) + ss_limitLeft ss \<and> 0 \<le> ss_limitLeft (scanFile cl opt pre cols m rel ss)"
proof (cases "cl_Open cl (Join (rq_Root (co_req opt)) rel)")
  case (Some f)
  obtain content bad where f: "f = (content, bad)" by (rule prod.exhaust)
  show ?thesis
  proof (cases "0 \<notin> set (take 8192 content) \<or> rq_Text (co_req opt)")
    case True
    then show ?thesis
      using listed_length [OF assms(2), of opt pre cols rel bad "lineHits (cl_L cl) m 0 (scanLines content)"] assms(1)
      by (simp add: scanFile_text [OF Some [unfolded f]] scanList_listing [OF assms(1)] Let_def)
  next
    case False
    then have "IndexByte (take 8192 content) 0 \<noteq> None \<and> \<not> rq_Text (co_req opt)" by (simp add: IndexByte_None_iff)
    with Some f assms(2) show ?thesis by (simp add: scanFile_def)
  qed
qed (use assms(2) in \<open>simp add: scanFile_def\<close>)

lemma scanFiles_limit:
  "\<not> filesOnly opt \<Longrightarrow> 0 \<le> ss_limitLeft ss \<Longrightarrow>
    int (length (ss_out (scanFiles cl opt pre cols m rels ss))) \<le> int (length (ss_out ss)) + ss_limitLeft ss"
proof (induction rels arbitrary: ss)
  case (Cons rel rels)
  note step = scanFile_limit [OF Cons.prems, of cl pre cols m rel]
  then have "0 \<le> ss_limitLeft (scanFile cl opt pre cols m rel ss)" by blast
  from Cons.IH [OF Cons.prems(1) this] step Cons.prems show ?case by simp
qed simp

text \<open>The lines written to standard output, each one a match in a listing request.\<close>

fun isLine :: "written \<Rightarrow> bool" where
  "isLine (Stdout s) = True"
| "isLine (StdoutJSON ev) = (ev_Type ev = str ''match'')"
| "isLine _ = False"

lemma scanStreams_limit:
  assumes "\<not> filesOnly opt" and "0 \<le> b"
  shows "int (length (filter isLine (ss_out (scanStreams cl files opt pre cols b)))) \<le> b"
proof (cases "files = []")
  case False
  show ?thesis
  proof (cases "MatcherFor (cl_L cl) (rq_Pattern (co_req opt)) (rq_Fixed (co_req opt)) (rq_NoCase (co_req opt))")
    case (Inl err)
    with False assms(2) show ?thesis by (simp add: scanStreams_def emitOut_def newScan_def Let_def)
  next
    case (Inr m)
    have "int (length (ss_out (scanFiles cl opt pre cols m files (newScan b)))) \<le> b"
      using scanFiles_limit [OF assms(1), of "newScan b"] assms(2) by (simp add: newScan_def)
    then have "int (length (filter isLine (ss_out (scanFiles cl opt pre cols m files (newScan b))))) \<le> b"
      using length_filter_le [of isLine "ss_out (scanFiles cl opt pre cols m files (newScan b))"] by linarith
    with False Inr show ?thesis by (simp add: scanStreams_def emitOut_def Let_def)
  qed
qed (use assms(2) in \<open>simp add: scanStreams_def newScan_def\<close>)

definition linesOut :: "session \<Rightarrow> int" where
  "linesOut st = int (length (filter isLine (cs_out st)))"

lemma linesOut_simps [simp]:
  "linesOut (say st ws) = linesOut st + int (length (filter isLine ws))"
  "linesOut (st\<lparr>cs_recv := r\<rparr>) = linesOut st" "linesOut (st\<lparr>cs_matched := b\<rparr>) = linesOut st" "linesOut (st\<lparr>cs_progress := b\<rparr>) = linesOut st"
  "linesOut (st\<lparr>cs_lr := lr\<rparr>) = linesOut st" "linesOut (st\<lparr>cs_streamFiles := fs\<rparr>) = linesOut st"
  "linesOut (clearProgress st) = linesOut st"
  by (simp_all add: linesOut_def say_def clearProgress_def)

lemma say_simps [simp]:
  "cs_recv (say st ws) = cs_recv st" "cs_matched (say st ws) = cs_matched st" "cs_streamFiles (say st ws) = cs_streamFiles st"
  "cs_recv (clearProgress st) = cs_recv st" "cs_matched (clearProgress st) = cs_matched st"
  "cs_streamFiles (clearProgress st) = cs_streamFiles st"
  by (simp_all add: say_def clearProgress_def)

lemma printMatch_simps [simp]:
  "cs_recv (printMatch cl opt st ev) = cs_recv st + 1" "cs_matched (printMatch cl opt st ev)"
  "cs_streamFiles (printMatch cl opt st ev) = cs_streamFiles st" "linesOut (printMatch cl opt st ev) = linesOut st + 1"
  by (simp_all add: printMatch_def Let_def split: prod.split)

lemma warn_no_lines [simp]: "filter isLine (warnVersion v) = []"
  by (simp add: warnVersion_def)

definition isMatch :: "Event \<Rightarrow> bool" where "isMatch ev \<longleftrightarrow> ev_Type ev = str ''match''"

text \<open>One step, for both forms of output.\<close>

definition step :: "'re client \<Rightarrow> cliOpts \<Rightarrow> session \<Rightarrow> Event \<Rightarrow> session \<times> int option" where
  "step cl opt st ev = (if co_jsonOut opt then stepJSON cl opt st ev else stepText cl opt st ev)"

lemma type_names:
  "str ''match'' \<noteq> str ''done''" "str ''match'' \<noteq> str ''error''" "str ''match'' \<noteq> str ''progress''" "str ''match'' \<noteq> str ''filecount''"
  "str ''filecount'' \<noteq> str ''done''" "str ''filecount'' \<noteq> str ''error''" "str ''filecount'' \<noteq> str ''progress''"
  "str ''done'' \<noteq> str ''error''" "str ''done'' \<noteq> str ''progress''" "str ''error'' \<noteq> str ''progress''"
  "str ''streamfile'' \<noteq> str ''done''" "str ''streamfile'' \<noteq> str ''match''" "str ''streamfile'' \<noteq> str ''error''"
  "str ''streamfile'' \<noteq> str ''filecount''"
  by code_simp+

lemma step_plain:
  assumes "ev_Type ev \<noteq> str ''done''" and "ev_Type ev \<noteq> str ''error''"
  shows "snd (step cl opt st ev) = None"
    and "cs_recv (fst (step cl opt st ev)) = cs_recv st + (if isMatch ev then 1 else 0)"
    and "cs_streamFiles (fst (step cl opt st ev)) = cs_streamFiles st"
    and "cs_matched (fst (step cl opt st ev)) \<longleftrightarrow>
      cs_matched st \<or> \<not> co_jsonOut opt \<and> (isMatch ev \<or> ev_Type ev = str ''filecount'')"
    and "ev_Type ev \<noteq> str ''filecount'' \<Longrightarrow> linesOut (fst (step cl opt st ev)) = linesOut st + (if isMatch ev then 1 else 0)"
  using assms type_names
  by (auto simp: step_def stepJSON_def stepText_def isMatch_def Let_def simp del: str_inj split: if_splits prod.splits)

text \<open>An example.\<close>

definition exText :: bytes where "exText = str ''zabc'' @ [newline] @ str ''x'' @ [newline] @ str ''abcabc''"

definition exClient :: "gostring client" where
  "exClient = \<lparr>cl_L = exampleLib, cl_cfg = (Default 4)\<lparr>MaxColumns := 5\<rparr>,
     cl_ReadFile = (\<lambda>p. if p = str ''/r/a.log'' then Inr exText else Inl []),
     cl_Open = (\<lambda>p. if p = str ''/r/a.log'' then Some (exText, False) else None)\<rparr>"

definition exOpt :: "int \<Rightarrow> cliOpts" where
  "exOpt lim = \<lparr>co_req = zeroRequest\<lparr>rq_Root := str ''/r'', rq_Pattern := str ''abc'', rq_Fixed := True, rq_Limit := lim\<rparr>,
     co_jsonOut = False, co_pathArg = str ''.''\<rparr>"

definition exMatch :: "gostring Matcher" where
  "exMatch = \<lparr>m_Re = Some (str ''abc''), m_PlainLit = str ''abc'', m_Fold = False, m_rareByte = 98, m_hasRare = True\<rparr>"

lemma exOpen: "cl_Open exClient (Join (rq_Root (co_req (exOpt lim))) (str ''a.log'')) = Some (exText, False)"
  "cl_ReadFile exClient (Join (rq_Root (co_req (exOpt lim))) (str ''a.log'')) = Inr exText"
proof -
  have "Join (str ''/r'') (str ''a.log'') = str ''/r/a.log''" by code_simp
  then show "cl_Open exClient (Join (rq_Root (co_req (exOpt lim))) (str ''a.log'')) = Some (exText, False)"
    "cl_ReadFile exClient (Join (rq_Root (co_req (exOpt lim))) (str ''a.log'')) = Inr exText" by (simp_all add: exClient_def exOpt_def)
qed

lemma exHits:
  "lineHits (cl_L exClient) exMatch 0 (scanLines exText) = [(1, str ''zabc'', 1), (3, str ''abcabc'', 0)]"
  by code_simp

lemma exPlain: "0 \<notin> set (take 8192 exText)" "\<not> isBinary exText" "\<not> filesOnly (exOpt lim)" by code_simp+

subsection \<open>One stream file\<close>

text \<open>C36. A request that lists lines prints, for a readable stream file that is not binary (or with -a), exactly its matching lines
  in order, each once with its number, up to what is left of the limit. The scan ends early exactly when a further line matches; that line is
  not printed but it is counted, so the reported number of matches is one too high.\<close>

theorem scanFile_exact:
  assumes "cl_Open cl (Join (rq_Root (co_req opt)) rel) = Some (content, bad)" and "0 \<notin> set (take 8192 content) \<or> rq_Text (co_req opt)"
    and "\<not> filesOnly opt"
  shows "let hs = lineHits (cl_L cl) m 0 (scanLines content); b = ss_limitLeft ss; ss' = scanFile cl opt pre cols m rel ss in
    ss_out ss' = ss_out ss @ map (hitOutput opt pre cols rel) (shown b hs) \<and>
    ss_truncated ss' = (ss_truncated ss \<or> cut b hs) \<and>
    ss_matches ss' = ss_matches ss + int (length (shown b hs)) + (if cut b hs then 1 else 0) \<and>
    ss_fileHits ss' = ss_fileHits ss + (if hs = [] then 0 else 1) \<and>
    ss_unreadable ss' = ss_unreadable ss + (if bad \<and> \<not> cut b hs then 1 else 0)"
proof -
  define hs where "hs = lineHits (cl_L cl) m 0 (scanLines content)"
  define b where "b = ss_limitLeft ss"
  have pos: "int (length (shown b hs)) + (if cut b hs then 1 else 0) > 0 \<longleftrightarrow> hs \<noteq> []"
    by (cases hs) (auto simp: shown_def cut_def)
  have "scanFile cl opt pre cols m rel ss =
      (let ss' = listed_ss opt pre cols rel bad hs ss; n = int (length (shown b hs)) + (if cut b hs then 1 else 0) in
       if hs \<noteq> [] then ss'\<lparr>ss_fileHits := ss_fileHits ss' + 1, ss_matches := ss_matches ss' + n\<rparr> else ss')"
    unfolding scanFile_text [OF assms(1,2)] scanList_listing [OF assms(3)] Let_def hs_def [symmetric] b_def [symmetric] prod.case
      pos [unfolded Let_def] add_0 using assms(3) pos by simp
  moreover have "hs = [] \<Longrightarrow> shown b hs = [] \<and> \<not> cut b hs" by (simp add: shown_def cut_def)
  ultimately show ?thesis
    unfolding hs_def [symmetric] b_def [symmetric] Let_def by (auto simp: listed_ss_def b_def Let_def)
qed

theorem scanFile_exact_witness:
  "ss_out (scanFile exClient (exOpt 1) [] 0 exMatch (str ''a.log'') (newScan 1)) =
     [hitOutput (exOpt 1) [] 0 (str ''a.log'') (1, str ''zabc'', 1)] \<and>
   ss_matches (scanFile exClient (exOpt 1) [] 0 exMatch (str ''a.log'') (newScan 1)) = 2"
  using scanFile_exact [OF exOpen(1) disjI1 [OF exPlain(1)] exPlain(3), where m = exMatch and ss = "newScan 1" and pre = "[]" and cols = 0]
  by (simp add: exHits newScan_def shown_def cut_def Let_def)

text \<open>The list of matching lines has exactly the lines on which the matcher finds something, numbered from 1.\<close>

lemma lineHits_in:
  "(k, ln, c) \<in> set (lineHits L m n ls) \<Longrightarrow> n < k \<and> k \<le> n + length ls \<and> ls ! (k - n - 1) = ln"
proof (induction ls arbitrary: n)
  case (Cons l ls)
  from Cons.prems consider "k = n + 1" "ln = l" | "(k, ln, c) \<in> set (lineHits L m (n + 1) ls)"
    by (auto split: option.splits)
  then show ?case
  proof cases
    case 2
    from Cons.IH [OF this] have "n + 1 < k" "k \<le> n + 1 + length ls" "ls ! (k - (n + 1) - 1) = ln" by blast+
    moreover then have "k - n - 1 = Suc (k - (n + 1) - 1)" by simp
    ultimately show ?thesis by simp
  qed simp
qed simp

lemma allHits_lineHits:
  "allHits L m so rel n ls = map (\<lambda>(k, ln, c). lineHit rel so k (c, c) ln) (lineHits L m n ls)"
  by (induction ls arbitrary: n) (auto simp: lineHit_def split: option.splits)

lemma lineHits_sorted: "sorted_wrt (<) (map fst (lineHits L m n ls))"
proof (induction ls arbitrary: n)
  case (Cons l ls)
  have "n + 1 < k" if "(k, ln, c) \<in> set (lineHits L m (n + 1) ls)" for k ln c using lineHits_in [OF that] by simp
  with Cons.IH [of "n + 1"] show ?case by (auto split: option.splits)
qed simp

subsection \<open>Stream files and indexed files look alike\<close>

lemma matchEvents_in_order:
  assumes "sorted (map (\<lambda>m. (mt_Path m, mt_Line m)) (sr_Matches res))"
  shows "matchEvents [] res =
    map (\<lambda>m. let ev = (event ''match'')\<lparr>ev_File := mt_Path m, ev_Line := int (mt_Line m), ev_Text := mt_Text m\<rparr> in
       if mt_Text m = [] \<and> mt_LineLen m > 0
       then ev\<lparr>ev_Col := int (mt_Col m), ev_LineLen := int (mt_LineLen m)\<rparr> else ev) (sr_Matches res)"
  using TrimPrefix_append [of "[]"] by (simp add: matchEvents_def sort_key_id_if_sorted [OF assms])

lemma scanLines_nth: "k < length (scanLines content) \<Longrightarrow> k < length (splitLines content) \<and> splitLines content ! k = scanLines content ! k"
  by (auto simp: scanLines_def Let_def nth_butlast split: if_splits)

lemma columns_agree:
  "(requestColumns cfg req \<le> 0 \<or> int n \<le> requestColumns cfg req) = (displayCols cfg req \<le> 0 \<or> int n \<le> displayCols cfg req)"
  by (auto simp: requestColumns_def displayCols_def)

text \<open>The event the daemon sends for a matching line, and what the client prints for it.\<close>

definition hitEvent :: "SearchOpts \<Rightarrow> gostring \<Rightarrow> nat \<times> bytes \<times> nat \<Rightarrow> Event" where
  "hitEvent so rel h = (case h of (k, ln, c) \<Rightarrow>
     let m = lineHit rel so k (c, c) ln;
         ev = (event ''match'')\<lparr>ev_File := mt_Path m, ev_Line := int (mt_Line m), ev_Text := mt_Text m\<rparr> in
     if mt_Text m = [] \<and> mt_LineLen m > 0 then ev\<lparr>ev_Col := int (mt_Col m), ev_LineLen := int (mt_LineLen m)\<rparr> else ev)"

definition shownAs :: "'re client \<Rightarrow> cliOpts \<Rightarrow> session \<Rightarrow> Event \<Rightarrow> gostring \<times> lineReader" where
  "shownAs cl opt st ev =
     (if ev_Text ev = [] \<and> ev_LineLen ev > 0
      then render cl (cs_lr st) (Join (rq_Root (co_req opt)) (ev_File ev)) (ev_Line ev) (ev_Col ev) (ev_LineLen ev)
        (displayCols (cl_cfg cl) (co_req opt))
      else (ev_Text ev, cs_lr st))"

lemma printMatch_quiet:
  assumes "\<not> cs_progress st"
  shows "cs_out (printMatch cl opt st ev) = cs_out st @ [Stdout (matchLine opt (ev\<lparr>ev_Text := fst (shownAs cl opt st ev)\<rparr>))]"
    and "cs_lr (printMatch cl opt st ev) = snd (shownAs cl opt st ev)" and "\<not> cs_progress (printMatch cl opt st ev)"
  using assms by (simp_all add: printMatch_def shownAs_def clearProgress_def say_def Let_def case_prod_beta)

lemma printMatch_hit:
  assumes "\<not> co_jsonOut opt" and "so_MaxColumns so = requestColumns (cl_cfg cl) (co_req opt)"
    and "cl_ReadFile cl (Join (rq_Root (co_req opt)) rel) = Inr content"
    and "lr_path (cs_lr st) = Join (rq_Root (co_req opt)) rel \<Longrightarrow> lr_lines (cs_lr st) = splitLines content"
    and "(k, ln, c) \<in> set (lineHits (cl_L cl) m 0 (scanLines content))" and "\<not> cs_progress st"
  shows "cs_out (printMatch cl opt st (hitEvent so rel (k, ln, c))) =
      cs_out st @ [hitOutput opt (pathPrefix opt) (displayCols (cl_cfg cl) (co_req opt)) rel (k, ln, c)]"
    and "lr_path (cs_lr (printMatch cl opt st (hitEvent so rel (k, ln, c)))) = Join (rq_Root (co_req opt)) rel \<Longrightarrow>
      lr_lines (cs_lr (printMatch cl opt st (hitEvent so rel (k, ln, c)))) = splitLines content"
    and "\<not> cs_progress (printMatch cl opt st (hitEvent so rel (k, ln, c)))"
proof -
  let ?cols = "displayCols (cl_cfg cl) (co_req opt)" and ?ev = "hitEvent so rel (k, ln, c)"
    and ?abs = "Join (rq_Root (co_req opt)) rel"
  have k: "0 < k" "k \<le> length (scanLines content)" "scanLines content ! (k - 1) = ln" using lineHits_in [OF assms(5)] by simp_all
  then have "k - 1 < length (scanLines content)" by linarith
  note sl = scanLines_nth [OF this]
  have sp: "k \<le> length (splitLines content)" using conjunct1 [OF sl] by linarith
  have nth: "splitLines content ! (k - 1) = ln" using conjunct2 [OF sl] k(3) by (rule trans)
  have nat: "nat (int k - 1) = k - 1" using k(1) by simp
  have kind: "ev_Kind ?ev = []" "ev_File ?ev = rel" "ev_Line ?ev = int k" by (simp_all add: hitEvent_def event_def lineHit_def Let_def)
  define short where "short \<longleftrightarrow> ?cols \<le> 0 \<or> int (length ln) \<le> ?cols"
  have ev: "ev_Text ?ev = (if short then ln else [])"
    "ev_LineLen ?ev = (if short then 0 else int (length ln))" "ev_Col ?ev = (if short then 0 else int c)"
    using columns_agree [of "cl_cfg cl" "co_req opt" "length ln"]
    by (auto simp: hitEvent_def event_def lineHit_def Let_def assms(2) short_def [symmetric])
  have plain: "fst (shownAs cl opt st ?ev) = TruncateWindow ln (int c) ?cols"
  proof (cases short)
    case True
    then show ?thesis by (auto simp: shownAs_def ev TruncateWindow_def short_def)
  next
    case False
    then have "ln \<noteq> []" by (auto simp: short_def)
    with False show ?thesis using k(1) sp nth nat assms(3,4) by (simp add: shownAs_def ev kind render_def Let_def)
  qed
  have lr: "lr_path (snd (render cl (cs_lr st) ?abs l o' n ?cols)) = ?abs" "lr_lines (snd (render cl (cs_lr st) ?abs l o' n ?cols)) = splitLines content"
    for l o' n using assms(3,4) by (simp_all add: render_def Let_def)
  note pm = printMatch_quiet [OF assms(6), of cl opt ?ev]
  show "cs_out (printMatch cl opt st ?ev) = cs_out st @ [hitOutput opt (pathPrefix opt) ?cols rel (k, ln, c)]"
    unfolding pm(1) plain using kind assms(1) by (simp add: hitOutput_def matchOutput_def matchLine_def Let_def)
  show "lr_lines (cs_lr (printMatch cl opt st ?ev)) = splitLines content" if "lr_path (cs_lr (printMatch cl opt st ?ev)) = ?abs"
    using that lr assms(4) unfolding pm(2) shownAs_def kind(2) by (simp split: if_splits)
  show "\<not> cs_progress (printMatch cl opt st ?ev)" by (rule pm(3))
qed

lemma printMatch_hits:
  assumes "\<not> co_jsonOut opt" and "so_MaxColumns so = requestColumns (cl_cfg cl) (co_req opt)"
    and "cl_ReadFile cl (Join (rq_Root (co_req opt)) rel) = Inr content"
  shows "set hs \<subseteq> set (lineHits (cl_L cl) m 0 (scanLines content)) \<Longrightarrow>
    (lr_path (cs_lr st) = Join (rq_Root (co_req opt)) rel \<Longrightarrow> lr_lines (cs_lr st) = splitLines content) \<Longrightarrow> \<not> cs_progress st \<Longrightarrow>
    cs_out (fold (\<lambda>ev st. printMatch cl opt st ev) (map (hitEvent so rel) hs) st) =
      cs_out st @ map (hitOutput opt (pathPrefix opt) (displayCols (cl_cfg cl) (co_req opt)) rel) hs"
proof (induction hs arbitrary: st)
  case (Cons h hs)
  obtain k ln c where h: "h = (k, ln, c)" by (rule prod_cases3)
  have "(k, ln, c) \<in> set (lineHits (cl_L cl) m 0 (scanLines content))" using Cons.prems(1) h by simp
  note st = printMatch_hit [OF assms Cons.prems(2) this Cons.prems(3)]
  have "cs_out (fold (\<lambda>ev st. printMatch cl opt st ev) (map (hitEvent so rel) hs) (printMatch cl opt st (hitEvent so rel h))) =
      cs_out (printMatch cl opt st (hitEvent so rel h)) @ map (hitOutput opt (pathPrefix opt) (displayCols (cl_cfg cl) (co_req opt)) rel) hs"
    by (rule Cons.IH) (use Cons.prems(1) st h in auto)
  with st(1) h show ?case by simp
qed simp

lemma matchEvents_hits:
  "matchEvents [] \<lparr>sr_Matches = allHits L m so rel 0 ls, sr_FileCounts = fcs, sr_Truncated = tr\<rparr> =
    map (hitEvent so rel) (lineHits L m 0 ls)"
proof -
  let ?hs = "lineHits L m 0 ls" and ?f = "\<lambda>(k, ln, c). lineHit rel so k (c, c) ln"
  have ms: "allHits L m so rel 0 ls = map ?f ?hs" by (simp add: allHits_lineHits)
  have eq: "map (\<lambda>m. (mt_Path m, mt_Line m)) (map ?f ?hs) = map (Pair rel) (map fst ?hs)"
    by (auto simp: lineHit_def)
  have "sorted (map fst ?hs)" using lineHits_sorted [of L m 0 ls] by (rule strict_sorted_imp_sorted)
  then have "sorted (map (Pair rel) (map fst ?hs))" by (simp add: sorted_map sorted_wrt_map less_eq_prod_def)
  then have "sorted (map (\<lambda>m. (mt_Path m, mt_Line m)) (allHits L m so rel 0 ls))" unfolding ms by (simp only: eq)
  then have "matchEvents [] \<lparr>sr_Matches = allHits L m so rel 0 ls, sr_FileCounts = fcs, sr_Truncated = tr\<rparr> =
    map (\<lambda>m. let ev = (event ''match'')\<lparr>ev_File := mt_Path m, ev_Line := int (mt_Line m), ev_Text := mt_Text m\<rparr> in
       if mt_Text m = [] \<and> mt_LineLen m > 0
       then ev\<lparr>ev_Col := int (mt_Col m), ev_LineLen := int (mt_LineLen m)\<rparr> else ev) (allHits L m so rel 0 ls)"
    by (subst matchEvents_in_order) simp_all
  also have "\<dots> = map (hitEvent so rel) ?hs" unfolding ms by (auto simp: hitEvent_def Let_def)
  finally show ?thesis .
qed

text \<open>C11. In the text output and without a limit, the lines a client prints after scanning a readable file of the stream set that is text are
  exactly those it would print for the events the daemon sends when its disk engine finds the same content, for any pattern, or when
  its in-memory engine does, for a literal without a newline, provided both cut long lines to the same window. (For a regular
  expression the in-memory engine differs: there ^ and $ match at the ends of the file, in the two others at those of a line. In JSON the
  scan writes the cut text of a long line, the daemon's event its length and column.)\<close>

theorem stream_like_index:
  assumes "cl_Open cl (Join (rq_Root (co_req opt)) rel) = Some (content, bad)"
    and "cl_ReadFile cl (Join (rq_Root (co_req opt)) rel) = Inr content"
    and "\<not> isBinary content" and "\<not> filesOnly opt" and "\<not> co_jsonOut opt" and "ss_limitLeft ss < 0"
    and "\<not> so_FilesOnly so" and "so_Limit so \<le> 0" and "so_MaxColumns so = requestColumns (cl_cfg cl) (co_req opt)"
    and "lr_path (cs_lr st) = Join (rq_Root (co_req opt)) rel \<Longrightarrow> lr_lines (cs_lr st) = splitLines content" and "\<not> cs_progress st"
  shows "\<exists>ws. ss_out (scanFile cl opt (pathPrefix opt) (displayCols (cl_cfg cl) (co_req opt)) m rel ss) = ss_out ss @ ws \<and>
    cs_out (fold (\<lambda>ev st. printMatch cl opt st ev)
      (matchEvents [] \<lparr>sr_Matches = matchContent (cl_L cl) rel content m so, sr_FileCounts = fcs, sr_Truncated = tr\<rparr>) st) = cs_out st @ ws \<and>
    (\<forall>f re. fe_content f = content \<longrightarrow> fm_Path (fe_meta f) = rel \<longrightarrow> \<not> skipFile so f \<longrightarrow>
      matcher_ok m \<longrightarrow> m_PlainLit m \<noteq> [] \<longrightarrow> newline \<notin> set (m_PlainLit m) \<longrightarrow>
      so_PlainLiteral so = m_PlainLit m \<longrightarrow> so_FoldCase so = m_Fold m \<longrightarrow>
      cs_out (fold (\<lambda>ev st. printMatch cl opt st ev)
        (matchEvents [] \<lparr>sr_Matches = fileMatches (cl_L cl) re so f, sr_FileCounts = fcs, sr_Truncated = tr\<rparr>) st) = cs_out st @ ws)"
proof -
  let ?hs = "lineHits (cl_L cl) m 0 (scanLines content)" and ?cols = "displayCols (cl_cfg cl) (co_req opt)"
  have plain: "0 \<notin> set (take 8192 content) \<or> rq_Text (co_req opt)"
    using assms(3) min.commute [of 8192 "length content"] by (auto simp: isBinary_def Let_def IndexByte_None_iff split: if_splits)
  have scan: "ss_out (scanFile cl opt (pathPrefix opt) ?cols m rel ss) = ss_out ss @ map (hitOutput opt (pathPrefix opt) ?cols rel) ?hs"
    using assms(4,6) by (simp add: scanFile_text [OF assms(1) plain] scanList_listing [OF assms(4)] listed_ss_def shown_def Let_def)
  have events: "cs_out (fold (\<lambda>ev st. printMatch cl opt st ev)
      (matchEvents [] \<lparr>sr_Matches = allHits (cl_L cl) m so rel 0 (scanLines content), sr_FileCounts = fcs, sr_Truncated = tr\<rparr>) st) =
      cs_out st @ map (hitOutput opt (pathPrefix opt) ?cols rel) ?hs"
    unfolding matchEvents_hits by (rule printMatch_hits [where m = m]) (use assms(2,5,9-11) in simp_all)
  have disk: "matchContent (cl_L cl) rel content m so = allHits (cl_L cl) m so rel 0 (scanLines content)"
    using assms(3,7,8) by (simp add: matchContent_eq cutHits_def)
  have mem: "fileMatches (cl_L cl) re so f = allHits (cl_L cl) m so rel 0 (scanLines content)"
    if "fe_content f = content" "fm_Path (fe_meta f) = rel" "\<not> skipFile so f" "matcher_ok m" "m_PlainLit m \<noteq> []"
      "newline \<notin> set (m_PlainLit m)" "so_PlainLiteral so = m_PlainLit m" "so_FoldCase so = m_Fold m" for f re
    using mem_lines_agree [OF that(4-8,2), of "cl_L cl" re] that(1,3) assms(7) by (simp add: fileMatches_def)
  show ?thesis
    by (intro exI [of _ "map (hitOutput opt (pathPrefix opt) ?cols rel) ?hs"] conjI allI impI; (subst mem, assumption+)?)
      (simp_all only: scan disk events)
qed

definition exEntry :: fileEntry where
  "exEntry = \<lparr>fe_meta = \<lparr>fm_Path = str ''a.log'', fm_Size = 9, fm_MtimeNS = 7\<rparr>, fe_content = exText, fe_defs = [], fe_dead = False\<rparr>"

theorem stream_like_index_witness:
  "\<exists>ws. ss_out (scanFile exClient (exOpt 0) (pathPrefix (exOpt 0)) (displayCols (cl_cfg exClient) (co_req (exOpt 0))) exMatch (str ''a.log'')
      (newScan (- 1))) = ss_out (newScan (- 1)) @ ws \<and>
    cs_out (fold (\<lambda>ev st. printMatch exClient (exOpt 0) st ev)
      (matchEvents [] \<lparr>sr_Matches = matchContent (cl_L exClient) (str ''a.log'') exText exMatch (exampleOpts\<lparr>so_MaxColumns := 5\<rparr>),
         sr_FileCounts = [], sr_Truncated = False\<rparr>) newSession) = cs_out newSession @ ws \<and>
    cs_out (fold (\<lambda>ev st. printMatch exClient (exOpt 0) st ev)
      (matchEvents [] \<lparr>sr_Matches = fileMatches (cl_L exClient) (str ''abc'') (exampleOpts\<lparr>so_MaxColumns := 5\<rparr>) exEntry,
         sr_FileCounts = [], sr_Truncated = False\<rparr>) newSession) = cs_out newSession @ ws"
proof -
  have "Join (str ''/r'') (str ''a.log'') \<noteq> []" by code_simp
  then have lr: "lr_lines (cs_lr newSession) = splitLines exText"
    if "lr_path (cs_lr newSession) = Join (rq_Root (co_req (exOpt 0))) (str ''a.log'')"
    using that by (simp add: newSession_def exOpt_def)
  have r: "\<not> co_jsonOut (exOpt 0)" "ss_limitLeft (newScan (- 1)) < 0" "\<not> so_FilesOnly (exampleOpts\<lparr>so_MaxColumns := 5\<rparr>)"
    "so_Limit (exampleOpts\<lparr>so_MaxColumns := 5\<rparr>) \<le> 0" "\<not> cs_progress newSession"
    "so_MaxColumns (exampleOpts\<lparr>so_MaxColumns := 5\<rparr>) = requestColumns (cl_cfg exClient) (co_req (exOpt 0))"
    by (simp_all add: exOpt_def newScan_def newSession_def exampleOpts_def requestColumns_def exClient_def zeroRequest_def)
  have e: "fe_content exEntry = exText" "fm_Path (fe_meta exEntry) = str ''a.log''" "\<not> skipFile (exampleOpts\<lparr>so_MaxColumns := 5\<rparr>) exEntry"
    "matcher_ok exMatch" "m_PlainLit exMatch \<noteq> []" "newline \<notin> set (m_PlainLit exMatch)"
    "so_PlainLiteral (exampleOpts\<lparr>so_MaxColumns := 5\<rparr>) = m_PlainLit exMatch" "so_FoldCase (exampleOpts\<lparr>so_MaxColumns := 5\<rparr>) = m_Fold exMatch"
    by (simp_all add: exEntry_def skipFile_def exampleOpts_def pathOk_def matcher_ok_def exMatch_def str_def)
  show ?thesis
    using stream_like_index [OF exOpen exPlain(2,3) r(1-4,6) lr r(5), of exMatch "[]" False] e by blast
qed

subsection \<open>A listing keeps to the limit\<close>

lemma sessionScan_limit:
  assumes "\<not> filesOnly opt" and "0 < rq_Limit (co_req opt)" and "cs_recv st \<le> rq_Limit (co_req opt)"
  shows "int (length (filter isLine (ss_out (sessionScan cl opt st)))) \<le> rq_Limit (co_req opt) - cs_recv st"
proof -
  have "limitLeft opt (cs_recv st) = rq_Limit (co_req opt) - cs_recv st" using assms(2,3) by (simp add: limitLeft_def)
  then show ?thesis unfolding sessionScan_def using assms(3) by (simp add: scanStreams_limit [OF assms(1)])
qed

lemma step_done:
  assumes "ev_Type ev = str ''done''"
  shows "linesOut (fst (step cl opt st ev)) = linesOut st + int (length (filter isLine (ss_out (sessionScan cl opt st))))"
    and "snd (step cl opt st ev) = Some
      (if co_jsonOut opt then if ev_Matches ev + ss_matches (sessionScan cl opt st) > 0 then 0 else 1
       else if cs_matched st \<or> ss_matches (sessionScan cl opt st) > 0 \<or> ev_Matches ev > 0 then 0 else 1)"
  using assms type_names by (auto simp: step_def stepJSON_def stepText_def sessionScan_def Let_def simp del: str_inj)

lemma step_error:
  assumes "ev_Type ev = str ''error''"
  shows "linesOut (fst (step cl opt st ev)) = linesOut st" and "snd (step cl opt st ev) = Some 2"
  using assms type_names by (auto simp: step_def stepJSON_def stepText_def Let_def simp del: str_inj)

lemma streamLoop_step:
  "streamLoop cl opt lost st (ev # evs) =
    (if ev_Type ev = str ''streamfile'' then streamLoop cl opt lost (st\<lparr>cs_streamFiles := cs_streamFiles st @ [ev_File ev]\<rparr>) evs
     else
       let st = (if ev_Type ev = str ''done'' then say st (warnVersion (ev_V ev)) else st) in
       case snd (step cl opt st ev) of Some ec \<Rightarrow> (fst (step cl opt st ev), ec)
       | None \<Rightarrow> streamLoop cl opt lost (fst (step cl opt st ev)) evs)"
  unfolding streamLoop.simps step_def [symmetric] Let_def by (auto simp: case_prod_beta split: option.split)

declare streamLoop.simps(2) [simp del]

lemma sessionScan_say [simp]:
  "sessionScan cl opt (say st ws) = sessionScan cl opt st" by (simp add: sessionScan_def)

lemma streamLoop_limit:
  assumes "\<not> filesOnly opt" and "0 < rq_Limit (co_req opt)"
  shows "\<forall>ev\<in>set evs. ev_Type ev \<noteq> str ''filecount'' \<Longrightarrow> linesOut st \<le> cs_recv st \<Longrightarrow>
    cs_recv st + int (length (filter isMatch evs)) \<le> rq_Limit (co_req opt) \<Longrightarrow>
    linesOut (fst (streamLoop cl opt lost st evs)) \<le> rq_Limit (co_req opt)"
proof (induction evs arbitrary: st)
  case (Cons ev evs)
  consider (stream) "ev_Type ev = str ''streamfile''" | (fin) "ev_Type ev = str ''done''" | (error) "ev_Type ev = str ''error''"
    | (plain) "ev_Type ev \<noteq> str ''streamfile''" "ev_Type ev \<noteq> str ''done''" "ev_Type ev \<noteq> str ''error''" by blast
  then show ?case
  proof cases
    case stream
    have "linesOut (fst (streamLoop cl opt lost (st\<lparr>cs_streamFiles := cs_streamFiles st @ [ev_File ev]\<rparr>) evs)) \<le> rq_Limit (co_req opt)"
      by (rule Cons.IH) (use Cons.prems stream type_names in \<open>auto simp: isMatch_def simp del: str_inj split: if_splits\<close>)
    with stream show ?thesis unfolding streamLoop_step by simp
  next
    case fin
    have "cs_recv st \<le> rq_Limit (co_req opt)" using Cons.prems(3) by simp
    from sessionScan_limit [OF assms this, of cl] Cons.prems(2) fin type_names show ?thesis
      unfolding streamLoop_step by (simp add: step_done Let_def del: str_inj)
  next
    case error
    with Cons.prems(2,3) type_names show ?thesis unfolding streamLoop_step by (simp add: step_error Let_def del: str_inj)
  next
    case plain
    note st = step_plain [OF plain(2,3), of cl opt st]
    have "linesOut (fst (streamLoop cl opt lost (fst (step cl opt st ev)) evs)) \<le> rq_Limit (co_req opt)"
      by (rule Cons.IH) (use Cons.prems st(2,5) in \<open>auto split: if_splits\<close>)
    with plain st(1) show ?thesis unfolding streamLoop_step by (simp add: Let_def)
  qed
qed simp

text \<open>C35. When the daemon keeps to the limit of a listing request, so does the client with the matches of the stream set added: at most
  that many lines reach standard output, as text or as JSON, whatever the stream files hold and whether the connection holds or not.\<close>

theorem limit_respected:
  assumes "\<not> filesOnly opt" and "0 < rq_Limit (co_req opt)" and "\<forall>ev\<in>set evs. ev_Type ev \<noteq> str ''filecount''"
    and "int (length (filter isMatch evs)) \<le> rq_Limit (co_req opt)"
  shows "int (length (filter isLine (fst (streamSearch cl failed lost opt evs)))) \<le> rq_Limit (co_req opt)"
proof (cases failed)
  case None
  have "linesOut (fst (streamLoop cl opt lost newSession evs)) \<le> rq_Limit (co_req opt)"
    by (rule streamLoop_limit [OF assms(1-3)]) (use assms(4) in \<open>simp_all add: newSession_def linesOut_def\<close>)
  with None show ?thesis by (simp add: streamSearch_def linesOut_def case_prod_beta)
qed (use assms(2) in \<open>simp add: streamSearch_def\<close>)

definition exEvents :: "Event list" where
  "exEvents = [(event ''streamfile'')\<lparr>ev_File := str ''a.log''\<rparr>, (event ''match'')\<lparr>ev_File := str ''b'', ev_Line := 1, ev_Text := str ''abc''\<rparr>]"

lemma exEvents_types: "map ev_Type exEvents = [str ''streamfile'', str ''match'']"
  by (simp add: exEvents_def event_def)

lemma exTypes: "ev \<in> set exEvents \<Longrightarrow> ev_Type ev = str ''streamfile'' \<or> ev_Type ev = str ''match''"
  using exEvents_types by (auto simp: exEvents_def)

theorem limit_respected_witness:
  "int (length (filter isLine (fst (streamSearch exClient None [] (exOpt 1) (exEvents @ [event ''done'']))))) \<le> 1"
proof -
  have "\<forall>ev\<in>set (exEvents @ [event ''done'']). ev_Type ev \<noteq> str ''filecount''"
    using exTypes type_names by (auto simp: event_def simp del: str_inj) metis+
  moreover have "int (length (filter isMatch (exEvents @ [event ''done'']))) \<le> rq_Limit (co_req (exOpt 1))" by code_simp
  moreover have "rq_Limit (co_req (exOpt 1)) = 1" by (simp add: exOpt_def)
  ultimately show ?thesis using limit_respected [OF exPlain(3) [of 1], of "exEvents @ [event ''done'']" exClient None "[]"] by simp
qed

subsection \<open>The exit code\<close>

definition fileHit :: "'re client \<Rightarrow> cliOpts \<Rightarrow> 're Matcher \<Rightarrow> gostring \<Rightarrow> bool" where
  "fileHit cl opt m rel \<longleftrightarrow>
     (case cl_Open cl (Join (rq_Root (co_req opt)) rel) of
        None \<Rightarrow> False
      | Some (content, bad) \<Rightarrow>
          (0 \<notin> set (take 8192 content) \<or> rq_Text (co_req opt)) \<and> (\<exists>ln\<in>set (scanLines content). FindFirst (cl_L cl) m ln \<noteq> None))"

lemma scanLine_count:
  "(case scanLine cl opt pre cols m rel k ln ss n of (ss', n', stop) \<Rightarrow>
     ss_matches ss' = ss_matches ss \<and> (if FindFirst (cl_L cl) m ln = None then ss' = ss \<and> n' = n \<and> \<not> stop else n' = n + 1))"
  by (auto simp: scanLine_def emitMatch_def emitOut_def Let_def split: option.split)

lemma scanList_count:
  "(case scanList cl opt pre cols m rel bad ls k ss n of (ss', n') \<Rightarrow>
     ss_matches ss' = ss_matches ss \<and> n \<le> n' \<and> (n < n' \<longleftrightarrow> (\<exists>ln\<in>set ls. FindFirst (cl_L cl) m ln \<noteq> None)) \<and>
     ((\<forall>ln\<in>set ls. FindFirst (cl_L cl) m ln = None) \<longrightarrow> ss_limitLeft ss' = ss_limitLeft ss))"
proof (induction ls arbitrary: k ss n)
  case (Cons l ls)
  obtain ss1 n1 stop where line: "scanLine cl opt pre cols m rel (k + 1) l ss n = (ss1, n1, stop)" by (rule prod_cases3)
  note c = scanLine_count [where cl = cl and opt = opt and pre = pre and cols = cols and m = m and rel = rel and k = "k + 1" and ln = l and ss = ss and n = n,
    unfolded line prod.case]
  obtain ss2 n2 where rest: "scanList cl opt pre cols m rel bad ls (k + 1) ss1 n1 = (ss2, n2)" by (rule prod.exhaust)
  note r = Cons.IH [where k = "k + 1" and ss = ss1 and n = n1, unfolded rest prod.case]
  have "scanList cl opt pre cols m rel bad (l # ls) k ss n = (if stop then (ss1, n1) else (ss2, n2))"
    by (simp only: scanList.simps line rest prod.case)
  then show ?case
    using c r by (cases "FindFirst (cl_L cl) m l = None"; cases stop) auto
qed simp

lemma scanFile_count:
  "ss_matches ss \<le> ss_matches (scanFile cl opt pre cols m rel ss)"
  "ss_matches ss < ss_matches (scanFile cl opt pre cols m rel ss) \<longleftrightarrow> fileHit cl opt m rel"
  "\<not> fileHit cl opt m rel \<Longrightarrow> ss_limitLeft (scanFile cl opt pre cols m rel ss) = ss_limitLeft ss"
proof -
  have "ss_matches ss \<le> ss_matches (scanFile cl opt pre cols m rel ss) \<and>
    (ss_matches ss < ss_matches (scanFile cl opt pre cols m rel ss) \<longleftrightarrow> fileHit cl opt m rel) \<and>
    (\<not> fileHit cl opt m rel \<longrightarrow> ss_limitLeft (scanFile cl opt pre cols m rel ss) = ss_limitLeft ss)"
  proof (cases "cl_Open cl (Join (rq_Root (co_req opt)) rel)")
    case (Some f)
    obtain content bad where f: "f = (content, bad)" by (rule prod.exhaust)
    note Some = Some [unfolded f]
    obtain ss' n where l: "scanList cl opt pre cols m rel bad (scanLines content) 0 ss 0 = (ss', n)" by (rule prod.exhaust)
    note c = scanList_count [where cl = cl and opt = opt and pre = pre and cols = cols and m = m and rel = rel and bad = bad and
      ls = "scanLines content" and k = 0 and ss = ss and n = 0, unfolded l prod.case]
    show ?thesis
    proof (cases "0 \<notin> set (take 8192 content) \<or> rq_Text (co_req opt)")
      case True
      with c show ?thesis
        by (auto simp: scanFile_text [OF Some True] l fileHit_def Some emitFileCount_def emitOut_def Let_def)
    next
      case False
      then have "IndexByte (take 8192 content) 0 \<noteq> None \<and> \<not> rq_Text (co_req opt)" by (simp add: IndexByte_None_iff)
      with False Some show ?thesis by (simp add: scanFile_def fileHit_def)
    qed
  qed (simp add: scanFile_def fileHit_def)
  then show "ss_matches ss \<le> ss_matches (scanFile cl opt pre cols m rel ss)"
    "ss_matches ss < ss_matches (scanFile cl opt pre cols m rel ss) \<longleftrightarrow> fileHit cl opt m rel"
    "\<not> fileHit cl opt m rel \<Longrightarrow> ss_limitLeft (scanFile cl opt pre cols m rel ss) = ss_limitLeft ss" by blast+
qed

lemma scanFiles_mono: "ss_matches ss \<le> ss_matches (scanFiles cl opt pre cols m rels ss)"
proof (induction rels arbitrary: ss)
  case (Cons rel rels)
  have "ss_matches ss \<le> ss_matches (scanFiles cl opt pre cols m rels (scanFile cl opt pre cols m rel ss))"
    by (rule order_trans [OF scanFile_count(1) Cons.IH])
  then show ?case by simp
qed simp

lemma scanFiles_count:
  "0 \<le> ss_matches ss \<Longrightarrow> (ss_limitLeft ss = 0 \<Longrightarrow> 0 < ss_matches ss) \<Longrightarrow>
    0 < ss_matches (scanFiles cl opt pre cols m rels ss) \<longleftrightarrow> 0 < ss_matches ss \<or> (\<exists>rel\<in>set rels. fileHit cl opt m rel)"
proof (induction rels arbitrary: ss)
  case (Cons rel rels)
  let ?ss = "scanFile cl opt pre cols m rel ss"
  note c = scanFile_count [where cl = cl and opt = opt and pre = pre and cols = cols and m = m and rel = rel and ss = ss]
  have "0 < ss_matches (scanFiles cl opt pre cols m rels ?ss) \<longleftrightarrow> 0 < ss_matches ?ss \<or> (\<exists>rel\<in>set rels. fileHit cl opt m rel)"
    using Cons.prems c by (intro Cons.IH) fastforce+
  moreover have "0 < ss_matches ?ss \<longleftrightarrow> 0 < ss_matches ss \<or> fileHit cl opt m rel" using Cons.prems(1) c by fastforce
  ultimately show ?case using Cons.prems(2) by auto
qed simp

definition streamHit :: "'re client \<Rightarrow> cliOpts \<Rightarrow> gostring \<Rightarrow> bool" where
  "streamHit cl opt rel \<longleftrightarrow>
     (case MatcherFor (cl_L cl) (rq_Pattern (co_req opt)) (rq_Fixed (co_req opt)) (rq_NoCase (co_req opt)) of
        Inl err \<Rightarrow> False | Inr m \<Rightarrow> fileHit cl opt m rel)"

lemma scanStreams_count:
  "0 \<le> ss_matches (scanStreams cl files opt pre cols b)"
  "b \<noteq> 0 \<Longrightarrow> 0 < ss_matches (scanStreams cl files opt pre cols b) \<longleftrightarrow> (\<exists>rel\<in>set files. streamHit cl opt rel)"
  using scanFiles_mono [of "newScan b" cl opt pre cols _ files] scanFiles_count [of "newScan b" cl opt pre cols _ files]
  by (auto simp: scanStreams_def streamHit_def newScan_def emitOut_def Let_def split: sum.split)

definition counted :: "Event \<Rightarrow> bool" where
  "counted ev \<longleftrightarrow> ev_Type ev = str ''match'' \<or> ev_Type ev = str ''filecount''"

definition streamed :: "Event list \<Rightarrow> gostring list" where
  "streamed evs = map ev_File (filter (\<lambda>ev. ev_Type ev = str ''streamfile'') evs)"

text \<open>The state after events none of which is the last one.\<close>

text \<open>The lines for the files that are only counted or named.\<close>

definition countLine :: "cliOpts \<Rightarrow> gostring \<Rightarrow> int \<Rightarrow> written" where
  "countLine opt p n = Stdout (pathPrefix opt @ p @ (if rq_Count (co_req opt) then str '':'' @ intDecimal n else []))"

definition countLines :: "cliOpts \<Rightarrow> Event list \<Rightarrow> written list" where
  "countLines opt evs = map (\<lambda>ev. countLine opt (ev_File ev) (ev_Count ev)) (filter (\<lambda>ev. ev_Type ev = str ''filecount'') evs)"

lemma step_lines:
  assumes "ev_Type ev \<noteq> str ''done''" and "ev_Type ev \<noteq> str ''error''" and "\<not> isMatch ev" and "\<not> co_jsonOut opt"
  shows "filter isLine (cs_out (fst (step cl opt st ev))) = filter isLine (cs_out st) @ countLines opt [ev]"
  using assms type_names
  by (auto simp: step_def stepText_def isMatch_def countLines_def countLine_def clearProgress_def say_def Let_def simp del: str_inj)

lemma streamLoop_body:
  assumes "\<forall>ev\<in>set body. ev_Type ev \<noteq> str ''done'' \<and> ev_Type ev \<noteq> str ''error''"
  shows "\<exists>st'. streamLoop cl opt lost st (body @ rest) = streamLoop cl opt lost st' rest \<and>
    cs_streamFiles st' = cs_streamFiles st @ streamed body \<and> cs_recv st' = cs_recv st + int (length (filter isMatch body)) \<and>
    (cs_matched st' \<longleftrightarrow> cs_matched st \<or> \<not> co_jsonOut opt \<and> (\<exists>ev\<in>set body. counted ev)) \<and>
    (\<not> co_jsonOut opt \<and> filter isMatch body = [] \<longrightarrow> filter isLine (cs_out st') = filter isLine (cs_out st) @ countLines opt body)"
  using assms
proof (induction body arbitrary: st)
  case (Cons ev body)
  from Cons.prems have ev: "ev_Type ev \<noteq> str ''done''" "ev_Type ev \<noteq> str ''error''"
    and body: "\<forall>ev\<in>set body. ev_Type ev \<noteq> str ''done'' \<and> ev_Type ev \<noteq> str ''error''" by auto
  show ?case
  proof (cases "ev_Type ev = str ''streamfile''")
    case True
    then have "\<not> isMatch ev" "\<not> counted ev" using type_names by (auto simp: isMatch_def counted_def simp del: str_inj)
    moreover have "countLines opt (ev # body) = countLines opt body"
      using True type_names by (simp add: countLines_def del: str_inj)
    ultimately show ?thesis
      using True Cons.IH [OF body, of "st\<lparr>cs_streamFiles := cs_streamFiles st @ [ev_File ev]\<rparr>"]
      by (simp add: streamLoop_step streamed_def)
  next
    case False
    note st = step_plain [OF ev, of cl opt st]
    have "counted ev \<longleftrightarrow> isMatch ev \<or> ev_Type ev = str ''filecount''" by (simp add: counted_def isMatch_def)
    moreover have "streamLoop cl opt lost st ((ev # body) @ rest) = streamLoop cl opt lost (fst (step cl opt st ev)) (body @ rest)"
      using False ev(1) st(1) by (simp add: streamLoop_step Let_def)
    moreover have "streamed (ev # body) = streamed body" using False by (simp add: streamed_def)
    moreover from Cons.IH [OF body] obtain st' where
      "streamLoop cl opt lost (fst (step cl opt st ev)) (body @ rest) = streamLoop cl opt lost st' rest"
      "cs_streamFiles st' = cs_streamFiles (fst (step cl opt st ev)) @ streamed body"
      "cs_recv st' = cs_recv (fst (step cl opt st ev)) + int (length (filter isMatch body))"
      "cs_matched st' \<longleftrightarrow> cs_matched (fst (step cl opt st ev)) \<or> \<not> co_jsonOut opt \<and> (\<exists>ev\<in>set body. counted ev)"
      "\<not> co_jsonOut opt \<and> filter isMatch body = [] \<longrightarrow>
        filter isLine (cs_out st') = filter isLine (cs_out (fst (step cl opt st ev))) @ countLines opt body" by blast
    moreover have "countLines opt (ev # body) = countLines opt [ev] @ countLines opt body" by (simp add: countLines_def)
    ultimately show ?thesis using st(2-4) step_lines [OF ev, of opt cl st] by (intro exI [of _ st']) auto
  qed
next
  case Nil
  show ?case by (rule exI [of _ st]) (simp add: streamed_def countLines_def)
qed

text \<open>C10. The exit code is grep's. When the request cannot be sent, the events stop early or end in an error, it is 2. Otherwise it is 0 exactly when
  the daemon reported a match or a file of the stream set, as the client reads it now, has a line that matches, and 1 when there is none; this
  relies on the daemon counting the matches it sends.\<close>

theorem exit_code_exact:
  assumes "\<forall>ev\<in>set body. ev_Type ev \<noteq> str ''done'' \<and> ev_Type ev \<noteq> str ''error''"
    and "fins = [] \<or> ev_Type (hd fins) = str ''done'' \<or> ev_Type (hd fins) = str ''error''"
    and "fins \<noteq> [] \<Longrightarrow> 0 \<le> ev_Matches (hd fins) \<and> ((\<exists>ev\<in>set body. counted ev) \<longrightarrow> 0 < ev_Matches (hd fins))"
  shows "snd (streamSearch cl failed lost opt (body @ fins)) =
    (if failed \<noteq> None \<or> fins = [] \<or> ev_Type (hd fins) = str ''error'' then 2
     else if 0 < ev_Matches (hd fins) \<or> (\<exists>rel\<in>set (streamed body). streamHit cl opt rel) then 0 else 1)"
proof (cases failed)
  case None
  obtain st where st: "streamLoop cl opt lost newSession (body @ fins) = streamLoop cl opt lost st fins"
    "cs_streamFiles st = streamed body" "cs_recv st = int (length (filter isMatch body))"
    "cs_matched st \<longleftrightarrow> \<not> co_jsonOut opt \<and> (\<exists>ev\<in>set body. counted ev)"
    using streamLoop_body [OF assms(1), of cl opt lost newSession fins] by (auto simp: newSession_def)
  have main: "snd (streamLoop cl opt lost st fins) =
    (if fins = [] \<or> ev_Type (hd fins) = str ''error'' then 2
     else if 0 < ev_Matches (hd fins) \<or> (\<exists>rel\<in>set (streamed body). streamHit cl opt rel) then 0 else 1)"
  proof (cases fins)
    case (Cons fin more)
    show ?thesis
    proof (cases "ev_Type fin = str ''error''")
      case True
      with Cons type_names show ?thesis by (simp add: streamLoop_step step_error Let_def del: str_inj)
    next
      case False
      with assms(2) Cons have fin: "ev_Type fin = str ''done''" by simp
      let ?scan = "sessionScan cl opt st"
      have "0 \<le> ss_matches ?scan" unfolding sessionScan_def by (rule scanStreams_count(1))
      moreover have "0 < ss_matches ?scan \<longleftrightarrow> (\<exists>rel\<in>set (streamed body). streamHit cl opt rel)" if "limitLeft opt (cs_recv st) \<noteq> 0"
        using scanStreams_count(2) [OF that] by (simp add: sessionScan_def st(2))
      moreover have "0 < ev_Matches fin" if "limitLeft opt (cs_recv st) = 0"
      proof -
        have "filter isMatch body \<noteq> []" using that st(3) by (auto simp: limitLeft_def split: if_splits)
        then have "\<exists>ev\<in>set body. counted ev" by (auto simp: filter_empty_conv isMatch_def counted_def)
        with assms(3) Cons show ?thesis by simp
      qed
      moreover have "0 \<le> ev_Matches fin" "cs_matched st \<Longrightarrow> 0 < ev_Matches fin" using assms(3) Cons st(4) by auto
      ultimately have "snd (step cl opt st fin) =
          Some (if 0 < ev_Matches fin \<or> (\<exists>rel\<in>set (streamed body). streamHit cl opt rel) then 0 else 1)"
        unfolding step_done(2) [OF fin] by (cases "limitLeft opt (cs_recv st) = 0") auto
      moreover have "snd (step cl opt (say st ws) fin) = snd (step cl opt st fin)" for ws by (simp add: step_done(2) [OF fin])
      ultimately show ?thesis using fin type_names Cons False by (simp add: streamLoop_step Let_def del: str_inj)
    qed
  qed simp
  with None st(1) show ?thesis by (simp add: streamSearch_def case_prod_beta)
qed (simp add: streamSearch_def)

theorem exit_code_exact_witness:
  "snd (streamSearch exClient None [] (exOpt 0) ([(event ''streamfile'')\<lparr>ev_File := str ''a.log''\<rparr>] @ [event ''done''])) = 0"
proof -
  let ?s = "(event ''streamfile'')\<lparr>ev_File := str ''a.log''\<rparr>"
  have "\<forall>ev\<in>set [?s]. ev_Type ev \<noteq> str ''done'' \<and> ev_Type ev \<noteq> str ''error''" by code_simp
  moreover have "streamHit exClient (exOpt 0) (str ''a.log'')"
    by code_simp
  moreover have "streamed [?s] = [str ''a.log'']" by code_simp
  moreover have "\<not> counted ?s" "ev_Type (event ''done'') = str ''done''" "ev_Type (event ''done'') \<noteq> str ''error''" by code_simp+
  moreover have "ev_Matches (event ''done'') = 0" by code_simp
  ultimately show ?thesis
    using exit_code_exact [of "[?s]" "[event ''done'']" exClient None "[]" "exOpt 0"] by simp
qed

subsection \<open>Sizes\<close>

lemma sizeDigits_value:
  "\<forall>c\<in>set s. 48 \<le> c \<and> c \<le> 57 \<Longrightarrow> sizeDigits s (of_nat a) = Some (of_nat (foldl (\<lambda>a d. a * 10 + (unat d - 48)) a s))"
proof (induction s arbitrary: a)
  case (Cons c s)
  have c: "48 \<le> c" "c \<le> 57" and s: "\<forall>c\<in>set s. 48 \<le> c \<and> c \<le> 57" using Cons.prems by auto
  have "unat (c - 48) = unat c - 48" using c(1) by (simp add: unat_sub)
  then have "(of_nat (a * 10 + (unat c - 48)) :: u64) = of_nat a * 10 + of_nat (unat (c - 48))" by simp
  also have "of_nat (unat (c - 48)) = (ucast (c - 48) :: u64)" by (rule of_nat_unat)
  finally have step: "(of_nat a * 10 + ucast (c - 48) :: u64) = of_nat (a * 10 + (unat c - 48))" by (rule sym)
  have "sizeDigits (c # s) (of_nat a) = sizeDigits s (of_nat a * 10 + ucast (c - 48))"
    using c by (simp only: sizeDigits.simps not_less [symmetric] if_False simp_thms)
  then show ?case unfolding step Cons.IH [OF s] by simp
qed simp

definition sizeSuffixes :: "(gostring \<times> nat) list" where
  "sizeSuffixes = [([], 1), (str ''k'', 2 ^ 10), (str ''K'', 2 ^ 10), (str ''m'', 2 ^ 20), (str ''M'', 2 ^ 20), (str ''g'', 2 ^ 30), (str ''G'', 2 ^ 30)]"

lemma digit_no_suffix: "48 \<le> c \<Longrightarrow> c \<le> 57 \<Longrightarrow> sizeSuffix c = None"
  by (auto simp: sizeSuffix_def)

text \<open>Digits with an optional suffix K, M or G give the number times the power of 1024, as a signed 64-bit number: exactly when it is
  below 2^63; anything larger wraps around without an error.\<close>

theorem parseSize_exact:
  assumes "ds \<noteq> []" and "\<forall>c\<in>set ds. 48 \<le> c \<and> c \<le> 57" and "(suf, fac) \<in> set sizeSuffixes"
  shows "parseSize (ds @ suf) = Inr (sint (of_nat (digits_value ds * fac) :: u64)) \<and>
    (digits_value ds * fac < 2 ^ 63 \<longrightarrow> parseSize (ds @ suf) = Inr (int (digits_value ds * fac)))"
proof -
  have digits: "sizeDigits ds 0 = Some (of_nat (digits_value ds))" using sizeDigits_value [OF assms(2), of 0] by (simp add: digits_value_def)
  have "(case sizeSuffix (List.last (ds @ suf)) of None \<Rightarrow> (1, ds @ suf) | Some f \<Rightarrow> (f, butlast (ds @ suf))) = (of_nat fac, ds)"
  proof (cases "suf = []")
    case True
    have "List.last ds \<in> set ds" using assms(1) by simp
    then have "sizeSuffix (List.last ds) = None" using assms(2) digit_no_suffix by blast
    with True assms(3) show ?thesis by (auto simp: sizeSuffixes_def str_def)
  next
    case False
    with assms(3) show ?thesis by (auto simp: sizeSuffixes_def sizeSuffix_def str_def butlast_append)
  qed
  then have val: "parseSize (ds @ suf) = Inr (sint (of_nat (digits_value ds * fac) :: u64))"
    using assms(1) digits unfolding parseSize_def Let_def by simp
  moreover have "sint (of_nat (digits_value ds * fac) :: u64) = int (digits_value ds * fac)" if "digits_value ds * fac < 2 ^ 63"
    using that by (rule sint_of_nat_u64)
  ultimately show ?thesis by simp
qed

theorem parseSize_exact_witness: "parseSize (str ''50'' @ str ''M'') = Inr 52428800"
proof -
  have "digits_value (str ''50'') = 50" "str ''50'' \<noteq> []" "\<forall>c\<in>set (str ''50''). 48 \<le> c \<and> c \<le> 57" "(str ''M'', 2 ^ 20) \<in> set sizeSuffixes"
    by (simp_all add: digits_value_def sizeSuffixes_def str_def)
  then show ?thesis using parseSize_exact [of "str ''50''" "str ''M''" "2 ^ 20"] by simp
qed

text \<open>2^34 gigabytes are zero bytes, which means no limit.\<close>

lemma parseSize_wraps: "parseSize (str ''17179869184G'') = Inr 0"
  by code_simp

end
