(* ===== verification/EndToEnd.thy ===== *)
theory EndToEnd
  imports ClientProps
begin

text \<open>
  The whole way of a counting search: request, server, walk, index, events, client, scan of the files that are not
  indexed, output and exit code.
\<close>

subsection \<open>Files that are counted\<close>

text \<open>The number of matching lines the client finds in a file, at most one when only names are wanted.\<close>

definition hitCount :: "'re client \<Rightarrow> cliOpts \<Rightarrow> 're Matcher \<Rightarrow> gostring \<Rightarrow> nat" where
  "hitCount cl opt m rel =
     (case cl_Open cl (Join (rq_Root (co_req opt)) rel) of
        None \<Rightarrow> 0
      | Some (content, bad) \<Rightarrow>
          if 0 \<in> set (take 8192 content) \<and> \<not> rq_Text (co_req opt) then 0
          else let n = length (lineHits (cl_L cl) m 0 (scanLines content)) in if rq_Files (co_req opt) then min 1 n else n)"

lemma scanFile_counting:
  assumes "filesOnly opt"
  shows "ss_out (scanFile cl opt pre cols m rel ss) =
      ss_out ss @ (if 0 < hitCount cl opt m rel then [countOutput opt pre rel (int (hitCount cl opt m rel))] else []) \<and>
    ss_matches (scanFile cl opt pre cols m rel ss) = ss_matches ss + int (hitCount cl opt m rel)"
proof (cases "cl_Open cl (Join (rq_Root (co_req opt)) rel)")
  case (Some f)
  obtain content bad where f: "f = (content, bad)" by (rule prod.exhaust)
  note Some = Some [unfolded f]
  show ?thesis
  proof (cases "0 \<notin> set (take 8192 content) \<or> rq_Text (co_req opt)")
    case True
    then have "\<not> (0 \<in> set (take 8192 content) \<and> \<not> rq_Text (co_req opt))" by blast
    then show ?thesis
      using assms
      by (auto simp: scanFile_text [OF Some True] scanList_counting [OF assms] hitCount_def Some emitFileCount_def emitOut_def Let_def min_def Suc_le_eq)
  next
    case False
    then have "IndexByte (take 8192 content) 0 \<noteq> None \<and> \<not> rq_Text (co_req opt)" by (simp add: IndexByte_None_iff)
    with False Some show ?thesis by (simp add: scanFile_def hitCount_def)
  qed
qed (simp add: scanFile_def hitCount_def)

lemma scanFiles_counting:
  assumes "filesOnly opt"
  shows "ss_out (scanFiles cl opt pre cols m rels ss) = ss_out ss @
      map (\<lambda>rel. countOutput opt pre rel (int (hitCount cl opt m rel))) (filter (\<lambda>rel. 0 < hitCount cl opt m rel) rels) \<and>
    ss_matches (scanFiles cl opt pre cols m rels ss) = ss_matches ss + int (sum_list (map (hitCount cl opt m) rels))"
proof (induction rels arbitrary: ss)
  case (Cons rel rels)
  show ?case
    using assms Cons.IH [of "scanFile cl opt pre cols m rel ss"] scanFile_counting [OF assms, of cl pre cols m rel ss] by simp
qed simp

lemma scanStreams_counting:
  assumes "filesOnly opt" and "\<not> co_jsonOut opt"
    and "MatcherFor (cl_L cl) (rq_Pattern (co_req opt)) (rq_Fixed (co_req opt)) (rq_NoCase (co_req opt)) = Inr m"
  shows "filter isLine (ss_out (scanStreams cl rels opt (pathPrefix opt) cols b)) =
      map (\<lambda>rel. countLine opt rel (int (hitCount cl opt m rel))) (filter (\<lambda>rel. 0 < hitCount cl opt m rel) rels)"
    and "ss_matches (scanStreams cl rels opt (pathPrefix opt) cols b) = int (sum_list (map (hitCount cl opt m) rels))"
proof -
  have "countOutput opt (pathPrefix opt) rel n = countLine opt rel n" for rel n
    using assms(2) by (simp add: countOutput_def countLine_def)
  note scan = scanFiles_counting [OF assms(1), of cl "pathPrefix opt" cols m rels "newScan b", unfolded this]
  have lines: "filter isLine (map (\<lambda>rel. countLine opt rel (f rel)) xs) = map (\<lambda>rel. countLine opt rel (f rel)) xs" for f xs
    by (induction xs) (simp_all add: countLine_def)
  show "filter isLine (ss_out (scanStreams cl rels opt (pathPrefix opt) cols b)) =
      map (\<lambda>rel. countLine opt rel (int (hitCount cl opt m rel))) (filter (\<lambda>rel. 0 < hitCount cl opt m rel) rels)"
    using scan lines assms(3) by (cases "rels = []") (simp_all add: scanStreams_def newScan_def emitOut_def Let_def)
  show "ss_matches (scanStreams cl rels opt (pathPrefix opt) cols b) = int (sum_list (map (hitCount cl opt m) rels))"
    using scan assms(3) by (cases "rels = []") (simp_all add: scanStreams_def newScan_def emitOut_def Let_def)
qed

subsection \<open>The answer of the daemon in the client\<close>

lemma count_session:
  assumes "filesOnly opt" and "\<not> co_jsonOut opt"
    and "MatcherFor (cl_L cl) (rq_Pattern (co_req opt)) (rq_Fixed (co_req opt)) (rq_NoCase (co_req opt)) = Inr m"
    and "\<forall>ev\<in>set body. ev_Type ev \<noteq> str ''done'' \<and> ev_Type ev \<noteq> str ''error'' \<and> \<not> isMatch ev" and "ev_Type fin = str ''done''"
    and "ev_Matches fin > 0 \<Longrightarrow> \<exists>ev\<in>set body. counted ev"
  shows "filter isLine (fst (streamSearch cl None lost opt (body @ [fin]))) = countLines opt body @
      map (\<lambda>rel. countLine opt rel (int (hitCount cl opt m rel))) (filter (\<lambda>rel. 0 < hitCount cl opt m rel) (streamed body))"
    and "snd (streamSearch cl None lost opt (body @ [fin])) =
      (if (\<exists>ev\<in>set body. counted ev) \<or> (\<exists>rel\<in>set (streamed body). 0 < hitCount cl opt m rel) then 0 else 1)"
proof -
  have plain: "\<forall>ev\<in>set body. ev_Type ev \<noteq> str ''done'' \<and> ev_Type ev \<noteq> str ''error''" "filter isMatch body = []"
    using assms(4) by (auto simp: filter_empty_conv)
  obtain st where st: "streamLoop cl opt lost newSession (body @ [fin]) = streamLoop cl opt lost st [fin]"
    "cs_streamFiles st = streamed body" "cs_matched st \<longleftrightarrow> (\<exists>ev\<in>set body. counted ev)" "filter isLine (cs_out st) = countLines opt body"
    using streamLoop_body [OF plain(1), of cl opt lost newSession "[fin]"] plain(2) assms(2) by (auto simp: newSession_def)
  let ?st = "say st (warnVersion (ev_V fin))"
  have last_step: "streamLoop cl opt lost st [fin] = (fst (step cl opt ?st fin),
      if cs_matched st \<or> ss_matches (sessionScan cl opt st) > 0 \<or> ev_Matches fin > 0 then 0 else 1)"
    using assms(2,5) type_names by (simp add: streamLoop_step step_done(2) Let_def del: str_inj)
  have "filter isLine (cs_out (fst (step cl opt ?st fin))) = filter isLine (cs_out st) @ filter isLine (ss_out (sessionScan cl opt st))"
    using assms(2,5) type_names
    by (simp add: step_def stepText_def Let_def clearProgress_def sessionScan_def del: str_inj) (simp add: say_def)
  with st scanStreams_counting(1) [OF assms(1-3)] last_step
  show "filter isLine (fst (streamSearch cl None lost opt (body @ [fin]))) = countLines opt body @
      map (\<lambda>rel. countLine opt rel (int (hitCount cl opt m rel))) (filter (\<lambda>rel. 0 < hitCount cl opt m rel) (streamed body))"
    by (simp add: streamSearch_def sessionScan_def)
  have pos: "0 < sum_list (map f xs) \<longleftrightarrow> (\<exists>x\<in>set xs. 0 < f x)" for f :: "gostring \<Rightarrow> nat" and xs
    by (induction xs) auto
  have "ss_matches (sessionScan cl opt st) > 0 \<longleftrightarrow> (\<exists>rel\<in>set (streamed body). 0 < hitCount cl opt m rel)"
    unfolding sessionScan_def scanStreams_counting(2) [OF assms(1-3)] st(2) using pos by simp
  with st last_step assms(6) show "snd (streamSearch cl None lost opt (body @ [fin])) =
      (if (\<exists>ev\<in>set body. counted ev) \<or> (\<exists>rel\<in>set (streamed body). 0 < hitCount cl opt m rel) then 0 else 1)"
    by (auto simp: streamSearch_def)
qed

text \<open>C1. From the command line to the disk. The first counting search for a fixed ASCII pattern under a root that is not indexed prints, after
  any progress messages, one line for each file below the root that the request admits and that contains the pattern, sorted by
  path and with the number of occurrences the daemon found; then one line for each admitted file that is too large or binary for the index and
  in which the client, reading it from the disk, finds a matching line. Nothing else reaches standard output, and the exit code is 0 when there is
  such a file and 1 when there is none.\<close>

theorem count_search_end_to_end:
  assumes "fresh_count_search w sv (co_req opt) h s files ts"
    and "MatcherFor (w_L w) (rq_Pattern (co_req opt)) True (rq_NoCase (co_req opt)) = Inr m"
    and "cl_L cl = w_L w" and "\<not> co_jsonOut opt"
  shows "\<exists>sv' c. let found = diskCount h (sv_cfg sv) (co_req opt) (fs_rel ` set files);
      rest = diskAnnounced h (sv_cfg sv) (co_req opt) (fs_rel ` set files);
      scanned = filter (\<lambda>p. 0 < hitCount cl opt m p) (sorted_list_of_set (dom rest));
      answer = streamSearch cl None lost opt (cn_sent c)
    in handleSearch w sv (co_req opt) \<lparr>cn_sent = [], cn_room = None\<rparr> = Some (sv', c) \<and>
      filter isLine (fst answer) = map (\<lambda>p. countLine opt p (int (the (found p)))) (sorted_list_of_set (dom found)) @
        map (\<lambda>p. countLine opt p (int (hitCount cl opt m p))) scanned \<and>
      snd answer = (if dom found = {} \<and> scanned = [] then 1 else 0)"
proof -
  let ?found = "diskCount h (sv_cfg sv) (co_req opt) (fs_rel ` set files)"
  let ?rest = "diskAnnounced h (sv_cfg sv) (co_req opt) (fs_rel ` set files)"
  let ?counts = "map (\<lambda>p. countEvent [] p (the (?found p))) (sorted_list_of_set (dom ?found))"
  let ?streams = "map (\<lambda>p. streamEvent [] p (the (?rest p))) (sorted_list_of_set (dom ?rest))"
  let ?body = "map stamp (map progressEvent ts @ ?counts @ ?streams)"
  have req: "filesOnly opt" "rq_Fixed (co_req opt)" "rq_Count (co_req opt)" using assms(1) by (simp_all add: fresh_count_search_def filesOnly_def)
  have mat: "MatcherFor (cl_L cl) (rq_Pattern (co_req opt)) (rq_Fixed (co_req opt)) (rq_NoCase (co_req opt)) = Inr m"
    using assms(2,3) req(2) by simp
  obtain sv' pr where run: "handleSearch w sv (co_req opt) \<lparr>cn_sent = [], cn_room = None\<rparr> =
      Some (sv', \<lparr>cn_sent = ?body @ [stamp (countDone w pr ?found)], cn_room = None\<rparr>)"
    using fresh_count_events [OF assms(1,2), of "\<lparr>cn_sent = [], cn_room = None\<rparr>"] by (auto simp: stays_def sent_def Let_def)
  let ?fin = "stamp (countDone w pr ?found)"
  have ty: "ev_Type (stamp e) = ev_Type e" "ev_File (stamp e) = ev_File e" "ev_Count (stamp e) = ev_Count e" "ev_Matches (stamp e) = ev_Matches e" for e
    by (simp_all add: stamp_def)
  have evs: "ev_Type (progressEvent t) = str ''progress''" "ev_Type (countEvent [] p n) = str ''filecount''" "ev_File (countEvent [] p n) = p"
    "ev_Count (countEvent [] p n) = int n" "ev_Type (streamEvent [] p sz) = str ''streamfile''" "ev_File (streamEvent [] p sz) = p" for t p n sz
    using TrimPrefix_append [of "[]" p] by (simp_all add: progressEvent_def countEvent_def streamEvent_def event_def split: prod.split)
  have names: "str ''progress'' \<noteq> str ''streamfile''" "str ''progress'' \<noteq> str ''filecount''" by code_simp+
  have fin: "finite (dom ?found)" "finite (dom ?rest)"
    by (rule finite_subset [of _ "fs_rel ` set files"]; auto simp: diskCount_def diskAnnounced_def split: if_splits)+
  have body: "\<forall>ev\<in>set ?body. ev_Type ev \<noteq> str ''done'' \<and> ev_Type ev \<noteq> str ''error'' \<and> \<not> isMatch ev"
    using type_names by (auto simp: ty evs isMatch_def simp del: str_inj)
  have counted: "(\<exists>ev\<in>set ?body. counted ev) \<longleftrightarrow> dom ?found \<noteq> {}"
    using type_names names fin(1) by (auto simp: ty evs counted_def bex_Un simp del: str_inj)
  have matches: "ev_Matches ?fin = int (\<Sum>p\<in>dom ?found. the (?found p))" by (simp add: ty countDone_def)
  have streamed: "streamed ?body = sorted_list_of_set (dom ?rest)"
    using type_names names by (simp add: streamed_def ty evs comp_def filter_map del: str_inj)
  have lines: "countLines opt ?body = map (\<lambda>p. countLine opt p (int (the (?found p)))) (sorted_list_of_set (dom ?found))"
    using type_names names by (simp add: countLines_def ty evs comp_def filter_map del: str_inj)
  have "ev_Type ?fin = str ''done''" by (simp add: ty countDone_def event_def)
  moreover have "\<exists>ev\<in>set ?body. counted ev" if "ev_Matches ?fin > 0" using that counted matches by auto
  ultimately have session: "filter isLine (fst (streamSearch cl None lost opt (?body @ [?fin]))) = countLines opt ?body @
      map (\<lambda>rel. countLine opt rel (int (hitCount cl opt m rel))) (filter (\<lambda>rel. 0 < hitCount cl opt m rel) (streamed ?body))"
    "snd (streamSearch cl None lost opt (?body @ [?fin])) =
      (if (\<exists>ev\<in>set ?body. counted ev) \<or> (\<exists>rel\<in>set (streamed ?body). 0 < hitCount cl opt m rel) then 0 else 1)"
    by (rule count_session [OF req(1) assms(4) mat body]; blast)+
  show ?thesis
    unfolding Let_def
  proof (intro exI conjI)
    show "handleSearch w sv (co_req opt) \<lparr>cn_sent = [], cn_room = None\<rparr> = Some (sv', \<lparr>cn_sent = ?body @ [?fin], cn_room = None\<rparr>)" by (rule run)
  qed (simp_all only: session counted streamed lines conn.simps, auto simp: filter_empty_conv)
qed

definition exEndClient :: "gostring client" where
  "exEndClient = \<lparr>cl_L = w_L exWorld, cl_cfg = exCfg0, cl_ReadFile = (\<lambda>_. Inl []), cl_Open = (\<lambda>_. None)\<rparr>"

definition exEndOpt :: cliOpts where
  "exEndOpt = \<lparr>co_req = exReq ''search'' ''r'' ''b'', co_jsonOut = False, co_pathArg = str ''.''\<rparr>"

theorem count_search_end_to_end_witness:
  "\<exists>sv' c. handleSearch exWorld exServer (exReq ''search'' ''r'' ''b'') \<lparr>cn_sent = [], cn_room = None\<rparr> = Some (sv', c) \<and>
    filter isLine (fst (streamSearch exEndClient None [] exEndOpt (cn_sent c))) = [Stdout (str ''f:1'')] \<and>
    snd (streamSearch exEndClient None [] exEndOpt (cn_sent c)) = 0"
proof -
  have opt: "co_req exEndOpt = exReq ''search'' ''r'' ''b''" "\<not> co_jsonOut exEndOpt" "cl_L exEndClient = w_L exWorld"
    by (simp_all add: exEndOpt_def exEndClient_def)
  obtain m where m: "MatcherFor (w_L exWorld) (rq_Pattern (co_req exEndOpt)) True (rq_NoCase (co_req exEndOpt)) = Inr m"
    unfolding opt(1) by (rule ex_matcher)
  have "countLine exEndOpt (str ''f'') 1 = Stdout (str ''f:1'')" by code_simp
  with count_search_end_to_end [OF ex_fresh [folded opt(1)] m opt(3,2), of "[]"] show ?thesis
    by (simp add: opt(1) ex_server ex_found Let_def)
qed

end
