(* ===== verification/Spec2Isabelle.thy ===== *)
theory Spec2Isabelle
  imports ShardProps EngineCycle Barrier EndToEnd
begin

text \<open>
  gcgrep is a grep with a background daemon that keeps trigram indexes of source trees. The development models the Go code
  below \<open>src/internal\<close> and \<open>src/cmd/gcgrep\<close>; this header says which theory models which file, what is proved, and what is left out.

  \<^bold>\<open>The program.\<close> The client (\<open>cmd/gcgrep\<close>) turns its arguments into one request, connects to the daemon or starts it, prints the events
  that come back and scans the files of the stream set itself. The daemon's server (\<open>daemon/server.go\<close>) keeps one store per indexed root and
  link mode. A store (\<open>daemon/store.go\<close>, \<open>stream.go\<close>) walks its tree (\<open>walkdir\<close>) under the exclusion rules (\<open>ignore\<close>), puts text files into
  the in-memory index (\<open>index\<close>) or the disk engine (\<open>shard\<close>) and every other file into the stream set. It is kept up to date by the watcher
  (\<open>watch\<close>), waits in a barrier before a query, and saves itself. Definitions and references come from \<open>symbol\<close>, tunables from \<open>conf\<close>.

  \<^bold>\<open>Theories and sources.\<close>
  \<^item> \<open>Prelude\<close>: Go's integers, strings and byte slices and the functions of \<open>bytes\<close>, \<open>strings\<close>, \<open>path/filepath\<close> and \<open>sort\<close> the sources
    use; the collections \<open>index_simps\<close>, \<open>trigram_simps\<close>, \<open>codec_simps\<close>.
  \<^item> \<open>Codec\<close>: \<open>shard/varint.go\<close> and \<open>encoding/binary\<close>; interface \<open>byte_codec\<close> (reading what was written, at any offset), interpreted on both
    integer codings here and on strings and definitions of the shard format in \<open>ShardProps\<close>.
  \<^item> \<open>Literal\<close>: \<open>index/literal.go\<close>. \<open>Trigram\<close>: trigram keys and posting-list intersection of \<open>index.go\<close> and \<open>shard.go\<close>; interface
    \<open>trigram_index\<close> (candidates are complete and sound for the keys), interpreted on the in-memory index in \<open>MemSearch\<close> and on shards in
    \<open>ShardProps\<close>. \<open>Query\<close>: \<open>index/query.go\<close>. \<open>Matcher\<close>: \<open>index/matcher.go\<close>. \<open>Utf\<close>: \<open>daemon/utf16.go\<close> and the decoder of \<open>shard/engine.go\<close>.
  \<^item> \<open>FileStore\<close>: interface \<open>file_store\<close>, the contract of an index that holds files by path. \<open>MemIndex\<close>: \<open>index/index.go\<close>, the record
    \<open>Index\<close> with its operations and its invariant, interpreted as \<open>file_store\<close>. \<open>MemSearch\<close>: what its queries return.
  \<^item> \<open>Strip\<close>, \<open>Symbol\<close>: \<open>symbol/*.go\<close>.
  \<^item> \<open>ShardFile\<close>: \<open>shard/build.go\<close> and \<open>shard.go\<close>; \<open>ShardProps\<close>: reading back what was written. \<open>Manifest\<close>: \<open>shard/manifest.go\<close>.
  \<^item> \<open>Engine\<close>, \<open>EngineQuery\<close>, \<open>EngineRebuild\<close>: \<open>shard/engine.go\<close> (state, building, marking, reconciling; queries; background rebuild).
    \<open>EngineProps\<close>, \<open>EngineSearch\<close>: queries against the tree. \<open>LineAgree\<close>: the lines the two engines report for the same content. \<open>EngineState\<close>, \<open>EngineLife\<close>, \<open>EngineRefresh\<close>, \<open>EngineCycle\<close>: the engine over
    its life.
  \<^item> \<open>Ignore\<close>: \<open>ignore/ignore.go\<close> and \<open>gitignore.go\<close>. \<open>Walk\<close>: \<open>walkdir/walkdir.go\<close> and its users; interface \<open>pruning\<close> (what lies below an
    excluded directory is excluded), interpreted on both kinds of rules and on their combination in a store.
  \<^item> \<open>Conf\<close>: \<open>conf/conf.go\<close>. \<open>Watch\<close>: \<open>watch/watch.go\<close>. \<open>Store\<close>: \<open>daemon/store.go\<close> and \<open>daemon/stream.go\<close>; \<open>StoreProps\<close>: its properties.
    \<open>Barrier\<close>: \<open>Barrier\<close> and \<open>watchLoop\<close> of \<open>store.go\<close> with the watcher, as a step relation.
  \<^item> \<open>Proto\<close>: \<open>proto/proto.go\<close>. \<open>Glob\<close>: the globs of a query. \<open>Server\<close>: \<open>daemon/server.go\<close>; \<open>ServerProps\<close> and \<open>ServerRoots\<close>: its properties.
  \<^item> \<open>Client\<close>: \<open>cmd/gcgrep/main.go\<close> and \<open>stream.go\<close>; \<open>ClientProps\<close>: its properties.
    \<open>EndToEnd\<close>: a search from the request to the exit code.

  \<^bold>\<open>How code is modelled.\<close> A struct is a record with the fields of the source, a method a function from the state to the new state; where a
  panic is possible (a nil index, an index out of range) the result is an option and \<open>None\<close> is the panic. Strings and files are lists of
  bytes. Offsets, counts and hashes of the file formats are words of their width, \<open>int\<close> is unbounded except where the code can
  overflow (\<open>Conf\<close>, \<open>parseSize\<close>). A Go map is an association list or a HOL map, and ranging over one applies an arbitrary permutation that is
  an argument (\<open>rng\<close>, \<open>w_rng\<close>, \<open>ho_rng\<close>); a pool of workers takes the jobs in an arbitrary order (\<open>ho_sched\<close>, \<open>w_sched\<close>). Operating system
  answers are fields of \<open>osview\<close>, \<open>host\<close> and \<open>world\<close>. Code that is not in the repository is an argument: \<open>regexlib\<close> (package \<open>regexp\<close>),
  \<open>symlib\<close> (\<open>go/parser\<close>, the compiled expressions, Unicode case), the hash function, the flag parser.

  \<^bold>\<open>What is shown.\<close>
  \<^item> Matching and pruning: the literal search finds exactly the occurrences, the byte pre-filter changes nothing, a trigram or a key table
    never prunes a file that has the literal, and an extracted literal never prunes a file that matches, as long as it is ASCII and
    the pattern's case folding stays within ASCII (\<open>ExtractLiteral_prunes_soundly\<close>; \<open>Query\<close> has the counterexample outside).
  \<^item> Indexes: the in-memory index refines the map of files under any history of operations; a shard file reads back as it was built; what
    the disk engine's search reports is characterised for any pattern, after any sequence of marked changes, and equals a scan of the tree
    for fixed ASCII patterns and files without a UTF-16 byte order mark; a rebuild keeps the engine in step under the conditions stated. The
    theorems named after an error show where the code does not do what it should: UTF-16 files that are searched undecoded, strays that
    a rebuild drops, saving with the disk engine.
  \<^item> Keeping up: the walk ends, also through cyclic links, and lists what the rules admit; a start mirrors the disk, a change event brings
    its paths up to date, the saved index loads as it was; the barrier gives read-after-write in every interleaving, and the index catches
    up with the disk.
  \<^item> Server: a first search under a new root answers for the files on disk; a listing reports, in order, exactly the matching lines of the
    files its literal does not prune; there is one store for a root and link mode, and roots of one mode do not nest unless a request allows it
    (the root directory itself apart); a stop and a restart lose nothing.
  \<^item> Client: exit codes are grep's; in text output lines of scanned files look like those the disk engine reports, and for plain
    literals like those of the in-memory engine; the limit bounds the lines written.
  \<^item> End to end: the first counting search under a new root writes exactly one line for each admitted file on the disk that contains the
    pattern, whether the daemon indexed it or the client scanned it, and the exit code says whether there is one.

  \<^bold>\<open>Hypotheses that recur.\<close> No property about a search assumes that the handler's own literal extraction is sound: where a theorem is about any
  pattern, the condition that a file has every trigram of the literal (\<open>keys_of lit \<subseteq> keys_of content\<close>, \<open>searchedText\<close>) is part of what it
  states, and a corollary without it is for fixed ASCII patterns (\<open>fixed_ascii\<close>, or \<open>rq_Fixed\<close> with \<open>\<not> HasNonASCII\<close>). \<open>searchedText\<close> also says
  which bytes the disk engine takes for a file, decoded or not. File identifiers fit 32 bits (\<open>ix_inv\<close> and the bounds on \<open>used\<close>) and a shard fits its offsets (\<open>fits\<close>). \<open>perm_order\<close>,
  \<open>sched_ok\<close>, \<open>any_order\<close>: iteration and scheduling are permutations. \<open>sizes_ok\<close>: file sizes are not negative. \<open>honest\<close>: a file whose
  size and time are those recorded has the content that was indexed, the assumption the code itself makes. \<open>stays_mem\<close>: the tree is below the
  threshold at which the store changes to the disk engine. The first search assumes no index budget (\<open>MaxIndexMB \<le> 0\<close>), since with one the order of
  the workers decides which files are streamed. \<open>world_ok\<close>: what happens to a store while a request waits leaves its root and mode alone.
  \<open>stop_then_restart\<close> assumes that the index file names of the roots differ (they are prefixes of a hash). The exit code relies on the
  daemon counting the matches it sends.

  \<^bold>\<open>Fuel and termination.\<close> The walk runs on fuel, because the answers of an operating system may describe an endless tree;
  \<open>Walk_terminates\<close> gives an amount that suffices for any view with finitely many link targets and bounded depth between links, and
  more changes nothing. \<open>refs_loop\<close> is a partial function, since it does not end for an empty name. Every other loop is structural or
  has a measure.

  \<^bold>\<open>Not modelled.\<close>
  \<^item> \<open>ipc\<close>, \<open>mmap_*.go\<close>, \<open>priority_*.go\<close>, \<open>spawn_*.go\<close>: operating system calls with no computation of their own; their results are
    arguments of \<open>Mmap\<close>, \<open>connectOrSpawn\<close> and \<open>cmdDaemon\<close>.
  \<^item> \<open>Serve\<close> and \<open>Run\<close> of \<open>server.go\<close>: accepting connections, the log file, the signal handler. Requests are handled one after the other:
    handlers hold the server's lock only around the map of stores, and interleavings inside a store are treated in \<open>Barrier\<close>
    and by the arguments \<open>w_wakes\<close>, \<open>w_barrier\<close> and the marks of \<open>rebuild\<close>. Two goroutines that index the same file at once are not
    represented.
  \<^item> The text of the usage message, the JSON coding of requests, events and manifests (a value stands for its text), buffering of output.
  \<^item> A change of the exclusion rules while a store runs is modelled in \<open>Store\<close> (\<open>reloadRules\<close>), not in \<open>Barrier\<close>: there the control file is no
    tracked path and the rules are fixed. \<open>Barrier\<close> applies a path with everything below it in one step for each file, at the version of that moment;
    events for paths that did not change are left out.
  \<^item> \<open>Write\<close> of a shard consists of three calls, of which one may fail; a failed write leaves any bytes in the temporary file. A crash in
    between is not represented.
  \<^item> Regular expression matching itself, Go's parser and Unicode tables.
  \<^item> Windows variants of paths.
\<close>

end
